(* ===== verification/Prelude.thy ===== *)
theory Prelude
  imports Main "HOL-Library.Word" "HOL-Library.Monad_Syntax"
begin

unbundle bit_operations_syntax

text \<open>
  Shared vocabulary of the development: the C integer types of the sources as words, the
  named collections the component theories fill, and small facts on lists, words and options
  that several components use.
\<close>

section \<open>C types\<close>

type_synonym u8 = "8 word"
type_synonym u16 = "16 word"
type_synonym u32 = "32 word"
type_synonym u64 = "64 word"

text \<open>A \<open>void *\<close> of the 64-bit host.\<close>

type_synonym ptr = "64 word"

section \<open>Collections\<close>

named_theorems bitmap_simps "reading a bitmap after an update"
named_theorems mem_simps "reading byte memory after an update"

section \<open>Options\<close>

lemma bind_eq_SomeE:
  assumes "Option.bind m f = Some y"
  obtains x where "m = Some x" and "f x = Some y"
  using assms by (cases m) auto

lemma option_eqI: "(\<And>v. x = Some v \<longleftrightarrow> y = Some v) \<Longrightarrow> x = y"
  by (cases x; cases y) auto

lemma map_eqI: "(\<And>k v. f k = Some v \<longleftrightarrow> g k = Some v) \<Longrightarrow> f = g"
  by (rule ext, rule option_eqI) simp

lemma map_leI: "(\<And>k v. f k = Some v \<Longrightarrow> g k = Some v) \<Longrightarrow> f \<subseteq>\<^sub>m g"
  by (force simp: map_le_def)

lemma map_leD: "f k = Some v \<Longrightarrow> f \<subseteq>\<^sub>m g \<Longrightarrow> g k = Some v"
  by (force simp: map_le_def)

lemma map_le_extend: "f \<subseteq>\<^sub>m g \<Longrightarrow> g k = None \<Longrightarrow> f \<subseteq>\<^sub>m g(k := w)"
  by (rule map_leI) (auto dest: map_leD)

section \<open>Scanning loops\<close>

text \<open>
  The loop \<open>for (i = lo; i < n; i++) if (p(i)) return i;\<close> that the allocators, the TLB and
  the thread table share: the least index from \<open>lo\<close> on, below \<open>n\<close>, that satisfies \<open>p\<close>.
\<close>

function scan :: "(nat \<Rightarrow> bool) \<Rightarrow> nat \<Rightarrow> nat \<Rightarrow> nat option" where
  "scan p i n = (if i < n then (if p i then Some i else scan p (Suc i) n) else None)"
  by pat_completeness auto
termination
  by (relation "measure (\<lambda>(p, i, n). n - i)") auto

declare scan.simps [simp del]

lemma scan_Some_iff:
  "scan p lo n = Some i \<longleftrightarrow> lo \<le> i \<and> i < n \<and> p i \<and> (\<forall>j. lo \<le> j \<and> j < i \<longrightarrow> \<not> p j)"
proof (induction p lo n rule: scan.induct)
  case (1 p lo n)
  show ?case
  proof (cases "lo < n \<and> \<not> p lo")
    case True
    have "(\<forall>j. lo \<le> j \<and> j < i \<longrightarrow> \<not> p j) \<longleftrightarrow> (\<forall>j. Suc lo \<le> j \<and> j < i \<longrightarrow> \<not> p j)"
      using True by (metis Suc_leD Suc_leI le_neq_implies_less)
    moreover have "p i \<Longrightarrow> lo \<le> i \<longleftrightarrow> Suc lo \<le> i"
      using True by (metis Suc_leD Suc_leI le_neq_implies_less)
    ultimately show ?thesis
      using True 1 by (subst scan.simps) auto
  next
    case False
    then show ?thesis
      by (subst scan.simps) (auto intro: Nat.le_antisym simp: not_less)
  qed
qed

lemma scan_None_iff: "scan p lo n = None \<longleftrightarrow> (\<forall>j. lo \<le> j \<and> j < n \<longrightarrow> \<not> p j)"
proof (induction p lo n rule: scan.induct)
  case (1 p lo n)
  show ?case
  proof (cases "lo < n \<and> \<not> p lo")
    case True
    have "(\<forall>j. lo \<le> j \<and> j < n \<longrightarrow> \<not> p j) \<longleftrightarrow> (\<forall>j. Suc lo \<le> j \<and> j < n \<longrightarrow> \<not> p j)"
      using True by (metis Suc_leD Suc_leI le_neq_implies_less)
    then show ?thesis
      using True 1 by (subst scan.simps) auto
  next
    case False
    then show ?thesis
      by (subst scan.simps) auto
  qed
qed

lemma scan_SomeD:
  assumes "scan p lo n = Some i"
  shows "lo \<le> i" "i < n" "p i" "lo \<le> j \<Longrightarrow> j < i \<Longrightarrow> \<not> p j"
  using assms by (auto simp: scan_Some_iff)

lemma scan_first: "lo < n \<Longrightarrow> p lo \<Longrightarrow> scan p lo n = Some lo"
  by (subst scan.simps) simp

lemma scan_cong:
  assumes "\<And>i. lo \<le> i \<Longrightarrow> i < n \<Longrightarrow> p i = q i"
  shows "scan p lo n = scan q lo n"
  using assms
proof (induction p lo n rule: scan.induct)
  case (1 p lo n)
  then show ?case
    by (subst (1 2) scan.simps) auto
qed

lemma scan_split:
  assumes "lo \<le> m" "m \<le> n"
  shows "scan p lo n = (case scan p lo m of Some i \<Rightarrow> Some i | None \<Rightarrow> scan p m n)"
proof (rule option_eqI)
  fix v
  show "scan p lo n = Some v \<longleftrightarrow> (case scan p lo m of Some i \<Rightarrow> Some i | None \<Rightarrow> scan p m n) = Some v"
  proof (cases "scan p lo m")
    case None
    then have no: "\<And>j. lo \<le> j \<Longrightarrow> j < m \<Longrightarrow> \<not> p j" by (simp add: scan_None_iff)
    then have "lo \<le> v \<and> p v \<longleftrightarrow> m \<le> v \<and> p v" using assms by (meson le_trans not_less)
    moreover have "(\<forall>j. lo \<le> j \<and> j < v \<longrightarrow> \<not> p j) \<longleftrightarrow> (\<forall>j. m \<le> j \<and> j < v \<longrightarrow> \<not> p j)"
      using no assms(1) by (meson le_trans not_less)
    ultimately show ?thesis unfolding None option.case scan_Some_iff by blast
  next
    case (Some i)
    note D = scan_SomeD [OF Some]
    have "scan p lo n = Some i" using D assms by (simp add: scan_Some_iff)
    then show ?thesis using Some by simp
  qed
qed

lemma scan_shift: "scan p (a + lo) (a + n) = map_option ((+) a) (scan (\<lambda>j. p (a + j)) lo n)"
proof (induction "\<lambda>j. p (a + j)" lo n rule: scan.induct)
  case (1 lo n)
  then show ?case by (subst (1 2) scan.simps) auto
qed

section \<open>Words\<close>

lemma unat_ucast_u32_u64 [simp]: "unat (ucast (x :: u32) :: u64) = unat x"
proof -
  have "unat x < 2 ^ 64"
    using unsigned_less [of x] by (rule order_less_trans) simp
  then show ?thesis
    by (simp add: unsigned_ucast_eq take_bit_nat_eq_self)
qed

lemma ucast_u32_u64_u32 [simp]: "ucast (ucast (x :: u32) :: u64) = x"
  by (rule bit_word_eqI) (simp add: bit_simps)

lemma ucast_u32_u64_eq_0_iff [simp]: "(ucast (x :: u32) :: u64) = 0 \<longleftrightarrow> x = 0"
  by (metis ucast_u32_u64_u32 unsigned_0)

lemma unat_drop_bit: "unat (drop_bit n (w :: 'a::len word)) = unat w div 2 ^ n"
  by (metis drop_bit_eq_div unat_drop_bit_eq)

lemma unat_and_mask: "unat ((w :: 'a::len word) AND mask n) = unat w mod 2 ^ n"
  by (metis take_bit_eq_mask take_bit_eq_mod unsigned_take_bit_eq)

end
