(* ===== verification/CMem.thy ===== *)
theory CMem
  imports Prelude
begin

text \<open>
  The byte-addressed memory behind the C pointers: a function from addresses to bytes, with
  \<open>memcpy\<close>, \<open>memset\<close> and the little-endian loads and stores of the host's integer types. The
  simulated physical memory of \<open>my_vm.c\<close>, the user buffers and the disk blocks of \<open>rufs.c\<close>
  are all memories of this kind. Bounds are checked where a component knows the size of the
  object it accesses.
\<close>

type_synonym mem = "nat \<Rightarrow> u8"

section \<open>memcpy and memset\<close>

definition load_bytes :: "mem \<Rightarrow> nat \<Rightarrow> nat \<Rightarrow> u8 list" where
  "load_bytes m a n = map (\<lambda>i. m (a + i)) [0..<n]"

definition store_bytes :: "mem \<Rightarrow> nat \<Rightarrow> u8 list \<Rightarrow> mem" where
  "store_bytes m a bs = (\<lambda>x. if a \<le> x \<and> x < a + length bs then bs ! (x - a) else m x)"

definition fill_bytes :: "mem \<Rightarrow> nat \<Rightarrow> u8 \<Rightarrow> nat \<Rightarrow> mem" where
  "fill_bytes m a b n = (\<lambda>x. if a \<le> x \<and> x < a + n then b else m x)"

lemma length_load_bytes [simp]: "length (load_bytes m a n) = n"
  by (simp add: load_bytes_def)

lemma nth_load_bytes [simp]: "i < n \<Longrightarrow> load_bytes m a n ! i = m (a + i)"
  by (simp add: load_bytes_def)

lemma load_bytes_0 [simp]: "load_bytes m a 0 = []"
  by (simp add: load_bytes_def)

lemma load_bytes_cong:
  "(\<And>i. i < n \<Longrightarrow> m (a + i) = m' (b + i)) \<Longrightarrow> load_bytes m a n = load_bytes m' b n"
  by (simp add: load_bytes_def)

lemma load_bytes_add: "load_bytes m a (n + k) = load_bytes m a n @ load_bytes m (a + n) k"
  by (rule nth_equalityI) (auto simp: nth_append)

lemma store_bytes_Nil [simp]: "store_bytes m a [] = m"
  by (auto simp: store_bytes_def fun_eq_iff)

lemma store_bytes_inside [mem_simps]:
  "a \<le> x \<Longrightarrow> x < a + length bs \<Longrightarrow> store_bytes m a bs x = bs ! (x - a)"
  by (simp add: store_bytes_def)

lemma store_bytes_outside [mem_simps]:
  "x < a \<or> a + length bs \<le> x \<Longrightarrow> store_bytes m a bs x = m x"
  by (auto simp: store_bytes_def)

lemma load_store_bytes_same: "load_bytes (store_bytes m a bs) a (length bs) = bs"
  by (rule nth_equalityI) (auto simp: store_bytes_def)

lemma load_store_bytes_part:
  assumes "k + n \<le> length bs"
  shows "load_bytes (store_bytes m a bs) (a + k) n = take n (drop k bs)"
  using assms by (intro nth_equalityI) (auto simp: store_bytes_def)

lemma load_store_bytes_disjoint:
  "b + n \<le> a \<or> a + length bs \<le> b \<Longrightarrow> load_bytes (store_bytes m a bs) b n = load_bytes m b n"
  by (rule load_bytes_cong) (auto simp: store_bytes_def)

lemma store_bytes_append:
  "store_bytes m a (xs @ ys) = store_bytes (store_bytes m a xs) (a + length xs) ys"
  by (auto simp: store_bytes_def fun_eq_iff nth_append)

lemma fill_bytes_eq_store: "fill_bytes m a b n = store_bytes m a (replicate n b)"
  by (auto simp: fill_bytes_def store_bytes_def fun_eq_iff)

section \<open>Little-endian integers\<close>

primrec le_bytes :: "nat \<Rightarrow> 'a::len word \<Rightarrow> u8 list" where
  "le_bytes 0 w = []"
| "le_bytes (Suc n) w = ucast w # le_bytes n (drop_bit 8 w)"

fun le_word :: "u8 list \<Rightarrow> 'a::len word" where
  "le_word [] = 0"
| "le_word (b # bs) = ucast b OR push_bit 8 (le_word bs)"

lemma length_le_bytes [simp]: "length (le_bytes n w) = n"
  by (induction n arbitrary: w) auto

lemma bit_push_ucast_split:
  fixes w :: "'a::len word"
  shows "ucast (ucast w :: u8) OR push_bit 8 (take_bit k (drop_bit 8 w)) = take_bit (8 + k) w"
  by (rule bit_word_eqI) (auto simp: bit_simps)

lemma le_word_le_bytes: "le_word (le_bytes n (w :: 'a::len word)) = take_bit (8 * n) w"
proof (induction n arbitrary: w)
  case 0
  then show ?case by simp
next
  case (Suc n)
  then show ?case
    using bit_push_ucast_split [of w "8 * n"] by (simp add: add.commute)
qed

lemma le_word_le_bytes_full:
  "LENGTH('a) \<le> 8 * n \<Longrightarrow> le_word (le_bytes n (w :: 'a::len word)) = w"
  by (simp add: le_word_le_bytes take_bit_word_eq_self)

definition load16 :: "mem \<Rightarrow> nat \<Rightarrow> u16" where
  "load16 m a = le_word (load_bytes m a 2)"

definition load32 :: "mem \<Rightarrow> nat \<Rightarrow> u32" where
  "load32 m a = le_word (load_bytes m a 4)"

definition load64 :: "mem \<Rightarrow> nat \<Rightarrow> u64" where
  "load64 m a = le_word (load_bytes m a 8)"

definition store16 :: "mem \<Rightarrow> nat \<Rightarrow> u16 \<Rightarrow> mem" where
  "store16 m a w = store_bytes m a (le_bytes 2 w)"

definition store32 :: "mem \<Rightarrow> nat \<Rightarrow> u32 \<Rightarrow> mem" where
  "store32 m a w = store_bytes m a (le_bytes 4 w)"

lemma load16_store16 [simp]: "load16 (store16 m a w) a = w"
  using load_store_bytes_same [of m a "le_bytes 2 w"]
  by (simp add: load16_def store16_def le_word_le_bytes_full)

lemma load32_store32 [simp]: "load32 (store32 m a w) a = w"
  using load_store_bytes_same [of m a "le_bytes 4 w"]
  by (simp add: load32_def store32_def le_word_le_bytes_full)

lemma load32_store32_other:
  "b + 4 \<le> a \<or> a + 4 \<le> b \<Longrightarrow> load32 (store32 m a w) b = load32 m b"
  by (simp add: load32_def store32_def load_store_bytes_disjoint)

lemma load32_cong:
  "(\<And>i. i < 4 \<Longrightarrow> m (a + i) = m' (a + i)) \<Longrightarrow> load32 m a = load32 m' a"
  unfolding load32_def by (subst load_bytes_cong) auto

lemma load32_fill_zero: "a \<le> b \<Longrightarrow> b + 4 \<le> a + n \<Longrightarrow> load32 (fill_bytes m a 0 n) b = 0"
  by (simp add: load32_def load_bytes_def fill_bytes_def upt_rec numeral_eq_Suc)

lemma store32_outside [mem_simps]: "x < a \<or> a + 4 \<le> x \<Longrightarrow> store32 m a w x = m x"
  by (auto simp: store32_def store_bytes_def)

lemma fill_bytes_outside [mem_simps]: "x < a \<or> a + n \<le> x \<Longrightarrow> fill_bytes m a b n x = m x"
  by (auto simp: fill_bytes_def)

end
