(* ===== verification/VM_Address.thy ===== *)
theory VM_Address
  imports CMem
begin

text \<open>
  The constants and address macros of \<open>proj3-code/code/my_vm.h\<close>. \<open>PGSIZE\<close> is a preprocessor
  constant with five legal values; \<open>geometry\<close> is the \<open>#if\<close> chain that derives the shifts and
  masks from it, and the macros take the geometry as an argument. The rest of the model is the
  configuration of the repository, \<open>PGSIZE == 4096u\<close>.
\<close>

section \<open>Page-size configurations\<close>

record geom =
  PDXSHIFT :: nat
  PTXSHIFT :: nat
  PXMASK :: u32
  OFFMASK :: u32

definition geometry :: "nat \<Rightarrow> geom option" where
  "geometry pgsize =
     (if pgsize = 4096 then
        Some \<lparr>PDXSHIFT = 22, PTXSHIFT = 12, PXMASK = 0x3FF, OFFMASK = 0xFFF\<rparr>
      else if pgsize = 8192 then
        Some \<lparr>PDXSHIFT = 23, PTXSHIFT = 13, PXMASK = 0x3FF, OFFMASK = 0x1FFF\<rparr>
      else if pgsize = 16384 then
        Some \<lparr>PDXSHIFT = 25, PTXSHIFT = 14, PXMASK = 0x7FF, OFFMASK = 0x3FFF\<rparr>
      else if pgsize = 32768 then
        Some \<lparr>PDXSHIFT = 27, PTXSHIFT = 15, PXMASK = 0xFFF, OFFMASK = 0x7FFF\<rparr>
      else if pgsize = 65536 then
        Some \<lparr>PDXSHIFT = 29, PTXSHIFT = 16, PXMASK = 0x1FFF, OFFMASK = 0xFFFF\<rparr>
      else None)"

definition PDX_at :: "geom \<Rightarrow> u32 \<Rightarrow> u32" where
  "PDX_at g va = drop_bit (PDXSHIFT g) va AND PXMASK g"

definition PTX_at :: "geom \<Rightarrow> u32 \<Rightarrow> u32" where
  "PTX_at g va = drop_bit (PTXSHIFT g) va AND PXMASK g"

definition OFF_at :: "geom \<Rightarrow> u32 \<Rightarrow> u32" where
  "OFF_at g va = va AND OFFMASK g"

text \<open>In every legal configuration the three fields are the whole address.\<close>

lemma masks_eq_mask:
  "(0x3FF :: u32) = mask 10" "(0x7FF :: u32) = mask 11" "(0xFFF :: u32) = mask 12"
  "(0x1FFF :: u32) = mask 13" "(0x3FFF :: u32) = mask 14" "(0x7FFF :: u32) = mask 15"
  "(0xFFFF :: u32) = mask 16"
  by (simp_all add: mask_eq_exp_minus_1)

lemma split_recombine:
  fixes va :: u32
  assumes "32 \<le> t + k + k"
  shows "push_bit (t + k) (drop_bit (t + k) va AND mask k) OR
         push_bit t (drop_bit t va AND mask k) OR (va AND mask t) = va"
proof (rule bit_word_eqI)
  fix n assume "n < LENGTH(32)"
  then have "n < 32" by simp
  moreover have "t + k \<le> n \<Longrightarrow> t + k + (n - (t + k)) = n" "t \<le> n \<Longrightarrow> t + (n - t) = n"
    by simp_all
  ultimately show "bit (push_bit (t + k) (drop_bit (t + k) va AND mask k) OR
         push_bit t (drop_bit t va AND mask k) OR (va AND mask t)) n \<longleftrightarrow> bit va n"
    using assms by (cases "n < t"; cases "n < t + k") (auto simp: bit_simps)
qed

lemma geometry_layout:
  assumes "geometry pgsize = Some g"
  obtains t k where "PTXSHIFT g = t" "PDXSHIFT g = t + k" "PXMASK g = mask k"
    "OFFMASK g = mask t" "32 \<le> t + k + k"
proof -
  have "\<exists>k. PDXSHIFT g = PTXSHIFT g + k \<and> PXMASK g = mask k \<and> OFFMASK g = mask (PTXSHIFT g)
         \<and> 32 \<le> PTXSHIFT g + k + k"
    using assms
    by (auto simp: geometry_def masks_eq_mask split: if_splits
        intro: exI [of _ 10] exI [of _ 11] exI [of _ 12] exI [of _ 13])
  then show thesis using that by blast
qed

lemma geometry_recombine:
  assumes "geometry pgsize = Some g"
  shows "push_bit (PDXSHIFT g) (PDX_at g va) OR push_bit (PTXSHIFT g) (PTX_at g va) OR OFF_at g va
         = va"
proof -
  obtain t k where "PTXSHIFT g = t" "PDXSHIFT g = t + k" "PXMASK g = mask k"
    "OFFMASK g = mask t" "32 \<le> t + k + k"
    using assms by (rule geometry_layout)
  then show ?thesis
    by (simp only: PDX_at_def PTX_at_def OFF_at_def split_recombine)
qed

text \<open>A table of \<open>PXMASK + 1\<close> four-byte entries fits in one page.\<close>

lemma geometry_table_fits:
  "geometry pgsize = Some g \<Longrightarrow> 4 * (unat (PXMASK g) + 1) \<le> pgsize"
  by (auto simp: geometry_def split: if_splits)

section \<open>The configuration used\<close>

definition MAX_MEMSIZE :: nat where "MAX_MEMSIZE = 2 ^ 32"
definition MEMSIZE :: nat where "MEMSIZE = 2 ^ 30"
definition PGSIZE :: nat where "PGSIZE = 4096"
definition PFN_SHIFT :: nat where "PFN_SHIFT = 12"
definition TLB_ENTRIES :: nat where "TLB_ENTRIES = 512"
definition INVALID_PA :: u32 where "INVALID_PA = - 1"

definition PDX :: "u32 \<Rightarrow> u32" where
  "PDX va = drop_bit 22 va AND 0x3FF"

definition PTX :: "u32 \<Rightarrow> u32" where
  "PTX va = drop_bit 12 va AND 0x3FF"

definition OFF :: "u32 \<Rightarrow> u32" where
  "OFF va = va AND 0xFFF"

definition VA2U :: "ptr \<Rightarrow> u32" where
  "VA2U va = ucast va"

definition U2VA :: "u32 \<Rightarrow> ptr" where
  "U2VA u = ucast u"

lemma geometry_4096:
  "geometry PGSIZE = Some g \<Longrightarrow> PDX_at g = PDX \<and> PTX_at g = PTX \<and> OFF_at g = OFF"
  by (auto simp: geometry_def PGSIZE_def PDX_at_def PTX_at_def OFF_at_def PDX_def PTX_def OFF_def)

lemma VA2U_U2VA [simp]: "VA2U (U2VA u) = u"
  by (simp add: VA2U_def U2VA_def)

lemma U2VA_eq_0_iff [simp]: "U2VA u = 0 \<longleftrightarrow> u = 0"
  by (simp add: U2VA_def)

section \<open>The fields as numbers\<close>

text \<open>The virtual page number of an address, and the frame of a physical address.\<close>

definition vpn_of :: "u32 \<Rightarrow> nat" where
  "vpn_of va = unat va div 4096"

lemma unat_u32_less: "unat (x :: u32) < 4294967296"
  using unsigned_less [of x, where ?'a = nat] by simp

lemma vpn_of_less [simp]: "vpn_of va < 1048576"
  using unat_u32_less [of va] by (simp add: vpn_of_def less_mult_imp_div_less)

lemma unat_PTX: "unat (PTX va) = vpn_of va mod 1024"
  by (simp add: PTX_def masks_eq_mask unat_and_mask unat_drop_bit vpn_of_def)

lemma unat_PDX: "unat (PDX va) = vpn_of va div 1024"
proof -
  have "unat va div 4194304 < 1024"
    using unat_u32_less [of va] by (simp add: less_mult_imp_div_less)
  then show ?thesis
    by (simp add: PDX_def masks_eq_mask unat_and_mask unat_drop_bit vpn_of_def flip: div_mult2_eq)
qed

lemma unat_OFF: "unat (OFF va) = unat va mod 4096"
  by (simp add: OFF_def masks_eq_mask unat_and_mask)

lemma unat_shift_PFN: "unat (drop_bit PFN_SHIFT (x :: u32)) = unat x div 4096"
  by (simp add: PFN_SHIFT_def unat_drop_bit)

lemma shift_PFN_eq_iff:
  "drop_bit PFN_SHIFT (x :: u32) = drop_bit PFN_SHIFT y \<longleftrightarrow> vpn_of x = vpn_of y"
  by (metis unat_shift_PFN vpn_of_def word_eq_iff_unsigned)

lemma vpn_split: "v = 1024 * (v div 1024) + v mod (1024 :: nat)"
  by simp

end
