(* ===== verification/VM_TLB.thy ===== *)
theory VM_TLB
  imports VM_Address
begin

text \<open>
  The translation lookaside buffer of \<open>my_vm.c\<close>: \<open>struct tlb\<close> and the operations \<open>TLB_add\<close>,
  \<open>TLB_check\<close> and \<open>TLB_invalidate\<close>, each the body of one critical section on \<open>tlb_lock\<close>. The
  abstract view \<open>tlb_map\<close> is the partial function from page numbers to page-table entries the
  buffer answers with; the locale \<open>translation_cache\<close> states what a cache of translations
  promises, and the page-table theory uses it through its interpretation on this code.
\<close>

section \<open>State\<close>

record tlb_entry =
  te_vpn :: u32
  te_pfn :: u32
  te_pte :: u32
  te_valid :: bool

record tlb =
  tlb_count :: nat
  tlb_next_evict :: nat
  tlb_entries :: "nat \<Rightarrow> tlb_entry"

section \<open>Operations\<close>

text \<open>The search loop \<open>for (i = 0; i < TLB_ENTRIES; i++) if (valid && vpn == vpn)\<close>.\<close>

definition tlb_find :: "tlb \<Rightarrow> u32 \<Rightarrow> nat option" where
  "tlb_find t vpn =
     scan (\<lambda>i. te_valid (tlb_entries t i) \<and> te_vpn (tlb_entries t i) = vpn) 0 TLB_ENTRIES"

definition set_entry :: "tlb \<Rightarrow> nat \<Rightarrow> tlb_entry \<Rightarrow> tlb" where
  "set_entry t i e = t\<lparr>tlb_entries := (tlb_entries t)(i := e)\<rparr>"

definition TLB_add :: "tlb \<Rightarrow> ptr \<Rightarrow> ptr \<Rightarrow> int \<times> tlb" where
  "TLB_add t va pa =
     (if va = 0 then (- 1, t)
      else let va_u = VA2U va; pa_u = VA2U pa
      in if pa_u = INVALID_PA then (- 1, t)
      else let vpn = drop_bit PFN_SHIFT va_u; pfn = drop_bit PFN_SHIFT pa_u
      in case tlb_find t vpn of
           Some i \<Rightarrow> (0, set_entry t i ((tlb_entries t i)\<lparr>te_pte := pa_u, te_pfn := pfn\<rparr>))
         | None \<Rightarrow>
             let (idx, t') =
                   (if tlb_count t < TLB_ENTRIES
                    then (tlb_count t, t\<lparr>tlb_count := tlb_count t + 1\<rparr>)
                    else (tlb_next_evict t,
                          t\<lparr>tlb_next_evict := (tlb_next_evict t + 1) mod TLB_ENTRIES\<rparr>))
             in (0, set_entry t' idx
                      \<lparr>te_vpn = vpn, te_pfn = pfn, te_pte = pa_u, te_valid = True\<rparr>))"

text \<open>
  The result of \<open>TLB_check\<close> is a pointer to the \<open>pte\<close> field of an entry: the entry's index.
\<close>

definition TLB_check :: "tlb \<Rightarrow> ptr \<Rightarrow> nat option" where
  "TLB_check t va =
     (let va_u = VA2U va
      in if va_u = INVALID_PA then None else tlb_find t (drop_bit PFN_SHIFT va_u))"

definition TLB_invalidate :: "tlb \<Rightarrow> ptr \<Rightarrow> tlb" where
  "TLB_invalidate t va =
     (let va_u = VA2U va
      in if va_u = INVALID_PA then t
         else case tlb_find t (drop_bit PFN_SHIFT va_u) of
                Some i \<Rightarrow> set_entry t i ((tlb_entries t i)\<lparr>te_valid := False\<rparr>)
              | None \<Rightarrow> t)"

text \<open>The initialisation loop of \<open>set_physical_mem\<close>.\<close>

definition tlb_reset :: "tlb \<Rightarrow> tlb" where
  "tlb_reset t =
     t\<lparr>tlb_entries := (\<lambda>i. if i < TLB_ENTRIES then (tlb_entries t i)\<lparr>te_valid := False\<rparr>
                           else tlb_entries t i),
       tlb_count := 0, tlb_next_evict := 0\<rparr>"

section \<open>Well-formedness and the abstract view\<close>

definition tlb_ok :: "tlb \<Rightarrow> bool" where
  "tlb_ok t \<longleftrightarrow>
     tlb_count t \<le> TLB_ENTRIES \<and> tlb_next_evict t < TLB_ENTRIES \<and>
     (\<forall>i < TLB_ENTRIES. te_valid (tlb_entries t i) \<longrightarrow>
        i < tlb_count t \<and> te_pfn (tlb_entries t i) = drop_bit PFN_SHIFT (te_pte (tlb_entries t i))) \<and>
     (\<forall>i < TLB_ENTRIES. \<forall>j < TLB_ENTRIES.
        te_valid (tlb_entries t i) \<longrightarrow> te_valid (tlb_entries t j) \<longrightarrow>
        te_vpn (tlb_entries t i) = te_vpn (tlb_entries t j) \<longrightarrow> i = j)"

definition tlb_map :: "tlb \<Rightarrow> u32 \<Rightarrow> u32 option" where
  "tlb_map t vpn = map_option (\<lambda>i. te_pte (tlb_entries t i)) (tlb_find t vpn)"

lemma tlb_find_SomeD:
  "tlb_find t vpn = Some i \<Longrightarrow> i < TLB_ENTRIES \<and> te_valid (tlb_entries t i) \<and> te_vpn (tlb_entries t i) = vpn"
  by (auto simp: tlb_find_def scan_Some_iff)

lemma tlb_find_None:
  "tlb_find t vpn = None \<longleftrightarrow>
     (\<forall>i < TLB_ENTRIES. te_valid (tlb_entries t i) \<longrightarrow> te_vpn (tlb_entries t i) \<noteq> vpn)"
  by (auto simp: tlb_find_def scan_None_iff)

lemma tlb_find_valid:
  assumes "tlb_ok t" "i < TLB_ENTRIES" "te_valid (tlb_entries t i)" "te_vpn (tlb_entries t i) = vpn"
  shows "tlb_find t vpn = Some i"
proof (cases "tlb_find t vpn")
  case None
  then show ?thesis using assms by (auto simp: tlb_find_None)
next
  case (Some j)
  then show ?thesis
    using assms tlb_find_SomeD [OF Some] by (auto simp: tlb_ok_def)
qed

text \<open>Under the invariant a translation is in the view exactly when some valid entry holds it.\<close>

lemma tlb_map_iff:
  assumes "tlb_ok t"
  shows "tlb_map t vpn = Some p \<longleftrightarrow>
     (\<exists>i < TLB_ENTRIES. te_valid (tlb_entries t i) \<and> te_vpn (tlb_entries t i) = vpn \<and>
        te_pte (tlb_entries t i) = p)"
  using assms by (auto simp: tlb_map_def dest: tlb_find_SomeD intro: tlb_find_valid)

lemma set_entry_simps [simp]:
  "tlb_entries (set_entry t i e) = (tlb_entries t)(i := e)"
  "tlb_count (set_entry t i e) = tlb_count t"
  "tlb_next_evict (set_entry t i e) = tlb_next_evict t"
  by (simp_all add: set_entry_def)

lemma tlb_ok_reset: "tlb_ok (tlb_reset t)"
  by (simp add: tlb_ok_def tlb_reset_def TLB_ENTRIES_def)

lemma tlb_map_reset: "tlb_map (tlb_reset t) = Map.empty"
proof
  fix v
  have "tlb_find (tlb_reset t) v = None"
    by (simp add: tlb_find_None tlb_reset_def)
  then show "tlb_map (tlb_reset t) v = None"
    by (simp add: tlb_map_def)
qed

lemma TLB_ENTRIES_pos [simp]: "0 < TLB_ENTRIES"
  by (simp add: TLB_ENTRIES_def)

section \<open>TLB\_add\<close>

text \<open>The slot that receives a translation that is not yet in the buffer.\<close>

definition victim :: "tlb \<Rightarrow> nat" where
  "victim t = (if tlb_count t < TLB_ENTRIES then tlb_count t else tlb_next_evict t)"

lemma victim_less: "tlb_ok t \<Longrightarrow> victim t < TLB_ENTRIES"
  by (simp add: victim_def tlb_ok_def)

lemma TLB_add_hit:
  assumes "va \<noteq> 0" "VA2U pa \<noteq> INVALID_PA" "tlb_find t (drop_bit PFN_SHIFT (VA2U va)) = Some i"
  shows "TLB_add t va pa = (0, set_entry t i ((tlb_entries t i)
           \<lparr>te_pte := VA2U pa, te_pfn := drop_bit PFN_SHIFT (VA2U pa)\<rparr>))"
  using assms by (simp add: TLB_add_def Let_def)

lemma TLB_add_miss:
  assumes "va \<noteq> 0" "VA2U pa \<noteq> INVALID_PA" "tlb_find t (drop_bit PFN_SHIFT (VA2U va)) = None"
  shows "fst (TLB_add t va pa) = 0"
    and "tlb_entries (snd (TLB_add t va pa)) = (tlb_entries t)(victim t :=
           \<lparr>te_vpn = drop_bit PFN_SHIFT (VA2U va), te_pfn = drop_bit PFN_SHIFT (VA2U pa),
            te_pte = VA2U pa, te_valid = True\<rparr>)"
    and "tlb_count (snd (TLB_add t va pa)) = min TLB_ENTRIES (tlb_count t + 1) \<or>
         tlb_count (snd (TLB_add t va pa)) = tlb_count t \<and> TLB_ENTRIES \<le> tlb_count t"
    and "tlb_ok t \<Longrightarrow> tlb_next_evict (snd (TLB_add t va pa)) < TLB_ENTRIES"
  using assms by (auto simp: TLB_add_def Let_def victim_def tlb_ok_def)

lemma TLB_add_fails:
  "va = 0 \<or> VA2U pa = INVALID_PA \<Longrightarrow> TLB_add t va pa = (- 1, t)"
  by (auto simp: TLB_add_def Let_def)

lemma tlb_ok_add:
  assumes "tlb_ok t"
  shows "tlb_ok (snd (TLB_add t va pa))"
proof (cases "va = 0 \<or> VA2U pa = INVALID_PA")
  case True
  then show ?thesis using assms by (simp add: TLB_add_fails)
next
  case False
  let ?vpn = "drop_bit PFN_SHIFT (VA2U va)"
  show ?thesis
  proof (cases "tlb_find t ?vpn")
    case (Some i)
    then show ?thesis
      using assms False tlb_find_SomeD [OF Some]
      by (auto simp: TLB_add_hit tlb_ok_def)
  next
    case None
    have "va \<noteq> 0" "VA2U pa \<noteq> INVALID_PA" using False by auto
    note add = TLB_add_miss [OF this None]
    show ?thesis
      using assms add victim_less [OF assms] None
      by (auto simp: tlb_ok_def victim_def tlb_find_None split: if_splits)
  qed
qed

lemma tlb_map_add_same:
  assumes "tlb_ok t" "va \<noteq> 0" "VA2U pa \<noteq> INVALID_PA"
  shows "tlb_map (snd (TLB_add t va pa)) (drop_bit PFN_SHIFT (VA2U va)) = Some (VA2U pa)"
proof (cases "tlb_find t (drop_bit PFN_SHIFT (VA2U va))")
  case (Some i)
  show ?thesis
    using assms tlb_find_SomeD [OF Some] tlb_ok_add [OF assms(1), of va pa]
    by (auto simp: tlb_map_iff TLB_add_hit [OF assms(2,3) Some] intro!: exI [of _ i])
next
  case None
  show ?thesis
    using victim_less [OF assms(1)] tlb_ok_add [OF assms(1), of va pa]
    by (auto simp: tlb_map_iff TLB_add_miss(2) [OF assms(2,3) None] intro!: exI [of _ "victim t"])
qed

lemma tlb_map_add_other:
  assumes "tlb_ok t" "v \<noteq> drop_bit PFN_SHIFT (VA2U va)"
    and "tlb_map (snd (TLB_add t va pa)) v = Some q"
  shows "tlb_map t v = Some q"
proof (cases "va = 0 \<or> VA2U pa = INVALID_PA")
  case True
  then show ?thesis using assms by (simp add: TLB_add_fails)
next
  case False
  then have ne: "va \<noteq> 0" "VA2U pa \<noteq> INVALID_PA" by auto
  show ?thesis
  proof (cases "tlb_find t (drop_bit PFN_SHIFT (VA2U va))")
    case (Some i)
    show ?thesis
      using assms tlb_find_SomeD [OF Some] tlb_ok_add [OF assms(1), of va pa]
      by (auto simp: tlb_map_iff TLB_add_hit [OF ne Some] split: if_splits)
  next
    case None
    show ?thesis
      using assms tlb_ok_add [OF assms(1), of va pa]
      by (auto simp: tlb_map_iff TLB_add_miss(2) [OF ne None] split: if_splits)
  qed
qed

section \<open>TLB\_check and TLB\_invalidate\<close>

lemma TLB_check_eq:
  "VA2U va \<noteq> INVALID_PA \<Longrightarrow> TLB_check t va = tlb_find t (drop_bit PFN_SHIFT (VA2U va))"
  by (simp add: TLB_check_def)

lemma TLB_check_SomeD:
  assumes "TLB_check t va = Some i"
  shows "i < TLB_ENTRIES" and "te_valid (tlb_entries t i)"
    and "tlb_map t (drop_bit PFN_SHIFT (VA2U va)) = Some (te_pte (tlb_entries t i))"
  using assms by (auto simp: TLB_check_def Let_def tlb_map_def dest: tlb_find_SomeD split: if_splits)

lemma tlb_ok_invalidate: "tlb_ok t \<Longrightarrow> tlb_ok (TLB_invalidate t va)"
  by (auto simp: TLB_invalidate_def Let_def tlb_ok_def split: option.splits)

lemma TLB_invalidate_entries:
  assumes "tlb_ok t" "VA2U va \<noteq> INVALID_PA" "i < TLB_ENTRIES"
  shows "te_valid (tlb_entries (TLB_invalidate t va) i) \<longleftrightarrow>
           te_valid (tlb_entries t i) \<and> te_vpn (tlb_entries t i) \<noteq> drop_bit PFN_SHIFT (VA2U va)"
    and "te_vpn (tlb_entries (TLB_invalidate t va) i) = te_vpn (tlb_entries t i)"
    and "te_pte (tlb_entries (TLB_invalidate t va) i) = te_pte (tlb_entries t i)"
proof -
  let ?v = "drop_bit PFN_SHIFT (VA2U va)"
  have valid: "te_valid (tlb_entries (TLB_invalidate t va) i) \<longleftrightarrow>
      te_valid (tlb_entries t i) \<and> te_vpn (tlb_entries t i) \<noteq> ?v"
  proof (cases "tlb_find t ?v")
    case None
    then have "TLB_invalidate t va = t"
      by (simp add: TLB_invalidate_def Let_def)
    then show ?thesis
      using assms(3) None [unfolded tlb_find_None] by auto
  next
    case (Some j)
    then have "TLB_invalidate t va = set_entry t j ((tlb_entries t j)\<lparr>te_valid := False\<rparr>)"
      using assms(2) by (simp add: TLB_invalidate_def Let_def)
    then show ?thesis
      using Some tlb_find_SomeD [OF Some] tlb_find_valid [OF assms(1,3)] by auto
  qed
  show "te_valid (tlb_entries (TLB_invalidate t va) i) \<longleftrightarrow>
      te_valid (tlb_entries t i) \<and> te_vpn (tlb_entries t i) \<noteq> ?v"
    by (rule valid)
  show "te_vpn (tlb_entries (TLB_invalidate t va) i) = te_vpn (tlb_entries t i)"
    "te_pte (tlb_entries (TLB_invalidate t va) i) = te_pte (tlb_entries t i)"
    by (simp_all add: TLB_invalidate_def Let_def split: option.split)
qed

lemma tlb_map_invalidate:
  assumes "tlb_ok t" "VA2U va \<noteq> INVALID_PA"
  shows "tlb_map (TLB_invalidate t va) = (tlb_map t)(drop_bit PFN_SHIFT (VA2U va) := None)"
proof -
  have "tlb_map (TLB_invalidate t va) v = Some q \<longleftrightarrow>
        v \<noteq> drop_bit PFN_SHIFT (VA2U va) \<and> tlb_map t v = Some q" for v q
    unfolding tlb_map_iff [OF tlb_ok_invalidate [OF assms(1)]] tlb_map_iff [OF assms(1)]
    using TLB_invalidate_entries [OF assms] by auto
  then show ?thesis
    by (intro map_eqI) auto
qed

section \<open>The contract of a translation cache\<close>

text \<open>
  A cache has a view, the translations it answers with. It may forget, but it never invents:
  filling adds at most the given translation, and where the fill is effective the key answers
  with nothing else; dropping removes the key.
\<close>

locale translation_cache =
  fixes ok :: "'c \<Rightarrow> bool"
    and view :: "'c \<Rightarrow> 'k \<Rightarrow> 'v option"
    and fill :: "'c \<Rightarrow> 'a \<Rightarrow> 'p \<Rightarrow> 'c"
    and remove :: "'c \<Rightarrow> 'a \<Rightarrow> 'c"
    and key :: "'a \<Rightarrow> 'k"
    and val :: "'p \<Rightarrow> 'v"
    and fillable :: "'a \<Rightarrow> 'p \<Rightarrow> bool"
    and removable :: "'a \<Rightarrow> bool"
  assumes ok_fill: "ok c \<Longrightarrow> ok (fill c a p)"
    and ok_remove: "ok c \<Longrightarrow> ok (remove c a)"
    and fill_same: "ok c \<Longrightarrow> fillable a p \<Longrightarrow> view (fill c a p) (key a) = Some (val p)"
    and fill_other: "ok c \<Longrightarrow> k \<noteq> key a \<Longrightarrow> view (fill c a p) k = Some v \<Longrightarrow> view c k = Some v"
    and fill_void: "\<not> fillable a p \<Longrightarrow> fill c a p = c"
    and view_remove: "ok c \<Longrightarrow> removable a \<Longrightarrow> view (remove c a) = (view c)(key a := None)"
begin

lemma coherent_fill:
  assumes "ok c" "view c \<subseteq>\<^sub>m m" "m (key a) = Some (val p)"
  shows "view (fill c a p) \<subseteq>\<^sub>m m"
proof (rule map_leI)
  fix k v assume v: "view (fill c a p) k = Some v"
  show "m k = Some v"
  proof (cases "fillable a p \<and> k = key a")
    case True
    then show ?thesis using assms v fill_same by auto
  next
    case False
    then have "view c k = Some v"
      using assms(1) v fill_other [of c k a p v] fill_void [of a p c] by auto
    then show ?thesis using assms(2) by (rule map_leD)
  qed
qed

lemma coherent_fill_update:
  assumes "ok c" "view c \<subseteq>\<^sub>m m" "fillable a p"
  shows "view (fill c a p) \<subseteq>\<^sub>m m(key a \<mapsto> val p)"
proof (rule map_leI)
  fix k v assume v: "view (fill c a p) k = Some v"
  then show "(m(key a \<mapsto> val p)) k = Some v"
    using assms fill_same [OF assms(1,3)] fill_other [OF assms(1), of k a p v]
    by (cases "k = key a") (auto dest: map_leD)
qed

lemma coherent_remove:
  assumes "ok c" "view c \<subseteq>\<^sub>m m" "removable a"
  shows "view (remove c a) \<subseteq>\<^sub>m m(key a := None)"
  using assms by (auto intro!: map_leI dest: map_leD simp: view_remove split: if_splits)

end

interpretation tlb_cache: translation_cache tlb_ok tlb_map "\<lambda>t va pa. snd (TLB_add t va pa)"
  TLB_invalidate "\<lambda>va. drop_bit PFN_SHIFT (VA2U va)" VA2U
  "\<lambda>va pa. va \<noteq> 0 \<and> VA2U pa \<noteq> INVALID_PA" "\<lambda>va. VA2U va \<noteq> INVALID_PA"
  by unfold_locales
    (auto intro: tlb_ok_add tlb_ok_invalidate tlb_map_add_same tlb_map_add_other
      simp: TLB_add_fails tlb_map_invalidate)

text \<open>
  The sentinel \<open>INVALID_PA\<close> is a physical address, but \<open>TLB_invalidate\<close> tests the virtual one:
  invalidating through the last byte of the address space does nothing.
\<close>

lemma TLB_invalidate_last_byte: "VA2U va = INVALID_PA \<Longrightarrow> TLB_invalidate t va = t"
  by (simp add: TLB_invalidate_def)

end
