(* ===== verification/Bitmap.thy ===== *)
theory Bitmap
  imports CMem
begin

text \<open>
  The three bit-array implementations of the repository: \<open>proj1-submit/bitops.c\<close>, the bitmap
  helpers of \<open>proj3-code/code/my_vm.c\<close> (both on signed \<open>char\<close> arrays) and those of
  \<open>project4/code/rufs.h\<close> (on \<open>unsigned char\<close>). A bitmap is a byte memory; \<open>bit_at\<close> is what it
  means. The locale \<open>bit_array\<close> is the contract the allocators rely on, and each
  implementation is an interpretation of it.
\<close>

section \<open>The meaning of a bitmap\<close>

definition bit_at :: "mem \<Rightarrow> nat \<Rightarrow> bool" where
  "bit_at b i \<longleftrightarrow> bit (b (i div 8)) (i mod 8)"

section \<open>my\_vm.c: get\_bit, set\_bit, clear\_bit\<close>

text \<open>\<open>bitmap[byte_idx]\<close> is a signed \<open>char\<close>, promoted to \<open>int\<close> before the operators apply.\<close>

definition get_bit :: "mem \<Rightarrow> nat \<Rightarrow> u32" where
  "get_bit bitmap index =
     (let byte_idx = index div 8;
          bit_idx = index mod 8;
          bmask = push_bit bit_idx (1 :: u32)
      in drop_bit bit_idx (scast (bitmap byte_idx) AND bmask))"

definition set_bit :: "mem \<Rightarrow> nat \<Rightarrow> mem" where
  "set_bit bitmap index =
     (let byte_idx = index div 8;
          bit_idx = index mod 8;
          bmask = push_bit bit_idx (1 :: u32)
      in bitmap(byte_idx := ucast ((scast (bitmap byte_idx) :: u32) OR bmask)))"

definition clear_bit :: "mem \<Rightarrow> nat \<Rightarrow> mem" where
  "clear_bit bitmap index =
     (let byte_idx = index div 8;
          bit_idx = index mod 8;
          bmask = NOT (push_bit bit_idx (1 :: u32))
      in bitmap(byte_idx := ucast ((scast (bitmap byte_idx) :: u32) AND bmask)))"

section \<open>rufs.h: set\_bitmap, unset\_bitmap, get\_bitmap\<close>

definition set_bitmap :: "mem \<Rightarrow> nat \<Rightarrow> mem" where
  "set_bitmap b i =
     b(i div 8 := ucast ((ucast (b (i div 8)) :: u32) OR push_bit (i mod 8) 1))"

definition unset_bitmap :: "mem \<Rightarrow> nat \<Rightarrow> mem" where
  "unset_bitmap b i =
     b(i div 8 := ucast ((ucast (b (i div 8)) :: u32) AND NOT (push_bit (i mod 8) 1)))"

definition get_bitmap :: "mem \<Rightarrow> nat \<Rightarrow> u8" where
  "get_bitmap b i =
     (if (ucast (b (i div 8)) :: u32) AND push_bit (i mod 8) 1 \<noteq> 0 then 1 else 0)"

section \<open>bitops.c\<close>

text \<open>
  \<open>value >> (total_bits - num_bits)\<close>: C defines the shift for amounts from 0 to 31 only, that
  is for \<open>num_bits\<close> from 1 to 32; \<open>None\<close> is the undefined shift.
\<close>

definition get_top_bits :: "u32 \<Rightarrow> int \<Rightarrow> u32 option" where
  "get_top_bits v num_bits =
     (let total_bits = 4 * 8; shift = total_bits - num_bits
      in if 0 \<le> shift \<and> shift < 32 then Some (drop_bit (nat shift) v) else None)"

definition set_bit_at_index :: "mem \<Rightarrow> nat \<Rightarrow> mem" where
  "set_bit_at_index bitmap index =
     (let byte_idx = index div 8;
          bit_idx = index mod 8;
          bmask = push_bit bit_idx (1 :: u32)
      in bitmap(byte_idx := ucast ((scast (bitmap byte_idx) :: u32) OR bmask)))"

definition get_bit_at_index :: "mem \<Rightarrow> nat \<Rightarrow> u32" where
  "get_bit_at_index bitmap index =
     (let byte_idx = index div 8;
          bit_idx = index mod 8;
          bmask = push_bit bit_idx (1 :: u32)
      in drop_bit bit_idx (scast (bitmap byte_idx) AND bmask))"

text \<open>
  The \<open>main\<close> of \<open>bitops.c\<close>: the top bits of \<open>myaddress\<close>, then a zeroed bitmap of
  \<open>BITMAP_SIZE\<close> bytes in which bit \<open>SET_BIT_INDEX\<close> is set and bit \<open>GET_BIT_INDEX\<close> is read.
\<close>

definition bitops_main :: "u32 \<Rightarrow> int \<Rightarrow> nat \<Rightarrow> nat \<Rightarrow> (u32 \<times> u32) option" where
  "bitops_main myaddress num_top set_idx get_idx =
     do { outer \<leftarrow> get_top_bits myaddress num_top;
          Some (outer, get_bit_at_index (set_bit_at_index (\<lambda>_. 0) set_idx) get_idx) }"

section \<open>The contract\<close>

locale bit_array =
  fixes get :: "mem \<Rightarrow> nat \<Rightarrow> 'r::zero_neq_one"
    and put :: "mem \<Rightarrow> nat \<Rightarrow> mem"
  assumes get_eq: "get b i = (if bit_at b i then 1 else 0)"
    and bit_at_put: "bit_at (put b i) j \<longleftrightarrow> j = i \<or> bit_at b j"
begin

lemma get_eq_0_iff: "get b i = 0 \<longleftrightarrow> \<not> bit_at b i"
  by (simp add: get_eq)

lemma get_eq_1_iff: "get b i = 1 \<longleftrightarrow> bit_at b i"
  by (simp add: get_eq)

text \<open>First fit: the loop of the allocators.\<close>

lemma first_fit_Some:
  "scan (\<lambda>i. get b i = 0) lo n = Some i \<longleftrightarrow>
     lo \<le> i \<and> i < n \<and> \<not> bit_at b i \<and> (\<forall>j. lo \<le> j \<and> j < i \<longrightarrow> bit_at b j)"
  by (simp add: scan_Some_iff get_eq_0_iff)

lemma first_fit_None:
  "scan (\<lambda>i. get b i = 0) lo n = None \<longleftrightarrow> (\<forall>j. lo \<le> j \<and> j < n \<longrightarrow> bit_at b j)"
  by (simp add: scan_None_iff get_eq_0_iff)

lemma first_fit_marks:
  "scan (\<lambda>i. get b i = 0) lo n = Some i \<Longrightarrow>
     {j. bit_at (put b i) j} = insert i {j. bit_at b j} \<and> i \<notin> {j. bit_at b j}"
  by (auto simp: first_fit_Some bit_at_put)

end

locale bit_array_clear = bit_array +
  fixes clr :: "mem \<Rightarrow> nat \<Rightarrow> mem"
  assumes bit_at_clr: "bit_at (clr b i) j \<longleftrightarrow> j \<noteq> i \<and> bit_at b j"
begin

lemma clr_put_free: "\<not> bit_at b i \<Longrightarrow> bit_at (clr (put b i) i) j \<longleftrightarrow> bit_at b j"
  by (auto simp: bit_at_clr bit_at_put)

lemma get_clr: "get (clr b i) i = 0"
  by (simp add: get_eq_0_iff bit_at_clr)

lemma get_put: "get (put b i) i = 1"
  by (simp add: get_eq_1_iff bit_at_put)

end

section \<open>The implementations satisfy it\<close>

lemma nat_index_eq: "(i::nat) = j \<longleftrightarrow> i div 8 = j div 8 \<and> i mod 8 = j mod 8"
  by (metis div_mult_mod_eq)

lemma bit_scast_u8: "n < 8 \<Longrightarrow> bit (scast (x :: u8) :: u32) n \<longleftrightarrow> bit x n"
  by (simp add: bit_simps)

lemma and_single_bit: "n < 32 \<Longrightarrow> (x :: u32) AND push_bit n 1 = (if bit x n then push_bit n 1 else 0)"
  by (rule bit_word_eqI) (auto simp: bit_simps)

lemma drop_push_bit_1: "n < 32 \<Longrightarrow> drop_bit n (push_bit n (1 :: u32)) = 1"
  by (rule bit_word_eqI) (auto simp: bit_simps)

lemma push_bit_1_neq_0: "n < 32 \<Longrightarrow> push_bit n (1 :: u32) \<noteq> 0"
  using drop_push_bit_1 [of n] by auto

lemma get_scast: "n < 8 \<Longrightarrow>
    drop_bit n (scast (x :: u8) AND push_bit n (1 :: u32)) = (if bit x n then 1 else 0)"
  by (simp only: and_single_bit drop_push_bit_1 bit_scast_u8 drop_bit_0 if_distrib [of "drop_bit n"]
      drop_bit_of_0 cong: if_cong)

lemma get_ucast: "n < 8 \<Longrightarrow>
    (ucast (x :: u8) AND push_bit n (1 :: u32) \<noteq> 0) \<longleftrightarrow> bit x n"
  using push_bit_1_neq_0 [of n] by (simp only: and_single_bit) (auto simp: bit_simps)

lemma bit_or_char: "n < 8 \<Longrightarrow> k < 8 \<Longrightarrow>
    bit (ucast ((scast (x :: u8) :: u32) OR push_bit n 1) :: u8) k \<longleftrightarrow> k = n \<or> bit x k"
  "n < 8 \<Longrightarrow> k < 8 \<Longrightarrow>
    bit (ucast ((ucast (x :: u8) :: u32) OR push_bit n 1) :: u8) k \<longleftrightarrow> k = n \<or> bit x k"
  by (auto simp: bit_simps)

lemma bit_andnot_char: "n < 8 \<Longrightarrow> k < 8 \<Longrightarrow>
    bit (ucast ((scast (x :: u8) :: u32) AND NOT (push_bit n 1)) :: u8) k \<longleftrightarrow> k \<noteq> n \<and> bit x k"
  "n < 8 \<Longrightarrow> k < 8 \<Longrightarrow>
    bit (ucast ((ucast (x :: u8) :: u32) AND NOT (push_bit n 1)) :: u8) k \<longleftrightarrow> k \<noteq> n \<and> bit x k"
  by (auto simp: bit_simps)

interpretation vm_bits: bit_array_clear get_bit set_bit clear_bit
proof unfold_locales
  fix b :: mem and i j :: nat
  show "get_bit b i = (if bit_at b i then 1 else 0)"
    unfolding get_bit_def Let_def bit_at_def by (rule get_scast) simp
  show "bit_at (set_bit b i) j \<longleftrightarrow> j = i \<or> bit_at b j"
    by (auto simp: set_bit_def Let_def bit_at_def bit_or_char nat_index_eq [of j i]
        simp del: push_bit_of_1)
  show "bit_at (clear_bit b i) j \<longleftrightarrow> j \<noteq> i \<and> bit_at b j"
    by (auto simp: clear_bit_def Let_def bit_at_def bit_andnot_char nat_index_eq [of j i]
        simp del: push_bit_of_1)
qed

interpretation fs_bits: bit_array_clear get_bitmap set_bitmap unset_bitmap
proof unfold_locales
  fix b :: mem and i j :: nat
  show "get_bitmap b i = (if bit_at b i then 1 else 0)"
    unfolding get_bitmap_def bit_at_def by (subst get_ucast) simp_all
  show "bit_at (set_bitmap b i) j \<longleftrightarrow> j = i \<or> bit_at b j"
    by (auto simp: set_bitmap_def bit_at_def bit_or_char nat_index_eq [of j i]
        simp del: push_bit_of_1)
  show "bit_at (unset_bitmap b i) j \<longleftrightarrow> j \<noteq> i \<and> bit_at b j"
    by (auto simp: unset_bitmap_def bit_at_def bit_andnot_char nat_index_eq [of j i]
        simp del: push_bit_of_1)
qed

interpretation p1_bits: bit_array get_bit_at_index set_bit_at_index
proof unfold_locales
  fix b :: mem and i j :: nat
  show "get_bit_at_index b i = (if bit_at b i then 1 else 0)"
    using vm_bits.get_eq [of b i] by (simp add: get_bit_def get_bit_at_index_def)
  show "bit_at (set_bit_at_index b i) j \<longleftrightarrow> j = i \<or> bit_at b j"
    using vm_bits.bit_at_put [of b i j] by (simp add: set_bit_def set_bit_at_index_def)
qed

lemmas bit_at_simps [bitmap_simps] =
  vm_bits.bit_at_put vm_bits.bit_at_clr fs_bits.bit_at_put fs_bits.bit_at_clr p1_bits.bit_at_put

lemma bit_at_zero [simp]: "\<not> bit_at (\<lambda>_. 0) i"
  by (simp add: bit_at_def)

text \<open>An update of one bit leaves every other byte as it was.\<close>

lemma set_bit_other_byte: "x \<noteq> i div 8 \<Longrightarrow> set_bit b i x = b x"
  by (simp add: set_bit_def Let_def)

lemma set_bitmap_other_byte: "x \<noteq> i div 8 \<Longrightarrow> set_bitmap b i x = b x"
  by (simp add: set_bitmap_def)

section \<open>bitops.c is correct\<close>

lemma get_top_bits_value:
  assumes "1 \<le> n" "n \<le> 32"
  shows "get_top_bits v n = Some (drop_bit (nat (32 - n)) v)"
    and "unat (drop_bit (nat (32 - n)) v) < 2 ^ nat n"
proof -
  show "get_top_bits v n = Some (drop_bit (nat (32 - n)) v)"
    using assms by (simp add: get_top_bits_def Let_def)
  have "unat v < 2 ^ (nat (32 - n) + nat n)"
    using assms unsigned_less [of v] by (simp flip: nat_add_distrib)
  then show "unat (drop_bit (nat (32 - n)) v) < 2 ^ nat n"
    by (simp add: unat_drop_bit power_add less_mult_imp_div_less mult.commute)
qed

end
