(* ===== verification/VM_State.thy ===== *)
theory VM_State
  imports VM_TLB Bitmap
begin

text \<open>
  The global variables of \<open>my_vm.c\<close> as one record, the guarded accesses to the simulated
  physical memory, the frame allocator \<open>allocate_phys_page\<close> and \<open>set_physical_mem\<close>.

  Operations return \<open>None\<close> when the process would die or leave defined behaviour: an access
  outside the simulated memory or outside a bitmap, a dereference of the null \<open>page_dir\<close>, or
  \<open>exit(1)\<close>. Pointers into the simulated memory are their physical addresses.
\<close>

section \<open>State\<close>

record vm =
  phys_mem :: mem
  phys_ready :: bool
  malloc_ok :: bool
  page_dir :: "nat option"
  num_phys_pages :: nat
  num_virt_pages :: nat
  phys_bitmap :: mem
  virt_bitmap :: mem
  tlb_store :: tlb
  tlb_lookups :: u64
  tlb_misses :: u64

text \<open>
  The state at program start: all pointers null. \<open>phys_ready\<close> is \<open>phys_mem != NULL\<close>. The bytes
  \<open>malloc\<close> will hand out are not initialised by it, so they are a parameter, as is whether the
  host grants the allocation.
\<close>

definition vm_start :: "mem \<Rightarrow> bool \<Rightarrow> vm" where
  "vm_start host_bytes host_grants =
     \<lparr>phys_mem = host_bytes, phys_ready = False, malloc_ok = host_grants, page_dir = None,
      num_phys_pages = 0, num_virt_pages = 0, phys_bitmap = (\<lambda>_. 0), virt_bitmap = (\<lambda>_. 0),
      tlb_store = \<lparr>tlb_count = 0, tlb_next_evict = 0,
        tlb_entries = (\<lambda>_. \<lparr>te_vpn = 0, te_pfn = 0, te_pte = 0, te_valid = False\<rparr>)\<rparr>,
      tlb_lookups = 0, tlb_misses = 0\<rparr>"

section \<open>Guarded accesses\<close>

definition in_phys :: "vm \<Rightarrow> nat \<Rightarrow> nat \<Rightarrow> bool" where
  "in_phys s a n \<longleftrightarrow> phys_ready s \<and> a + n \<le> MEMSIZE"

definition ld32 :: "vm \<Rightarrow> nat \<Rightarrow> u32 option" where
  "ld32 s a = (if in_phys s a 4 then Some (load32 (phys_mem s) a) else None)"

definition st32 :: "vm \<Rightarrow> nat \<Rightarrow> u32 \<Rightarrow> vm option" where
  "st32 s a w = (if in_phys s a 4 then Some (s\<lparr>phys_mem := store32 (phys_mem s) a w\<rparr>) else None)"

definition memset0_page :: "vm \<Rightarrow> nat \<Rightarrow> vm option" where
  "memset0_page s a =
     (if in_phys s a PGSIZE then Some (s\<lparr>phys_mem := fill_bytes (phys_mem s) a 0 PGSIZE\<rparr>) else None)"

definition memcpy_out :: "vm \<Rightarrow> nat \<Rightarrow> nat \<Rightarrow> u8 list option" where
  "memcpy_out s a n = (if in_phys s a n then Some (load_bytes (phys_mem s) a n) else None)"

definition memcpy_in :: "vm \<Rightarrow> nat \<Rightarrow> u8 list \<Rightarrow> vm option" where
  "memcpy_in s a bs =
     (if in_phys s a (length bs) then Some (s\<lparr>phys_mem := store_bytes (phys_mem s) a bs\<rparr>) else None)"

text \<open>The bitmaps are \<open>calloc\<close>ed with \<open>(n + 7) / 8\<close> bytes.\<close>

definition phys_bit_ok :: "vm \<Rightarrow> nat \<Rightarrow> bool" where
  "phys_bit_ok s i \<longleftrightarrow> i div 8 < (num_phys_pages s + 7) div 8"

definition virt_bit_ok :: "vm \<Rightarrow> nat \<Rightarrow> bool" where
  "virt_bit_ok s i \<longleftrightarrow> i div 8 < (num_virt_pages s + 7) div 8"

definition set_phys_bit :: "vm \<Rightarrow> nat \<Rightarrow> vm option" where
  "set_phys_bit s i =
     (if phys_bit_ok s i then Some (s\<lparr>phys_bitmap := set_bit (phys_bitmap s) i\<rparr>) else None)"

definition clear_phys_bit :: "vm \<Rightarrow> nat \<Rightarrow> vm option" where
  "clear_phys_bit s i =
     (if phys_bit_ok s i then Some (s\<lparr>phys_bitmap := clear_bit (phys_bitmap s) i\<rparr>) else None)"

definition set_virt_bit :: "vm \<Rightarrow> nat \<Rightarrow> vm option" where
  "set_virt_bit s i =
     (if virt_bit_ok s i then Some (s\<lparr>virt_bitmap := set_bit (virt_bitmap s) i\<rparr>) else None)"

definition clear_virt_bit :: "vm \<Rightarrow> nat \<Rightarrow> vm option" where
  "clear_virt_bit s i =
     (if virt_bit_ok s i then Some (s\<lparr>virt_bitmap := clear_bit (virt_bitmap s) i\<rparr>) else None)"

section \<open>allocate\_phys\_page\<close>

definition allocate_phys_page :: "vm \<Rightarrow> u32 \<times> vm" where
  "allocate_phys_page s =
     (case scan (\<lambda>pfn. get_bit (phys_bitmap s) pfn = 0) 0 (num_phys_pages s) of
        Some pfn \<Rightarrow> (of_nat pfn * of_nat PGSIZE, s\<lparr>phys_bitmap := set_bit (phys_bitmap s) pfn\<rparr>)
      | None \<Rightarrow> (INVALID_PA, s))"

section \<open>set\_physical\_mem\<close>

definition set_physical_mem :: "vm \<Rightarrow> vm option" where
  "set_physical_mem s =
     (if phys_ready s then Some s
      else if \<not> malloc_ok s then None
      else
        let s1 = s\<lparr>phys_ready := True,
                   num_phys_pages := MEMSIZE div PGSIZE,
                   num_virt_pages := MAX_MEMSIZE div PGSIZE,
                   phys_bitmap := (\<lambda>_. 0), virt_bitmap := (\<lambda>_. 0)\<rparr>;
            (page_dir_pa, s2) = allocate_phys_page s1
        in if page_dir_pa = INVALID_PA then None
           else do { s3 \<leftarrow> memset0_page (s2\<lparr>page_dir := Some (unat page_dir_pa)\<rparr>) (unat page_dir_pa);
                     Some (s3\<lparr>tlb_store := tlb_reset (tlb_store s3)\<rparr>) })"

section \<open>Facts on the allocator\<close>

lemma unat_frame_addr: "f < 262144 \<Longrightarrow> unat (of_nat f * of_nat PGSIZE :: u32) = f * 4096"
  by (simp add: PGSIZE_def unat_word_ariths unat_of_nat)

lemma unat_INVALID_PA: "unat INVALID_PA = 4294967295"
proof -
  have *: "INVALID_PA = 0xFFFFFFFF" by (simp add: INVALID_PA_def)
  show ?thesis by (subst *) simp
qed

lemma frame_addr_not_invalid: "f < 262144 \<Longrightarrow> (of_nat f * of_nat PGSIZE :: u32) \<noteq> INVALID_PA"
proof
  assume f: "f < 262144" and "(of_nat f * of_nat PGSIZE :: u32) = INVALID_PA"
  then have "f * 4096 = unat INVALID_PA"
    using unat_frame_addr by metis
  then show False
    using f by (simp add: unat_INVALID_PA)
qed

text \<open>The two outcomes of the allocator on an initialised memory.\<close>

lemma allocate_phys_page_cases:
  assumes "num_phys_pages s = 262144"
  obtains
    (none) "allocate_phys_page s = (INVALID_PA, s)" "\<And>f. f < 262144 \<Longrightarrow> bit_at (phys_bitmap s) f"
  | (some) f where "f < 262144" "\<not> bit_at (phys_bitmap s) f" "\<And>g. g < f \<Longrightarrow> bit_at (phys_bitmap s) g"
      "allocate_phys_page s = (of_nat f * of_nat PGSIZE, s\<lparr>phys_bitmap := set_bit (phys_bitmap s) f\<rparr>)"
proof (cases "scan (\<lambda>pfn. get_bit (phys_bitmap s) pfn = 0) 0 (num_phys_pages s)")
  case None
  moreover have "allocate_phys_page s = (INVALID_PA, s)"
    using None by (simp add: allocate_phys_page_def)
  ultimately show ?thesis
    using none assms unfolding vm_bits.first_fit_None by auto
next
  case (Some f)
  moreover have "allocate_phys_page s =
      (of_nat f * of_nat PGSIZE, s\<lparr>phys_bitmap := set_bit (phys_bitmap s) f\<rparr>)"
    using Some by (simp add: allocate_phys_page_def)
  ultimately show ?thesis
    using some [of f] assms unfolding vm_bits.first_fit_Some by auto
qed

section \<open>A fresh machine\<close>

definition vm_booted :: "mem \<Rightarrow> vm" where
  "vm_booted host_bytes =
     (vm_start host_bytes True)
       \<lparr>phys_ready := True, num_phys_pages := 262144, num_virt_pages := 1048576,
        phys_bitmap := set_bit (\<lambda>_. 0) 0, page_dir := Some 0,
        phys_mem := fill_bytes host_bytes 0 0 4096,
        tlb_store := tlb_reset (tlb_store (vm_start host_bytes True))\<rparr>"

lemma set_physical_mem_boot: "set_physical_mem (vm_start host_bytes True) = Some (vm_booted host_bytes)"
proof -
  have "scan (\<lambda>pfn. get_bit (\<lambda>_. 0) pfn = 0) 0 262144 = Some 0"
    by (rule scan_first) (simp_all add: vm_bits.get_eq_0_iff)
  then show ?thesis
    by (simp add: set_physical_mem_def vm_start_def vm_booted_def allocate_phys_page_def
        MEMSIZE_def MAX_MEMSIZE_def PGSIZE_def memset0_page_def in_phys_def INVALID_PA_def)
qed

lemma set_physical_mem_oom: "set_physical_mem (vm_start host_bytes False) = None"
  by (simp add: set_physical_mem_def vm_start_def)

lemma set_physical_mem_ready: "phys_ready s \<Longrightarrow> set_physical_mem s = Some s"
  by (simp add: set_physical_mem_def)

end
