(* ===== verification/VM_PageTable.thy ===== *)
theory VM_PageTable
  imports VM_State
begin

text \<open>
  The two-level page table kept inside the simulated memory: \<open>translate\<close> and \<open>map_page\<close>, the
  abstract page map \<open>walk\<close>, and the invariant that keeps the directory, the page tables and
  the data frames apart and the TLB coherent with the tables.
\<close>

section \<open>Operations\<close>

text \<open>
  A \<open>pte_t *\<close> result points either at the \<open>pte\<close> field of a TLB entry or into a page table.
\<close>

datatype pte_ref = TlbPte nat | MemPte nat

definition deref_pte :: "vm \<Rightarrow> pte_ref \<Rightarrow> u32 option" where
  "deref_pte s r =
     (case r of TlbPte i \<Rightarrow> Some (te_pte (tlb_entries (tlb_store s) i)) | MemPte a \<Rightarrow> ld32 s a)"

text \<open>\<open>pgdir[i]\<close>, undefined for the null \<open>pgdir\<close>.\<close>

definition read_pde :: "vm \<Rightarrow> nat option \<Rightarrow> nat \<Rightarrow> u32 option" where
  "read_pde s pgdir i = (case pgdir of None \<Rightarrow> None | Some base \<Rightarrow> ld32 s (base + 4 * i))"

definition write_pde :: "vm \<Rightarrow> nat option \<Rightarrow> nat \<Rightarrow> u32 \<Rightarrow> vm option" where
  "write_pde s pgdir i w = (case pgdir of None \<Rightarrow> None | Some base \<Rightarrow> st32 s (base + 4 * i) w)"

definition translate :: "vm \<Rightarrow> nat option \<Rightarrow> ptr \<Rightarrow> (pte_ref option \<times> vm) option" where
  "translate s pgdir va =
     (let va_u = VA2U va;
          tlb_pte = TLB_check (tlb_store s) va;
          s1 = s\<lparr>tlb_lookups := tlb_lookups s + 1\<rparr>
      in case tlb_pte of
           Some i \<Rightarrow> Some (Some (TlbPte i), s1)
         | None \<Rightarrow>
             let s2 = s1\<lparr>tlb_misses := tlb_misses s1 + 1\<rparr>
             in do { pde \<leftarrow> read_pde s2 pgdir (unat (PDX va_u));
                     if pde = 0 then Some (None, s2)
                     else do { pte \<leftarrow> ld32 s2 (unat pde + 4 * unat (PTX va_u));
                               if pte = 0 then Some (None, s2)
                               else Some (Some (MemPte (unat pde + 4 * unat (PTX va_u))),
                                          s2\<lparr>tlb_store := snd (TLB_add (tlb_store s2) va (U2VA pte))\<rparr>) } })"

text \<open>The first half of \<open>map_page\<close>: the page table for a directory entry, made if it is missing.\<close>

definition ensure_table :: "vm \<Rightarrow> nat option \<Rightarrow> nat \<Rightarrow> (u32 option \<times> vm) option" where
  "ensure_table s pgdir i =
     do { pde \<leftarrow> read_pde s pgdir i;
          if pde \<noteq> 0 then Some (Some pde, s)
          else let (new_table_pa, s1) = allocate_phys_page s
               in if new_table_pa = INVALID_PA then Some (None, s1)
                  else do { s2 \<leftarrow> memset0_page s1 (unat new_table_pa);
                            s3 \<leftarrow> write_pde s2 pgdir i new_table_pa;
                            Some (Some new_table_pa, s3) } }"

definition map_page :: "vm \<Rightarrow> nat option \<Rightarrow> ptr \<Rightarrow> ptr \<Rightarrow> (int \<times> vm) option" where
  "map_page s pgdir va pa =
     (let va_u = VA2U va; pa_u = VA2U pa
      in do { (pde, s1) \<leftarrow> ensure_table s pgdir (unat (PDX va_u));
              case pde of
                None \<Rightarrow> Some (- 1, s1)
              | Some pde \<Rightarrow>
                  do { s2 \<leftarrow> st32 s1 (unat pde + 4 * unat (PTX va_u)) pa_u;
                       s3 \<leftarrow> set_phys_bit s2 (unat (drop_bit PFN_SHIFT pa_u));
                       s4 \<leftarrow> set_virt_bit s3 (unat (drop_bit PFN_SHIFT va_u));
                       Some (0, s4\<lparr>tlb_lookups := tlb_lookups s4 + 1,
                                  tlb_misses := tlb_misses s4 + 1,
                                  tlb_store := snd (TLB_add (tlb_store s4) va pa)\<rparr>) } })"

section \<open>The abstract page map\<close>

definition pde_of :: "vm \<Rightarrow> nat \<Rightarrow> u32" where
  "pde_of s i = load32 (phys_mem s) (4 * i)"

definition pte_of :: "vm \<Rightarrow> nat \<Rightarrow> nat \<Rightarrow> u32" where
  "pte_of s i j = load32 (phys_mem s) (unat (pde_of s i) + 4 * j)"

definition walk :: "vm \<Rightarrow> nat \<Rightarrow> u32 option" where
  "walk s v =
     (if v < 1048576 \<and> pde_of s (v div 1024) \<noteq> 0 \<and> pte_of s (v div 1024) (v mod 1024) \<noteq> 0
      then Some (pte_of s (v div 1024) (v mod 1024)) else None)"

section \<open>The invariant\<close>

text \<open>A page-aligned physical address of a frame that the bitmap marks as used.\<close>

definition used_frame :: "(nat \<Rightarrow> bool) \<Rightarrow> u32 \<Rightarrow> bool" where
  "used_frame pb p \<longleftrightarrow> unat p mod 4096 = 0 \<and> p \<noteq> 0 \<and> unat p < MEMSIZE \<and> pb (unat p div 4096)"

text \<open>
  \<open>P\<close> is the directory, \<open>W\<close> the page map, \<open>pb\<close> and \<open>vb\<close> the two bitmaps. No frame has two
  roles: directory, page table of one directory entry, data of one virtual page.
\<close>

definition frames_inv ::
  "(nat \<Rightarrow> u32) \<Rightarrow> (nat \<Rightarrow> u32 option) \<Rightarrow> (nat \<Rightarrow> bool) \<Rightarrow> (nat \<Rightarrow> bool) \<Rightarrow> bool" where
  "frames_inv P W pb vb \<longleftrightarrow>
     pb 0 \<and>
     (\<forall>i < 1024. P i \<noteq> 0 \<longrightarrow> used_frame pb (P i)) \<and>
     (\<forall>i < 1024. \<forall>k < 1024. P i \<noteq> 0 \<longrightarrow> P i = P k \<longrightarrow> i = k) \<and>
     (\<forall>v p. W v = Some p \<longrightarrow> v < 1048576 \<and> used_frame pb p \<and> vb v) \<and>
     (\<forall>v w p. W v = Some p \<longrightarrow> W w = Some p \<longrightarrow> v = w) \<and>
     (\<forall>v p. \<forall>i < 1024. W v = Some p \<longrightarrow> P i \<noteq> p)"

definition vm_inv :: "vm \<Rightarrow> bool" where
  "vm_inv s \<longleftrightarrow>
     phys_ready s \<and> page_dir s = Some 0 \<and> num_phys_pages s = 262144 \<and> num_virt_pages s = 1048576 \<and>
     frames_inv (pde_of s) (walk s) (bit_at (phys_bitmap s)) (bit_at (virt_bitmap s)) \<and>
     tlb_ok (tlb_store s) \<and> tlb_map (tlb_store s) \<subseteq>\<^sub>m (\<lambda>x. walk s (unat x))"

section \<open>Transitions of the frame invariant\<close>

lemma used_frame_mono: "used_frame pb p \<Longrightarrow> (\<And>f. pb f \<Longrightarrow> pb' f) \<Longrightarrow> used_frame pb' p"
  by (simp add: used_frame_def)

lemma used_frame_same_number:
  "used_frame pb p \<Longrightarrow> used_frame pb' q \<Longrightarrow> unat p div 4096 = unat q div 4096 \<Longrightarrow> p = q"
  unfolding used_frame_def by (metis div_mult_mod_eq word_eq_iff_unsigned)

lemma used_frame_clear:
  "used_frame pb p \<Longrightarrow> used_frame pb q \<Longrightarrow> q \<noteq> p \<Longrightarrow> used_frame (\<lambda>f. f \<noteq> unat p div 4096 \<and> pb f) q"
  using used_frame_same_number [of pb p pb q] by (auto simp: used_frame_def)

lemma used_frame_not_0: "used_frame pb p \<Longrightarrow> unat p div 4096 \<noteq> 0"
  unfolding used_frame_def by (metis div_mult_mod_eq mult_0 add_0 unat_0_iff)

lemma frames_invD:
  assumes "frames_inv P W pb vb"
  shows "pb 0"
    and "i < 1024 \<Longrightarrow> P i \<noteq> 0 \<Longrightarrow> used_frame pb (P i)"
    and "i < 1024 \<Longrightarrow> k < 1024 \<Longrightarrow> P i \<noteq> 0 \<Longrightarrow> P i = P k \<Longrightarrow> i = k"
    and "W v = Some p \<Longrightarrow> v < 1048576" and "W v = Some p \<Longrightarrow> used_frame pb p" and "W v = Some p \<Longrightarrow> vb v"
    and "W v = Some p \<Longrightarrow> W w = Some p \<Longrightarrow> v = w"
    and "W v = Some p \<Longrightarrow> i < 1024 \<Longrightarrow> P i \<noteq> p"
  using assms unfolding frames_inv_def by blast+

lemma frames_inv_mono:
  assumes "frames_inv P W pb vb" "\<And>f. pb f \<Longrightarrow> pb' f" "\<And>v. vb v \<Longrightarrow> vb' v"
  shows "frames_inv P W pb' vb'"
proof -
  have "used_frame pb p \<Longrightarrow> used_frame pb' p" for p
    by (erule used_frame_mono) (rule assms(2))
  then show ?thesis
    using assms(1) by (simp add: frames_inv_def assms(2,3))
qed

lemma frames_inv_add_table:
  assumes inv: "frames_inv P W pb vb" and P': "\<And>k. k < 1024 \<Longrightarrow> P' k = (if k = i then p else P k)"
    and p: "used_frame pb p" "\<And>k. k < 1024 \<Longrightarrow> P k \<noteq> p" "\<And>v. W v \<noteq> Some p"
  shows "frames_inv P' W pb vb"
  using inv p unfolding frames_inv_def by (auto simp: P')

lemma frames_inv_add_page:
  assumes inv: "frames_inv P W pb vb" and P': "\<And>k. k < 1024 \<Longrightarrow> P' k = P k"
    and p: "used_frame pb p" "\<And>k. k < 1024 \<Longrightarrow> P k \<noteq> p" "\<And>w. W w \<noteq> Some p"
    and v: "v < 1048576" "vb v"
  shows "frames_inv P' (W(v := Some p)) pb vb"
  using inv p v unfolding frames_inv_def by (auto simp: P')

lemma frames_inv_drop_page:
  assumes inv: "frames_inv P W pb vb" and P': "\<And>k. k < 1024 \<Longrightarrow> P' k = P k" and W: "W v = Some p"
  shows "frames_inv P' (W(v := None)) (\<lambda>f. f \<noteq> unat p div 4096 \<and> pb f) (\<lambda>w. w \<noteq> v \<and> vb w)"
proof -
  note D = frames_invD [OF inv]
  have p: "used_frame pb p" using D(5) W by blast
  have "0 \<noteq> unat p div 4096" using used_frame_not_0 [OF p] by simp
  moreover have "used_frame (\<lambda>f. f \<noteq> unat p div 4096 \<and> pb f) (P i)" if "i < 1024" "P i \<noteq> 0" for i
    using used_frame_clear [OF p D(2)] D(8) W that by blast
  moreover have "used_frame (\<lambda>f. f \<noteq> unat p div 4096 \<and> pb f) q" if "W w = Some q" "w \<noteq> v" for w q
    using used_frame_clear [OF p D(5)] D(7) W that by blast
  ultimately show ?thesis
    using inv unfolding frames_inv_def by (auto simp: P')
qed

lemma frames_inv_drop_table:
  assumes inv: "frames_inv P W pb vb" and P': "\<And>k. k < 1024 \<Longrightarrow> P' k = (if k = i then 0 else P k)"
    and i: "i < 1024" "P i \<noteq> 0"
  shows "frames_inv P' W (\<lambda>f. f \<noteq> unat (P i) div 4096 \<and> pb f) vb"
proof -
  note D = frames_invD [OF inv]
  have p: "used_frame pb (P i)" using D(2) i by blast
  have "0 \<noteq> unat (P i) div 4096" using used_frame_not_0 [OF p] by simp
  moreover have "used_frame (\<lambda>f. f \<noteq> unat (P i) div 4096 \<and> pb f) (P k)"
    if "k < 1024" "P k \<noteq> 0" "k \<noteq> i" for k
    using used_frame_clear [OF p D(2)] D(3) i that by metis
  moreover have "used_frame (\<lambda>f. f \<noteq> unat (P i) div 4096 \<and> pb f) q" if "W w = Some q" for w q
    using used_frame_clear [OF p D(5)] D(8) i that by metis
  moreover have "W w \<noteq> Some 0" for w
    using D(5) [of w 0] by (auto simp: used_frame_def)
  ultimately show ?thesis
    using inv unfolding frames_inv_def by (auto simp: P')
qed

section \<open>Tables in memory\<close>

lemma aligned_disjoint:
  "x mod 4096 = 0 \<Longrightarrow> y mod 4096 = 0 \<Longrightarrow> x \<noteq> y \<Longrightarrow> x + 4096 \<le> y \<or> y + 4096 \<le> (x :: nat)"
proof -
  assume "x mod 4096 = 0" "y mod 4096 = 0" "x \<noteq> y"
  then obtain a b where "x = 4096 * a" "y = 4096 * b" "a < b \<or> b < a"
    by (metis mod_0_imp_dvd dvdE nat_neq_iff)
  then show ?thesis by auto
qed

lemma load32_store32_index:
  "k \<noteq> i \<Longrightarrow> load32 (store32 m (4 * i) w) (4 * k) = load32 m (4 * k)"
  "k \<noteq> i \<Longrightarrow> load32 (store32 m (b + 4 * i) w) (b + 4 * k) = load32 m (b + 4 * k)"
  by (rule load32_store32_other, arith)+

lemma used_frames_disjoint:
  "used_frame pb p \<Longrightarrow> used_frame pb' q \<Longrightarrow> p \<noteq> q \<Longrightarrow>
     unat p + 4096 \<le> unat q \<or> unat q + 4096 \<le> unat p"
  by (metis aligned_disjoint used_frame_def word_eq_iff_unsigned)

lemma used_frame_bounds: "used_frame pb p \<Longrightarrow> 4096 \<le> unat p \<and> unat p + 4096 \<le> MEMSIZE"
proof -
  assume p: "used_frame pb p"
  have "unat p \<noteq> 0" using p by (simp add: used_frame_def unat_0_iff)
  then show ?thesis
    using p aligned_disjoint [of "unat p" 0] aligned_disjoint [of "unat p" MEMSIZE]
    by (auto simp: used_frame_def MEMSIZE_def)
qed

lemma walk_eqI:
  assumes "\<And>i. i < 1024 \<Longrightarrow> pde_of s' i = pde_of s i"
    and "\<And>i j. i < 1024 \<Longrightarrow> j < 1024 \<Longrightarrow> pde_of s i \<noteq> 0 \<Longrightarrow> pte_of s' i j = pte_of s i j"
  shows "walk s' = walk s"
proof
  fix v
  show "walk s' v = walk s v"
    using assms(1) [of "v div 1024"] assms(2) [of "v div 1024" "v mod 1024"]
    by (auto simp: walk_def less_mult_imp_div_less)
qed

text \<open>Memory that differs only outside the directory and the tables gives the same page map.\<close>

lemma tables_unchanged:
  assumes inv: "frames_inv (pde_of s) (walk s) pb vb"
    and same: "\<And>x. x < 4096 \<Longrightarrow> phys_mem s' x = phys_mem s x"
      "\<And>i x. i < 1024 \<Longrightarrow> pde_of s i \<noteq> 0 \<Longrightarrow> unat (pde_of s i) \<le> x \<Longrightarrow> x < unat (pde_of s i) + 4096 \<Longrightarrow>
         phys_mem s' x = phys_mem s x"
  shows "walk s' = walk s" and "i < 1024 \<Longrightarrow> pde_of s' i = pde_of s i"
proof -
  have P: "pde_of s' i = pde_of s i" if "i < 1024" for i
    unfolding pde_of_def using that same(1) by (intro load32_cong) auto
  then show "i < 1024 \<Longrightarrow> pde_of s' i = pde_of s i" .
  have "pte_of s' i j = pte_of s i j" if "i < 1024" "j < 1024" "pde_of s i \<noteq> 0" for i j
    unfolding pte_of_def P [OF that(1)] using that same(2) [of i] by (intro load32_cong) auto
  then show "walk s' = walk s"
    using P by (intro walk_eqI) auto
qed

text \<open>Writing one page-table entry.\<close>

lemma write_pte:
  assumes inv: "frames_inv (pde_of s) (walk s) pb vb"
    and i: "i < 1024" "pde_of s i \<noteq> 0" and j: "j < 1024"
    and mem: "phys_mem s' = store32 (phys_mem s) (unat (pde_of s i) + 4 * j) w"
  shows "k < 1024 \<Longrightarrow> pde_of s' k = pde_of s k"
    and "walk s' = (walk s)(1024 * i + j := if w = 0 then None else Some w)"
proof -
  note D = frames_invD [OF inv]
  have Pi: "used_frame pb (pde_of s i)" using D(2) i by blast
  have P: "pde_of s' k = pde_of s k" if "k < 1024" for k
    using that used_frame_bounds [OF Pi] by (simp add: pde_of_def mem load32_store32_other)
  then show "k < 1024 \<Longrightarrow> pde_of s' k = pde_of s k" .
  have other: "pte_of s' k l = pte_of s k l"
    if "k < 1024" "l < 1024" "pde_of s k \<noteq> 0" "k \<noteq> i \<or> l \<noteq> j" for k l
  proof (cases "k = i")
    case True
    then show ?thesis using that i P by (auto simp: pte_of_def mem load32_store32_index)
  next
    case False
    then have "pde_of s k \<noteq> pde_of s i" using D(3) i that by metis
    with used_frames_disjoint [OF D(2) Pi] that
    have "unat (pde_of s k) + 4096 \<le> unat (pde_of s i) \<or>
        unat (pde_of s i) + 4096 \<le> unat (pde_of s k)"
      by simp
    then show ?thesis using that j P by (auto simp: pte_of_def mem load32_store32_other)
  qed
  have here: "pte_of s' i j = w" using i P by (simp add: pte_of_def mem)
  show "walk s' = (walk s)(1024 * i + j := if w = 0 then None else Some w)"
  proof
    fix v
    have v: "v = 1024 * i + j \<longleftrightarrow> v div 1024 = i \<and> v mod 1024 = j"
      using j vpn_split [of v] by auto
    show "walk s' v = ((walk s)(1024 * i + j := if w = 0 then None else Some w)) v"
      using i j here P [of "v div 1024"] other [of "v div 1024" "v mod 1024"]
      by (cases "v = 1024 * i + j") (auto simp: walk_def v less_mult_imp_div_less)
  qed
qed

text \<open>A new, zeroed page table.\<close>

lemma write_table:
  assumes inv: "frames_inv (pde_of s) (walk s) pb vb"
    and i: "i < 1024" "pde_of s i = 0"
    and p: "used_frame pb' p" "\<And>k. k < 1024 \<Longrightarrow> pde_of s k \<noteq> p"
    and mem: "phys_mem s' = store32 (fill_bytes (phys_mem s) (unat p) 0 4096) (4 * i) p"
  shows "k < 1024 \<Longrightarrow> pde_of s' k = (if k = i then p else pde_of s k)"
    and "walk s' = walk s"
proof -
  note D = frames_invD [OF inv]
  have fill: "load32 (fill_bytes (phys_mem s) (unat p) 0 4096) a = load32 (phys_mem s) a"
    if "a + 4 \<le> unat p \<or> unat p + 4096 \<le> a" for a
    using that by (intro load32_cong) (auto simp: fill_bytes_def)
  have P: "pde_of s' k = (if k = i then p else pde_of s k)" if "k < 1024" for k
    using that i used_frame_bounds [OF p(1)]
    by (auto simp: pde_of_def mem load32_store32_index fill)
  then show "k < 1024 \<Longrightarrow> pde_of s' k = (if k = i then p else pde_of s k)" .
  have old: "pte_of s' k l = pte_of s k l" if "k < 1024" "l < 1024" "pde_of s k \<noteq> 0" for k l
  proof -
    have "unat (pde_of s k) + 4096 \<le> unat p \<or> unat p + 4096 \<le> unat (pde_of s k)"
      using used_frames_disjoint [OF D(2) p(1)] that p(2) by simp
    moreover have "4096 \<le> unat (pde_of s k)"
      using used_frame_bounds [OF D(2)] that by simp
    moreover have "k \<noteq> i" using that i by auto
    ultimately show ?thesis
      using that i P [OF that(1)] by (auto simp: pte_of_def mem load32_store32_other fill)
  qed
  have new: "pte_of s' i l = 0" if "l < 1024" for l
    using that i used_frame_bounds [OF p(1)] P [OF i(1)]
    by (simp add: pte_of_def mem load32_store32_other load32_fill_zero)
  show "walk s' = walk s"
  proof
    fix v
    show "walk s' v = walk s v"
      using i P [of "v div 1024"] old [of "v div 1024" "v mod 1024"] new [of "v mod 1024"]
      by (cases "v div 1024 = i") (auto simp: walk_def less_mult_imp_div_less)
  qed
qed

end
