(* ===== verification/VM_Translate.thy ===== *)
theory VM_Translate
  imports VM_PageTable
begin

text \<open>
  What \<open>translate\<close> and \<open>map_page\<close> do to the abstract page map: a translation is the page walk
  whatever the TLB holds, and mapping a page adds exactly that page and touches no data frame.
\<close>

section \<open>Dependence on the state\<close>

lemma table_view_cong:
  assumes "phys_mem s' = phys_mem s"
  shows "pde_of s' = pde_of s" and "pte_of s' = pte_of s" and "walk s' = walk s"
proof -
  show P: "pde_of s' = pde_of s" by (simp add: pde_of_def assms fun_eq_iff)
  show Q: "pte_of s' = pte_of s" by (simp add: pte_of_def assms P fun_eq_iff)
  show "walk s' = walk s" by (simp add: walk_def P Q fun_eq_iff)
qed

lemma table_view_updates [simp]:
  "pde_of (s\<lparr>tlb_store := t\<rparr>) = pde_of s" "walk (s\<lparr>tlb_store := t\<rparr>) = walk s"
  "pde_of (s\<lparr>tlb_lookups := l\<rparr>) = pde_of s" "walk (s\<lparr>tlb_lookups := l\<rparr>) = walk s"
  "pde_of (s\<lparr>tlb_misses := l\<rparr>) = pde_of s" "walk (s\<lparr>tlb_misses := l\<rparr>) = walk s"
  "pde_of (s\<lparr>phys_bitmap := b\<rparr>) = pde_of s" "walk (s\<lparr>phys_bitmap := b\<rparr>) = walk s"
  "pde_of (s\<lparr>virt_bitmap := b\<rparr>) = pde_of s" "walk (s\<lparr>virt_bitmap := b\<rparr>) = walk s"
  by (rule table_view_cong; simp)+

lemma vm_invD:
  assumes "vm_inv s"
  shows "phys_ready s" "page_dir s = Some 0" "num_phys_pages s = 262144" "num_virt_pages s = 1048576"
    "frames_inv (pde_of s) (walk s) (bit_at (phys_bitmap s)) (bit_at (virt_bitmap s))"
    "tlb_ok (tlb_store s)" "tlb_map (tlb_store s) \<subseteq>\<^sub>m (\<lambda>x. walk s (unat x))"
  using assms by (simp_all add: vm_inv_def)

lemmas vm_frames = vm_invD(5) [THEN frames_invD(2)] vm_invD(5) [THEN frames_invD(5)]

lemma vm_inv_tlb:
  "vm_inv s \<Longrightarrow> tlb_ok t \<Longrightarrow> tlb_map t \<subseteq>\<^sub>m (\<lambda>x. walk s (unat x)) \<Longrightarrow>
     vm_inv (s\<lparr>tlb_lookups := l, tlb_misses := m, tlb_store := t\<rparr>)"
  by (simp add: vm_inv_def)

lemma vm_inv_counters:
  "vm_inv s \<Longrightarrow> vm_inv (s\<lparr>tlb_lookups := l\<rparr>)" "vm_inv s \<Longrightarrow> vm_inv (s\<lparr>tlb_misses := l\<rparr>)"
  by (simp_all add: vm_inv_def)

text \<open>The bytes of the mapped pages are unchanged.\<close>

definition data_same :: "vm \<Rightarrow> vm \<Rightarrow> bool" where
  "data_same s s' \<longleftrightarrow>
     (\<forall>v p x. walk s v = Some p \<longrightarrow> unat p \<le> x \<longrightarrow> x < unat p + 4096 \<longrightarrow>
        phys_mem s' x = phys_mem s x)"

lemma data_same_refl [simp]: "data_same s s"
  by (simp add: data_same_def)

lemma data_same_mem: "phys_mem s' = phys_mem s \<Longrightarrow> data_same s s'"
  by (simp add: data_same_def)

lemma data_same_trans:
  assumes "data_same s s1" "data_same s1 s2" "walk s \<subseteq>\<^sub>m walk s1"
  shows "data_same s s2"
  using assms unfolding data_same_def by (metis map_leD)

section \<open>The fresh machine satisfies the invariant\<close>

lemma pde_of_booted: "i < 1024 \<Longrightarrow> pde_of (vm_booted h) i = 0"
  by (simp add: pde_of_def vm_booted_def load32_fill_zero)

lemma walk_booted: "walk (vm_booted h) = Map.empty"
  by (auto simp: walk_def pde_of_booted less_mult_imp_div_less fun_eq_iff)

lemma vm_inv_booted: "vm_inv (vm_booted h)"
proof -
  have "frames_inv (pde_of (vm_booted h)) Map.empty (bit_at (phys_bitmap (vm_booted h)))
          (bit_at (virt_bitmap (vm_booted h)))"
    by (simp add: frames_inv_def pde_of_booted) (simp add: vm_booted_def bitmap_simps)
  moreover have "tlb_store (vm_booted h) = tlb_reset (tlb_store (vm_start h True))"
    by (simp add: vm_booted_def)
  ultimately show ?thesis
    by (simp add: vm_inv_def walk_booted tlb_ok_reset tlb_map_reset) (simp add: vm_booted_def)
qed

section \<open>Address arithmetic\<close>

lemma PDX_less [simp]: "unat (PDX va) < 1024"
  by (simp add: unat_PDX less_mult_imp_div_less)

lemma PTX_less [simp]: "unat (PTX va) < 1024"
  by (simp add: unat_PTX)

lemma PDX_PTX_vpn: "1024 * unat (PDX va) + unat (PTX va) = vpn_of va"
  by (simp add: unat_PDX unat_PTX)

lemma unat_shift_vpn: "unat (drop_bit PFN_SHIFT va) = vpn_of va"
  by (simp add: unat_shift_PFN vpn_of_def)

lemma unat_eq_vpn_iff: "unat (x :: u32) = vpn_of va \<longleftrightarrow> x = drop_bit PFN_SHIFT va"
  by (metis unat_shift_vpn word_eq_iff_unsigned)

lemma walk_va:
  "walk s (vpn_of va) =
     (if pde_of s (unat (PDX va)) \<noteq> 0 \<and> pte_of s (unat (PDX va)) (unat (PTX va)) \<noteq> 0
      then Some (pte_of s (unat (PDX va)) (unat (PTX va))) else None)"
  by (simp add: walk_def unat_PDX unat_PTX)

section \<open>translate\<close>

lemma read_pde_inv:
  "vm_inv s \<Longrightarrow> i < 1024 \<Longrightarrow> read_pde s (page_dir s) i = Some (pde_of s i)"
  by (simp add: read_pde_def vm_invD ld32_def in_phys_def MEMSIZE_def pde_of_def)

lemma read_pde_0_inv:
  "vm_inv s \<Longrightarrow> i < 1024 \<Longrightarrow> read_pde s (Some 0) i = Some (pde_of s i)"
  using read_pde_inv [of s i] by (simp add: vm_invD)

lemma ld32_pte_inv:
  assumes "vm_inv s" "i < 1024" "j < 1024" "pde_of s i \<noteq> 0"
  shows "ld32 s (unat (pde_of s i) + 4 * j) = Some (pte_of s i j)"
  using used_frame_bounds [OF vm_frames(1) [OF assms(1,2,4)]] assms
  by (simp add: ld32_def in_phys_def pte_of_def vm_invD)

lemma translate_spec:
  assumes inv: "vm_inv s"
  obtains r t l m where
    "translate s (page_dir s) va = Some (r, s\<lparr>tlb_lookups := l, tlb_misses := m, tlb_store := t\<rparr>)"
    "vm_inv (s\<lparr>tlb_lookups := l, tlb_misses := m, tlb_store := t\<rparr>)"
    "walk s (vpn_of (VA2U va)) = None \<Longrightarrow> r = None"
    "\<And>p. walk s (vpn_of (VA2U va)) = Some p \<Longrightarrow>
       \<exists>ref. r = Some ref \<and>
         deref_pte (s\<lparr>tlb_lookups := l, tlb_misses := m, tlb_store := t\<rparr>) ref = Some p"
proof (cases "TLB_check (tlb_store s) va")
  case (Some i)
  note hit = TLB_check_SomeD [OF Some]
  have w: "walk s (vpn_of (VA2U va)) = Some (te_pte (tlb_entries (tlb_store s) i))"
    using map_leD [OF hit(3) vm_invD(7) [OF inv]] by (simp add: unat_shift_vpn)
  show ?thesis
    by (rule that [where r = "Some (TlbPte i)" and t = "tlb_store s"
            and l = "tlb_lookups s + 1" and m = "tlb_misses s"])
      (use Some w inv in \<open>auto simp: translate_def deref_pte_def intro: vm_inv_counters\<close>)
next
  case None
  let ?u = "VA2U va" and ?s2 = "s\<lparr>tlb_lookups := tlb_lookups s + 1, tlb_misses := tlb_misses s + 1\<rparr>"
  have inv2: "vm_inv ?s2" using inv by (simp add: vm_inv_def)
  have pd: "read_pde ?s2 (page_dir s) (unat (PDX ?u)) = Some (pde_of s (unat (PDX ?u)))"
    using read_pde_inv [OF inv2, of "unat (PDX ?u)"] by simp
  have pt: "ld32 ?s2 (unat (pde_of s (unat (PDX ?u))) + 4 * unat (PTX ?u))
      = Some (pte_of s (unat (PDX ?u)) (unat (PTX ?u)))" if "pde_of s (unat (PDX ?u)) \<noteq> 0"
    using ld32_pte_inv [OF inv2, of "unat (PDX ?u)" "unat (PTX ?u)"] that
    by (simp add: pte_of_def)
  show ?thesis
  proof (cases "walk s (vpn_of ?u)")
    case None': None
    show ?thesis
      by (rule that [where r = None and t = "tlb_store s"
            and l = "tlb_lookups s + 1" and m = "tlb_misses s + 1"])
        (use None None' inv2 pd pt in \<open>auto simp: translate_def Let_def walk_va split: if_splits\<close>)
  next
    case (Some p)
    then have p: "pde_of s (unat (PDX ?u)) \<noteq> 0" "p = pte_of s (unat (PDX ?u)) (unat (PTX ?u))" "p \<noteq> 0"
      by (auto simp: walk_va split: if_splits)
    let ?t = "snd (TLB_add (tlb_store s) va (U2VA p))"
    have t: "tlb_ok ?t" "tlb_map ?t \<subseteq>\<^sub>m (\<lambda>x. walk s (unat x))"
      using tlb_cache.coherent_fill [of "tlb_store s" "\<lambda>x. walk s (unat x)" va "U2VA p"] Some
      by (simp_all add: tlb_ok_add vm_invD [OF inv] unat_shift_vpn)
    show ?thesis
      by (rule that [where r = "Some (MemPte (unat (pde_of s (unat (PDX ?u))) + 4 * unat (PTX ?u)))"
            and t = ?t and l = "tlb_lookups s + 1" and m = "tlb_misses s + 1"])
        (use None p pd pt Some vm_inv_tlb [OF inv t] in
          \<open>auto simp: translate_def Let_def deref_pte_def ld32_def in_phys_def split: if_splits\<close>)
  qed
qed

section \<open>Counting frames\<close>

text \<open>Frames that are free, and page tables that a mapping may still have to make.\<close>

definition free_frames :: "vm \<Rightarrow> nat" where
  "free_frames s = card {f. f < 262144 \<and> \<not> bit_at (phys_bitmap s) f}"

definition missing_tables :: "vm \<Rightarrow> nat" where
  "missing_tables s = card {i. i < 1024 \<and> pde_of s i = 0}"

lemma card_bounded_drop:
  assumes "i < (n :: nat)" "P i" "\<And>k. k < n \<Longrightarrow> Q k \<longleftrightarrow> P k \<and> k \<noteq> i"
  shows "card {k. k < n \<and> P k} = Suc (card {k. k < n \<and> Q k})"
proof -
  have "{k. k < n \<and> P k} = insert i {k. k < n \<and> Q k}" using assms by auto
  then show ?thesis using assms by simp
qed

lemma free_frames_take:
  "f < 262144 \<Longrightarrow> \<not> bit_at (phys_bitmap s) f \<Longrightarrow> phys_bitmap s' = set_bit (phys_bitmap s) f \<Longrightarrow>
     free_frames s = Suc (free_frames s')"
  unfolding free_frames_def by (rule card_bounded_drop) (auto simp: bitmap_simps)

lemma free_frames_cong:
  "(\<And>f. bit_at (phys_bitmap s') f = bit_at (phys_bitmap s) f) \<Longrightarrow> free_frames s' = free_frames s"
  by (simp add: free_frames_def)

lemma missing_tables_add:
  "i < 1024 \<Longrightarrow> pde_of s i = 0 \<Longrightarrow> p \<noteq> 0 \<Longrightarrow>
     (\<And>k. k < 1024 \<Longrightarrow> pde_of s' k = (if k = i then p else pde_of s k)) \<Longrightarrow>
     missing_tables s = Suc (missing_tables s')"
  unfolding missing_tables_def by (rule card_bounded_drop) auto

lemma missing_tables_cong:
  "(\<And>k. k < 1024 \<Longrightarrow> pde_of s' k = pde_of s k) \<Longrightarrow> missing_tables s' = missing_tables s"
  unfolding missing_tables_def by (metis (lifting))

lemma free_frames_0: "(\<And>f. f < 262144 \<Longrightarrow> bit_at (phys_bitmap s) f) \<Longrightarrow> free_frames s = 0"
  by (simp add: free_frames_def)

lemma missing_tables_pos: "i < 1024 \<Longrightarrow> pde_of s i = 0 \<Longrightarrow> 0 < missing_tables s"
  unfolding missing_tables_def by (subst card_gt_0_iff) auto

section \<open>map\_page\<close>

lemma vm_inv_phys_mark:
  assumes "vm_inv s"
  shows "vm_inv (s\<lparr>phys_bitmap := set_bit (phys_bitmap s) f\<rparr>)"
  using assms by (auto simp: vm_inv_def bitmap_simps elim!: frames_inv_mono)

lemma unused_frame_unowned:
  assumes "vm_inv s" "\<not> bit_at (phys_bitmap s) (unat p div 4096)"
  shows "p \<noteq> 0" and "i < 1024 \<Longrightarrow> pde_of s i \<noteq> p" and "walk s v \<noteq> Some p"
proof -
  note D = frames_invD [OF vm_invD(5) [OF assms(1)]]
  show "p \<noteq> 0" using D(1) assms(2) by auto
  then show "i < 1024 \<Longrightarrow> pde_of s i \<noteq> p" using D(2) assms(2) by (auto simp: used_frame_def)
  show "walk s v \<noteq> Some p" using D(5) [of v p] assms(2) by (auto simp: used_frame_def)
qed

text \<open>A freshly allocated frame is nobody's.\<close>

lemma allocate_spec:
  assumes inv: "vm_inv s"
  obtains
    (none) "allocate_phys_page s = (INVALID_PA, s)" "\<And>f. f < 262144 \<Longrightarrow> bit_at (phys_bitmap s) f"
  | (some) p f where "allocate_phys_page s = (p, s\<lparr>phys_bitmap := set_bit (phys_bitmap s) f\<rparr>)"
      "p \<noteq> INVALID_PA" "f < 262144" "unat p = 4096 * f" "\<not> bit_at (phys_bitmap s) f"
      "vm_inv (s\<lparr>phys_bitmap := set_bit (phys_bitmap s) f\<rparr>)"
      "used_frame (bit_at (set_bit (phys_bitmap s) f)) p"
      "\<And>i. i < 1024 \<Longrightarrow> pde_of s i \<noteq> p" "\<And>v. walk s v \<noteq> Some p"
proof -
  consider (n) "allocate_phys_page s = (INVALID_PA, s)" "\<And>f. f < 262144 \<Longrightarrow> bit_at (phys_bitmap s) f"
    | (y) f where "f < 262144" "\<not> bit_at (phys_bitmap s) f" "\<And>g. g < f \<Longrightarrow> bit_at (phys_bitmap s) g"
      "allocate_phys_page s = (of_nat f * of_nat PGSIZE, s\<lparr>phys_bitmap := set_bit (phys_bitmap s) f\<rparr>)"
    using allocate_phys_page_cases [OF vm_invD(3) [OF inv]] by blast
  then show thesis
  proof cases
    case n
    then show thesis by (rule none)
  next
    case (y f)
    let ?p = "of_nat f * of_nat PGSIZE :: u32"
    have p: "unat ?p = 4096 * f" using unat_frame_addr [OF y(1)] by simp
    then have "\<not> bit_at (phys_bitmap s) (unat ?p div 4096)" using y(2) by simp
    note own = unused_frame_unowned [OF inv this]
    have "used_frame (bit_at (set_bit (phys_bitmap s) f)) ?p"
      using own(1) p y(1) by (simp add: used_frame_def bitmap_simps MEMSIZE_def)
    with y p own show thesis
      using some [of ?p f] frame_addr_not_invalid [OF y(1)] vm_inv_phys_mark [OF inv] by blast
  qed
qed

lemma table_frames_disjoint_data:
  assumes "frames_inv P W pb vb" "W v = Some p" "used_frame pb' q" "p \<noteq> q"
  shows "unat p + 4096 \<le> unat q \<or> unat q + 4096 \<le> unat p"
  using used_frames_disjoint [OF frames_invD(5) [OF assms(1,2)] assms(3,4)] .

lemma data_above_directory: "frames_inv P W pb vb \<Longrightarrow> W v = Some p \<Longrightarrow> 4096 \<le> unat p"
  using used_frame_bounds [OF frames_invD(5)] by blast

lemma ensure_table_spec:
  assumes inv: "vm_inv s" and i: "i < 1024"
  obtains
    (full) "ensure_table s (page_dir s) i = Some (None, s)" "pde_of s i = 0"
      "\<And>f. f < 262144 \<Longrightarrow> bit_at (phys_bitmap s) f"
  | (table) p s1 where "ensure_table s (page_dir s) i = Some (Some p, s1)" "vm_inv s1"
      "p \<noteq> 0" "pde_of s1 i = p" "walk s1 = walk s" "virt_bitmap s1 = virt_bitmap s"
      "tlb_store s1 = tlb_store s" "data_same s s1"
      "\<And>f. bit_at (phys_bitmap s) f \<Longrightarrow> bit_at (phys_bitmap s1) f"
      "\<And>k. k < 1024 \<Longrightarrow> pde_of s1 k = pde_of s k \<or>
              \<not> bit_at (phys_bitmap s) (unat (pde_of s1 k) div 4096)"
      "free_frames s1 + missing_tables s = free_frames s + missing_tables s1"
proof (cases "pde_of s i = 0")
  case False
  then show thesis
    using inv i by (intro table [of "pde_of s i" s]) (auto simp: ensure_table_def read_pde_inv)
next
  case True
  note D = vm_invD [OF inv]
  from inv show thesis
  proof (cases rule: allocate_spec)
    case none
    then show thesis
      using inv i True by (intro full) (auto simp: ensure_table_def read_pde_inv)
  next
    case (some p f)
    let ?s1 = "s\<lparr>phys_bitmap := set_bit (phys_bitmap s) f\<rparr>"
    let ?s3 = "?s1\<lparr>phys_mem := store32 (fill_bytes (phys_mem s) (unat p) 0 4096) (4 * i) p\<rparr>"
    have bounds: "4096 \<le> unat p" "unat p + 4096 \<le> MEMSIZE"
      using used_frame_bounds [OF some(7)] by auto
    have run: "ensure_table s (page_dir s) i = Some (Some p, ?s3)"
      using inv i True some(1,2) bounds
      by (simp add: ensure_table_def read_pde_0_inv write_pde_def D memset0_page_def st32_def in_phys_def
          PGSIZE_def MEMSIZE_def)
    note wt = write_table [OF D(5) i True some(7,8), of ?s3]
    have inv3: "vm_inv ?s3"
    proof -
      have "frames_inv (pde_of ?s3) (walk s) (bit_at (set_bit (phys_bitmap s) f))
              (bit_at (virt_bitmap s))"
        using vm_invD(5) [OF some(6)] some(7,8,9) wt(1)
        by (intro frames_inv_add_table [of "pde_of s" "walk s" _ _ "pde_of ?s3" i p]) auto
      then show ?thesis
        using inv wt(2) by (simp add: vm_inv_def)
    qed
    have "data_same s ?s3"
      unfolding data_same_def
    proof (intro allI impI)
      fix v q x assume "walk s v = Some q" "unat q \<le> x" "x < unat q + 4096"
      moreover from this have "unat q + 4096 \<le> unat p \<or> unat p + 4096 \<le> unat q"
        using table_frames_disjoint_data [OF D(5) _ some(7), of v q] some(9) [of v] by auto
      ultimately show "phys_mem ?s3 x = phys_mem s x"
        using data_above_directory [OF D(5), of v q] i by (auto simp: mem_simps)
    qed
    moreover have p0: "p \<noteq> 0" using some(7) by (simp add: used_frame_def)
    moreover have "free_frames ?s3 + missing_tables s = free_frames s + missing_tables ?s3"
      using free_frames_take [OF some(3,5), of ?s3] missing_tables_add [OF i True p0 wt(1)] by simp
    ultimately show thesis
      using run inv3 wt some(4,5) i
      by (intro table [of p ?s3]) (auto simp: bitmap_simps)
  qed
qed

lemma in_range_bits:
  "vm_inv s \<Longrightarrow> f < 262144 \<Longrightarrow> phys_bit_ok s f" "vm_inv s \<Longrightarrow> v < 1048576 \<Longrightarrow> virt_bit_ok s v"
  by (simp_all add: phys_bit_ok_def virt_bit_ok_def vm_invD)

lemma used_frame_number: "used_frame pb p \<Longrightarrow> unat p div 4096 < 262144"
  by (simp add: used_frame_def MEMSIZE_def less_mult_imp_div_less)

lemma map_page_spec:
  assumes inv: "vm_inv s"
    and pa: "used_frame (bit_at (phys_bitmap s)) (VA2U pa)"
      "\<forall>i < 1024. pde_of s i \<noteq> VA2U pa" "\<And>v. walk s v \<noteq> Some (VA2U pa)"
    and va: "walk s (vpn_of (VA2U va)) = None"
  obtains
    (full) "map_page s (page_dir s) va pa = Some (- 1, s)" "pde_of s (unat (PDX (VA2U va))) = 0"
      "\<And>f. f < 262144 \<Longrightarrow> bit_at (phys_bitmap s) f"
  | (mapped) s' where "map_page s (page_dir s) va pa = Some (0, s')" "vm_inv s'"
      "walk s' = (walk s)(vpn_of (VA2U va) := Some (VA2U pa))"
      "\<And>v. bit_at (virt_bitmap s') v \<longleftrightarrow> v = vpn_of (VA2U va) \<or> bit_at (virt_bitmap s) v"
      "\<And>f. bit_at (phys_bitmap s) f \<Longrightarrow> bit_at (phys_bitmap s') f"
      "data_same s s'" "free_frames s' + missing_tables s = free_frames s + missing_tables s'"
proof -
  let ?va = "VA2U va" and ?pa = "VA2U pa"
  let ?i = "unat (PDX ?va)" and ?j = "unat (PTX ?va)" and ?v = "vpn_of ?va"
  from inv have "?i < 1024" by simp
  from inv this show thesis
  proof (cases rule: ensure_table_spec)
    case full
    then show thesis
      by (intro that(1)) (auto simp: map_page_def)
  next
    case (table p s1)
    note D1 = vm_invD [OF table(2)]
    let ?a = "unat p + 4 * ?j"
    let ?m = "store32 (phys_mem s1) ?a ?pa"
    let ?t = "snd (TLB_add (tlb_store s1) va pa)"
    let ?s' = "s1\<lparr>phys_mem := ?m,
        phys_bitmap := set_bit (phys_bitmap s1) (unat (drop_bit PFN_SHIFT ?pa)),
        virt_bitmap := set_bit (virt_bitmap s1) ?v,
        tlb_lookups := tlb_lookups s1 + 1, tlb_misses := tlb_misses s1 + 1, tlb_store := ?t\<rparr>"
    have p: "used_frame (bit_at (phys_bitmap s1)) p"
      using vm_frames(1) [OF table(2) \<open>?i < 1024\<close>] table(3,4) by simp
    have pa1: "used_frame (bit_at (phys_bitmap s1)) ?pa"
      using pa(1) by (rule used_frame_mono) (rule table(9))
    have pa_num: "unat (drop_bit PFN_SHIFT ?pa) < 262144"
      using used_frame_number [OF pa1] by (simp add: unat_shift_PFN)
    have pa_dir: "pde_of s1 k \<noteq> ?pa" if "k < 1024" for k
      using table(10) [OF that] pa(1,2) that by (auto simp: used_frame_def)
    have "unat p + 4 * ?j + 4 \<le> MEMSIZE"
      using used_frame_bounds [OF p] PTX_less [of ?va] by linarith
    moreover have "?v div 8 < 131072" "vpn_of ?pa div 8 < 32768"
      using pa_num vpn_of_less [of ?va] by (simp_all add: less_mult_imp_div_less unat_shift_vpn)
    ultimately have run: "map_page s (page_dir s) va pa = Some (0, ?s')"
      using table(1) D1
      by (simp add: map_page_def Let_def st32_def in_phys_def set_phys_bit_def set_virt_bit_def
          phys_bit_ok_def virt_bit_ok_def unat_shift_vpn)
    have "?pa \<noteq> 0" using pa(1) by (simp add: used_frame_def)
    then have W: "walk ?s' = (walk s)(?v := Some ?pa)" and P: "\<And>k. k < 1024 \<Longrightarrow> pde_of ?s' k = pde_of s1 k"
      using write_pte [OF D1(5), of ?i ?j ?s' ?pa] table(3,4,5) by (auto simp: PDX_PTX_vpn)
    have frames: "frames_inv (pde_of ?s') (walk ?s') (bit_at (phys_bitmap ?s')) (bit_at (virt_bitmap ?s'))"
      unfolding W table(5) [symmetric]
    proof (rule frames_inv_add_page)
      show "frames_inv (pde_of s1) (walk s1) (bit_at (phys_bitmap ?s')) (bit_at (virt_bitmap ?s'))"
        using D1(5) by (rule frames_inv_mono) (auto simp: bitmap_simps)
      show "used_frame (bit_at (phys_bitmap ?s')) ?pa"
        using pa1 by (rule used_frame_mono) (auto simp: bitmap_simps)
    qed (use P pa_dir pa(3) table(5) in \<open>auto simp: bitmap_simps\<close>)
    have tlb: "tlb_ok ?t" "tlb_map ?t \<subseteq>\<^sub>m (\<lambda>x. walk ?s' (unat x))"
    proof -
      let ?m' = "(\<lambda>x. walk s (unat x)) (drop_bit PFN_SHIFT ?va := Some ?pa)"
      have m': "(\<lambda>x. walk ?s' (unat x)) = ?m'"
        unfolding W by (auto simp: fun_eq_iff unat_eq_vpn_iff)
      have "tlb_map (tlb_store s1) \<subseteq>\<^sub>m ?m'"
        using D1(7) va by (intro map_le_extend) (simp_all add: table(5) unat_shift_vpn)
      then show "tlb_map ?t \<subseteq>\<^sub>m (\<lambda>x. walk ?s' (unat x))"
        unfolding m' by (intro tlb_cache.coherent_fill) (simp_all add: D1(6))
      show "tlb_ok ?t" by (simp add: tlb_ok_add D1(6))
    qed
    have inv': "vm_inv ?s'"
      using D1 frames tlb unfolding vm_inv_def by simp
    have "data_same s ?s'"
      unfolding data_same_def
    proof (intro allI impI)
      fix w q x assume q: "walk s w = Some q" "unat q \<le> x" "x < unat q + 4096"
      have "p \<noteq> q" using frames_invD(8) [OF D1(5), of w q ?i] q(1) table(4,5) by auto
      then have "unat q + 4096 \<le> unat p \<or> unat p + 4096 \<le> unat q"
        using table_frames_disjoint_data [OF D1(5) _ p, of w q] q(1) table(5) by auto
      then have "phys_mem ?s' x = phys_mem s1 x"
        using q PTX_less [of ?va] by (auto simp: mem_simps simp del: PTX_less)
      also have "\<dots> = phys_mem s x"
        using table(8) q by (simp add: data_same_def)
      finally show "phys_mem ?s' x = phys_mem s x" .
    qed
    moreover have "free_frames ?s' + missing_tables s = free_frames s + missing_tables ?s'"
    proof -
      have "bit_at (phys_bitmap s1) (unat (drop_bit PFN_SHIFT ?pa))"
        using pa1 by (simp add: used_frame_def unat_shift_PFN)
      then have "free_frames ?s' = free_frames s1"
        by (intro free_frames_cong) (auto simp: bitmap_simps)
      then show ?thesis
        using table(11) missing_tables_cong [OF P] by simp
    qed
    ultimately show thesis
      using run inv' W
      by (intro that(2) [of ?s']) (auto simp: bitmap_simps table(6,9))
  qed
qed

end
