(* ===== verification/VM_Alloc.thy ===== *)
theory VM_Alloc
  imports VM_Translate
begin

text \<open>
  Allocation in the simulated address space: the search for a run of free virtual pages
  (\<open>get_next_avail\<close>), \<open>n_malloc\<close>, \<open>page_table_empty\<close> and \<open>n_free\<close>.
\<close>

section \<open>get\_next\_avail\<close>

text \<open>
  The search loop at page \<open>vpn\<close> with \<open>free_pages\<close> free pages seen in a row. All numbers stay
  below \<open>2 ^ 20\<close>, and \<open>free_pages \<ge> num_pages\<close> gives \<open>vpn + 1 \<ge> num_pages\<close>, so the unsigned
  arithmetic of the loop does not wrap.
\<close>

function avail_loop :: "mem \<Rightarrow> nat \<Rightarrow> nat \<Rightarrow> nat \<Rightarrow> nat \<Rightarrow> nat option" where
  "avail_loop b n num_pages vpn free_pages =
     (if vpn < n then
        let free' = (if get_bit b vpn = 1 then 0 else free_pages + 1)
        in if free' \<ge> num_pages then Some (vpn + 1 - num_pages)
           else avail_loop b n num_pages (vpn + 1) free'
      else None)"
  by pat_completeness auto
termination
  by (relation "measure (\<lambda>(b, n, num, vpn, free). n - vpn)") auto

declare avail_loop.simps [simp del]

primrec set_run :: "mem \<Rightarrow> nat \<Rightarrow> nat \<Rightarrow> mem" where
  "set_run b start 0 = b"
| "set_run b start (Suc n) = set_bit (set_run b start n) (start + n)"

text \<open>\<open>num_pages\<close> is the \<open>int\<close> argument as the comparisons read it, converted to unsigned.\<close>

definition get_next_avail :: "vm \<Rightarrow> u32 \<Rightarrow> ptr \<times> vm" where
  "get_next_avail s num_pages =
     (case avail_loop (virt_bitmap s) (num_virt_pages s) (unat num_pages) 1 0 of
        Some start_vpn \<Rightarrow>
          (U2VA (push_bit PFN_SHIFT (of_nat start_vpn)),
           s\<lparr>virt_bitmap := set_run (virt_bitmap s) start_vpn (unat num_pages)\<rparr>)
      | None \<Rightarrow> (0, s))"

section \<open>n\_free\<close>

function page_table_empty_from :: "vm \<Rightarrow> nat \<Rightarrow> nat \<Rightarrow> bool option" where
  "page_table_empty_from s page_table i =
     (if i < 1024 then
        do { e \<leftarrow> ld32 s (page_table + 4 * i);
             if e \<noteq> 0 then Some False else page_table_empty_from s page_table (Suc i) }
      else Some True)"
  by pat_completeness auto
termination
  by (relation "measure (\<lambda>(s, p, i). 1024 - i)") auto

declare page_table_empty_from.simps [simp del]

definition page_table_empty :: "vm \<Rightarrow> nat \<Rightarrow> bool option" where
  "page_table_empty s page_table = page_table_empty_from s page_table 0"

text \<open>The end of a round of \<open>n_free\<close>: a page table left empty is given back.\<close>

definition release_table :: "vm \<Rightarrow> nat \<Rightarrow> u32 \<Rightarrow> vm option" where
  "release_table s pd_index pde =
     do { empty \<leftarrow> page_table_empty s (unat pde);
          if empty
          then do { s1 \<leftarrow> write_pde s (page_dir s) pd_index 0;
                    s2 \<leftarrow> clear_phys_bit s1 (unat (drop_bit PFN_SHIFT pde));
                    memset0_page s2 (unat pde) }
          else Some s }"

text \<open>One round of the loop of \<open>n_free\<close>.\<close>

definition free_page :: "vm \<Rightarrow> u32 \<Rightarrow> vm option" where
  "free_page s va_u =
     do { pde \<leftarrow> read_pde s (page_dir s) (unat (PDX va_u));
          if pde = 0 then Some s
          else do { pte \<leftarrow> ld32 s (unat pde + 4 * unat (PTX va_u));
            if pte = 0 then Some s
            else do { s1 \<leftarrow> st32 s (unat pde + 4 * unat (PTX va_u)) 0;
                      s2 \<leftarrow> clear_phys_bit s1 (unat (drop_bit PFN_SHIFT pte));
                      s3 \<leftarrow> clear_virt_bit s2 (unat (drop_bit PFN_SHIFT va_u));
                      release_table (s3\<lparr>tlb_store := TLB_invalidate (tlb_store s3) (U2VA va_u)\<rparr>)
                        (unat (PDX va_u)) pde } } }"

function free_loop :: "vm \<Rightarrow> u32 \<Rightarrow> nat \<Rightarrow> nat \<Rightarrow> vm option" where
  "free_loop s start_va i n =
     (if i < n then do { s' \<leftarrow> free_page s (start_va + of_nat i * of_nat PGSIZE);
                         free_loop s' start_va (Suc i) n }
      else Some s)"
  by pat_completeness auto
termination
  by (relation "measure (\<lambda>(s, v, i, n). n - i)") auto

declare free_loop.simps [simp del]

text \<open>\<open>nbytes\<close>, the parameter \<open>size\<close>, is an \<open>int\<close>, converted to unsigned by \<open>size + PGSIZE\<close>.\<close>

definition n_free :: "vm \<Rightarrow> ptr \<Rightarrow> u32 \<Rightarrow> vm option" where
  "n_free s va nbytes =
     (let num_pages = (nbytes + of_nat PGSIZE - 1) div of_nat PGSIZE
      in free_loop s (VA2U va) 0 (unat num_pages))"

section \<open>n\_malloc\<close>

function malloc_loop :: "vm \<Rightarrow> ptr \<Rightarrow> nat \<Rightarrow> nat \<Rightarrow> (ptr \<times> vm) option" where
  "malloc_loop s base_va i n =
     (if i < n then
        let curr_va_u = VA2U base_va + of_nat i * of_nat PGSIZE;
            curr_va = U2VA curr_va_u;
            (curr_pa, s1) = allocate_phys_page s
        in if curr_pa = INVALID_PA
           then do { s2 \<leftarrow> n_free s1 base_va (of_nat i * of_nat PGSIZE); Some (0, s2) }
           else do { (r, s2) \<leftarrow> map_page s1 (page_dir s1) curr_va (U2VA curr_pa);
                     if r \<noteq> 0
                     then do { s3 \<leftarrow> n_free s2 base_va (of_nat i * of_nat PGSIZE); Some (0, s3) }
                     else malloc_loop s2 base_va (Suc i) n }
      else Some (base_va, s))"
  by pat_completeness auto
termination
  by (relation "measure (\<lambda>(s, b, i, n). n - i)") auto

declare malloc_loop.simps [simp del]

text \<open>
  \<open>(num_bytes + PGSIZE - 1) / PGSIZE\<close> is unsigned and may wrap to 0; it is below \<open>2 ^ 20\<close>, so
  the \<open>int\<close> that holds it is the same number.
\<close>

definition n_malloc :: "vm \<Rightarrow> u32 \<Rightarrow> (ptr \<times> vm) option" where
  "n_malloc s num_bytes =
     (if num_bytes = 0 then Some (0, s)
      else do { s1 \<leftarrow> (if phys_ready s then Some s else set_physical_mem s);
                let num_pages = (num_bytes + of_nat PGSIZE - 1) div of_nat PGSIZE;
                if num_pages = 0 then Some (0, s1)
                else let (base_va, s2) = get_next_avail s1 num_pages
                     in if base_va = 0 then Some (0, s2)
                        else malloc_loop s2 base_va 0 (unat num_pages) })"

section \<open>The search for free pages\<close>

definition run_free :: "mem \<Rightarrow> nat \<Rightarrow> nat \<Rightarrow> bool" where
  "run_free b start n \<longleftrightarrow> (\<forall>k < n. \<not> bit_at b (start + k))"

text \<open>
  The loop invariant: the last \<open>free\<close> pages are free, the page before them is not (or is page
  0), and no run of \<open>num\<close> free pages ends before \<open>vpn\<close>.
\<close>

definition avail_inv :: "mem \<Rightarrow> nat \<Rightarrow> nat \<Rightarrow> nat \<Rightarrow> bool" where
  "avail_inv b num vpn free \<longleftrightarrow>
     free < vpn \<and> run_free b (vpn - free) free \<and>
     (vpn - free = 1 \<or> bit_at b (vpn - free - 1)) \<and>
     (\<forall>st. 1 \<le> st \<and> st + num \<le> vpn \<longrightarrow> \<not> run_free b st num)"

lemma avail_inv_start: "0 < num \<Longrightarrow> avail_inv b num 1 0"
  by (auto simp: avail_inv_def run_free_def)

lemma avail_inv_blocked:
  assumes "avail_inv b num vpn free" "free < num" "bit_at b vpn"
  shows "avail_inv b num (Suc vpn) 0"
proof -
  have "\<not> run_free b st num" if "1 \<le> st" "st + num \<le> Suc vpn" for st
  proof (cases "st + num \<le> vpn")
    case True
    then show ?thesis using assms(1) that by (simp add: avail_inv_def)
  next
    case False
    then have "vpn = st + (vpn - st)" "vpn - st < num"
      using that assms(2) by auto
    then show ?thesis using assms(3) by (auto simp: run_free_def)
  qed
  then show ?thesis using assms by (auto simp: avail_inv_def run_free_def)
qed

lemma avail_inv_grow:
  assumes inv: "avail_inv b num vpn free" and free: "\<not> bit_at b vpn"
  shows "run_free b (vpn - free) (Suc free)"
    and "Suc free < num \<Longrightarrow> avail_inv b num (Suc vpn) (Suc free)"
proof -
  have f: "free < vpn" "run_free b (vpn - free) free" using inv by (simp_all add: avail_inv_def)
  show run: "run_free b (vpn - free) (Suc free)"
    using f free by (auto simp: run_free_def less_Suc_eq)
  assume less: "Suc free < num"
  have "\<not> run_free b st num" if st: "1 \<le> st" "st + num \<le> Suc vpn" for st
  proof (cases "st + num \<le> vpn")
    case True
    then show ?thesis using inv st by (simp add: avail_inv_def)
  next
    case False
    then have "st + num = Suc vpn" using st by simp
    moreover have "vpn - free = 1 \<or> bit_at b (vpn - free - 1)" using inv by (simp add: avail_inv_def)
    ultimately have "bit_at b (st + (vpn - free - 1 - st))" "vpn - free - 1 - st < num"
      using less st f by auto
    then show ?thesis by (auto simp: run_free_def)
  qed
  then show "avail_inv b num (Suc vpn) (Suc free)"
    using inv run f by (auto simp: avail_inv_def Suc_diff_le)
qed

text \<open>First fit: the lowest run, and a failure only if there is none.\<close>

lemma avail_loop_result:
  assumes "avail_inv b num vpn free" "free < num" "vpn \<le> n"
  shows "case avail_loop b n num vpn free of
      None \<Rightarrow> \<forall>st. 1 \<le> st \<and> st + num \<le> n \<longrightarrow> \<not> run_free b st num
    | Some st \<Rightarrow> 1 \<le> st \<and> st + num \<le> n \<and> run_free b st num \<and>
        (\<forall>st'. 1 \<le> st' \<and> st' < st \<longrightarrow> \<not> run_free b st' num)"
  using assms
proof (induction b n num vpn free rule: avail_loop.induct)
  case (1 b n num vpn free)
  note inv = "1.prems"(1)
  show ?case
  proof (cases "vpn < n")
    case False
    then show ?thesis
      using "1.prems" by (subst avail_loop.simps) (auto simp: avail_inv_def)
  next
    case True
    show ?thesis
    proof (cases "bit_at b vpn")
      case blocked: True
      then show ?thesis
        using True "1.IH" [OF True refl] avail_inv_blocked [OF inv "1.prems"(2) blocked] "1.prems"(2)
        by (subst avail_loop.simps) (simp add: vm_bits.get_eq_1_iff Let_def)
    next
      case free: False
      show ?thesis
      proof (cases "Suc free < num")
        case less: True
        then show ?thesis
          using True free "1.IH" [OF True refl] avail_inv_grow(2) [OF inv free less]
          by (subst avail_loop.simps) (simp add: vm_bits.get_eq_1_iff Let_def)
      next
        case False
        then have num: "num = Suc free" using "1.prems"(2) by simp
        have "\<not> run_free b st' num" if "1 \<le> st'" "st' < vpn - free" for st'
          using inv that num by (auto simp: avail_inv_def)
        then show ?thesis
          using True free num avail_inv_grow(1) [OF inv free] inv
          by (subst avail_loop.simps) (auto simp: vm_bits.get_eq_1_iff Let_def avail_inv_def)
      qed
    qed
  qed
qed

lemma bit_at_set_run: "bit_at (set_run b st n) v \<longleftrightarrow> (st \<le> v \<and> v < st + n) \<or> bit_at b v"
  by (induction n) (auto simp: bitmap_simps)

end
