(* ===== verification/VM_AllocSpec.thy ===== *)
theory VM_AllocSpec
  imports VM_Alloc
begin

text \<open>
  What \<open>n_free\<close> and \<open>n_malloc\<close> do to the page map: freeing removes exactly the pages of the
  range, allocation adds exactly the pages of a run that was free, and neither touches the
  bytes of another page. Both preserve the invariant and never leave the simulated memory.
\<close>

section \<open>page\_table\_empty\<close>

lemma page_table_empty_from_eq:
  assumes "phys_ready s" "pt + 4096 \<le> MEMSIZE"
  shows "page_table_empty_from s pt i =
    Some (\<forall>k. i \<le> k \<and> k < 1024 \<longrightarrow> load32 (phys_mem s) (pt + 4 * k) = 0)"
  using assms
proof (induction s pt i rule: page_table_empty_from.induct)
  case (1 s pt i)
  have ld: "ld32 s (pt + 4 * i) = Some (load32 (phys_mem s) (pt + 4 * i))" if "i < 1024"
  proof -
    have "pt + 4 * i + 4 \<le> MEMSIZE" using "1.prems"(2) that by linarith
    then show ?thesis using "1.prems"(1) by (simp add: ld32_def in_phys_def)
  qed
  show ?case
  proof (cases "i < 1024 \<and> load32 (phys_mem s) (pt + 4 * i) = 0")
    case True
    then have "page_table_empty_from s pt i = page_table_empty_from s pt (Suc i)"
      by (subst page_table_empty_from.simps) (simp add: ld)
    also have "\<dots> = Some (\<forall>k. Suc i \<le> k \<and> k < 1024 \<longrightarrow> load32 (phys_mem s) (pt + 4 * k) = 0)"
      using True "1.prems" ld by (intro "1.IH") auto
    also have "(\<forall>k. Suc i \<le> k \<and> k < 1024 \<longrightarrow> load32 (phys_mem s) (pt + 4 * k) = 0) \<longleftrightarrow>
        (\<forall>k. i \<le> k \<and> k < 1024 \<longrightarrow> load32 (phys_mem s) (pt + 4 * k) = 0)"
      using True by (metis Suc_leD Suc_leI le_neq_implies_less)
    finally show ?thesis .
  next
    case False
    then show ?thesis
      by (subst page_table_empty_from.simps) (auto simp: ld)
  qed
qed

lemma page_table_empty_eq:
  "phys_ready s \<Longrightarrow> pt + 4096 \<le> MEMSIZE \<Longrightarrow>
     page_table_empty s pt = Some (\<forall>k < 1024. load32 (phys_mem s) (pt + 4 * k) = 0)"
  by (simp add: page_table_empty_def page_table_empty_from_eq)

section \<open>Removing a page, removing an empty table\<close>

lemma bit_at_clear_fun: "bit_at (clear_bit b i) = (\<lambda>j. j \<noteq> i \<and> bit_at b j)"
  by (simp add: fun_eq_iff bitmap_simps)

lemma erase_table:
  assumes inv: "frames_inv (pde_of s) (walk s) pb vb"
    and i: "i < 1024" "pde_of s i \<noteq> 0" and empty: "\<And>j. j < 1024 \<Longrightarrow> pte_of s i j = 0"
    and mem: "phys_mem s' = fill_bytes (store32 (phys_mem s) (4 * i) 0) (unat (pde_of s i)) 0 4096"
  shows "k < 1024 \<Longrightarrow> pde_of s' k = (if k = i then 0 else pde_of s k)"
    and "walk s' = walk s"
proof -
  note D = frames_invD [OF inv]
  have Pi: "used_frame pb (pde_of s i)" using D(2) i by blast
  have fill: "load32 (fill_bytes m (unat (pde_of s i)) 0 4096) a = load32 m a"
    if "a + 4 \<le> unat (pde_of s i) \<or> unat (pde_of s i) + 4096 \<le> a" for m a
    using that by (intro load32_cong) (auto simp: fill_bytes_def)
  have P: "pde_of s' k = (if k = i then 0 else pde_of s k)" if "k < 1024" for k
    using that i used_frame_bounds [OF Pi]
    by (auto simp: pde_of_def [of s'] mem fill load32_store32_index) (simp add: pde_of_def)
  then show "k < 1024 \<Longrightarrow> pde_of s' k = (if k = i then 0 else pde_of s k)" .
  have old: "pte_of s' k l = pte_of s k l"
    if "k < 1024" "l < 1024" "pde_of s k \<noteq> 0" "k \<noteq> i" for k l
  proof -
    have "pde_of s k \<noteq> pde_of s i" using D(3) i that by metis
    then have "unat (pde_of s k) + 4096 \<le> unat (pde_of s i) \<or>
        unat (pde_of s i) + 4096 \<le> unat (pde_of s k)"
      using used_frames_disjoint [OF D(2) Pi] that by simp
    moreover have "4096 \<le> unat (pde_of s k)"
      using used_frame_bounds [OF D(2)] that by simp
    ultimately show ?thesis
      using that i P [OF that(1)] by (auto simp: pte_of_def mem load32_store32_other fill)
  qed
  show "walk s' = walk s"
  proof
    fix v
    show "walk s' v = walk s v"
      using i P [of "v div 1024"] old [of "v div 1024" "v mod 1024"] empty [of "v mod 1024"]
      by (cases "v div 1024 = i") (auto simp: walk_def less_mult_imp_div_less)
  qed
qed

text \<open>The state of \<open>free_page\<close> after the entry, the two bits and the TLB entry are cleared.\<close>

definition unmapped :: "vm \<Rightarrow> u32 \<Rightarrow> u32 \<Rightarrow> vm" where
  "unmapped s va_u p =
     s\<lparr>phys_mem := store32 (phys_mem s) (unat (pde_of s (unat (PDX va_u))) + 4 * unat (PTX va_u)) 0,
       phys_bitmap := clear_bit (phys_bitmap s) (unat (drop_bit PFN_SHIFT p)),
       virt_bitmap := clear_bit (virt_bitmap s) (vpn_of va_u),
       tlb_store := TLB_invalidate (tlb_store s) (U2VA va_u)\<rparr>"

lemma unmapped_spec:
  assumes inv: "vm_inv s" and w: "walk s (vpn_of va_u) = Some p" and va: "va_u \<noteq> INVALID_PA"
  shows "vm_inv (unmapped s va_u p)"
    and "walk (unmapped s va_u p) = (walk s)(vpn_of va_u := None)"
    and "k < 1024 \<Longrightarrow> pde_of (unmapped s va_u p) k = pde_of s k"
    and "data_same s (unmapped s va_u p)"
proof -
  note D = vm_invD [OF inv]
  let ?i = "unat (PDX va_u)" and ?j = "unat (PTX va_u)" and ?s' = "unmapped s va_u p"
  have pde: "pde_of s ?i \<noteq> 0" using w by (auto simp: walk_va split: if_splits)
  have m: "phys_mem ?s' = store32 (phys_mem s) (unat (pde_of s ?i) + 4 * ?j) 0"
    by (simp add: unmapped_def)
  have P: "\<And>k. k < 1024 \<Longrightarrow> pde_of ?s' k = pde_of s k"
    and W: "walk ?s' = (walk s)(vpn_of va_u := None)"
    using write_pte [OF D(5) _ pde _ m] by (auto simp: PDX_PTX_vpn)
  then show "k < 1024 \<Longrightarrow> pde_of ?s' k = pde_of s k" "walk ?s' = (walk s)(vpn_of va_u := None)"
    by auto
  have "frames_inv (pde_of ?s') (walk ?s') (bit_at (phys_bitmap ?s')) (bit_at (virt_bitmap ?s'))"
    unfolding W using frames_inv_drop_page [OF D(5) P w]
    by (simp add: unmapped_def bit_at_clear_fun unat_shift_PFN)
  moreover have "tlb_map (tlb_store ?s') \<subseteq>\<^sub>m (\<lambda>x. walk ?s' (unat x))"
  proof -
    have "(\<lambda>x. walk ?s' (unat x)) = (\<lambda>x. walk s (unat x))(drop_bit PFN_SHIFT va_u := None)"
      unfolding W by (auto simp: fun_eq_iff unat_eq_vpn_iff)
    then show ?thesis
      using tlb_cache.coherent_remove [OF D(6,7), of "U2VA va_u"] va by (simp add: unmapped_def)
  qed
  ultimately show "vm_inv ?s'"
    using D unfolding vm_inv_def by (simp add: unmapped_def tlb_ok_invalidate)
  show "data_same s ?s'"
    unfolding data_same_def
  proof (intro allI impI)
    fix v q x assume q: "walk s v = Some q" "unat q \<le> x" "x < unat q + 4096"
    have "q \<noteq> pde_of s ?i" using frames_invD(8) [OF D(5) q(1), of ?i] by simp
    then have "unat q + 4096 \<le> unat (pde_of s ?i) \<or> unat (pde_of s ?i) + 4096 \<le> unat q"
      using table_frames_disjoint_data [OF D(5) q(1) frames_invD(2) [OF D(5) _ pde]] by simp
    moreover have "?j < 1024" by simp
    ultimately show "phys_mem ?s' x = phys_mem s x"
      unfolding m using q by (auto simp: mem_simps simp del: PTX_less)
  qed
qed

section \<open>One page of n\_free\<close>

lemma free_page_spec:
  assumes inv: "vm_inv s" and va: "va_u \<noteq> INVALID_PA"
  obtains s' where "free_page s va_u = Some s'" "vm_inv s'"
    "walk s' = (walk s)(vpn_of va_u := None)" "data_same s s'"
    "\<And>f. bit_at (phys_bitmap s') f \<Longrightarrow> bit_at (phys_bitmap s) f"
    "\<And>p. walk s (vpn_of va_u) = Some p \<Longrightarrow> \<not> bit_at (phys_bitmap s') (unat p div 4096)"
    "\<And>v. bit_at (virt_bitmap s') v \<longleftrightarrow>
       bit_at (virt_bitmap s) v \<and> \<not> (v = vpn_of va_u \<and> walk s v \<noteq> None)"
proof (cases "walk s (vpn_of va_u)")
  case None
  have "free_page s va_u = Some s"
    using None inv ld32_pte_inv [OF inv, of "unat (PDX va_u)" "unat (PTX va_u)"]
    by (auto simp: free_page_def read_pde_inv walk_va split: if_splits)
  moreover have "walk s = (walk s)(vpn_of va_u := None)"
    using None by (simp add: fun_upd_idem)
  ultimately show thesis
    using that [of s] inv None by auto
next
  case (Some p)
  note D = vm_invD [OF inv]
  let ?i = "unat (PDX va_u)" and ?j = "unat (PTX va_u)" and ?s4 = "unmapped s va_u p"
  let ?t = "pde_of s ?i"
  note U = unmapped_spec [OF inv Some va]
  have pde: "?t \<noteq> 0" and pte: "pte_of s ?i ?j = p" "p \<noteq> 0"
    using Some by (auto simp: walk_va split: if_splits)
  have t: "used_frame (bit_at (phys_bitmap s)) ?t" and p: "used_frame (bit_at (phys_bitmap s)) p"
    using vm_frames(1) [OF inv _ pde] vm_frames(2) [OF inv Some] by auto
  have mem: "unat ?t + 4 * ?j + 4 \<le> MEMSIZE" "unat ?t + 4096 \<le> MEMSIZE"
    using used_frame_bounds [OF t] PTX_less [of va_u] by linarith+
  have num: "vpn_of p div 8 < 32768" "vpn_of ?t div 8 < 32768" "vpn_of va_u div 8 < 131072"
    using used_frame_number [OF p] used_frame_number [OF t] vpn_of_less [of va_u]
    by (simp_all add: less_mult_imp_div_less vpn_of_def del: vpn_of_less)
  let ?empty = "\<forall>k < 1024. load32 (phys_mem ?s4) (unat ?t + 4 * k) = 0"
  let ?s6 = "?s4\<lparr>phys_bitmap := clear_bit (phys_bitmap ?s4) (vpn_of ?t),
                 phys_mem := fill_bytes (store32 (phys_mem ?s4) (4 * ?i) 0) (unat ?t) 0 4096\<rparr>"
  have s4: "phys_ready ?s4" "page_dir ?s4 = Some 0" "num_phys_pages ?s4 = 262144"
    using D by (simp_all add: unmapped_def)
  have "free_page s va_u = release_table ?s4 ?i ?t"
    using D num mem pde pte(2) read_pde_0_inv [OF inv, of ?i] ld32_pte_inv [OF inv _ _ pde, of ?j]
    by (simp add: free_page_def pte(1) st32_def in_phys_def clear_phys_bit_def clear_virt_bit_def
        phys_bit_ok_def virt_bit_ok_def unat_shift_vpn unmapped_def)
  also have "\<dots> = (if ?empty then Some ?s6 else Some ?s4)"
    using num mem page_table_empty_eq [OF s4(1) mem(2)] s4 PDX_less [of va_u]
    by (cases ?empty) (auto simp: release_table_def write_pde_def st32_def memset0_page_def clear_phys_bit_def
        phys_bit_ok_def in_phys_def PGSIZE_def unat_shift_vpn MEMSIZE_def simp del: PDX_less)
  finally have step: "free_page s va_u = (if ?empty then Some ?s6 else Some ?s4)" .
  show thesis
  proof (cases ?empty)
    case False
    then show thesis
      using step U Some by (intro that [of ?s4])
        (auto simp: unmapped_def bitmap_simps unat_shift_PFN)
  next
    case True
    have P4: "pde_of ?s4 ?i = ?t" using U(3) by simp
    have "\<And>j. j < 1024 \<Longrightarrow> pte_of ?s4 ?i j = 0"
      using True by (simp add: pte_of_def P4)
    note E = erase_table [OF vm_invD(5) [OF U(1)], of ?i ?s6]
    have P6: "\<And>k. k < 1024 \<Longrightarrow> pde_of ?s6 k = (if k = ?i then 0 else pde_of ?s4 k)"
      and W6: "walk ?s6 = walk ?s4"
      using E pde \<open>\<And>j. j < 1024 \<Longrightarrow> pte_of ?s4 ?i j = 0\<close> by (auto simp: P4)
    have "frames_inv (pde_of ?s6) (walk ?s6) (bit_at (phys_bitmap ?s6)) (bit_at (virt_bitmap ?s6))"
      unfolding W6 using frames_inv_drop_table [OF vm_invD(5) [OF U(1)] P6] pde
      by (simp add: P4 bit_at_clear_fun vpn_of_def)
    then have inv6: "vm_inv ?s6"
      using U(1) W6 unfolding vm_inv_def by simp
    have "data_same s ?s6"
      unfolding data_same_def
    proof (intro allI impI)
      fix v q x assume q: "walk s v = Some q" "unat q \<le> x" "x < unat q + 4096"
      have "q \<noteq> ?t" using frames_invD(8) [OF D(5) q(1), of ?i] by simp
      then have "unat q + 4096 \<le> unat ?t \<or> unat ?t + 4096 \<le> unat q"
        using table_frames_disjoint_data [OF D(5) q(1) t] by simp
      moreover have "4096 \<le> x" "?i < 1024"
        using data_above_directory [OF D(5) q(1)] q(2) by auto
      ultimately have "phys_mem ?s6 x = phys_mem ?s4 x"
        using q by (auto simp: mem_simps simp del: PDX_less)
      then show "phys_mem ?s6 x = phys_mem s x"
        using U(4) q by (simp add: data_same_def)
    qed
    then show thesis
      using step True inv6 W6 U(2) Some by (intro that [of ?s6])
        (auto simp: unmapped_def bitmap_simps unat_shift_PFN)
  qed
qed

section \<open>n\_free\<close>

lemma data_same_sym: "data_same s s' \<Longrightarrow> walk s' \<subseteq>\<^sub>m walk s \<Longrightarrow> data_same s' s"
  unfolding data_same_def by (metis map_leD)

definition page_addr :: "u32 \<Rightarrow> nat \<Rightarrow> u32" where
  "page_addr start k = start + of_nat k * of_nat PGSIZE"

lemma restrict_map_upd_None: "(m(v := None)) |` A = m |` (A - {v})"
  by (auto simp: restrict_map_def fun_eq_iff)

lemma restrict_map_le: "m |` A \<subseteq>\<^sub>m m"
  by (auto intro!: map_leI simp: restrict_map_def split: if_splits)

lemma free_loop_spec:
  assumes "vm_inv s" "\<And>k. i \<le> k \<Longrightarrow> k < n \<Longrightarrow> page_addr start k \<noteq> INVALID_PA"
  shows "\<exists>s'. free_loop s start i n = Some s' \<and> vm_inv s' \<and>
     walk s' = walk s |` (- (\<lambda>k. vpn_of (page_addr start k)) ` {i..<n}) \<and> data_same s' s \<and>
     (\<forall>f. bit_at (phys_bitmap s') f \<longrightarrow> bit_at (phys_bitmap s) f)"
  using assms
proof (induction s start i n rule: free_loop.induct)
  case (1 s start i n)
  show ?case
  proof (cases "i < n")
    case False
    then show ?thesis
      using "1.prems" by (subst free_loop.simps) auto
  next
    case True
    let ?a = "page_addr start i"
    have "?a \<noteq> INVALID_PA" using "1.prems"(2) True by simp
    with "1.prems"(1) obtain s1 where s1: "free_page s ?a = Some s1" "vm_inv s1"
      "walk s1 = (walk s)(vpn_of ?a := None)" "data_same s s1"
      "\<And>f. bit_at (phys_bitmap s1) f \<Longrightarrow> bit_at (phys_bitmap s) f"
      by (rule free_page_spec) blast
    have le: "walk s1 \<subseteq>\<^sub>m walk s" by (auto intro!: map_leI simp: s1(3) split: if_splits)
    have "\<exists>s'. free_loop s1 start (Suc i) n = Some s' \<and> vm_inv s' \<and>
        walk s' = walk s1 |` (- (\<lambda>k. vpn_of (page_addr start k)) ` {Suc i..<n}) \<and> data_same s' s1 \<and>
        (\<forall>f. bit_at (phys_bitmap s') f \<longrightarrow> bit_at (phys_bitmap s1) f)"
      using "1.prems"(2) s1(1,2) by (intro "1.IH" [OF True]) (auto simp: page_addr_def)
    then obtain s2 where s2: "free_loop s1 start (Suc i) n = Some s2" "vm_inv s2"
        "walk s2 = walk s1 |` (- (\<lambda>k. vpn_of (page_addr start k)) ` {Suc i..<n})" "data_same s2 s1"
        "\<And>f. bit_at (phys_bitmap s2) f \<Longrightarrow> bit_at (phys_bitmap s1) f"
      by blast
    have "free_loop s start i n = Some s2"
      using True s2(1) s1(1) [unfolded page_addr_def] by (subst free_loop.simps) simp
    moreover have "{i..<n} = insert i {Suc i..<n}" using True by auto
    then have "walk s2 = walk s |` (- (\<lambda>k. vpn_of (page_addr start k)) ` {i..<n})"
      unfolding s2(3) s1(3) restrict_map_upd_None
      by (intro arg_cong [of _ _ "restrict_map (walk s)"]) auto
    moreover have "data_same s2 s"
      using s2(4) data_same_sym [OF s1(4) le] by (rule data_same_trans) (simp add: s2(3) restrict_map_le)
    ultimately show ?thesis
      using s2(2,5) s1(5) by blast
  qed
qed

definition page_count :: "u32 \<Rightarrow> nat" where
  "page_count nbytes = unat ((nbytes + of_nat PGSIZE - 1) div of_nat PGSIZE)"

lemma n_free_spec:
  fixes nbytes :: u32
  assumes inv: "vm_inv s" and off: "unat (VA2U va) mod 4096 \<noteq> 4095"
    and n: "n = page_count nbytes"
  obtains s' where "n_free s va nbytes = Some s'" "vm_inv s'"
    "walk s' = walk s |` (- (\<lambda>k. vpn_of (page_addr (VA2U va) k)) ` {0..<n})" "data_same s' s"
    "\<And>f. bit_at (phys_bitmap s') f \<Longrightarrow> bit_at (phys_bitmap s) f"
proof -
  have "page_addr (VA2U va) k \<noteq> INVALID_PA" for k
  proof
    assume "page_addr (VA2U va) k = INVALID_PA"
    then have "unat (page_addr (VA2U va) k) mod 4096 = 4095"
      by (simp add: unat_INVALID_PA)
    moreover have "unat (page_addr (VA2U va) k) mod 4096 = unat (VA2U va) mod 4096"
      by (simp add: page_addr_def PGSIZE_def unat_word_ariths mod_mod_cancel mod_simps)
    ultimately show False using off by simp
  qed
  then have "\<exists>s'. free_loop s (VA2U va) 0 n = Some s' \<and> vm_inv s' \<and>
     walk s' = walk s |` (- (\<lambda>k. vpn_of (page_addr (VA2U va) k)) ` {0..<n}) \<and> data_same s' s \<and>
     (\<forall>f. bit_at (phys_bitmap s') f \<longrightarrow> bit_at (phys_bitmap s) f)"
    by (intro free_loop_spec inv)
  then show thesis
    using that by (auto simp: n_free_def n page_count_def)
qed

end
