(* ===== verification/VM_MallocSpec.thy ===== *)
theory VM_MallocSpec
  imports VM_AllocSpec
begin

text \<open>
  What \<open>n_malloc\<close> does: the run it finds is mapped page by page; a page that cannot be mapped
  undoes the mappings made so far. It succeeds whenever the address space has a free run and the
  frames suffice for the pages and for the page tables that are missing.
\<close>

section \<open>The addresses of a run\<close>

definition run_base :: "nat \<Rightarrow> ptr" where
  "run_base st = U2VA (push_bit PFN_SHIFT (of_nat st))"

lemma unat_shift_left: "k < 1048576 \<Longrightarrow> unat (push_bit PFN_SHIFT (of_nat k :: u32)) = k * 4096"
  by (simp add: PFN_SHIFT_def push_bit_eq_mult unat_word_ariths unat_of_nat)

lemma unat_page_addr:
  assumes "st + k < 1048576"
  shows "unat (page_addr (VA2U (run_base st)) k) = (st + k) * 4096"
proof -
  have "unat (of_nat k * of_nat PGSIZE :: u32) = k * 4096"
    using assms by (simp add: PGSIZE_def unat_word_ariths unat_of_nat)
  moreover have "unat (push_bit PFN_SHIFT (of_nat st :: u32)) = st * 4096"
    using assms by (intro unat_shift_left) simp
  ultimately show ?thesis
    using assms by (simp add: page_addr_def run_base_def unat_word_ariths)
qed

lemma vpn_of_page_addr: "st + k < 1048576 \<Longrightarrow> vpn_of (page_addr (VA2U (run_base st)) k) = st + k"
  by (simp add: vpn_of_def unat_page_addr)

lemma run_base_eq_0_iff: "st < 1048576 \<Longrightarrow> run_base st = 0 \<longleftrightarrow> st = 0"
  using unat_shift_left [of st] by (auto simp: run_base_def)

lemma run_base_offset: "st < 1048576 \<Longrightarrow> unat (VA2U (run_base st)) mod 4096 = 0"
  by (simp add: run_base_def unat_shift_left)

lemma page_count_le: "page_count nbytes < 1048576"
  using unat_u32_less [of "nbytes + of_nat PGSIZE - 1"]
  by (simp add: page_count_def unat_div less_mult_imp_div_less PGSIZE_def)

lemma page_count_pages: "i \<le> 1048575 \<Longrightarrow> page_count (of_nat i * of_nat PGSIZE) = i"
proof -
  assume i: "i \<le> 1048575"
  have "unat (of_nat i * of_nat PGSIZE + of_nat PGSIZE - 1 :: u32) = i * 4096 + 4095"
  proof -
    have "(of_nat i * of_nat PGSIZE + of_nat PGSIZE - 1 :: u32) = of_nat (i * 4096 + 4095)"
      by (simp add: PGSIZE_def)
    then show ?thesis using i by (simp add: unat_of_nat del: of_nat_add of_nat_mult)
  qed
  then show ?thesis by (simp add: page_count_def unat_div PGSIZE_def)
qed


section \<open>The loop\<close>

lemma data_same_undo:
  assumes "data_same s s2" "data_same s' s2" "walk s' \<subseteq>\<^sub>m walk s"
  shows "data_same s' s"
  using assms unfolding data_same_def by (metis map_leD)

lemma n_free_run:
  assumes inv: "vm_inv s" and st: "st + i \<le> 1048576" "i < 1048576" "st < 1048576"
  shows "\<exists>s'. n_free s (run_base st) (of_nat i * of_nat PGSIZE) = Some s' \<and> vm_inv s' \<and>
    walk s' = walk s |` (- {st..<st + i}) \<and> data_same s' s"
proof -
  have off: "unat (VA2U (run_base st)) mod 4096 \<noteq> 4095"
    using run_base_offset [OF st(3)] by simp
  have i: "i = page_count (of_nat i * of_nat PGSIZE)"
    using st(2) by (subst page_count_pages) auto
  have "(\<lambda>k. vpn_of (page_addr (VA2U (run_base st)) k)) ` {0..<i} = (\<lambda>k. st + k) ` {0..<i}"
    using st(1) by (intro image_cong) (auto simp: vpn_of_page_addr)
  also have "\<dots> = {st..<st + i}" by (simp add: add.commute)
  finally show ?thesis
    using n_free_spec [OF inv off i] by metis
qed

text \<open>The invariant kept by the pages mapped so far and the result of the rest of the loop.\<close>

lemma malloc_loop_spec:
  assumes "vm_inv s" "i \<le> n" "st + n \<le> 1048576" "1 \<le> st"
    "\<And>k. i \<le> k \<Longrightarrow> k < n \<Longrightarrow> walk s (st + k) = None"
  shows "\<exists>r s'. malloc_loop s (run_base st) i n = Some (r, s') \<and> vm_inv s' \<and>
    (r = 0 \<and> walk s' = walk s |` (- {st..<st + i}) \<and> data_same s' s \<and>
       free_frames s < n - i + missing_tables s \<or>
     r = run_base st \<and> data_same s s' \<and> walk s \<subseteq>\<^sub>m walk s' \<and>
       dom (walk s') = dom (walk s) \<union> {st + i..<st + n})"
  using assms
proof (induction s "run_base st" i n rule: malloc_loop.induct)
  case (1 s i n)
  show ?case
  proof (cases "i < n")
    case False
    then show ?thesis
      using "1.prems" by (subst malloc_loop.simps) auto
  next
    case i: True
    let ?va = "page_addr (VA2U (run_base st)) i"
    have vpn: "vpn_of ?va = st + i" using i "1.prems"(3) by (intro vpn_of_page_addr) simp
    have loop: "malloc_loop s (run_base st) i n =
       (let (curr_pa, s1) = allocate_phys_page s
        in if curr_pa = INVALID_PA
           then do { s2 \<leftarrow> n_free s1 (run_base st) (of_nat i * of_nat PGSIZE); Some (0, s2) }
           else do { (r, s2) \<leftarrow> map_page s1 (page_dir s1) (U2VA ?va) (U2VA curr_pa);
                     if r \<noteq> 0
                     then do { s3 \<leftarrow> n_free s2 (run_base st) (of_nat i * of_nat PGSIZE); Some (0, s3) }
                     else malloc_loop s2 (run_base st) (Suc i) n })"
      using i unfolding page_addr_def by (subst malloc_loop.simps) (simp add: Let_def)
    have free: "\<exists>s'. n_free s1 (run_base st) (of_nat i * of_nat PGSIZE) = Some s' \<and> vm_inv s' \<and>
        walk s' = walk s1 |` (- {st..<st + i}) \<and> data_same s' s1" if "vm_inv s1" for s1
      using that i "1.prems"(3,4) by (intro n_free_run) auto
    from "1.prems"(1) show ?thesis
    proof (cases rule: allocate_spec)
      case none
      then show ?thesis
        using free [OF "1.prems"(1)] i free_frames_0 [OF none(2)] by (auto simp: loop)
    next
      case (some p f)
      let ?s1 = "s\<lparr>phys_bitmap := set_bit (phys_bitmap s) f\<rparr>"
      have ff: "free_frames s = Suc (free_frames ?s1)" "missing_tables ?s1 = missing_tables s"
        using some(3,5) free_frames_take [of f s ?s1] by (auto simp: missing_tables_def)
      have owned: "used_frame (bit_at (phys_bitmap ?s1)) (VA2U (U2VA p))"
          "\<forall>i < 1024. pde_of ?s1 i \<noteq> VA2U (U2VA p)" "\<And>v. walk ?s1 v \<noteq> Some (VA2U (U2VA p))"
          "walk ?s1 (vpn_of (VA2U (U2VA ?va))) = None"
        using some(7-9) "1.prems"(5) i by (simp_all add: vpn)
      from some(6) owned show ?thesis
      proof (cases rule: map_page_spec)
        case full
        have "0 < missing_tables s" "free_frames ?s1 = 0"
          using full(2) missing_tables_pos [of "unat (PDX ?va)" s] free_frames_0 [OF full(3)] by auto
        then have few: "free_frames s < n - i + missing_tables s" using ff(1) i by linarith
        obtain s' where "n_free ?s1 (run_base st) (of_nat i * of_nat PGSIZE) = Some s'" "vm_inv s'"
          "walk s' = walk s |` (- {st..<st + i})" "data_same s' ?s1"
          using free [OF some(6)] by auto
        moreover from this(4) have "data_same s' s" by (simp add: data_same_def)
        ultimately show ?thesis
          using few full(1) some(1,2) by (simp add: loop)
      next
        case (mapped s2)
        have run: "malloc_loop s (run_base st) i n = malloc_loop s2 (run_base st) (Suc i) n"
          using some(1,2) mapped(1) by (simp add: loop)
        have none: "walk s (st + i) = None" using "1.prems"(5) i by simp
        have W: "walk s2 = (walk s)(st + i := Some p)" using mapped(3) by (simp add: vpn)
        have le: "walk s \<subseteq>\<^sub>m walk s2" unfolding W by (intro map_le_extend map_le_refl none)
        have same: "data_same s s2"
          using mapped(6) by (simp add: data_same_def)
        have "\<exists>r s'. malloc_loop s2 (run_base st) (Suc i) n = Some (r, s') \<and> vm_inv s' \<and>
          (r = 0 \<and> walk s' = walk s2 |` (- {st..<st + Suc i}) \<and> data_same s' s2 \<and>
             free_frames s2 < n - Suc i + missing_tables s2 \<or>
           r = run_base st \<and> data_same s2 s' \<and> walk s2 \<subseteq>\<^sub>m walk s' \<and>
             dom (walk s') = dom (walk s2) \<union> {st + Suc i..<st + n})"
          using i mapped(1,2) some(1,2) "1.prems"(3-5) W
          by (intro "1.hyps") (auto simp: page_addr_def)
        then obtain r s' where rest: "malloc_loop s2 (run_base st) (Suc i) n = Some (r, s')" "vm_inv s'"
          "r = 0 \<and> walk s' = walk s2 |` (- {st..<st + Suc i}) \<and> data_same s' s2 \<and>
             free_frames s2 < n - Suc i + missing_tables s2 \<or>
           r = run_base st \<and> data_same s2 s' \<and> walk s2 \<subseteq>\<^sub>m walk s' \<and>
             dom (walk s') = dom (walk s2) \<union> {st + Suc i..<st + n}"
          by blast
        from rest(3) have "r = 0 \<and> walk s' = walk s |` (- {st..<st + i}) \<and> data_same s' s \<and>
             free_frames s < n - i + missing_tables s \<or>
           r = run_base st \<and> data_same s s' \<and> walk s \<subseteq>\<^sub>m walk s' \<and>
             dom (walk s') = dom (walk s) \<union> {st + i..<st + n}"
        proof (elim disjE conjE)
          assume r: "r = 0" "walk s' = walk s2 |` (- {st..<st + Suc i})" "data_same s' s2"
            "free_frames s2 < n - Suc i + missing_tables s2"
          have "walk s' = walk s |` (- {st..<st + i})"
            unfolding r(2) W using none by (auto simp: fun_eq_iff restrict_map_def)
          then show ?thesis
            using r ff mapped(7) i data_same_undo [OF same r(3)] restrict_map_le by auto
        next
          assume r: "r = run_base st" "data_same s2 s'" "walk s2 \<subseteq>\<^sub>m walk s'"
            "dom (walk s') = dom (walk s2) \<union> {st + Suc i..<st + n}"
          have "{st + i..<st + n} = insert (st + i) {st + Suc i..<st + n}" using i by auto
          then show ?thesis
            using r W data_same_trans [OF same r(2) le] map_le_trans [OF le r(3)] by auto
        qed
        then show ?thesis using run rest(1,2) by simp
      qed
    qed
  qed
qed

section \<open>n\_malloc\<close>

text \<open>A run of free virtual pages that the search may return, page 0 excluded.\<close>

definition free_run :: "vm \<Rightarrow> nat \<Rightarrow> nat \<Rightarrow> bool" where
  "free_run s st n \<longleftrightarrow> 1 \<le> st \<and> st + n \<le> 1048576 \<and> run_free (virt_bitmap s) st n"

lemma get_next_avail_run:
  assumes pages: "num_virt_pages s = 1048576" and n: "num_pages \<noteq> 0" "unat num_pages < 1048576"
  obtains
    (none) "get_next_avail s num_pages = (0, s)" "\<And>st. \<not> free_run s st (unat num_pages)"
  | (run) st where "get_next_avail s num_pages =
        (run_base st, s\<lparr>virt_bitmap := set_run (virt_bitmap s) st (unat num_pages)\<rparr>)"
      "free_run s st (unat num_pages)" "\<And>st'. free_run s st' (unat num_pages) \<Longrightarrow> st \<le> st'"
proof -
  have num: "0 < unat num_pages" using n(1) by (simp add: unat_gt_0)
  note search = avail_loop_result [OF avail_inv_start [OF num] num, of 1048576 "virt_bitmap s"]
  show thesis
  proof (cases "avail_loop (virt_bitmap s) 1048576 (unat num_pages) 1 0")
    case None
    then show thesis
      using search pages by (intro none) (auto simp: get_next_avail_def free_run_def)
  next
    case (Some st)
    then have "st \<le> st'" if "free_run s st' (unat num_pages)" for st'
      using search that by (auto simp: free_run_def not_le)
    then show thesis
      using Some search pages
      by (intro run [of st]) (auto simp: get_next_avail_def free_run_def run_base_def)
  qed
qed

lemma vm_inv_reserve:
  assumes "vm_inv s"
  shows "vm_inv (s\<lparr>virt_bitmap := set_run (virt_bitmap s) st n\<rparr>)"
  using assms by (auto simp: vm_inv_def bit_at_set_run elim!: frames_inv_mono)

lemma free_run_unmapped: "vm_inv s \<Longrightarrow> free_run s st n \<Longrightarrow> k < n \<Longrightarrow> walk s (st + k) = None"
  using frames_invD(6) [OF vm_invD(5)] by (fastforce simp: free_run_def run_free_def)

lemma n_malloc_spec:
  assumes inv: "vm_inv s"
  obtains
    (null) s' where "n_malloc s nbytes = Some (0, s')" "vm_inv s'" "walk s' = walk s" "data_same s s'"
      "nbytes = 0 \<or> page_count nbytes = 0 \<or> (\<forall>st. \<not> free_run s st (page_count nbytes)) \<or>
         free_frames s < page_count nbytes + missing_tables s"
  | (block) st s' where "n_malloc s nbytes = Some (run_base st, s')" "vm_inv s'" "data_same s s'"
      "free_run s st (page_count nbytes)" "\<And>st'. free_run s st' (page_count nbytes) \<Longrightarrow> st \<le> st'"
      "walk s \<subseteq>\<^sub>m walk s'" "dom (walk s') = dom (walk s) \<union> {st..<st + page_count nbytes}"
      "0 < page_count nbytes"
proof -
  let ?num = "(nbytes + of_nat PGSIZE - 1) div of_nat PGSIZE"
  have ready: "phys_ready s" by (rule vm_invD(1) [OF inv])
  have count: "unat ?num = page_count nbytes" by (simp add: page_count_def)
  show thesis
  proof (cases "nbytes = 0 \<or> ?num = 0")
    case True
    then show thesis
      using inv ready count by (intro null [of s]) (auto simp: n_malloc_def)
  next
    case False
    then have num: "?num \<noteq> 0" "unat ?num < 1048576" using page_count_le count by simp_all
    have run_def: "n_malloc s nbytes = (let (base_va, s2) = get_next_avail s ?num
        in if base_va = 0 then Some (0, s2) else malloc_loop s2 base_va 0 (page_count nbytes))"
      using False ready unfolding count [symmetric] by (simp add: n_malloc_def Let_def)
    from vm_invD(4) [OF inv] num show thesis
    proof (cases rule: get_next_avail_run)
      case none
      then show thesis
        using inv count run_def by (intro null [of s]) auto
    next
      case (run st)
      let ?s2 = "s\<lparr>virt_bitmap := set_run (virt_bitmap s) st (page_count nbytes)\<rparr>"
      have st: "1 \<le> st" "st + page_count nbytes \<le> 1048576" "0 < page_count nbytes"
        using run(2) num by (auto simp: free_run_def count unat_gt_0 simp flip: count)
      have "run_base st \<noteq> 0" using st by (subst run_base_eq_0_iff) auto
      then have m: "n_malloc s nbytes = malloc_loop ?s2 (run_base st) 0 (page_count nbytes)"
        using run(1) run_def count by simp
      have "walk ?s2 (st + k) = None" if "k < page_count nbytes" for k
        using free_run_unmapped [OF inv run(2)] that count by simp
      note none = this
      have "\<exists>r s'. malloc_loop ?s2 (run_base st) 0 (page_count nbytes) = Some (r, s') \<and> vm_inv s' \<and>
        (r = 0 \<and> walk s' = walk ?s2 |` (- {st..<st + 0}) \<and> data_same s' ?s2 \<and>
           free_frames ?s2 < page_count nbytes - 0 + missing_tables ?s2 \<or>
         r = run_base st \<and> data_same ?s2 s' \<and> walk ?s2 \<subseteq>\<^sub>m walk s' \<and>
           dom (walk s') = dom (walk ?s2) \<union> {st + 0..<st + page_count nbytes})"
        using vm_inv_reserve [OF inv] st(1,2) none by (intro malloc_loop_spec) auto
      then obtain r s' where "malloc_loop ?s2 (run_base st) 0 (page_count nbytes) = Some (r, s')" "vm_inv s'"
        "r = 0 \<and> walk s' = walk ?s2 |` (- {st..<st + 0}) \<and> data_same s' ?s2 \<and>
           free_frames ?s2 < page_count nbytes - 0 + missing_tables ?s2 \<or>
         r = run_base st \<and> data_same ?s2 s' \<and> walk ?s2 \<subseteq>\<^sub>m walk s' \<and>
           dom (walk s') = dom (walk ?s2) \<union> {st + 0..<st + page_count nbytes}"
        by blast
      note result = this
      have eq: "free_frames ?s2 = free_frames s" "missing_tables ?s2 = missing_tables s"
        by (simp_all add: free_frames_def missing_tables_def)
      from result(3) show thesis
      proof (elim disjE conjE)
        assume "r = 0" "walk s' = walk ?s2 |` (- {st..<st + 0})" "data_same s' ?s2"
          "free_frames ?s2 < page_count nbytes - 0 + missing_tables ?s2"
        then show thesis
          using result(1,2) m eq by (intro null [of s']) (auto simp: data_same_def restrict_map_def)
      next
        assume "r = run_base st" "data_same ?s2 s'" "walk ?s2 \<subseteq>\<^sub>m walk s'"
          "dom (walk s') = dom (walk ?s2) \<union> {st + 0..<st + page_count nbytes}"
        then show thesis
          using result(1,2) m run(2,3) st count
          by (intro block [of st s']) (auto simp: data_same_def)
      qed
    qed
  qed
qed

end
