(* ===== verification/VM_Sections.thy ===== *)
theory VM_Sections
  imports VM_MallocSpec
begin

text \<open>
  The calls of \<open>my_vm.c\<close> cut into their critical sections. A thread is between two sections; a step
  runs the next one. \<open>page_table_lock\<close> is held across several sections (the other locks are taken
  and released inside one), so the state has its holder. The one access to the physical bitmap that no
  \<open>phys_bit_lock\<close> protects, the \<open>clear_bit\<close> of line 576, is two steps: the read of the byte ends one
  section and its write begins the next. Run without interruption, the sections of \<open>n_malloc\<close>,
  \<open>n_free\<close> and \<open>translate\<close> are these functions.
\<close>

section \<open>The two halves of clear\_bit\<close>

text \<open>The byte that \<open>clear_bit\<close> reads, and the bitmap after it has written that byte with the bit cleared.\<close>

definition clear_read :: "mem \<Rightarrow> nat \<Rightarrow> u8" where
  "clear_read bitmap index = bitmap (index div 8)"

definition clear_write :: "u8 \<Rightarrow> mem \<Rightarrow> nat \<Rightarrow> mem" where
  "clear_write old bitmap index =
     bitmap(index div 8 := ucast ((scast old :: u32) AND NOT (push_bit (index mod 8) 1)))"

lemma clear_bit_halves: "clear_bit b i = clear_write (clear_read b i) b i"
  by (simp add: clear_bit_def clear_write_def clear_read_def Let_def)

text \<open>Every other bit of the byte becomes what it was when the byte was read.\<close>

lemma bit_at_clear_write:
  "bit_at (clear_write old b i) j \<longleftrightarrow> (if j div 8 = i div 8 then j \<noteq> i \<and> bit old (j mod 8) else bit_at b j)"
  by (auto simp: clear_write_def bit_at_def bit_andnot_char nat_index_eq [of j i] simp del: push_bit_of_1)

section \<open>Where a thread is\<close>

text \<open>
  \<open>base\<close> is the block, \<open>i\<close> the page the loop is at, \<open>n\<close> the number of pages, \<open>pa\<close> the frame for the
  page, \<open>pde\<close> and \<open>pte\<close> what was read from the tables. \<open>Take\<close> to \<open>Cache\<close> are the loop of \<open>n_malloc\<close>
  with \<open>map_page\<close>, \<open>EnterFree\<close> to \<open>PutBack\<close> are \<open>n_free\<close>, \<open>Look\<close> to \<open>Got\<close> are \<open>translate\<close>. \<open>PutBack\<close> is
  a thread inside the \<open>clear_bit\<close> for a page table, with the byte it has read; \<open>Got\<close> is a thread that
  still holds the pointer it was given.
\<close>

datatype activity =
    Idle
  | Take ptr nat nat
  | Enter ptr nat nat u32
  | Table ptr nat nat u32
  | Fill ptr nat nat u32 u32
  | MarkPhys ptr nat nat u32
  | MarkVirt ptr nat nat u32
  | Cache ptr nat nat u32
  | EnterFree ptr nat
  | Free ptr nat nat
  | ClearPhys ptr nat nat u32 u32
  | ClearVirt ptr nat nat u32
  | Drop ptr nat nat u32
  | Release ptr nat nat u32
  | PutBack ptr nat nat u32 u8
  | Look ptr
  | Tally ptr "nat option"
  | Walk ptr
  | Keep ptr u32 nat
  | Got ptr pte_ref

text \<open>A section that starts by taking \<open>page_table_lock\<close>, and one that runs with the lock held.\<close>

fun locking :: "activity \<Rightarrow> bool" where
  "locking (Enter base i n pa) = True"
| "locking (EnterFree base n) = True"
| "locking (Walk va) = True"
| "locking _ = False"

fun holding :: "activity \<Rightarrow> bool" where
  "holding (Table base i n pa) = True"
| "holding (Fill base i n pa t) = True"
| "holding (Free base i n) = True"
| "holding (ClearPhys base i n pde pte) = True"
| "holding (ClearVirt base i n pde) = True"
| "holding (Drop base i n pde) = True"
| "holding (Release base i n pde) = True"
| "holding (PutBack base i n pde old) = True"
| "holding _ = False"

section \<open>The sections\<close>

text \<open>The undo of \<open>n_malloc\<close>: \<open>n_free(base_va, i * PGSIZE)\<close>.\<close>

definition undo :: "ptr \<Rightarrow> nat \<Rightarrow> activity" where
  "undo base i = EnterFree base (page_count (of_nat i * of_nat PGSIZE))"

text \<open>One section: the memory after it and where the thread is then; \<open>None\<close> is an undefined access.\<close>

fun critical :: "vm \<Rightarrow> activity \<Rightarrow> (vm \<times> activity) option" where
  "critical s Idle = None"
| "critical s (Take base i n) =
     (if i < n then let (pa, s1) = allocate_phys_page s
                    in Some (s1, if pa = INVALID_PA then undo base i else Enter base i n pa)
      else Some (s, Idle))"
| "critical s (Enter base i n pa) =
     (let va = page_addr (VA2U base) i
      in do { pde \<leftarrow> read_pde s (page_dir s) (unat (PDX va));
              if pde = 0 then Some (s, Table base i n pa)
              else do { s1 \<leftarrow> st32 s (unat pde + 4 * unat (PTX va)) pa; Some (s1, MarkPhys base i n pa) } })"
| "critical s (Table base i n pa) =
     (let (t, s1) = allocate_phys_page s
      in Some (s1, if t = INVALID_PA then undo base i else Fill base i n pa t))"
| "critical s (Fill base i n pa t) =
     (let va = page_addr (VA2U base) i
      in do { s1 \<leftarrow> memset0_page s (unat t);
              s2 \<leftarrow> write_pde s1 (page_dir s1) (unat (PDX va)) t;
              s3 \<leftarrow> st32 s2 (unat t + 4 * unat (PTX va)) pa;
              Some (s3, MarkPhys base i n pa) })"
| "critical s (MarkPhys base i n pa) =
     do { s1 \<leftarrow> set_phys_bit s (unat (drop_bit PFN_SHIFT pa)); Some (s1, MarkVirt base i n pa) }"
| "critical s (MarkVirt base i n pa) =
     do { s1 \<leftarrow> set_virt_bit s (unat (drop_bit PFN_SHIFT (page_addr (VA2U base) i))); Some (s1, Cache base i n pa) }"
| "critical s (Cache base i n pa) =
     Some (s\<lparr>tlb_lookups := tlb_lookups s + 1, tlb_misses := tlb_misses s + 1,
             tlb_store := snd (TLB_add (tlb_store s) (U2VA (page_addr (VA2U base) i)) (U2VA pa))\<rparr>, Take base (Suc i) n)"
| "critical s (EnterFree base n) = Some (s, Free base 0 n)"
| "critical s (Free base i n) =
     (if i < n then
        let va = page_addr (VA2U base) i
        in do { pde \<leftarrow> read_pde s (page_dir s) (unat (PDX va));
                if pde = 0 then Some (s, Free base (Suc i) n)
                else do { pte \<leftarrow> ld32 s (unat pde + 4 * unat (PTX va));
                          if pte = 0 then Some (s, Free base (Suc i) n)
                          else do { s1 \<leftarrow> st32 s (unat pde + 4 * unat (PTX va)) 0;
                                    Some (s1, ClearPhys base i n pde pte) } } }
      else Some (s, Idle))"
| "critical s (ClearPhys base i n pde pte) =
     do { s1 \<leftarrow> clear_phys_bit s (unat (drop_bit PFN_SHIFT pte)); Some (s1, ClearVirt base i n pde) }"
| "critical s (ClearVirt base i n pde) =
     do { s1 \<leftarrow> clear_virt_bit s (unat (drop_bit PFN_SHIFT (page_addr (VA2U base) i))); Some (s1, Drop base i n pde) }"
| "critical s (Drop base i n pde) =
     Some (s\<lparr>tlb_store := TLB_invalidate (tlb_store s) (U2VA (page_addr (VA2U base) i))\<rparr>, Release base i n pde)"
| "critical s (Release base i n pde) =
     (let f = unat (drop_bit PFN_SHIFT pde)
      in do { empty \<leftarrow> page_table_empty s (unat pde);
              if \<not> empty then Some (s, Free base (Suc i) n)
              else do { s1 \<leftarrow> write_pde s (page_dir s) (unat (PDX (page_addr (VA2U base) i))) 0;
                        if phys_bit_ok s1 f then Some (s1, PutBack base i n pde (clear_read (phys_bitmap s1) f)) else None } })"
| "critical s (PutBack base i n pde old) =
     (let f = unat (drop_bit PFN_SHIFT pde)
      in if phys_bit_ok s f
         then do { s1 \<leftarrow> memset0_page (s\<lparr>phys_bitmap := clear_write old (phys_bitmap s) f\<rparr>) (unat pde);
                   Some (s1, Free base (Suc i) n) }
         else None)"
| "critical s (Look va) = Some (s, Tally va (TLB_check (tlb_store s) va))"
| "critical s (Tally va r) =
     (let s1 = s\<lparr>tlb_lookups := tlb_lookups s + 1\<rparr>
      in case r of Some i \<Rightarrow> Some (s1, Got va (TlbPte i))
                 | None \<Rightarrow> Some (s1\<lparr>tlb_misses := tlb_misses s1 + 1\<rparr>, Walk va))"
| "critical s (Walk va) =
     do { pde \<leftarrow> read_pde s (page_dir s) (unat (PDX (VA2U va)));
          if pde = 0 then Some (s, Idle)
          else do { pte \<leftarrow> ld32 s (unat pde + 4 * unat (PTX (VA2U va)));
                    Some (s, if pte = 0 then Idle else Keep va pte (unat pde + 4 * unat (PTX (VA2U va)))) } }"
| "critical s (Keep va pte a) =
     Some (s\<lparr>tlb_store := snd (TLB_add (tlb_store s) va (U2VA pte))\<rparr>, Got va (MemPte a))"
| "critical s (Got va r) = map_option (\<lambda>p. (s, Idle)) (deref_pte s r)"

section \<open>Threads\<close>

record conc =
  vm_of :: vm
  pt_holder :: "nat option"
  doing :: "nat \<Rightarrow> activity"
  blocks :: "(ptr \<times> nat) set"

text \<open>\<open>blocks\<close> are the results of \<open>n_malloc\<close> that were not passed to \<open>n_free\<close> yet.\<close>

fun returned :: "activity \<Rightarrow> (ptr \<times> nat) set" where
  "returned (Take base i n) = (if i < n then {} else {(base, n)})"
| "returned _ = {}"

fun touched :: "activity \<Rightarrow> nat set" where
  "touched (Look va) = {vpn_of (VA2U va)}"
| "touched (Tally va r) = {vpn_of (VA2U va)}"
| "touched (Walk va) = {vpn_of (VA2U va)}"
| "touched (Keep va p a) = {vpn_of (VA2U va)}"
| "touched (Got va r) = {vpn_of (VA2U va)}"
| "touched _ = {}"

definition run_pages :: "ptr \<Rightarrow> nat \<Rightarrow> nat set" where
  "run_pages base n = {vpn_of (VA2U base)..<vpn_of (VA2U base) + n}"

text \<open>A thread that needs \<open>page_table_lock\<close> waits while another holds it.\<close>

definition waits :: "conc \<Rightarrow> nat \<Rightarrow> bool" where
  "waits c t \<longleftrightarrow> locking (doing c t) \<and> pt_holder c \<noteq> None"

definition advance :: "conc \<Rightarrow> nat \<Rightarrow> conc option" where
  "advance c t = map_option (\<lambda>(s, a).
     c\<lparr>vm_of := s, doing := (doing c)(t := a), blocks := blocks c \<union> returned (doing c t),
       pt_holder := (if holding a then Some t else if holding (doing c t) then None else pt_holder c)\<rparr>)
     (critical (vm_of c) (doing c t))"

text \<open>
  Any number of threads call \<open>n_malloc\<close>, free a block it returned, and translate an address in such a
  block. A program does not free a block while one of its threads translates an address in it. \<open>G\<close>
  restricts when a thread may run its next section; \<open>vstep\<close> and \<open>vreach\<close> are all interleavings.
\<close>

inductive vstep_if :: "(conc \<Rightarrow> nat \<Rightarrow> bool) \<Rightarrow> conc \<Rightarrow> conc \<Rightarrow> bool" for G where
  malloc_fails: "doing c t = Idle \<Longrightarrow> page_count nbytes = 0 \<or> fst (get_next_avail (vm_of c) (of_nat (page_count nbytes))) = 0 \<Longrightarrow>
    vstep_if G c c"
| malloc: "doing c t = Idle \<Longrightarrow> page_count nbytes \<noteq> 0 \<Longrightarrow>
    get_next_avail (vm_of c) (of_nat (page_count nbytes)) = (base, s) \<Longrightarrow> base \<noteq> 0 \<Longrightarrow>
    vstep_if G c (c\<lparr>vm_of := s, doing := (doing c)(t := Take base 0 (page_count nbytes))\<rparr>)"
| free: "doing c t = Idle \<Longrightarrow> (base, page_count nbytes) \<in> blocks c \<Longrightarrow>
    (\<And>u. touched (doing c u) \<inter> run_pages base (page_count nbytes) = {}) \<Longrightarrow>
    vstep_if G c (c\<lparr>doing := (doing c)(t := EnterFree base (page_count nbytes)), blocks := blocks c - {(base, page_count nbytes)}\<rparr>)"
| translate: "doing c t = Idle \<Longrightarrow> (base, n) \<in> blocks c \<Longrightarrow> vpn_of (VA2U va) \<in> run_pages base n \<Longrightarrow>
    vstep_if G c (c\<lparr>doing := (doing c)(t := Look va)\<rparr>)"
| run: "doing c t \<noteq> Idle \<Longrightarrow> \<not> waits c t \<Longrightarrow> G c t \<Longrightarrow> advance c t = Some c' \<Longrightarrow> vstep_if G c c'"

inductive vreach_if :: "(conc \<Rightarrow> nat \<Rightarrow> bool) \<Rightarrow> conc \<Rightarrow> bool" for G where
  start: "vreach_if G \<lparr>vm_of = vm_booted h, pt_holder = None, doing = \<lambda>_. Idle, blocks = {}\<rparr>"
| step: "vreach_if G c \<Longrightarrow> vstep_if G c c' \<Longrightarrow> vreach_if G c'"

abbreviation vstep :: "conc \<Rightarrow> conc \<Rightarrow> bool" where
  "vstep \<equiv> vstep_if (\<lambda>c t. True)"

abbreviation vreach :: "conc \<Rightarrow> bool" where
  "vreach \<equiv> vreach_if (\<lambda>c t. True)"

text \<open>
  The interleavings in which a section that takes \<open>phys_bit_lock\<close> does not run between the two halves
  of another thread's unlocked \<open>clear_bit\<close>: those of the program in which line 576 takes the lock too.
\<close>

fun phys_locking :: "activity \<Rightarrow> bool" where
  "phys_locking (Take base i n) = (i < n)"
| "phys_locking (Table base i n pa) = True"
| "phys_locking (MarkPhys base i n pa) = True"
| "phys_locking (ClearPhys base i n pde pte) = True"
| "phys_locking _ = False"

fun clearing :: "activity \<Rightarrow> bool" where
  "clearing (PutBack base i n pde old) = True"
| "clearing _ = False"

definition guarded :: "conc \<Rightarrow> nat \<Rightarrow> bool" where
  "guarded c t \<longleftrightarrow> phys_locking (doing c t) \<longrightarrow> (\<forall>u. u \<noteq> t \<longrightarrow> \<not> clearing (doing c u))"

lemma vstep_mono:
  assumes "vstep_if G c c'" "\<And>c t. G c t \<Longrightarrow> H c t"
  shows "vstep_if H c c'"
  using assms(1)
proof cases
  case (free t base nbytes)
  show ?thesis unfolding free(1) by (rule vstep_if.free [OF free(2-4)])
qed (use assms(2) in \<open>auto intro: vstep_if.intros\<close>)

lemma vreach_mono: "vreach_if G c \<Longrightarrow> (\<And>c t. G c t \<Longrightarrow> H c t) \<Longrightarrow> vreach_if H c"
  by (induction rule: vreach_if.induct) (auto intro: vreach_if.intros vstep_mono)

lemma guarded_vreach: "vreach_if guarded c \<Longrightarrow> vreach c"
  by (erule vreach_mono) simp

section \<open>Every section brings its call nearer to its end\<close>

fun sections_left :: "activity \<Rightarrow> nat" where
  "sections_left Idle = 0"
| "sections_left (Take base i n) = 7 * (n - i) + 6 * max i n + 3"
| "sections_left (Enter base i n pa) = 7 * (n - Suc i) + 6 * max (Suc i) n + 9"
| "sections_left (Table base i n pa) = 7 * (n - Suc i) + 6 * max (Suc i) n + 8"
| "sections_left (Fill base i n pa t) = 7 * (n - Suc i) + 6 * max (Suc i) n + 7"
| "sections_left (MarkPhys base i n pa) = 7 * (n - Suc i) + 6 * max (Suc i) n + 6"
| "sections_left (MarkVirt base i n pa) = 7 * (n - Suc i) + 6 * max (Suc i) n + 5"
| "sections_left (Cache base i n pa) = 7 * (n - Suc i) + 6 * max (Suc i) n + 4"
| "sections_left (EnterFree base n) = 6 * n + 2"
| "sections_left (Free base i n) = 6 * (n - i) + 1"
| "sections_left (ClearPhys base i n pde pte) = 6 * (n - Suc i) + 6"
| "sections_left (ClearVirt base i n pde) = 6 * (n - Suc i) + 5"
| "sections_left (Drop base i n pde) = 6 * (n - Suc i) + 4"
| "sections_left (Release base i n pde) = 6 * (n - Suc i) + 3"
| "sections_left (PutBack base i n pde old) = 6 * (n - Suc i) + 2"
| "sections_left (Look va) = 5"
| "sections_left (Tally va r) = 4"
| "sections_left (Walk va) = 3"
| "sections_left (Keep va p a) = 2"
| "sections_left (Got va r) = 1"

lemma unat_add_le: "unat (a + b :: u32) \<le> unat a + unat b"
  by (simp add: unat_word_ariths)

lemma page_count_bound: "page_count (of_nat i * of_nat PGSIZE) \<le> i"
proof -
  let ?w = "of_nat i * of_nat PGSIZE :: u32"
  have "unat ?w \<le> i * 4096"
    by (simp add: PGSIZE_def unat_word_ariths unat_of_nat mod_simps)
  moreover have "?w + of_nat PGSIZE - 1 = ?w + 4095"
    by (simp add: PGSIZE_def)
  then have "unat (?w + of_nat PGSIZE - 1) = unat (?w + 4095)" by (rule arg_cong)
  moreover have "unat (?w + 4095) \<le> unat ?w + 4095" using unat_add_le [of ?w 4095] by simp
  ultimately have "unat (?w + of_nat PGSIZE - 1) \<le> i * 4096 + 4095" by linarith
  then have "unat (?w + of_nat PGSIZE - 1) div 4096 \<le> (i * 4096 + 4095) div 4096"
    by (rule div_le_mono)
  also have "(i * 4096 + 4095) div 4096 = i" by simp
  finally show ?thesis by (simp add: page_count_def unat_div PGSIZE_def)
qed

lemma undo_left: "sections_left (undo base i) \<le> 6 * i + 2"
  using page_count_bound [of i] by (simp add: undo_def)

lemma sections_left_less:
  assumes "critical s a = Some (s', a')"
  shows "sections_left a' < sections_left a"
  using assms by (cases a)
    (auto simp: Let_def max_def split: if_splits option.splits prod.splits Option.bind_splits
      intro!: order_le_less_trans [OF undo_left])

section \<open>One thread alone\<close>

fun paused :: "activity \<Rightarrow> bool" where
  "paused Idle = True"
| "paused (Got va r) = True"
| "paused _ = False"

text \<open>The last activity, the one it led to, and the memory.\<close>

function alone :: "vm \<Rightarrow> activity \<Rightarrow> (activity \<times> activity \<times> vm) option" where
  "alone s a = (case critical s a of
     None \<Rightarrow> None
   | Some (s', a') \<Rightarrow> if paused a' then Some (a, a', s') else alone s' a')"
  by pat_completeness auto
termination
  by (relation "measure (\<lambda>(s, a). sections_left a)") (auto dest: sections_left_less)

declare alone.simps [simp del]

fun result_of :: "activity \<Rightarrow> ptr" where
  "result_of (Take base i n) = base"
| "result_of _ = 0"

definition alone_malloc :: "vm \<Rightarrow> activity \<Rightarrow> (ptr \<times> vm) option" where
  "alone_malloc s a = map_option (\<lambda>(l, _, s'). (result_of l, s')) (alone s a)"

definition alone_free :: "vm \<Rightarrow> activity \<Rightarrow> vm option" where
  "alone_free s a = map_option (\<lambda>(_, _, s'). s') (alone s a)"

lemma alone_free_unfold:
  "alone_free s a = (case critical s a of None \<Rightarrow> None
     | Some (s', a') \<Rightarrow> if paused a' then Some s' else alone_free s' a')"
  by (subst alone_free_def, subst alone.simps) (auto simp: alone_free_def split: option.split)

lemma alone_malloc_unfold:
  "alone_malloc s a = (case critical s a of None \<Rightarrow> None
     | Some (s', a') \<Rightarrow> if paused a' then Some (result_of a, s') else alone_malloc s' a')"
  by (subst alone_malloc_def, subst alone.simps) (auto simp: alone_malloc_def split: option.split)

text \<open>A round of \<open>n_free\<close>.\<close>

lemma alone_release:
  "alone_free s (Release base i n pde) =
     Option.bind (release_table s (unat (PDX (page_addr (VA2U base) i))) pde) (\<lambda>s'. alone_free s' (Free base (Suc i) n))"
  "alone_malloc s (Release base i n pde) =
     Option.bind (release_table s (unat (PDX (page_addr (VA2U base) i))) pde) (\<lambda>s'. alone_malloc s' (Free base (Suc i) n))"
  by (subst alone_free_unfold alone_malloc_unfold,
      auto simp: release_table_def clear_phys_bit_def clear_bit_halves Let_def
        alone_free_unfold [where a = "PutBack b i n p q" for b i n p q] alone_malloc_unfold [where a = "PutBack b i n p q" for b i n p q]
        split: Option.bind_split option.split)+

lemma alone_free_round:
  assumes "i < n"
  shows "alone_free s (Free base i n) =
    Option.bind (free_page s (page_addr (VA2U base) i)) (\<lambda>s'. alone_free s' (Free base (Suc i) n))"
  using assms
  by (subst alone_free_unfold)
    (auto simp: free_page_def Let_def alone_free_unfold [where a = "ClearPhys b i n p q" for b i n p q]
      alone_free_unfold [where a = "ClearVirt b i n p" for b i n p] alone_free_unfold [where a = "Drop b i n p" for b i n p]
      alone_release split: Option.bind_split option.split)

lemma alone_free_loop: "alone_free s (Free base i n) = free_loop s (VA2U base) i n"
proof (induction s "VA2U base" i n rule: free_loop.induct)
  case (1 s i n)
  show ?case
  proof (cases "i < n")
    case True
    then show ?thesis
      using 1 by (subst free_loop.simps, subst alone_free_round) (auto simp: page_addr_def split: Option.bind_split)
  next
    case False
    then show ?thesis by (subst free_loop.simps, subst alone_free_unfold) simp
  qed
qed

lemma alone_n_free: "alone_free s (EnterFree base (page_count nbytes)) = n_free s base nbytes"
  by (subst alone_free_unfold) (simp add: alone_free_loop n_free_def page_count_def)

text \<open>The undo gives \<open>NULL\<close>.\<close>

lemma alone_malloc_free: "alone_malloc s (Free base i n) = map_option (Pair 0) (alone_free s (Free base i n))"
proof (induction s "VA2U base" i n rule: free_loop.induct)
  case (1 s i n)
  show ?case
  proof (cases "i < n")
    case True
    have "alone_malloc s (Free base i n) =
      Option.bind (free_page s (page_addr (VA2U base) i)) (\<lambda>s'. alone_malloc s' (Free base (Suc i) n))"
      using True by (subst alone_malloc_unfold)
        (auto simp: free_page_def Let_def alone_malloc_unfold [where a = "ClearPhys b i n p q" for b i n p q]
          alone_malloc_unfold [where a = "ClearVirt b i n p" for b i n p] alone_malloc_unfold [where a = "Drop b i n p" for b i n p]
          alone_release split: Option.bind_split option.split)
    then show ?thesis
      using 1 True by (subst alone_free_round) (auto simp: page_addr_def split: Option.bind_split)
  next
    case False
    then show ?thesis by (subst alone_free_unfold, subst alone_malloc_unfold) simp
  qed
qed

lemma alone_undo:
  "alone_malloc s (undo base i) = do { s' \<leftarrow> n_free s base (of_nat i * of_nat PGSIZE); Some (0, s') }"
proof -
  have "alone_malloc s (undo base i) = map_option (Pair 0) (alone_free s (undo base i))"
    unfolding undo_def
    by (subst alone_free_unfold, subst alone_malloc_unfold) (simp add: alone_malloc_free)
  then show ?thesis
    unfolding undo_def alone_n_free by (simp add: map_conv_bind_option comp_def)
qed

text \<open>A round of the loop of \<open>n_malloc\<close>.\<close>

lemma page_dir_memset0: "memset0_page s a = Some s' \<Longrightarrow> page_dir s' = page_dir s"
  by (auto simp: memset0_page_def split: if_splits)

lemma page_dir_allocate: "page_dir (snd (allocate_phys_page s)) = page_dir s"
  by (simp add: allocate_phys_page_def split: option.split)

text \<open>The page table is there or is made; then the entry is written and marked.\<close>

lemma alone_map:
  "alone_malloc s (Enter base i n pa) = do { (r, s') \<leftarrow> map_page s (page_dir s) (U2VA (page_addr (VA2U base) i)) (U2VA pa);
     if r \<noteq> 0 then alone_malloc s' (undo base i) else alone_malloc s' (Take base (Suc i) n) }"
proof -
  have mark: "alone_malloc s (MarkPhys base i n pa) =
    do { s3 \<leftarrow> set_phys_bit s (unat (drop_bit PFN_SHIFT pa));
         s4 \<leftarrow> set_virt_bit s3 (unat (drop_bit PFN_SHIFT (page_addr (VA2U base) i)));
         alone_malloc (s4\<lparr>tlb_lookups := tlb_lookups s4 + 1, tlb_misses := tlb_misses s4 + 1,
           tlb_store := snd (TLB_add (tlb_store s4) (U2VA (page_addr (VA2U base) i)) (U2VA pa))\<rparr>) (Take base (Suc i) n) }" for s
    by (subst alone_malloc_unfold)
      (auto simp: alone_malloc_unfold [where a = "MarkVirt b i n p" for b i n p]
        alone_malloc_unfold [where a = "Cache b i n p" for b i n p] split: Option.bind_split option.split)
  have not: "\<not> paused (undo base i)" by (simp add: undo_def)
  obtain t s1 where a: "allocate_phys_page s = (t, s1)" by fastforce
  have pd: "page_dir s1 = page_dir s" using page_dir_allocate [of s] a by simp
  show ?thesis
  proof (cases "read_pde s (page_dir s) (unat (PDX (page_addr (VA2U base) i)))")
    case None
    then show ?thesis by (subst alone_malloc_unfold) (simp add: map_page_def ensure_table_def Let_def)
  next
    case (Some pde)
    show ?thesis
    proof (cases "pde = 0")
      case False
      then show ?thesis
        using Some by (subst alone_malloc_unfold)
          (auto simp: map_page_def ensure_table_def Let_def mark split: Option.bind_split option.split)
    next
      case True
      have "alone_malloc s (Enter base i n pa) = alone_malloc s (Table base i n pa)"
        using Some True by (subst alone_malloc_unfold) simp
      also have "\<dots> = (if t = INVALID_PA then alone_malloc s1 (undo base i) else alone_malloc s1 (Fill base i n pa t))"
        using not by (subst alone_malloc_unfold) (simp add: a)
      finally show ?thesis
        using Some True a pd
        by (auto simp: map_page_def ensure_table_def Let_def mark alone_malloc_unfold [where a = "Fill b i n p q" for b i n p q]
            dest: page_dir_memset0 split: Option.bind_split option.split)
    qed
  qed
qed

text \<open>So the sections of one thread in sequence are \<open>n_malloc\<close>, and likewise \<open>translate\<close>.\<close>

lemma alone_malloc_loop: "alone_malloc s (Take base i n) = malloc_loop s base i n"
proof (induction s base i n rule: malloc_loop.induct)
  case (1 s base i n)
  have not: "\<not> paused (undo base i)" by (simp add: undo_def)
  show ?case
  proof (cases "i < n")
    case False
    then show ?thesis by (subst malloc_loop.simps, subst alone_malloc_unfold) simp
  next
    case True
    obtain pa s1 where a: "allocate_phys_page s = (pa, s1)" by fastforce
    have step: "alone_malloc s (Take base i n) =
        (if pa = INVALID_PA then alone_malloc s1 (undo base i) else alone_malloc s1 (Enter base i n pa))"
      using True not by (subst alone_malloc_unfold) (simp add: a)
    have rest: "alone_malloc s2 (Take base (Suc i) n) = malloc_loop s2 base (Suc i) n"
      if "pa \<noteq> INVALID_PA" "map_page s1 (page_dir s1) (U2VA (page_addr (VA2U base) i)) (U2VA pa) = Some (0, s2)" for s2
      using "1.IH" [OF True refl refl a [symmetric] refl that(1)] that(2) by (simp add: page_addr_def)
    show ?thesis
      unfolding step alone_map alone_undo
      using True rest by (subst malloc_loop.simps) (auto simp: a Let_def page_addr_def split: Option.bind_split prod.split)
  qed
qed

lemma alone_translate:
  "translate s (page_dir s) va = map_option (\<lambda>(_, a', s'). (case a' of Got _ r \<Rightarrow> Some r | _ \<Rightarrow> None, s')) (alone s (Look va))"
proof (cases "TLB_check (tlb_store s) va")
  case (Some i)
  then show ?thesis by (simp add: translate_def alone.simps [of s "Look va"] alone.simps [where a = "Tally v r" for v r] Let_def)
next
  case None
  let ?s2 = "s\<lparr>tlb_lookups := tlb_lookups s + 1, tlb_misses := tlb_misses s + 1\<rparr>"
  have "alone s (Look va) = alone ?s2 (Walk va)"
    using None by (simp add: alone.simps [of s "Look va"] alone.simps [where a = "Tally v r" for v r] Let_def)
  then show ?thesis
    using None by (simp add: translate_def Let_def alone.simps [where a = "Walk v" for v] alone.simps [where a = "Keep v p q" for v p q]
        split: Option.bind_split option.split)
qed

end
