(* ===== verification/VM_Interleave.thy ===== *)
theory VM_Interleave
  imports VM_Sections
begin

text \<open>
  What the threads of \<open>VM_Sections\<close> keep true of the memory they share, in the style of Owicki and
  Gries: every page number that is reserved belongs to one call in progress or to one block, a frame
  that a call has taken and not mapped yet belongs to that call, and the TLB disagrees with the page
  table only on the page a running \<open>n_free\<close> is about to drop. This is the invariant of the \<open>guarded\<close>
  interleavings; \<open>VM_Torn\<close> has what is left of it without the guard.
\<close>

section \<open>What a call owns\<close>

abbreviation first :: "ptr \<Rightarrow> nat" where
  "first b \<equiv> vpn_of (VA2U b)"

definition block_ok :: "ptr \<Rightarrow> nat \<Rightarrow> bool" where
  "block_ok b n \<longleftrightarrow> b = run_base (first b) \<and> 1 \<le> first b \<and> first b + n \<le> 1048576"

lemma block_page:
  assumes "block_ok b n" "i < n"
  shows "vpn_of (page_addr (VA2U b) i) = first b + i" "first b + i < 1048576" "(first b + i) div 1024 < 1024"
    "unat (PDX (page_addr (VA2U b) i)) = (first b + i) div 1024" "unat (PTX (page_addr (VA2U b) i)) = (first b + i) mod 1024"
    "U2VA (page_addr (VA2U b) i) \<noteq> 0" "page_addr (VA2U b) i \<noteq> INVALID_PA"
proof -
  have b: "b = run_base (first b)" "1 \<le> first b" "first b + i < 1048576" using assms by (auto simp: block_ok_def)
  show v: "vpn_of (page_addr (VA2U b) i) = first b + i"
    using vpn_of_page_addr [OF b(3)] b(1) by simp
  show "first b + i < 1048576" using b(3) .
  then show "(first b + i) div 1024 < 1024" by (simp add: less_mult_imp_div_less)
  show "unat (PDX (page_addr (VA2U b) i)) = (first b + i) div 1024" "unat (PTX (page_addr (VA2U b) i)) = (first b + i) mod 1024"
    by (simp_all add: unat_PDX unat_PTX v)
  have u: "unat (page_addr (VA2U b) i) = (first b + i) * 4096"
    using unat_page_addr [OF b(3)] b(1) by simp
  have "page_addr (VA2U b) i \<noteq> 0"
  proof
    assume z: "page_addr (VA2U b) i = 0"
    have "(first b + i) * 4096 = 0" using u unfolding z by simp
    then show False using b(2) by simp
  qed
  then show "U2VA (page_addr (VA2U b) i) \<noteq> 0" by simp
  show "page_addr (VA2U b) i \<noteq> INVALID_PA"
  proof
    assume z: "page_addr (VA2U b) i = INVALID_PA"
    have "4294967295 = (first b + i) * 4096" using u unfolding z unat_INVALID_PA .
    from arg_cong [OF this, of "\<lambda>k. k mod 4096"] show False by simp
  qed
qed

text \<open>The page numbers a call has reserved, those of them that are mapped, the frames it holds.\<close>

fun pages :: "activity \<Rightarrow> nat set" where
  "pages (Take b i n) = run_pages b n"
| "pages (Enter b i n pa) = run_pages b n"
| "pages (Table b i n pa) = run_pages b n"
| "pages (Fill b i n pa t) = run_pages b n"
| "pages (MarkPhys b i n pa) = run_pages b n"
| "pages (MarkVirt b i n pa) = run_pages b n"
| "pages (Cache b i n pa) = run_pages b n"
| "pages (EnterFree b n) = run_pages b n"
| "pages (Free b i n) = {first b + i..<first b + n}"
| "pages (ClearPhys b i n pde pte) = {first b + i..<first b + n}"
| "pages (ClearVirt b i n pde) = {first b + i..<first b + n}"
| "pages (Drop b i n pde) = {first b + Suc i..<first b + n}"
| "pages (Release b i n pde) = {first b + Suc i..<first b + n}"
| "pages (PutBack b i n pde old) = {first b + Suc i..<first b + n}"
| "pages _ = {}"

fun live :: "activity \<Rightarrow> nat set" where
  "live (Take b i n) = {first b..<first b + i}"
| "live (Enter b i n pa) = {first b..<first b + i}"
| "live (Table b i n pa) = {first b..<first b + i}"
| "live (Fill b i n pa t) = {first b..<first b + i}"
| "live (MarkPhys b i n pa) = {first b..<first b + Suc i}"
| "live (MarkVirt b i n pa) = {first b..<first b + Suc i}"
| "live (Cache b i n pa) = {first b..<first b + Suc i}"
| "live (EnterFree b n) = run_pages b n"
| "live (Free b i n) = {first b + i..<first b + n}"
| "live (ClearPhys b i n pde pte) = {first b + Suc i..<first b + n}"
| "live (ClearVirt b i n pde) = {first b + Suc i..<first b + n}"
| "live (Drop b i n pde) = {first b + Suc i..<first b + n}"
| "live (Release b i n pde) = {first b + Suc i..<first b + n}"
| "live (PutBack b i n pde old) = {first b + Suc i..<first b + n}"
| "live _ = {}"

fun frames_of :: "activity \<Rightarrow> u32 set" where
  "frames_of (Enter b i n pa) = {pa}"
| "frames_of (Table b i n pa) = {pa}"
| "frames_of (Fill b i n pa t) = {pa, t}"
| "frames_of (ClearPhys b i n pde pte) = {pte}"
| "frames_of (PutBack b i n pde old) = {pde}"
| "frames_of _ = {}"

text \<open>The page whose translation may still be in the TLB although it is not mapped.\<close>

fun stale :: "activity \<Rightarrow> nat set" where
  "stale (ClearPhys b i n pde pte) = {first b + i}"
| "stale (ClearVirt b i n pde) = {first b + i}"
| "stale (Drop b i n pde) = {first b + i}"
| "stale _ = {}"

text \<open>What a call relies on; \<open>P\<close> is the page directory and \<open>W\<close> the page map.\<close>

fun local_ok :: "(nat \<Rightarrow> u32) \<Rightarrow> (nat \<Rightarrow> u32 option) \<Rightarrow> activity \<Rightarrow> bool" where
  "local_ok P W Idle = True"
| "local_ok P W (Take b i n) = (block_ok b n \<and> i \<le> n \<and> 0 < n)"
| "local_ok P W (Enter b i n pa) = (block_ok b n \<and> i < n)"
| "local_ok P W (Table b i n pa) = (block_ok b n \<and> i < n \<and> P ((first b + i) div 1024) = 0)"
| "local_ok P W (Fill b i n pa t) = (block_ok b n \<and> i < n \<and> P ((first b + i) div 1024) = 0 \<and> pa \<noteq> t)"
| "local_ok P W (MarkPhys b i n pa) = (block_ok b n \<and> i < n \<and> W (first b + i) = Some pa)"
| "local_ok P W (MarkVirt b i n pa) = (block_ok b n \<and> i < n \<and> W (first b + i) = Some pa)"
| "local_ok P W (Cache b i n pa) = (block_ok b n \<and> i < n \<and> W (first b + i) = Some pa)"
| "local_ok P W (EnterFree b n) = block_ok b n"
| "local_ok P W (Free b i n) = (block_ok b n \<and> i \<le> n)"
| "local_ok P W (ClearPhys b i n pde pte) = (block_ok b n \<and> i < n \<and> pde \<noteq> 0 \<and> P ((first b + i) div 1024) = pde)"
| "local_ok P W (ClearVirt b i n pde) = (block_ok b n \<and> i < n \<and> pde \<noteq> 0 \<and> P ((first b + i) div 1024) = pde)"
| "local_ok P W (Drop b i n pde) = (block_ok b n \<and> i < n \<and> pde \<noteq> 0 \<and> P ((first b + i) div 1024) = pde)"
| "local_ok P W (Release b i n pde) = (block_ok b n \<and> i < n \<and> pde \<noteq> 0 \<and> P ((first b + i) div 1024) = pde)"
| "local_ok P W (PutBack b i n pde old) = (block_ok b n \<and> i < n)"
| "local_ok P W (Look va) = True"
| "local_ok P W (Tally va r) = True"
| "local_ok P W (Walk va) = True"
| "local_ok P W (Keep va p a) = (W (first va) = Some p \<and> P (first va div 1024) \<noteq> 0 \<and>
     a = unat (P (first va div 1024)) + 4 * (first va mod 1024))"
| "local_ok P W (Got va r) = (case r of TlbPte i \<Rightarrow> True
     | MemPte a \<Rightarrow> P (first va div 1024) \<noteq> 0 \<and> a = unat (P (first va div 1024)) + 4 * (first va mod 1024))"

lemma live_pages: "local_ok P W a \<Longrightarrow> live a \<subseteq> pages a"
  by (cases a) (auto simp: run_pages_def)

lemma pages_bounded: "local_ok P W a \<Longrightarrow> v \<in> pages a \<Longrightarrow> v < 1048576"
  by (cases a) (auto simp: run_pages_def block_ok_def)

definition held :: "(nat \<Rightarrow> u32) \<Rightarrow> (nat \<Rightarrow> u32 option) \<Rightarrow> (nat \<Rightarrow> bool) \<Rightarrow> u32 \<Rightarrow> bool" where
  "held P W pb p \<longleftrightarrow> used_frame pb p \<and> (\<forall>i < 1024. P i \<noteq> p) \<and> (\<forall>v. W v \<noteq> Some p)"

text \<open>The owners of page numbers are the calls in progress (\<open>Inl\<close>) and the blocks (\<open>Inr\<close>).\<close>

definition region :: "(nat \<Rightarrow> activity) \<Rightarrow> (ptr \<times> nat) set \<Rightarrow> nat + ptr \<times> nat \<Rightarrow> nat set" where
  "region D B w = (case w of Inl t \<Rightarrow> pages (D t) | Inr b \<Rightarrow> if b \<in> B then run_pages (fst b) (snd b) else {})"

definition mapped :: "(nat \<Rightarrow> activity) \<Rightarrow> (ptr \<times> nat) set \<Rightarrow> nat + ptr \<times> nat \<Rightarrow> nat set" where
  "mapped D B w = (case w of Inl t \<Rightarrow> live (D t) | Inr b \<Rightarrow> if b \<in> B then run_pages (fst b) (snd b) else {})"

section \<open>The invariant\<close>

definition sharing :: "(nat \<Rightarrow> u32) \<Rightarrow> (nat \<Rightarrow> u32 option) \<Rightarrow> (nat \<Rightarrow> bool) \<Rightarrow> (nat \<Rightarrow> bool) \<Rightarrow>
    (u32 \<Rightarrow> u32 option) \<Rightarrow> (nat \<Rightarrow> activity) \<Rightarrow> (ptr \<times> nat) set \<Rightarrow> nat option \<Rightarrow> bool" where
  "sharing P W pb vb T D B L \<longleftrightarrow>
     (\<forall>t. local_ok P W (D t)) \<and> (\<forall>b n. (b, n) \<in> B \<longrightarrow> block_ok b n) \<and>
     (\<forall>o1 o2 v. v \<in> region D B o1 \<longrightarrow> v \<in> region D B o2 \<longrightarrow> o1 = o2) \<and>
     (\<forall>o1 v. v \<in> region D B o1 \<longrightarrow> vb v) \<and>
     (\<forall>v. W v \<noteq> None \<longleftrightarrow> (\<exists>o1. v \<in> mapped D B o1)) \<and>
     (\<forall>t p. p \<in> frames_of (D t) \<longrightarrow> held P W pb p) \<and>
     (\<forall>t u p. p \<in> frames_of (D t) \<longrightarrow> p \<in> frames_of (D u) \<longrightarrow> t = u) \<and>
     (\<forall>t. holding (D t) \<longleftrightarrow> L = Some t) \<and>
     (\<forall>x p. T x = Some p \<longrightarrow> W (unat x) = Some p \<or> (\<exists>t. unat x \<in> stale (D t))) \<and>
     (\<forall>t v. v \<in> touched (D t) \<longrightarrow> (\<exists>b n. (b, n) \<in> B \<and> v \<in> run_pages b n))"

lemma sharingD:
  assumes "sharing P W pb vb T D B L"
  shows "local_ok P W (D t)" "(b, n) \<in> B \<Longrightarrow> block_ok b n"
    "v \<in> region D B o1 \<Longrightarrow> v \<in> region D B o2 \<Longrightarrow> o1 = o2" "v \<in> region D B o1 \<Longrightarrow> vb v"
    "W v \<noteq> None \<longleftrightarrow> (\<exists>o1. v \<in> mapped D B o1)" "p \<in> frames_of (D t) \<Longrightarrow> held P W pb p"
    "p \<in> frames_of (D t) \<Longrightarrow> p \<in> frames_of (D u) \<Longrightarrow> t = u" "holding (D t) \<longleftrightarrow> L = Some t"
    "T x = Some p \<Longrightarrow> W (unat x) = Some p \<or> (\<exists>t. unat x \<in> stale (D t))"
    "v \<in> touched (D t) \<Longrightarrow> \<exists>b n. (b, n) \<in> B \<and> v \<in> run_pages b n"
  using assms unfolding sharing_def by (blast | simp)+

definition vm_core :: "vm \<Rightarrow> bool" where
  "vm_core s \<longleftrightarrow> phys_ready s \<and> page_dir s = Some 0 \<and> num_phys_pages s = 262144 \<and> num_virt_pages s = 1048576 \<and>
     frames_inv (pde_of s) (walk s) (bit_at (phys_bitmap s)) (bit_at (virt_bitmap s)) \<and> tlb_ok (tlb_store s)"

definition conc_inv :: "conc \<Rightarrow> bool" where
  "conc_inv c \<longleftrightarrow> vm_core (vm_of c) \<and>
     sharing (pde_of (vm_of c)) (walk (vm_of c)) (bit_at (phys_bitmap (vm_of c))) (bit_at (virt_bitmap (vm_of c)))
       (tlb_map (tlb_store (vm_of c))) (doing c) (blocks c) (pt_holder c)"

section \<open>A section of one thread\<close>

text \<open>What a call relies on survives the steps of the others.\<close>

lemma local_ok_frame:
  assumes ok: "local_ok P W a" and W: "\<And>v. v \<in> live a \<union> touched a \<Longrightarrow> W' v = W v"
    and P: "holding a \<Longrightarrow> \<forall>i < 1024. P' i = P i" "\<And>v. v \<in> touched a \<Longrightarrow> P' (v div 1024) = P (v div 1024)"
  shows "local_ok P' W' a"
  using ok W P block_page(3) by (cases a) (auto split: pte_ref.splits)

lemma sharing_step:
  assumes S: "sharing P W pb vb T D B L"
    and ok: "local_ok P' W' a'" and sub: "pages a' \<subseteq> pages (D t)" "touched a' \<subseteq> touched (D t)"
    and lock: "holding a' \<Longrightarrow> holding (D t) \<or> L = None"
      "L' = (if holding a' then Some t else if holding (D t) then None else L)"
    and W: "\<And>v. v \<notin> pages (D t) \<Longrightarrow> W' v = W v" "\<And>v. v \<in> pages (D t) \<Longrightarrow> W' v \<noteq> None \<longleftrightarrow> v \<in> live a'"
    and P: "\<And>i. i < 1024 \<Longrightarrow> P' i \<noteq> P i \<Longrightarrow> holding (D t)"
      "\<And>v. W v \<noteq> None \<Longrightarrow> v \<notin> pages (D t) \<Longrightarrow> P' (v div 1024) = P (v div 1024)"
    and vb: "\<And>v. vb v \<Longrightarrow> v \<notin> pages (D t) \<Longrightarrow> vb' v" "\<And>v. v \<in> pages a' \<Longrightarrow> vb' v"
    and frames: "\<And>p. p \<in> frames_of a' \<Longrightarrow> held P' W' pb' p \<and> (p \<in> frames_of (D t) \<or> \<not> held P W pb p)"
      "\<And>p. held P W pb p \<Longrightarrow> p \<notin> frames_of (D t) \<Longrightarrow> held P' W' pb' p"
    and T: "\<And>x p. T' x = Some p \<Longrightarrow> W' (unat x) = Some p \<or> unat x \<in> stale a' \<or>
        T x = Some p \<and> unat x \<notin> stale (D t) \<and> W' (unat x) = W (unat x)"
  shows "sharing P' W' pb' vb' T' (D(t := a')) B L'"
proof -
  note D = sharingD [OF S]
  let ?D = "D(t := a')"
  have reg: "region ?D B w \<subseteq> region D B w" for w
    using sub(1) by (auto simp: region_def split: sum.splits)
  have other: "v \<notin> pages (D t)" if "v \<in> region D B w" "w \<noteq> Inl t" for v w
    using D(3) [of v w "Inl t"] that by (auto simp: region_def)
  have blk: "v \<notin> pages (D t)" "W v \<noteq> None" if "(b, n) \<in> B" "v \<in> run_pages b n" for b n v
    using other [of v "Inr (b, n)"] D(5) [of v] that by (auto simp: region_def mapped_def intro!: exI [of _ "Inr (b, n)"])
  have tch: "v \<notin> pages (D t)" "W v \<noteq> None" if "v \<in> touched (D u)" for u v
    using D(10) [OF that] blk by blast+
  have locals: "local_ok P' W' (?D u)" for u
  proof (cases "u = t")
    case False
    have "local_ok P' W' (D u)"
    proof (rule local_ok_frame [OF D(1)])
      fix v assume v: "v \<in> live (D u) \<union> touched (D u)"
      have "v \<notin> pages (D t)" if "v \<in> live (D u)"
        using that live_pages [OF D(1) [of u]] other [of v "Inl u"] False by (auto simp: region_def)
      then show "W' v = W v" using W(1) tch(1) v by blast
    next
      assume "holding (D u)"
      then have "\<not> holding (D t)" using D(8) [of u] D(8) [of t] False by simp
      then show "\<forall>i < 1024. P' i = P i" using P(1) by blast
    next
      fix v assume "v \<in> touched (D u)"
      then show "P' (v div 1024) = P (v div 1024)" using P(2) tch by blast
    qed
    then show ?thesis using False by simp
  qed (use ok in simp)
  have mp: "v \<in> mapped ?D B w \<longleftrightarrow> (if w = Inl t then v \<in> live a' else v \<in> mapped D B w)" for v w
    by (auto simp: mapped_def split: sum.splits)
  have mp_reg: "v \<in> region D B w" if "v \<in> mapped D B w" for v w
    using that live_pages [OF D(1)] by (auto simp: mapped_def region_def split: sum.splits)
  have dom: "W' v \<noteq> None \<longleftrightarrow> (\<exists>w. v \<in> mapped ?D B w)" for v
  proof (cases "v \<in> pages (D t)")
    case True
    have "v \<notin> mapped D B w" if "w \<noteq> Inl t" for w using True other mp_reg that by blast
    then show ?thesis using W(2) [OF True] mp by metis
  next
    case False
    have "v \<notin> live a'" using False sub(1) live_pages [OF ok] by blast
    moreover have "v \<notin> mapped D B (Inl t)" using False live_pages [OF D(1) [of t]] by (auto simp: mapped_def)
    ultimately show ?thesis using W(1) [OF False] D(5) [of v] mp by metis
  qed
  have vbits: "vb' v" if "v \<in> region ?D B w" for v w
  proof (cases "w = Inl t")
    case True
    then show ?thesis using that vb(2) by (simp add: region_def)
  next
    case False
    have "v \<in> region D B w" using that reg by blast
    then show ?thesis using vb(1) D(4) other False by blast
  qed
  have fr: "held P' W' pb' p" if "p \<in> frames_of (?D u)" for p u
    using that frames D(6) [of p u] D(7) [of p u t] by (cases "u = t") auto
  have fru: "u = w" if "p \<in> frames_of (?D u)" "p \<in> frames_of (?D w)" for p u w
    using that frames(1) [of p] D(6) [of p u] D(6) [of p w] D(7) by (cases "u = t"; cases "w = t") auto
  have lk: "holding (?D u) \<longleftrightarrow> L' = Some u" for u
    using D(8) [of u] D(8) [of t] lock by (cases "u = t") auto
  have tl: "W' (unat x) = Some p \<or> (\<exists>u. unat x \<in> stale (?D u))" if x: "T' x = Some p" for x p
  proof (cases "W' (unat x) = Some p \<or> unat x \<in> stale a'")
    case False
    then have o: "T x = Some p" "unat x \<notin> stale (D t)" "W' (unat x) = W (unat x)" using T [OF x] by auto
    then have "W (unat x) \<noteq> Some p" using False by simp
    then obtain u where "unat x \<in> stale (D u)" using D(9) [OF o(1)] by blast
    then show ?thesis using o(2) by (intro disjI2 exI [of _ u]) auto
  qed auto
  have "\<exists>b n. (b, n) \<in> B \<and> v \<in> run_pages b n" if "v \<in> touched (?D u)" for u v
    using that sub(2) D(10) by (cases "u = t") auto
  then show ?thesis
    unfolding sharing_def using locals D(2,3) reg vbits dom fr fru lk tl by blast
qed

section \<open>The memory under the invariant\<close>

lemma vm_coreD:
  assumes "vm_core s"
  shows "phys_ready s" "page_dir s = Some 0" "num_phys_pages s = 262144" "num_virt_pages s = 1048576"
    "frames_inv (pde_of s) (walk s) (bit_at (phys_bitmap s)) (bit_at (virt_bitmap s))" "tlb_ok (tlb_store s)"
  using assms by (simp_all add: vm_core_def)

lemma core_pde: "vm_core s \<Longrightarrow> i < 1024 \<Longrightarrow> read_pde s (page_dir s) i = Some (pde_of s i)"
  by (simp add: read_pde_def vm_coreD ld32_def in_phys_def MEMSIZE_def pde_of_def)

lemma core_pde_0: "vm_core s \<Longrightarrow> i < 1024 \<Longrightarrow> read_pde s (Some 0) i = Some (pde_of s i)"
  using core_pde [of s i] by (simp add: vm_coreD)

lemma core_table:
  assumes "vm_core s" "i < 1024" "pde_of s i \<noteq> 0"
  shows "used_frame (bit_at (phys_bitmap s)) (pde_of s i)" "j < 1024 \<Longrightarrow> in_phys s (unat (pde_of s i) + 4 * j) 4"
    "in_phys s (unat (pde_of s i)) 4096"
proof -
  show u: "used_frame (bit_at (phys_bitmap s)) (pde_of s i)" using frames_invD(2) [OF vm_coreD(5) [OF assms(1)] assms(2,3)] .
  show "j < 1024 \<Longrightarrow> in_phys s (unat (pde_of s i) + 4 * j) 4" "in_phys s (unat (pde_of s i)) 4096"
    using used_frame_bounds [OF u] assms by (simp_all add: in_phys_def vm_coreD)
qed

lemma core_pte:
  assumes "vm_core s" "i < 1024" "j < 1024" "pde_of s i \<noteq> 0"
  shows "ld32 s (unat (pde_of s i) + 4 * j) = Some (pte_of s i j)"
  using core_table(2) [OF assms(1,2,4,3)] by (simp add: ld32_def pte_of_def)

lemma held_cong: "(\<And>i. i < 1024 \<Longrightarrow> P' i = P i) \<Longrightarrow> held P' W pb p = held P W pb p"
  by (simp add: held_def)

lemma held_mono: "held P W pb p \<Longrightarrow> (\<And>f. pb f \<Longrightarrow> pb' f) \<Longrightarrow> held P W pb' p"
  by (auto simp: held_def elim: used_frame_mono)

lemma tables_same:
  assumes "phys_mem s' = phys_mem s"
  shows "pde_of s' = pde_of s" "walk s' = walk s"
  unfolding walk_def [abs_def] pte_of_def pde_of_def [abs_def] assms by (rule refl)+

text \<open>Taking a frame.\<close>

lemma core_allocate:
  assumes core: "vm_core s"
  obtains (none) "allocate_phys_page s = (INVALID_PA, s)"
  | (some) p f where "allocate_phys_page s = (p, s\<lparr>phys_bitmap := set_bit (phys_bitmap s) f\<rparr>)" "p \<noteq> INVALID_PA"
      "vm_core (s\<lparr>phys_bitmap := set_bit (phys_bitmap s) f\<rparr>)"
      "held (pde_of s) (walk s) (bit_at (set_bit (phys_bitmap s) f)) p" "\<not> held (pde_of s) (walk s) (bit_at (phys_bitmap s)) p"
proof -
  note C = vm_coreD [OF core]
  note D = frames_invD [OF C(5)]
  consider "allocate_phys_page s = (INVALID_PA, s)"
    | (y) f where "f < 262144" "\<not> bit_at (phys_bitmap s) f"
      "allocate_phys_page s = (of_nat f * of_nat PGSIZE, s\<lparr>phys_bitmap := set_bit (phys_bitmap s) f\<rparr>)"
    using allocate_phys_page_cases [OF C(3)] by metis
  then show thesis
  proof cases
    case (y f)
    let ?p = "of_nat f * of_nat PGSIZE :: u32"
    have p: "unat ?p = f * 4096" by (rule unat_frame_addr [OF y(1)])
    have nu: "\<not> used_frame (bit_at (phys_bitmap s)) ?p" using y(2) p by (simp add: used_frame_def)
    have "f \<noteq> 0" using D(1) y(2) by metis
    then have "?p \<noteq> 0" using p by auto
    then have "used_frame (bit_at (set_bit (phys_bitmap s) f)) ?p"
      using p y(1) by (simp add: used_frame_def bitmap_simps MEMSIZE_def)
    then have "held (pde_of s) (walk s) (bit_at (set_bit (phys_bitmap s) f)) ?p"
      unfolding held_def using D(2) D(5) nu \<open>?p \<noteq> 0\<close> by metis
    moreover have "vm_core (s\<lparr>phys_bitmap := set_bit (phys_bitmap s) f\<rparr>)"
      using core by (auto simp: vm_core_def bitmap_simps elim!: frames_inv_mono)
    ultimately show thesis
      using some y(3) frame_addr_not_invalid [OF y(1)] nu by (auto simp: held_def)
  qed (rule none)
qed

text \<open>The entry of a page.\<close>

lemma core_write_pte:
  assumes core: "vm_core s" and v: "v < 1048576" and i: "pde_of s (v div 1024) \<noteq> 0"
    and p: "p = 0 \<or> held (pde_of s) (walk s) (bit_at (phys_bitmap s)) p \<and> bit_at (virt_bitmap s) v"
  obtains s' where "st32 s (unat (pde_of s (v div 1024)) + 4 * (v mod 1024)) p = Some s'" "vm_core s'"
    "\<And>k. k < 1024 \<Longrightarrow> pde_of s' k = pde_of s k" "walk s' = (walk s)(v := if p = 0 then None else Some p)"
    "phys_bitmap s' = phys_bitmap s" "virt_bitmap s' = virt_bitmap s" "tlb_store s' = tlb_store s"
proof -
  note C = vm_coreD [OF core]
  have k: "v div 1024 < 1024" "v mod 1024 < 1024" using v by (simp_all add: less_mult_imp_div_less)
  let ?s' = "s\<lparr>phys_mem := store32 (phys_mem s) (unat (pde_of s (v div 1024)) + 4 * (v mod 1024)) p\<rparr>"
  note wp = write_pte [OF C(5) k(1) i k(2), of ?s' p]
  have P: "\<And>k. k < 1024 \<Longrightarrow> pde_of ?s' k = pde_of s k" using wp(1) by simp
  have W: "walk ?s' = (walk s)(v := if p = 0 then None else Some p)" using wp(2) by simp
  have "frames_inv (pde_of ?s') (walk ?s') (bit_at (phys_bitmap s)) (bit_at (virt_bitmap s))"
  proof (cases "p = 0")
    case True
    have "frames_inv (pde_of ?s') ((walk s)(v := None)) (bit_at (phys_bitmap s)) (bit_at (virt_bitmap s))"
      using C(5) P unfolding frames_inv_def by auto
    then show ?thesis using W True by simp
  next
    case False
    then show ?thesis
      using p v P unfolding W by (simp, intro frames_inv_add_page [OF C(5)]) (auto simp: held_def)
  qed
  then have "vm_core ?s'" using core by (simp add: vm_core_def)
  then show thesis
    using that [of ?s'] core_table(2) [OF core k(1) i k(2)] P W by (simp add: st32_def)
qed

section \<open>The sections one by one\<close>

definition after :: "conc \<Rightarrow> nat \<Rightarrow> vm \<Rightarrow> activity \<Rightarrow> conc" where
  "after c t s a = c\<lparr>vm_of := s, doing := (doing c)(t := a),
     pt_holder := (if holding a then Some t else if holding (doing c t) then None else pt_holder c)\<rparr>"

lemma conc_invD:
  assumes "conc_inv c"
  shows "vm_core (vm_of c)"
    "sharing (pde_of (vm_of c)) (walk (vm_of c)) (bit_at (phys_bitmap (vm_of c))) (bit_at (virt_bitmap (vm_of c)))
       (tlb_map (tlb_store (vm_of c))) (doing c) (blocks c) (pt_holder c)"
    "local_ok (pde_of (vm_of c)) (walk (vm_of c)) (doing c t)"
    "v \<in> pages (doing c t) \<Longrightarrow> bit_at (virt_bitmap (vm_of c)) v"
    "v \<in> pages (doing c t) \<Longrightarrow> walk (vm_of c) v \<noteq> None \<longleftrightarrow> v \<in> live (doing c t)"
    "p \<in> frames_of (doing c t) \<Longrightarrow> held (pde_of (vm_of c)) (walk (vm_of c)) (bit_at (phys_bitmap (vm_of c))) p"
proof -
  show C: "vm_core (vm_of c)"
    "sharing (pde_of (vm_of c)) (walk (vm_of c)) (bit_at (phys_bitmap (vm_of c))) (bit_at (virt_bitmap (vm_of c)))
       (tlb_map (tlb_store (vm_of c))) (doing c) (blocks c) (pt_holder c)"
    using assms by (simp_all add: conc_inv_def)
  note D = sharingD [OF C(2)]
  show l: "local_ok (pde_of (vm_of c)) (walk (vm_of c)) (doing c t)" for t by (rule D(1))
  show "bit_at (virt_bitmap (vm_of c)) v" if "v \<in> pages (doing c t)"
    using D(4) [of v "Inl t"] that by (simp add: region_def)
  show "p \<in> frames_of (doing c t) \<Longrightarrow> held (pde_of (vm_of c)) (walk (vm_of c)) (bit_at (phys_bitmap (vm_of c))) p"
    by (rule D(6))
  show "walk (vm_of c) v \<noteq> None \<longleftrightarrow> v \<in> live (doing c t)" if v: "v \<in> pages (doing c t)"
  proof -
    have "w = Inl t" if "v \<in> mapped (doing c) (blocks c) w" for w
      using that live_pages [OF l] v D(3) [of v w "Inl t"] by (auto simp: mapped_def region_def split: sum.splits if_splits)
    moreover have "v \<in> mapped (doing c) (blocks c) (Inl t) \<longleftrightarrow> v \<in> live (doing c t)" by (simp add: mapped_def)
    ultimately show ?thesis using D(5) [of v] by metis
  qed
qed

lemma inv_step:
  assumes inv: "conc_inv c" and core: "vm_core s'"
    and ok: "local_ok (pde_of s') (walk s') a'" "pages a' \<subseteq> pages (doing c t)" "touched a' \<subseteq> touched (doing c t)"
      "holding a' \<Longrightarrow> holding (doing c t) \<or> pt_holder c = None"
    and W: "\<And>v. v \<notin> pages (doing c t) \<Longrightarrow> walk s' v = walk (vm_of c) v"
      "\<And>v. v \<in> pages (doing c t) \<Longrightarrow> walk s' v \<noteq> None \<longleftrightarrow> v \<in> live a'"
    and P: "\<And>i. i < 1024 \<Longrightarrow> pde_of s' i \<noteq> pde_of (vm_of c) i \<Longrightarrow> holding (doing c t)"
      "\<And>v. walk (vm_of c) v \<noteq> None \<Longrightarrow> v \<notin> pages (doing c t) \<Longrightarrow> pde_of s' (v div 1024) = pde_of (vm_of c) (v div 1024)"
    and vb: "\<And>v. bit_at (virt_bitmap (vm_of c)) v \<Longrightarrow> v \<notin> pages (doing c t) \<Longrightarrow> bit_at (virt_bitmap s') v"
      "\<And>v. v \<in> pages a' \<Longrightarrow> bit_at (virt_bitmap s') v"
    and frames: "\<And>p. p \<in> frames_of a' \<Longrightarrow> held (pde_of s') (walk s') (bit_at (phys_bitmap s')) p \<and>
        (p \<in> frames_of (doing c t) \<or> \<not> held (pde_of (vm_of c)) (walk (vm_of c)) (bit_at (phys_bitmap (vm_of c))) p)"
      "\<And>p. held (pde_of (vm_of c)) (walk (vm_of c)) (bit_at (phys_bitmap (vm_of c))) p \<Longrightarrow> p \<notin> frames_of (doing c t) \<Longrightarrow>
        held (pde_of s') (walk s') (bit_at (phys_bitmap s')) p"
    and T: "\<And>x p. tlb_map (tlb_store s') x = Some p \<Longrightarrow> walk s' (unat x) = Some p \<or> unat x \<in> stale a' \<or>
        tlb_map (tlb_store (vm_of c)) x = Some p \<and> unat x \<notin> stale (doing c t) \<and> walk s' (unat x) = walk (vm_of c) (unat x)"
  shows "conc_inv (after c t s' a')"
  using core sharing_step [OF conc_invD(2) [OF inv] ok _ W P vb frames T] unfolding conc_inv_def after_def by simp

text \<open>A section that leaves the page tables, the bitmaps and the TLB as they are.\<close>

lemma inv_quiet:
  assumes inv: "conc_inv c"
    and same: "vm_core s'" "pde_of s' = pde_of (vm_of c)" "walk s' = walk (vm_of c)" "phys_bitmap s' = phys_bitmap (vm_of c)"
      "virt_bitmap s' = virt_bitmap (vm_of c)" "tlb_store s' = tlb_store (vm_of c)"
    and ok: "local_ok (pde_of (vm_of c)) (walk (vm_of c)) a'" "pages a' \<subseteq> pages (doing c t)" "touched a' \<subseteq> touched (doing c t)"
      "holding a' \<Longrightarrow> holding (doing c t) \<or> pt_holder c = None"
    and live: "live a' = live (doing c t)" "frames_of a' \<subseteq> frames_of (doing c t)" "stale (doing c t) \<subseteq> stale a'"
  shows "conc_inv (after c t s' a')"
proof (rule inv_step [OF inv same(1)], unfold same)
  show "walk (vm_of c) v \<noteq> None \<longleftrightarrow> v \<in> live a'" if "v \<in> pages (doing c t)" for v
    using conc_invD(5) [OF inv that] live by simp
  show "bit_at (virt_bitmap (vm_of c)) v" if "v \<in> pages a'" for v
    using conc_invD(4) [OF inv] that ok(2) by blast
  fix x p assume x: "tlb_map (tlb_store (vm_of c)) x = Some p"
  then show "walk (vm_of c) (unat x) = Some p \<or> unat x \<in> stale a' \<or>
      tlb_map (tlb_store (vm_of c)) x = Some p \<and> unat x \<notin> stale (doing c t) \<and> walk (vm_of c) (unat x) = walk (vm_of c) (unat x)"
    using live(3) by auto
qed (use conc_invD(6) [OF inv] ok live in auto)

end
