(* ===== verification/VM_Steps.thy ===== *)
theory VM_Steps
  imports VM_Interleave
begin

text \<open>
  Every critical section of \<open>n_malloc\<close>, \<open>n_free\<close> and \<open>translate\<close> is defined where the invariant holds, and
  keeps it.
\<close>

definition step_ok :: "conc \<Rightarrow> nat \<Rightarrow> bool" where
  "step_ok c t \<longleftrightarrow> (\<exists>s' a'. critical (vm_of c) (doing c t) = Some (s', a') \<and> conc_inv (after c t s' a'))"

lemma step_okI: "critical (vm_of c) (doing c t) = Some (s', a') \<Longrightarrow> conc_inv (after c t s' a') \<Longrightarrow> step_ok c t"
  by (auto simp: step_ok_def)

lemma stale_holding: "stale a \<noteq> {} \<Longrightarrow> holding a"
  by (cases a) auto

lemma tlb_coherent:
  assumes inv: "conc_inv c" and lock: "holding (doing c t) \<or> pt_holder c = None"
    and x: "tlb_map (tlb_store (vm_of c)) x = Some p"
  shows "walk (vm_of c) (unat x) = Some p \<or> unat x \<in> stale (doing c t)"
proof -
  note D = sharingD [OF conc_invD(2) [OF inv]]
  have "u = t" if "unat x \<in> stale (doing c u)" for u
  proof -
    have "pt_holder c = Some u" using stale_holding that D(8) by blast
    then show ?thesis using lock D(8) [of t] by auto
  qed
  then show ?thesis using D(9) [OF x] by blast
qed

lemma undo_pages: "block_ok b n \<Longrightarrow> i \<le> n \<Longrightarrow> undo b i = EnterFree b i \<and> block_ok b i"
  by (simp add: undo_def page_count_pages block_ok_def)

section \<open>n\_malloc\<close>

lemma step_Take:
  assumes inv: "conc_inv c" and a: "doing c t = Take b i n" and i: "i < n"
  shows "step_ok c t"
proof -
  have ok: "block_ok b n" using conc_invD(3) [OF inv, of t] a by simp
  note U = undo_pages [OF ok less_imp_le [OF i]]
  from conc_invD(1) [OF inv] show ?thesis
  proof (cases rule: core_allocate)
    case none
    have "critical (vm_of c) (doing c t) = Some (vm_of c, undo b i)" using a i none by simp
    then show ?thesis
    proof (rule step_okI)
      show "conc_inv (after c t (vm_of c) (undo b i))"
        by (rule inv_quiet [OF inv conc_invD(1) [OF inv]]) (use U i in \<open>auto simp: a run_pages_def\<close>)
    qed
  next
    case (some p f)
    let ?s = "(vm_of c)\<lparr>phys_bitmap := set_bit (phys_bitmap (vm_of c)) f\<rparr>"
    have "critical (vm_of c) (doing c t) = Some (?s, Enter b i n p)" using a i some(1,2) by simp
    then show ?thesis
    proof (rule step_okI)
      show "conc_inv (after c t ?s (Enter b i n p))"
      proof (rule inv_step [OF inv some(3)])
        show "walk ?s v \<noteq> None \<longleftrightarrow> v \<in> live (Enter b i n p)" if "v \<in> pages (doing c t)" for v
          using conc_invD(5) [OF inv that] by (simp add: a)
        show "bit_at (virt_bitmap ?s) v" if "v \<in> pages (Enter b i n p)" for v
          using conc_invD(4) [OF inv, of v t] that by (simp add: a)
        show "held (pde_of ?s) (walk ?s) (bit_at (phys_bitmap ?s)) q \<and> (q \<in> frames_of (doing c t) \<or>
            \<not> held (pde_of (vm_of c)) (walk (vm_of c)) (bit_at (phys_bitmap (vm_of c))) q)"
          if "q \<in> frames_of (Enter b i n p)" for q using some(4,5) that by simp
        show "held (pde_of ?s) (walk ?s) (bit_at (phys_bitmap ?s)) q"
          if "held (pde_of (vm_of c)) (walk (vm_of c)) (bit_at (phys_bitmap (vm_of c))) q" for q
          using that by (auto simp: bitmap_simps elim: held_mono)
      qed (use ok i in \<open>simp_all add: a\<close>)
    qed
  qed
qed

text \<open>The entry of the page is written: in \<open>Enter\<close> and, after a table was made, in \<open>Fill\<close>.\<close>

lemma step_Enter:
  assumes inv: "conc_inv c" and a: "doing c t = Enter b i n pa" and lock: "pt_holder c = None"
  shows "step_ok c t"
proof -
  have ok: "block_ok b n" "i < n" using conc_invD(3) [OF inv, of t] a by simp_all
  note B = block_page [OF ok]
  let ?v = "first b + i" and ?s = "vm_of c"
  have core: "vm_core ?s" by (rule conc_invD(1) [OF inv])
  have pg: "?v \<in> pages (doing c t)" using ok by (simp add: a run_pages_def)
  have held: "held (pde_of ?s) (walk ?s) (bit_at (phys_bitmap ?s)) pa" using conc_invD(6) [OF inv, of pa t] a by simp
  have rd: "read_pde ?s (page_dir ?s) (unat (PDX (page_addr (VA2U b) i))) = Some (pde_of ?s (?v div 1024))"
    using core_pde [OF core, of "?v div 1024"] B(3,4) by simp
  show ?thesis
  proof (cases "pde_of ?s (?v div 1024) = 0")
    case True
    have "critical ?s (doing c t) = Some (?s, Table b i n pa)" using a rd True by simp
    then show ?thesis
    proof (rule step_okI)
      show "conc_inv (after c t ?s (Table b i n pa))"
        by (rule inv_quiet [OF inv core]) (use ok True lock in \<open>simp_all add: a\<close>)
    qed
  next
    case False
    have "pa = 0 \<or> held (pde_of ?s) (walk ?s) (bit_at (phys_bitmap ?s)) pa \<and> bit_at (virt_bitmap ?s) ?v"
      using held conc_invD(4) [OF inv pg] by simp
    from core B(2) False this obtain s' where s': "st32 ?s (unat (pde_of ?s (?v div 1024)) + 4 * (?v mod 1024)) pa = Some s'" "vm_core s'"
      "\<And>k. k < 1024 \<Longrightarrow> pde_of s' k = pde_of ?s k" "walk s' = (walk ?s)(?v := if pa = 0 then None else Some pa)"
      "phys_bitmap s' = phys_bitmap ?s" "virt_bitmap s' = virt_bitmap ?s" "tlb_store s' = tlb_store ?s"
      by (rule core_write_pte) blast
    have pa0: "pa \<noteq> 0" using held by (auto simp: held_def used_frame_def)
    have W: "walk s' = (walk ?s)(?v \<mapsto> pa)" using s'(4) pa0 by simp
    have "critical ?s (doing c t) = Some (s', MarkPhys b i n pa)" using a rd False s'(1) B(5) by simp
    then show ?thesis
    proof (rule step_okI)
      show "conc_inv (after c t s' (MarkPhys b i n pa))"
      proof (rule inv_step [OF inv s'(2)])
        show "walk s' v = walk ?s v" if "v \<notin> pages (doing c t)" for v using that pg W by auto
        show "walk s' v \<noteq> None \<longleftrightarrow> v \<in> live (MarkPhys b i n pa)" if "v \<in> pages (doing c t)" for v
          using conc_invD(5) [OF inv that] W by (auto simp: a)
        show "pde_of s' (v div 1024) = pde_of ?s (v div 1024)" if "walk ?s v \<noteq> None" for v
          using s'(3) frames_invD(4) [OF vm_coreD(5) [OF core]] that by (auto simp: less_mult_imp_div_less)
        show "bit_at (virt_bitmap s') v" if "v \<in> pages (MarkPhys b i n pa)" for v
          using conc_invD(4) [OF inv, of v t] that s'(6) by (simp add: a)
        show "held (pde_of s') (walk s') (bit_at (phys_bitmap s')) q"
          if "held (pde_of ?s) (walk ?s) (bit_at (phys_bitmap ?s)) q" "q \<notin> frames_of (doing c t)" for q
          using that s'(3,5) W by (auto simp: held_def a)
        show "walk s' (unat x) = Some q \<or> unat x \<in> stale (MarkPhys b i n pa) \<or> tlb_map (tlb_store ?s) x = Some q \<and>
            unat x \<notin> stale (doing c t) \<and> walk s' (unat x) = walk ?s (unat x)"
          if "tlb_map (tlb_store s') x = Some q" for x q
          using tlb_coherent [OF inv, of t x q] lock that s'(7) W conc_invD(5) [OF inv pg] by (auto simp: a)
      qed (use ok s'(3,6) W in \<open>auto simp: a\<close>)
    qed
  qed
qed

lemma step_Table:
  assumes inv: "conc_inv c" and a: "doing c t = Table b i n pa"
  shows "step_ok c t"
proof -
  have ok: "block_ok b n" "i < n" "pde_of (vm_of c) ((first b + i) div 1024) = 0" using conc_invD(3) [OF inv, of t] a by simp_all
  have held: "held (pde_of (vm_of c)) (walk (vm_of c)) (bit_at (phys_bitmap (vm_of c))) pa"
    using conc_invD(6) [OF inv, of pa t] a by simp
  note U = undo_pages [OF ok(1) less_imp_le [OF ok(2)]]
  from conc_invD(1) [OF inv] show ?thesis
  proof (cases rule: core_allocate)
    case none
    have "critical (vm_of c) (doing c t) = Some (vm_of c, undo b i)" using a none by simp
    then show ?thesis
    proof (rule step_okI)
      show "conc_inv (after c t (vm_of c) (undo b i))"
        by (rule inv_quiet [OF inv conc_invD(1) [OF inv]]) (use U ok in \<open>auto simp: a run_pages_def\<close>)
    qed
  next
    case (some p f)
    let ?s = "(vm_of c)\<lparr>phys_bitmap := set_bit (phys_bitmap (vm_of c)) f\<rparr>"
    have more: "held (pde_of ?s) (walk ?s) (bit_at (phys_bitmap ?s)) q"
      if "held (pde_of (vm_of c)) (walk (vm_of c)) (bit_at (phys_bitmap (vm_of c))) q" for q
      using that by (auto simp: bitmap_simps elim: held_mono)
    have "critical (vm_of c) (doing c t) = Some (?s, Fill b i n pa p)" using a some(1,2) by simp
    then show ?thesis
    proof (rule step_okI)
      show "conc_inv (after c t ?s (Fill b i n pa p))"
      proof (rule inv_step [OF inv some(3)])
        show "walk ?s v \<noteq> None \<longleftrightarrow> v \<in> live (Fill b i n pa p)" if "v \<in> pages (doing c t)" for v
          using conc_invD(5) [OF inv that] by (simp add: a)
        show "bit_at (virt_bitmap ?s) v" if "v \<in> pages (Fill b i n pa p)" for v
          using conc_invD(4) [OF inv, of v t] that by (simp add: a)
        show "held (pde_of ?s) (walk ?s) (bit_at (phys_bitmap ?s)) q \<and> (q \<in> frames_of (doing c t) \<or>
            \<not> held (pde_of (vm_of c)) (walk (vm_of c)) (bit_at (phys_bitmap (vm_of c))) q)"
          if "q \<in> frames_of (Fill b i n pa p)" for q using some(4,5) more [OF held] that by (auto simp: a)
      qed (use ok held some(5) more in \<open>auto simp: a\<close>)
    qed
  qed
qed

lemma core_new_table:
  assumes core: "vm_core s" and i: "i < 1024" "pde_of s i = 0" and t: "held (pde_of s) (walk s) (bit_at (phys_bitmap s)) t"
  obtains s1 s2 where "memset0_page s (unat t) = Some s1" "write_pde s1 (page_dir s1) i t = Some s2" "vm_core s2"
    "\<And>k. k < 1024 \<Longrightarrow> pde_of s2 k = (if k = i then t else pde_of s k)" "walk s2 = walk s"
    "phys_bitmap s2 = phys_bitmap s" "virt_bitmap s2 = virt_bitmap s" "tlb_store s2 = tlb_store s"
proof -
  note C = vm_coreD [OF core]
  have u: "used_frame (bit_at (phys_bitmap s)) t" "\<And>k. k < 1024 \<Longrightarrow> pde_of s k \<noteq> t" "\<And>v. walk s v \<noteq> Some t"
    using t by (auto simp: held_def)
  let ?s1 = "s\<lparr>phys_mem := fill_bytes (phys_mem s) (unat t) 0 4096\<rparr>"
  let ?s2 = "s\<lparr>phys_mem := store32 (fill_bytes (phys_mem s) (unat t) 0 4096) (4 * i) t\<rparr>"
  have "unat t + 4096 \<le> MEMSIZE" using used_frame_bounds [OF u(1)] by simp
  then have "memset0_page s (unat t) = Some ?s1" "write_pde ?s1 (page_dir ?s1) i t = Some ?s2"
    using C i by (simp_all add: memset0_page_def write_pde_def st32_def in_phys_def PGSIZE_def MEMSIZE_def)
  moreover note wt = write_table [OF C(5) i u(1,2), of ?s2]
  moreover have "frames_inv (pde_of ?s2) (walk s) (bit_at (phys_bitmap s)) (bit_at (virt_bitmap s))"
    by (rule frames_inv_add_table [OF C(5) wt(1) u]) simp_all
  then have "vm_core ?s2" using core wt(2) by (simp add: vm_core_def)
  ultimately show thesis by (intro that [of ?s1 ?s2]) simp_all
qed

lemma step_Fill:
  assumes inv: "conc_inv c" and a: "doing c t = Fill b i n pa tb"
  shows "step_ok c t"
proof -
  have ok: "block_ok b n" "i < n" "pde_of (vm_of c) ((first b + i) div 1024) = 0" "pa \<noteq> tb"
    using conc_invD(3) [OF inv, of t] a by simp_all
  note B = block_page [OF ok(1,2)]
  let ?v = "first b + i" and ?s = "vm_of c"
  have core: "vm_core ?s" by (rule conc_invD(1) [OF inv])
  have pg: "?v \<in> pages (doing c t)" using ok by (simp add: a run_pages_def)
  have held: "held (pde_of ?s) (walk ?s) (bit_at (phys_bitmap ?s)) pa" "held (pde_of ?s) (walk ?s) (bit_at (phys_bitmap ?s)) tb"
    using conc_invD(6) [OF inv, of _ t] a by simp_all
  have t0: "tb \<noteq> 0" "pa \<noteq> 0" using held by (auto simp: held_def used_frame_def)
  obtain s1 s2 where s2: "memset0_page ?s (unat tb) = Some s1" "write_pde s1 (page_dir s1) (?v div 1024) tb = Some s2" "vm_core s2"
    "\<And>k. k < 1024 \<Longrightarrow> pde_of s2 k = (if k = ?v div 1024 then tb else pde_of ?s k)" "walk s2 = walk ?s"
    "phys_bitmap s2 = phys_bitmap ?s" "virt_bitmap s2 = virt_bitmap ?s" "tlb_store s2 = tlb_store ?s"
    by (rule core_new_table [OF core B(3) ok(3) held(2)]) blast
  have tbl: "pde_of s2 (?v div 1024) = tb" using s2(4) B(3) by simp
  have "held (pde_of s2) (walk s2) (bit_at (phys_bitmap s2)) pa" using held(1) s2(4-6) ok(4) by (auto simp: held_def)
  moreover have "bit_at (virt_bitmap s2) ?v" using conc_invD(4) [OF inv pg] s2(7) by simp
  ultimately have "pa = 0 \<or> held (pde_of s2) (walk s2) (bit_at (phys_bitmap s2)) pa \<and> bit_at (virt_bitmap s2) ?v" by simp
  moreover have "pde_of s2 (?v div 1024) \<noteq> 0" using tbl t0 by simp
  ultimately obtain s' where s': "st32 s2 (unat (pde_of s2 (?v div 1024)) + 4 * (?v mod 1024)) pa = Some s'" "vm_core s'"
    "\<And>k. k < 1024 \<Longrightarrow> pde_of s' k = pde_of s2 k" "walk s' = (walk s2)(?v := if pa = 0 then None else Some pa)"
    "phys_bitmap s' = phys_bitmap s2" "virt_bitmap s' = virt_bitmap s2" "tlb_store s' = tlb_store s2"
    using core_write_pte [OF s2(3) B(2)] by blast
  have W: "walk s' = (walk ?s)(?v \<mapsto> pa)" using s'(4) s2(5) t0 by simp
  have P: "pde_of s' k = (if k = ?v div 1024 then tb else pde_of ?s k)" if "k < 1024" for k using s'(3) s2(4) that by simp
  have "critical ?s (doing c t) = Some (s', MarkPhys b i n pa)"
    using a s2(1,2) s'(1) B(4,5) by (simp add: tbl)
  then show ?thesis
  proof (rule step_okI)
    show "conc_inv (after c t s' (MarkPhys b i n pa))"
    proof (rule inv_step [OF inv s'(2)])
      show "walk s' v = walk ?s v" if "v \<notin> pages (doing c t)" for v using that pg W by auto
      show "walk s' v \<noteq> None \<longleftrightarrow> v \<in> live (MarkPhys b i n pa)" if "v \<in> pages (doing c t)" for v
        using conc_invD(5) [OF inv that] W by (auto simp: a)
      show "pde_of s' (v div 1024) = pde_of ?s (v div 1024)" if "walk ?s v \<noteq> None" for v
      proof -
        have "v < 1048576" using frames_invD(4) [OF vm_coreD(5) [OF core]] that by auto
        moreover have "v div 1024 \<noteq> ?v div 1024" using that ok(3) by (auto simp: walk_def split: if_splits)
        ultimately show ?thesis using P by (simp add: less_mult_imp_div_less)
      qed
      show "bit_at (virt_bitmap s') v" if "v \<in> pages (MarkPhys b i n pa)" for v
        using conc_invD(4) [OF inv, of v t] that s'(6) s2(7) by (simp add: a)
      show "held (pde_of s') (walk s') (bit_at (phys_bitmap s')) q"
        if "held (pde_of ?s) (walk ?s) (bit_at (phys_bitmap ?s)) q" "q \<notin> frames_of (doing c t)" for q
        using that P s'(5) s2(6) W by (auto simp: held_def a)
      show "walk s' (unat x) = Some q \<or> unat x \<in> stale (MarkPhys b i n pa) \<or> tlb_map (tlb_store ?s) x = Some q \<and>
          unat x \<notin> stale (doing c t) \<and> walk s' (unat x) = walk ?s (unat x)"
        if "tlb_map (tlb_store s') x = Some q" for x q
        using tlb_coherent [OF inv, of t x q] that s'(7) s2(8) W conc_invD(5) [OF inv pg] by (auto simp: a)
    qed (use ok s'(6) s2(7) W in \<open>auto simp: a\<close>)
  qed
qed

text \<open>The bits are set already.\<close>

lemma core_set_phys: "vm_core s \<Longrightarrow> f < 262144 \<Longrightarrow> bit_at (phys_bitmap s) f \<Longrightarrow>
    \<exists>s'. set_phys_bit s f = Some s' \<and> vm_core s' \<and> pde_of s' = pde_of s \<and> walk s' = walk s \<and> tlb_store s' = tlb_store s \<and>
      virt_bitmap s' = virt_bitmap s \<and> bit_at (phys_bitmap s') = bit_at (phys_bitmap s)"
proof -
  assume s: "vm_core s" "f < 262144" "bit_at (phys_bitmap s) f"
  have e: "bit_at (set_bit (phys_bitmap s) f) = bit_at (phys_bitmap s)" using s(3) by (auto simp: bitmap_simps fun_eq_iff)
  then show ?thesis
    using s vm_coreD(3) [OF s(1)] by (auto simp: set_phys_bit_def phys_bit_ok_def vm_core_def)
qed

lemma core_set_virt: "vm_core s \<Longrightarrow> f < 1048576 \<Longrightarrow> bit_at (virt_bitmap s) f \<Longrightarrow>
    \<exists>s'. set_virt_bit s f = Some s' \<and> vm_core s' \<and> pde_of s' = pde_of s \<and> walk s' = walk s \<and> tlb_store s' = tlb_store s \<and>
      phys_bitmap s' = phys_bitmap s \<and> bit_at (virt_bitmap s') = bit_at (virt_bitmap s)"
proof -
  assume s: "vm_core s" "f < 1048576" "bit_at (virt_bitmap s) f"
  have e: "bit_at (set_bit (virt_bitmap s) f) = bit_at (virt_bitmap s)" using s(3) by (auto simp: bitmap_simps fun_eq_iff)
  then show ?thesis
    using s vm_coreD(4) [OF s(1)] by (auto simp: set_virt_bit_def virt_bit_ok_def vm_core_def)
qed

text \<open>So \<open>inv_quiet\<close> with the bits as predicates.\<close>

lemma inv_same:
  assumes inv: "conc_inv c"
    and same: "vm_core s'" "pde_of s' = pde_of (vm_of c)" "walk s' = walk (vm_of c)" "bit_at (phys_bitmap s') = bit_at (phys_bitmap (vm_of c))"
      "bit_at (virt_bitmap s') = bit_at (virt_bitmap (vm_of c))" "tlb_store s' = tlb_store (vm_of c)"
    and ok: "local_ok (pde_of (vm_of c)) (walk (vm_of c)) a'" "pages a' \<subseteq> pages (doing c t)" "touched a' \<subseteq> touched (doing c t)"
      "holding a' \<Longrightarrow> holding (doing c t) \<or> pt_holder c = None"
    and live: "live a' = live (doing c t)" "frames_of a' \<subseteq> frames_of (doing c t)" "stale (doing c t) \<subseteq> stale a'"
  shows "conc_inv (after c t s' a')"
proof -
  have "conc_inv (after c t (vm_of c) a')" using inv_quiet [OF inv conc_invD(1) [OF inv] refl refl refl refl refl ok live] .
  then show ?thesis using same unfolding conc_inv_def after_def by simp
qed

lemma step_MarkPhys:
  assumes inv: "conc_inv c" and a: "doing c t = MarkPhys b i n pa"
  shows "step_ok c t"
proof -
  have ok: "block_ok b n" "i < n" "walk (vm_of c) (first b + i) = Some pa" using conc_invD(3) [OF inv, of t] a by simp_all
  have core: "vm_core (vm_of c)" by (rule conc_invD(1) [OF inv])
  have u: "used_frame (bit_at (phys_bitmap (vm_of c))) pa" by (rule frames_invD(5) [OF vm_coreD(5) [OF core] ok(3)])
  then have "unat (drop_bit PFN_SHIFT pa) < 262144" "bit_at (phys_bitmap (vm_of c)) (unat (drop_bit PFN_SHIFT pa))"
    using used_frame_number by (auto simp: unat_shift_PFN used_frame_def)
  then obtain s' where s': "set_phys_bit (vm_of c) (unat (drop_bit PFN_SHIFT pa)) = Some s'" "vm_core s'" "pde_of s' = pde_of (vm_of c)"
    "walk s' = walk (vm_of c)" "tlb_store s' = tlb_store (vm_of c)" "virt_bitmap s' = virt_bitmap (vm_of c)"
    "bit_at (phys_bitmap s') = bit_at (phys_bitmap (vm_of c))" using core_set_phys [OF core] by blast
  then have "critical (vm_of c) (doing c t) = Some (s', MarkVirt b i n pa)" using a by simp
  then show ?thesis
  proof (rule step_okI)
    show "conc_inv (after c t s' (MarkVirt b i n pa))"
      by (rule inv_same [OF inv s'(2-4,7) _ s'(5)]) (use s'(6) ok in \<open>simp_all add: a\<close>)
  qed
qed

lemma step_MarkVirt:
  assumes inv: "conc_inv c" and a: "doing c t = MarkVirt b i n pa"
  shows "step_ok c t"
proof -
  have ok: "block_ok b n" "i < n" "walk (vm_of c) (first b + i) = Some pa" using conc_invD(3) [OF inv, of t] a by simp_all
  note B = block_page [OF ok(1,2)]
  have core: "vm_core (vm_of c)" by (rule conc_invD(1) [OF inv])
  have "first b + i \<in> pages (doing c t)" using ok by (simp add: a run_pages_def)
  then have v: "bit_at (virt_bitmap (vm_of c)) (first b + i)" by (rule conc_invD(4) [OF inv])
  obtain s' where s': "set_virt_bit (vm_of c) (first b + i) = Some s'" "vm_core s'" "pde_of s' = pde_of (vm_of c)"
    "walk s' = walk (vm_of c)" "tlb_store s' = tlb_store (vm_of c)" "phys_bitmap s' = phys_bitmap (vm_of c)"
    "bit_at (virt_bitmap s') = bit_at (virt_bitmap (vm_of c))" using core_set_virt [OF core B(2) v] by blast
  then have "critical (vm_of c) (doing c t) = Some (s', Cache b i n pa)" using a B(1) by (simp add: unat_shift_vpn)
  then show ?thesis
  proof (rule step_okI)
    show "conc_inv (after c t s' (Cache b i n pa))"
      by (rule inv_same [OF inv s'(2-4) _ s'(7,5)]) (use s'(6) ok in \<open>simp_all add: a\<close>)
  qed
qed

lemma tlb_add_cases:
  assumes "tlb_ok t" "tlb_map (snd (TLB_add t va pa)) x = Some p"
  shows "tlb_map t x = Some p \<or> unat x = vpn_of (VA2U va) \<and> p = VA2U pa"
proof (cases "va = 0 \<or> VA2U pa = INVALID_PA")
  case True
  then show ?thesis using assms by (simp add: TLB_add_fails)
next
  case False
  then show ?thesis
    using assms tlb_map_add_same [OF assms(1)] tlb_map_add_other [OF assms(1)]
    by (cases "x = drop_bit PFN_SHIFT (VA2U va)") (auto simp: unat_shift_vpn)
qed

lemma step_Cache:
  assumes inv: "conc_inv c" and a: "doing c t = Cache b i n pa"
  shows "step_ok c t"
proof -
  have ok: "block_ok b n" "i < n" "walk (vm_of c) (first b + i) = Some pa" using conc_invD(3) [OF inv, of t] a by simp_all
  note B = block_page [OF ok(1,2)]
  let ?s = "vm_of c"
  let ?s' = "?s\<lparr>tlb_lookups := tlb_lookups ?s + 1, tlb_misses := tlb_misses ?s + 1,
      tlb_store := snd (TLB_add (tlb_store ?s) (U2VA (page_addr (VA2U b) i)) (U2VA pa))\<rparr>"
  have core: "vm_core ?s" by (rule conc_invD(1) [OF inv])
  have core': "vm_core ?s'" using core by (simp add: vm_core_def tlb_ok_add)
  have "critical ?s (doing c t) = Some (?s', Take b (Suc i) n)" using a by simp
  then show ?thesis
  proof (rule step_okI)
    show "conc_inv (after c t ?s' (Take b (Suc i) n))"
    proof (rule inv_step [OF inv core'])
      show "walk ?s' v \<noteq> None \<longleftrightarrow> v \<in> live (Take b (Suc i) n)" if "v \<in> pages (doing c t)" for v
        using conc_invD(5) [OF inv that] by (simp add: a)
      show "bit_at (virt_bitmap ?s') v" if "v \<in> pages (Take b (Suc i) n)" for v
        using conc_invD(4) [OF inv, of v t] that by (simp add: a)
      show "walk ?s' (unat x) = Some q \<or> unat x \<in> stale (Take b (Suc i) n) \<or> tlb_map (tlb_store ?s) x = Some q \<and>
          unat x \<notin> stale (doing c t) \<and> walk ?s' (unat x) = walk ?s (unat x)"
        if "tlb_map (tlb_store ?s') x = Some q" for x q
        using tlb_add_cases [OF vm_coreD(6) [OF core], of "U2VA (page_addr (VA2U b) i)" "U2VA pa" x q] that B(1) ok(3)
        by (auto simp: a)
    qed (use ok in \<open>simp_all add: a\<close>)
  qed
qed

section \<open>n\_free\<close>

lemma step_EnterFree:
  assumes inv: "conc_inv c" and a: "doing c t = EnterFree b n" and lock: "pt_holder c = None"
  shows "step_ok c t"
proof -
  have ok: "block_ok b n" using conc_invD(3) [OF inv, of t] a by simp
  have "critical (vm_of c) (doing c t) = Some (vm_of c, Free b 0 n)" using a by simp
  then show ?thesis
  proof (rule step_okI)
    show "conc_inv (after c t (vm_of c) (Free b 0 n))"
      by (rule inv_quiet [OF inv conc_invD(1) [OF inv]]) (use ok lock in \<open>simp_all add: a run_pages_def\<close>)
  qed
qed

lemma core_walk:
  assumes "vm_core s" "walk s v = Some p"
  shows "v div 1024 < 1024" "v mod 1024 < 1024" "pde_of s (v div 1024) \<noteq> 0" "pte_of s (v div 1024) (v mod 1024) = p" "p \<noteq> 0"
    "v < 1048576"
  using assms(2) by (auto simp: walk_def less_mult_imp_div_less split: if_splits)

lemma step_Free:
  assumes inv: "conc_inv c" and a: "doing c t = Free b i n"
  shows "step_ok c t"
proof -
  have ok: "block_ok b n" "i \<le> n" using conc_invD(3) [OF inv, of t] a by simp_all
  let ?s = "vm_of c"
  have core: "vm_core ?s" by (rule conc_invD(1) [OF inv])
  show ?thesis
  proof (cases "i < n")
    case False
    have "critical ?s (doing c t) = Some (?s, Idle)" using a False by simp
    then show ?thesis
    proof (rule step_okI)
      show "conc_inv (after c t ?s Idle)"
        by (rule inv_quiet [OF inv core]) (use False ok in \<open>simp_all add: a\<close>)
    qed
  next
    case i: True
    note B = block_page [OF ok(1) i]
    let ?v = "first b + i"
    have pg: "?v \<in> pages (doing c t)" using i by (simp add: a)
    then obtain p where p: "walk ?s ?v = Some p" using conc_invD(5) [OF inv pg] i by (auto simp: a)
    note K = core_walk [OF core p]
    obtain s' where s': "st32 ?s (unat (pde_of ?s (?v div 1024)) + 4 * (?v mod 1024)) 0 = Some s'" "vm_core s'"
      "\<And>k. k < 1024 \<Longrightarrow> pde_of s' k = pde_of ?s k" "walk s' = (walk ?s)(?v := if (0 :: u32) = 0 then None else Some 0)"
      "phys_bitmap s' = phys_bitmap ?s" "virt_bitmap s' = virt_bitmap ?s" "tlb_store s' = tlb_store ?s"
      using core_write_pte [OF core B(2) K(3), of 0] by blast
    have W: "walk s' = (walk ?s)(?v := None)" using s'(4) by simp
    note F = frames_invD [OF vm_coreD(5) [OF core]]
    have "walk s' v \<noteq> Some p" for v using F(7) [OF p, of v] W by (cases "v = ?v") auto
    moreover have "pde_of s' k \<noteq> p" if "k < 1024" for k using F(8) [OF p that] s'(3) [OF that] by simp
    ultimately have hp: "held (pde_of s') (walk s') (bit_at (phys_bitmap s')) p" "\<not> held (pde_of ?s) (walk ?s) (bit_at (phys_bitmap ?s)) p"
      using F(5) [OF p] p s'(5) by (simp_all add: held_def, blast)
    have "critical ?s (doing c t) = Some (s', ClearPhys b i n (pde_of ?s (?v div 1024)) p)"
      using a i core_pde [OF core K(1)] core_pte [OF core K(1,2,3)] K s'(1) B(4,5) by simp
    then show ?thesis
    proof (rule step_okI)
      show "conc_inv (after c t s' (ClearPhys b i n (pde_of ?s (?v div 1024)) p))"
      proof (rule inv_step [OF inv s'(2)])
        show "walk s' v = walk ?s v" if "v \<notin> pages (doing c t)" for v using that pg W by auto
        show "walk s' v \<noteq> None \<longleftrightarrow> v \<in> live (ClearPhys b i n (pde_of ?s (?v div 1024)) p)" if "v \<in> pages (doing c t)" for v
          using conc_invD(5) [OF inv that] W that by (auto simp: a)
        show "pde_of s' (v div 1024) = pde_of ?s (v div 1024)" if "walk ?s v \<noteq> None" for v
          using s'(3) F(4) that by (auto simp: less_mult_imp_div_less)
        show "bit_at (virt_bitmap s') v" if "v \<in> pages (ClearPhys b i n (pde_of ?s (?v div 1024)) p)" for v
          using conc_invD(4) [OF inv, of v t] that s'(6) by (simp add: a)
        show "held (pde_of s') (walk s') (bit_at (phys_bitmap s')) q"
          if "held (pde_of ?s) (walk ?s) (bit_at (phys_bitmap ?s)) q" for q
          using that s'(3,5) W by (auto simp: held_def)
        show "walk s' (unat x) = Some q \<or> unat x \<in> stale (ClearPhys b i n (pde_of ?s (?v div 1024)) p) \<or>
            tlb_map (tlb_store ?s) x = Some q \<and> unat x \<notin> stale (doing c t) \<and> walk s' (unat x) = walk ?s (unat x)"
          if "tlb_map (tlb_store s') x = Some q" for x q
          using that s'(7) W by (auto simp: a)
      qed (use ok i hp K s'(3,6) in \<open>auto simp: a\<close>)
    qed
  qed
qed

lemma core_clear_held:
  assumes core: "vm_core s" and p: "held (pde_of s) (walk s) (bit_at (phys_bitmap s)) p"
  obtains s' where "clear_phys_bit s (unat (drop_bit PFN_SHIFT p)) = Some s'" "vm_core s'" "pde_of s' = pde_of s" "walk s' = walk s"
    "virt_bitmap s' = virt_bitmap s" "tlb_store s' = tlb_store s"
    "\<And>q. held (pde_of s) (walk s) (bit_at (phys_bitmap s)) q \<Longrightarrow> q \<noteq> p \<Longrightarrow> held (pde_of s) (walk s) (bit_at (phys_bitmap s')) q"
proof -
  note C = vm_coreD [OF core]
  note D = frames_invD [OF C(5)]
  have u: "used_frame (bit_at (phys_bitmap s)) p" using p by (simp add: held_def)
  let ?s' = "s\<lparr>phys_bitmap := clear_bit (phys_bitmap s) (unat (drop_bit PFN_SHIFT p))\<rparr>"
  have b: "bit_at (phys_bitmap ?s') = (\<lambda>f. f \<noteq> unat p div 4096 \<and> bit_at (phys_bitmap s) f)"
    by (simp add: bit_at_clear_fun unat_shift_PFN)
  have keep: "used_frame (bit_at (phys_bitmap ?s')) q" if "used_frame (bit_at (phys_bitmap s)) q" "q \<noteq> p" for q
    unfolding b using used_frame_clear [OF u that] .
  have np: "pde_of s i \<noteq> p" "walk s v \<noteq> Some p" if "i < 1024" for i v using p that by (auto simp: held_def)
  have "bit_at (phys_bitmap ?s') 0" using D(1) used_frame_not_0 [OF u] unfolding b by auto
  moreover have "\<forall>i < 1024. pde_of s i \<noteq> 0 \<longrightarrow> used_frame (bit_at (phys_bitmap ?s')) (pde_of s i)"
    using keep [OF D(2)] np by blast
  moreover have "used_frame (bit_at (phys_bitmap ?s')) q" if "walk s v = Some q" for v q
    using keep [OF D(5) [OF that]] np(2) [of 0 v] that by auto
  ultimately have "frames_inv (pde_of s) (walk s) (bit_at (phys_bitmap ?s')) (bit_at (virt_bitmap s))"
    using D(3,4,6-8) unfolding frames_inv_def by blast
  then have "vm_core ?s'" using core by (simp add: vm_core_def)
  moreover have "clear_phys_bit s (unat (drop_bit PFN_SHIFT p)) = Some ?s'"
    using used_frame_number [OF u] C(3) by (simp add: clear_phys_bit_def phys_bit_ok_def unat_shift_PFN)
  ultimately show thesis
    using keep by (intro that [of ?s']) (auto simp: held_def)
qed

lemma step_ClearPhys:
  assumes inv: "conc_inv c" and a: "doing c t = ClearPhys b i n pde pte"
  shows "step_ok c t"
proof -
  let ?s = "vm_of c"
  have ok: "local_ok (pde_of ?s) (walk ?s) (ClearVirt b i n pde)" "i < n" using conc_invD(3) [OF inv, of t] a by simp_all
  have core: "vm_core ?s" by (rule conc_invD(1) [OF inv])
  have h: "held (pde_of ?s) (walk ?s) (bit_at (phys_bitmap ?s)) pte" using conc_invD(6) [OF inv, of pte t] a by simp
  obtain s' where s': "clear_phys_bit ?s (unat (drop_bit PFN_SHIFT pte)) = Some s'" "vm_core s'" "pde_of s' = pde_of ?s" "walk s' = walk ?s"
    "virt_bitmap s' = virt_bitmap ?s" "tlb_store s' = tlb_store ?s"
    "\<And>q. held (pde_of ?s) (walk ?s) (bit_at (phys_bitmap ?s)) q \<Longrightarrow> q \<noteq> pte \<Longrightarrow> held (pde_of ?s) (walk ?s) (bit_at (phys_bitmap s')) q"
    using core_clear_held [OF core h] by blast
  have "critical ?s (doing c t) = Some (s', ClearVirt b i n pde)" using a s'(1) by simp
  then show ?thesis
  proof (rule step_okI)
    show "conc_inv (after c t s' (ClearVirt b i n pde))"
    proof (rule inv_step [OF inv s'(2)], unfold s'(3-6))
      show "walk ?s v \<noteq> None \<longleftrightarrow> v \<in> live (ClearVirt b i n pde)" if "v \<in> pages (doing c t)" for v
        using conc_invD(5) [OF inv that] by (simp add: a)
      show "bit_at (virt_bitmap ?s) v" if "v \<in> pages (ClearVirt b i n pde)" for v
        using conc_invD(4) [OF inv, of v t] that by (simp add: a)
      show "walk ?s (unat x) = Some q \<or> unat x \<in> stale (ClearVirt b i n pde) \<or> tlb_map (tlb_store ?s) x = Some q \<and>
          unat x \<notin> stale (doing c t) \<and> walk ?s (unat x) = walk ?s (unat x)"
        if "tlb_map (tlb_store ?s) x = Some q" for x q using that by (auto simp: a)
    qed (use ok s'(7) in \<open>simp_all add: a\<close>)
  qed
qed

lemma core_clear_virt:
  assumes core: "vm_core s" and v: "v < 1048576" "walk s v = None"
  shows "\<exists>s'. clear_virt_bit s v = Some s' \<and> vm_core s' \<and> pde_of s' = pde_of s \<and> walk s' = walk s \<and> tlb_store s' = tlb_store s \<and>
    phys_bitmap s' = phys_bitmap s \<and> bit_at (virt_bitmap s') = (\<lambda>w. w \<noteq> v \<and> bit_at (virt_bitmap s) w)"
proof -
  note C = vm_coreD [OF core]
  let ?s' = "s\<lparr>virt_bitmap := clear_bit (virt_bitmap s) v\<rparr>"
  have "frames_inv (pde_of s) (walk s) (bit_at (phys_bitmap s)) (\<lambda>w. w \<noteq> v \<and> bit_at (virt_bitmap s) w)"
    using C(5) v(2) by (auto simp: frames_inv_def)
  then have "vm_core ?s'" using core by (simp add: vm_core_def bit_at_clear_fun)
  moreover have "clear_virt_bit s v = Some ?s'"
    using v(1) C(4) by (simp add: clear_virt_bit_def virt_bit_ok_def)
  ultimately show ?thesis by (intro exI [of _ ?s']) (simp add: bit_at_clear_fun)
qed

lemma step_ClearVirt:
  assumes inv: "conc_inv c" and a: "doing c t = ClearVirt b i n pde"
  shows "step_ok c t"
proof -
  let ?s = "vm_of c"
  have ok: "local_ok (pde_of ?s) (walk ?s) (Drop b i n pde)" "block_ok b n" "i < n" using conc_invD(3) [OF inv, of t] a by simp_all
  note B = block_page [OF ok(2,3)]
  have core: "vm_core ?s" by (rule conc_invD(1) [OF inv])
  have pg: "first b + i \<in> pages (doing c t)" using ok by (simp add: a)
  have "walk ?s (first b + i) = None" using conc_invD(5) [OF inv pg] by (simp add: a)
  then obtain s' where s': "clear_virt_bit ?s (first b + i) = Some s'" "vm_core s'" "pde_of s' = pde_of ?s"
    "walk s' = walk ?s" "tlb_store s' = tlb_store ?s" "phys_bitmap s' = phys_bitmap ?s"
    "bit_at (virt_bitmap s') = (\<lambda>w. w \<noteq> first b + i \<and> bit_at (virt_bitmap ?s) w)" using core_clear_virt [OF core B(2)] by blast
  have "critical ?s (doing c t) = Some (s', Drop b i n pde)" using a B(1) s'(1) by (simp add: unat_shift_vpn)
  then show ?thesis
  proof (rule step_okI)
    show "conc_inv (after c t s' (Drop b i n pde))"
    proof (rule inv_step [OF inv s'(2)], unfold s'(3-7))
      show "walk ?s v \<noteq> None \<longleftrightarrow> v \<in> live (Drop b i n pde)" if "v \<in> pages (doing c t)" for v
        using conc_invD(5) [OF inv that] by (simp add: a)
      show "v \<noteq> first b + i \<and> bit_at (virt_bitmap ?s) v" if "v \<in> pages (Drop b i n pde)" for v
        using conc_invD(4) [OF inv, of v t] that by (simp add: a)
      show "v \<noteq> first b + i \<and> bit_at (virt_bitmap ?s) v" if "bit_at (virt_bitmap ?s) v" "v \<notin> pages (doing c t)" for v
        using that pg by auto
      show "walk ?s (unat x) = Some q \<or> unat x \<in> stale (Drop b i n pde) \<or> tlb_map (tlb_store ?s) x = Some q \<and>
          unat x \<notin> stale (doing c t) \<and> walk ?s (unat x) = walk ?s (unat x)"
        if "tlb_map (tlb_store ?s) x = Some q" for x q using that by (auto simp: a)
    qed (use ok in \<open>simp_all add: a\<close>)
  qed
qed

lemma step_Drop:
  assumes inv: "conc_inv c" and a: "doing c t = Drop b i n pde"
  shows "step_ok c t"
proof -
  let ?s = "vm_of c"
  have ok: "local_ok (pde_of ?s) (walk ?s) (Release b i n pde)" "block_ok b n" "i < n" using conc_invD(3) [OF inv, of t] a by simp_all
  note B = block_page [OF ok(2,3)]
  let ?s' = "?s\<lparr>tlb_store := TLB_invalidate (tlb_store ?s) (U2VA (page_addr (VA2U b) i))\<rparr>"
  have core: "vm_core ?s" by (rule conc_invD(1) [OF inv])
  have core': "vm_core ?s'" using core by (simp add: vm_core_def tlb_ok_invalidate)
  have m: "tlb_map (tlb_store ?s') = (tlb_map (tlb_store ?s))(drop_bit PFN_SHIFT (page_addr (VA2U b) i) := None)"
    using tlb_map_invalidate [OF vm_coreD(6) [OF core], of "U2VA (page_addr (VA2U b) i)"] B(7) by simp
  have "critical ?s (doing c t) = Some (?s', Release b i n pde)" using a by simp
  then show ?thesis
  proof (rule step_okI)
    show "conc_inv (after c t ?s' (Release b i n pde))"
    proof (rule inv_step [OF inv core'])
      show "walk ?s' v \<noteq> None \<longleftrightarrow> v \<in> live (Release b i n pde)" if "v \<in> pages (doing c t)" for v
        using conc_invD(5) [OF inv that] by (simp add: a)
      show "bit_at (virt_bitmap ?s') v" if "v \<in> pages (Release b i n pde)" for v
        using conc_invD(4) [OF inv, of v t] that by (simp add: a)
      show "walk ?s' (unat x) = Some q \<or> unat x \<in> stale (Release b i n pde) \<or> tlb_map (tlb_store ?s) x = Some q \<and>
          unat x \<notin> stale (doing c t) \<and> walk ?s' (unat x) = walk ?s (unat x)"
        if "tlb_map (tlb_store ?s') x = Some q" for x q
      proof -
        have x: "x \<noteq> drop_bit PFN_SHIFT (page_addr (VA2U b) i)" "tlb_map (tlb_store ?s) x = Some q" using that m by (auto split: if_splits)
        have "unat x \<noteq> first b + i" using x(1) B(1) unat_shift_vpn [of "page_addr (VA2U b) i"] by (metis word_eq_iff_unsigned)
        then show ?thesis using x(2) by (simp add: a)
      qed
    qed (use ok in \<open>simp_all add: a\<close>)
  qed
qed

text \<open>The page table is given back when it is empty; no mapped page is in it then.\<close>

lemma core_erase:
  assumes core: "vm_core s" and i: "i < 1024" "pde_of s i \<noteq> 0"
  obtains (kept) "page_table_empty s (unat (pde_of s i)) = Some False"
  | (erased) s' where "page_table_empty s (unat (pde_of s i)) = Some True" "write_pde s (page_dir s) i 0 = Some s'" "vm_core s'"
      "\<And>k. k < 1024 \<Longrightarrow> pde_of s' k = (if k = i then 0 else pde_of s k)" "walk s' = walk s"
      "\<And>v. walk s v \<noteq> None \<Longrightarrow> v div 1024 \<noteq> i"
      "phys_bitmap s' = phys_bitmap s" "virt_bitmap s' = virt_bitmap s" "tlb_store s' = tlb_store s"
proof -
  note C = vm_coreD [OF core]
  note D = frames_invD [OF C(5)]
  let ?t = "pde_of s i"
  let ?s' = "s\<lparr>phys_mem := store32 (phys_mem s) (4 * i) 0\<rparr>"
  have mem: "unat ?t + 4096 \<le> MEMSIZE" using used_frame_bounds [OF D(2) [OF i]] by simp
  let ?empty = "\<forall>k < 1024. load32 (phys_mem s) (unat ?t + 4 * k) = 0"
  have e: "page_table_empty s (unat ?t) = Some ?empty" by (rule page_table_empty_eq [OF C(1) mem])
  show thesis
  proof (cases ?empty)
    case False
    show thesis by (rule kept) (simp only: e False)
  next
    case True
    have z: "pte_of s i j = 0" if "j < 1024" for j using True that by (simp add: pte_of_def)
    have P: "pde_of ?s' k = (if k = i then 0 else pde_of s k)" if "k < 1024" for k
      by (simp add: pde_of_def load32_store32_index)
    have old: "pte_of ?s' k j = pte_of s k j" if "k < 1024" "pde_of s k \<noteq> 0" "k \<noteq> i" for k j
      using P [OF that(1)] used_frame_bounds [OF D(2) [OF that(1,2)]] that(3) i(1)
      by (simp add: pte_of_def load32_store32_other)
    have W: "walk ?s' = walk s"
    proof
      fix v show "walk ?s' v = walk s v"
        using P [of "v div 1024"] old [of "v div 1024" "v mod 1024"] z [of "v mod 1024"]
        by (cases "v div 1024 = i") (auto simp: walk_def less_mult_imp_div_less)
    qed
    have "walk s v \<noteq> Some 0" for v by (auto simp: walk_def)
    then have "frames_inv (pde_of ?s') (walk s) (bit_at (phys_bitmap s)) (bit_at (virt_bitmap s))"
      using C(5) unfolding frames_inv_def by (auto simp: P)
    then have "vm_core ?s'" using core W by (simp add: vm_core_def)
    moreover have "v div 1024 \<noteq> i" if "walk s v \<noteq> None" for v using that z by (auto simp: walk_def split: if_splits)
    ultimately show thesis
      using e True P W i C by (intro erased [of ?s']) (simp_all add: write_pde_def st32_def in_phys_def MEMSIZE_def)
  qed
qed

text \<open>Zeroing a frame that is neither mapped nor a table.\<close>

lemma core_wipe:
  assumes core: "vm_core s" and p: "used_frame pb p" "\<And>k. k < 1024 \<Longrightarrow> pde_of s k \<noteq> p"
  obtains s' where "memset0_page s (unat p) = Some s'" "vm_core s'" "\<And>k. k < 1024 \<Longrightarrow> pde_of s' k = pde_of s k" "walk s' = walk s"
    "phys_bitmap s' = phys_bitmap s" "virt_bitmap s' = virt_bitmap s" "tlb_store s' = tlb_store s"
proof -
  note C = vm_coreD [OF core]
  note D = frames_invD [OF C(5)]
  note B = used_frame_bounds [OF p(1)]
  let ?s' = "s\<lparr>phys_mem := fill_bytes (phys_mem s) (unat p) 0 4096\<rparr>"
  have low: "phys_mem ?s' x = phys_mem s x" if "x < 4096" for x using B that by (simp add: fill_bytes_outside)
  have tab: "phys_mem ?s' x = phys_mem s x"
    if "k < 1024" "pde_of s k \<noteq> 0" "unat (pde_of s k) \<le> x" "x < unat (pde_of s k) + 4096" for k x
    using used_frames_disjoint [OF D(2) [OF that(1,2)] p(1) p(2) [OF that(1)]] that(3,4) by (auto simp: fill_bytes_outside)
  have T: "walk ?s' = walk s" "\<And>k. k < 1024 \<Longrightarrow> pde_of ?s' k = pde_of s k"
    using tables_unchanged [OF C(5), of ?s'] low tab by blast+
  have "frames_inv (pde_of ?s') (walk s) (bit_at (phys_bitmap s)) (bit_at (virt_bitmap s))"
    using C(5) unfolding frames_inv_def by (auto simp: T(2))
  then have "vm_core ?s'" using core T(1) by (simp add: vm_core_def)
  moreover have "memset0_page s (unat p) = Some ?s'"
    using B C(1) by (simp add: memset0_page_def in_phys_def PGSIZE_def)
  ultimately show thesis using T by (intro that [of ?s']) simp_all
qed

lemma step_Release:
  assumes inv: "conc_inv c" and a: "doing c t = Release b i n pde"
  shows "step_ok c t"
proof -
  let ?s = "vm_of c" and ?v = "first b + i"
  have ok: "block_ok b n" "i < n" "pde \<noteq> 0" "pde_of ?s (?v div 1024) = pde" using conc_invD(3) [OF inv, of t] a by simp_all
  note B = block_page [OF ok(1,2)]
  have core: "vm_core ?s" by (rule conc_invD(1) [OF inv])
  note C = vm_coreD [OF core] and F = frames_invD [OF vm_coreD(5) [OF core]]
  have pde: "pde_of ?s (?v div 1024) \<noteq> 0" using ok by simp
  have u: "used_frame (bit_at (phys_bitmap ?s)) pde" using F(2) [OF B(3) pde] ok(4) by simp
  from core B(3) pde show ?thesis
  proof (cases rule: core_erase)
    case kept
    then have "critical ?s (doing c t) = Some (?s, Free b (Suc i) n)" using a B(4) ok by simp
    then show ?thesis
    proof (rule step_okI)
      show "conc_inv (after c t ?s (Free b (Suc i) n))" by (rule inv_quiet [OF inv core]) (use ok in \<open>simp_all add: a\<close>)
    qed
  next
    case (erased s')
    let ?old = "clear_read (phys_bitmap s') (unat (drop_bit PFN_SHIFT pde))"
    have "phys_bit_ok s' (unat (drop_bit PFN_SHIFT pde))"
      using used_frame_number [OF u] vm_coreD(3) [OF erased(3)] by (simp add: phys_bit_ok_def unat_shift_PFN)
    then have "critical ?s (doing c t) = Some (s', PutBack b i n pde ?old)" using a erased(1,2) B(4) ok by (simp add: Let_def)
    then show ?thesis
    proof (rule step_okI)
      have new: "held (pde_of s') (walk s') (bit_at (phys_bitmap s')) pde"
        unfolding held_def using u erased(4,5,7) ok F(3) [OF B(3) _ pde] F(8) B(3) by metis
      show "conc_inv (after c t s' (PutBack b i n pde ?old))"
      proof (rule inv_step [OF inv erased(3)], unfold erased(5,8,9))
        show "walk ?s v \<noteq> None \<longleftrightarrow> v \<in> live (PutBack b i n pde ?old)" if "v \<in> pages (doing c t)" for v
          using conc_invD(5) [OF inv that] by (simp add: a)
        show "bit_at (virt_bitmap ?s) v" if "v \<in> pages (PutBack b i n pde ?old)" for v
          using conc_invD(4) [OF inv, of v t] that by (simp add: a)
        show "pde_of s' (v div 1024) = pde_of ?s (v div 1024)" if "walk ?s v \<noteq> None" for v
          using erased(4) [of "v div 1024"] erased(6) [OF that] F(4) that by (auto simp: less_mult_imp_div_less)
        show "held (pde_of s') (walk ?s) (bit_at (phys_bitmap s')) q \<and>
            (q \<in> frames_of (doing c t) \<or> \<not> held (pde_of ?s) (walk ?s) (bit_at (phys_bitmap ?s)) q)"
          if "q \<in> frames_of (PutBack b i n pde ?old)" for q
          using that new erased(5) B(3) ok(4) by (auto simp: held_def)
        show "held (pde_of s') (walk ?s) (bit_at (phys_bitmap s')) q"
          if "held (pde_of ?s) (walk ?s) (bit_at (phys_bitmap ?s)) q" for q
          using that erased(4,7) by (auto simp: held_def used_frame_def)
        show "walk ?s (unat x) = Some q \<or> unat x \<in> stale (PutBack b i n pde ?old) \<or> tlb_map (tlb_store ?s) x = Some q \<and>
            unat x \<notin> stale (doing c t) \<and> walk ?s (unat x) = walk ?s (unat x)"
          if "tlb_map (tlb_store ?s) x = Some q" for x q using that by (simp add: a)
      qed (use ok in \<open>simp_all add: a\<close>)
    qed
  qed
qed

text \<open>The byte a thread holds is still that of the bitmap; then the late write is \<open>clear_bit\<close>.\<close>

definition byte_current :: "conc \<Rightarrow> nat \<Rightarrow> bool" where
  "byte_current c t \<longleftrightarrow> (\<forall>b i n pde old. doing c t = PutBack b i n pde old \<longrightarrow>
     old = clear_read (phys_bitmap (vm_of c)) (unat (drop_bit PFN_SHIFT pde)))"

lemma step_PutBack:
  assumes inv: "conc_inv c" and a: "doing c t = PutBack b i n pde old" and cur: "byte_current c t"
  shows "step_ok c t"
proof -
  let ?s = "vm_of c"
  have ok: "local_ok (pde_of ?s) (walk ?s) (Free b (Suc i) n)" "block_ok b n" "i < n" using conc_invD(3) [OF inv, of t] a by simp_all
  have core: "vm_core ?s" by (rule conc_invD(1) [OF inv])
  have h: "held (pde_of ?s) (walk ?s) (bit_at (phys_bitmap ?s)) pde" using conc_invD(6) [OF inv, of pde t] a by simp
  then have u: "used_frame (bit_at (phys_bitmap ?s)) pde" "\<And>k. k < 1024 \<Longrightarrow> pde_of ?s k \<noteq> pde" by (simp_all add: held_def)
  obtain s1 where s1: "clear_phys_bit ?s (unat (drop_bit PFN_SHIFT pde)) = Some s1" "vm_core s1" "pde_of s1 = pde_of ?s" "walk s1 = walk ?s"
    "virt_bitmap s1 = virt_bitmap ?s" "tlb_store s1 = tlb_store ?s"
    "\<And>q. held (pde_of ?s) (walk ?s) (bit_at (phys_bitmap ?s)) q \<Longrightarrow> q \<noteq> pde \<Longrightarrow> held (pde_of ?s) (walk ?s) (bit_at (phys_bitmap s1)) q"
    using core_clear_held [OF core h] by blast
  obtain s' where s': "memset0_page s1 (unat pde) = Some s'" "vm_core s'" "\<And>k. k < 1024 \<Longrightarrow> pde_of s' k = pde_of s1 k" "walk s' = walk s1"
    "phys_bitmap s' = phys_bitmap s1" "virt_bitmap s' = virt_bitmap s1" "tlb_store s' = tlb_store s1"
    using core_wipe [OF s1(2) u(1)] u(2) unfolding s1(3) by blast
  have "old = clear_read (phys_bitmap ?s) (unat (drop_bit PFN_SHIFT pde))" using cur a by (simp add: byte_current_def)
  then have "critical ?s (doing c t) = Some (s', Free b (Suc i) n)"
    using a s1(1) s'(1) by (simp add: Let_def clear_phys_bit_def clear_bit_halves split: if_splits)
  then show ?thesis
  proof (rule step_okI)
    show "conc_inv (after c t s' (Free b (Suc i) n))"
    proof (rule inv_step [OF inv s'(2)], unfold s'(4-7) s1(4-6))
      show "walk ?s v \<noteq> None \<longleftrightarrow> v \<in> live (Free b (Suc i) n)" if "v \<in> pages (doing c t)" for v
        using conc_invD(5) [OF inv that] by (simp add: a)
      show "bit_at (virt_bitmap ?s) v" if "v \<in> pages (Free b (Suc i) n)" for v
        using conc_invD(4) [OF inv, of v t] that by (simp add: a)
      show "pde_of s' (v div 1024) = pde_of ?s (v div 1024)" if "walk ?s v \<noteq> None" for v
        using s'(3) s1(3) frames_invD(4) [OF vm_coreD(5) [OF core]] that by (auto simp: less_mult_imp_div_less)
      show "held (pde_of s') (walk ?s) (bit_at (phys_bitmap s1)) q"
        if "held (pde_of ?s) (walk ?s) (bit_at (phys_bitmap ?s)) q" "q \<notin> frames_of (doing c t)" for q
        using s1(7) [OF that(1)] that(2) s'(3) s1(3) by (auto simp: a held_def)
      show "walk ?s (unat x) = Some q \<or> unat x \<in> stale (Free b (Suc i) n) \<or> tlb_map (tlb_store ?s) x = Some q \<and>
          unat x \<notin> stale (doing c t) \<and> walk ?s (unat x) = walk ?s (unat x)"
        if "tlb_map (tlb_store ?s) x = Some q" for x q using that by (simp add: a)
    qed (use ok s'(3) s1(3) in \<open>simp_all add: a\<close>)
  qed
qed

section \<open>translate\<close>

text \<open>The page a thread is translating is in a block, so it is mapped.\<close>

lemma touched_walk:
  assumes inv: "conc_inv c" and v: "v \<in> touched (doing c t)"
  obtains p where "walk (vm_of c) v = Some p"
proof -
  note D = sharingD [OF conc_invD(2) [OF inv]]
  obtain b n where "(b, n) \<in> blocks c" "v \<in> run_pages b n" using D(10) [OF v] by blast
  then have "v \<in> mapped (doing c) (blocks c) (Inr (b, n))" by (simp add: mapped_def)
  then have "walk (vm_of c) v \<noteq> None" using D(5) [of v] by blast
  then show thesis using that by blast
qed

text \<open>A step of \<open>translate\<close> changes the TLB and the counters only.\<close>

lemma inv_translate:
  assumes inv: "conc_inv c"
    and s': "vm_core s'" "phys_mem s' = phys_mem (vm_of c)" "phys_bitmap s' = phys_bitmap (vm_of c)" "virt_bitmap s' = virt_bitmap (vm_of c)"
    and T: "\<And>x p. tlb_map (tlb_store s') x = Some p \<Longrightarrow> tlb_map (tlb_store (vm_of c)) x = Some p \<or> walk (vm_of c) (unat x) = Some p"
    and ok: "local_ok (pde_of (vm_of c)) (walk (vm_of c)) a'" "touched a' \<subseteq> touched (doing c t)" "\<not> holding a'"
    and idle: "pages a' = {}" "frames_of a' = {}" "pages (doing c t) = {}" "live (doing c t) = {}" "stale (doing c t) = {}" "\<not> holding (doing c t)"
  shows "conc_inv (after c t s' a')"
proof -
  note eq = tables_same [OF s'(2)]
  show ?thesis
  proof (rule inv_step [OF inv s'(1)], unfold eq s'(3,4))
    show "walk (vm_of c) (unat x) = Some q \<or> unat x \<in> stale a' \<or> tlb_map (tlb_store (vm_of c)) x = Some q \<and>
        unat x \<notin> stale (doing c t) \<and> walk (vm_of c) (unat x) = walk (vm_of c) (unat x)"
      if "tlb_map (tlb_store s') x = Some q" for x q using T [OF that] idle by auto
  qed (use ok idle in auto)
qed

lemma step_Look:
  assumes inv: "conc_inv c" and a: "doing c t = Look va"
  shows "step_ok c t"
proof (rule step_okI)
  show "critical (vm_of c) (doing c t) = Some (vm_of c, Tally va (TLB_check (tlb_store (vm_of c)) va))" using a by simp
  show "conc_inv (after c t (vm_of c) (Tally va (TLB_check (tlb_store (vm_of c)) va)))"
    by (rule inv_quiet [OF inv conc_invD(1) [OF inv]]) (simp_all add: a)
qed

lemma step_Tally:
  assumes inv: "conc_inv c" and a: "doing c t = Tally va r"
  shows "step_ok c t"
proof -
  let ?s1 = "(vm_of c)\<lparr>tlb_lookups := tlb_lookups (vm_of c) + 1\<rparr>"
  let ?s' = "case r of Some i \<Rightarrow> ?s1 | None \<Rightarrow> ?s1\<lparr>tlb_misses := tlb_misses ?s1 + 1\<rparr>"
  let ?a' = "case r of Some i \<Rightarrow> Got va (TlbPte i) | None \<Rightarrow> Walk va"
  have core: "vm_core ?s'" using conc_invD(1) [OF inv] by (cases r) (simp_all add: vm_core_def)
  have "critical (vm_of c) (doing c t) = Some (?s', ?a')" using a by (cases r) simp_all
  then show ?thesis
  proof (rule step_okI)
    show "conc_inv (after c t ?s' ?a')"
      by (rule inv_quiet [OF inv core]) (cases r; simp add: a)+
  qed
qed

lemma step_Walk:
  assumes inv: "conc_inv c" and a: "doing c t = Walk va"
  shows "step_ok c t"
proof -
  let ?s = "vm_of c" and ?v = "vpn_of (VA2U va)"
  have core: "vm_core ?s" by (rule conc_invD(1) [OF inv])
  obtain p where p: "walk ?s ?v = Some p" by (rule touched_walk [OF inv, of ?v t]) (simp_all add: a)
  note K = core_walk [OF core p]
  have "critical ?s (doing c t) = Some (?s, Keep va p (unat (pde_of ?s (?v div 1024)) + 4 * (?v mod 1024)))"
    using a K core_pde [OF core K(1)] core_pte [OF core K(1-3)] by (simp add: unat_PDX unat_PTX)
  then show ?thesis
  proof (rule step_okI)
    show "conc_inv (after c t ?s (Keep va p (unat (pde_of ?s (?v div 1024)) + 4 * (?v mod 1024))))"
      by (rule inv_quiet [OF inv core]) (use K p in \<open>simp_all add: a\<close>)
  qed
qed

lemma step_Keep:
  assumes inv: "conc_inv c" and a: "doing c t = Keep va p ad"
  shows "step_ok c t"
proof -
  let ?s = "vm_of c"
  let ?s' = "?s\<lparr>tlb_store := snd (TLB_add (tlb_store ?s) va (U2VA p))\<rparr>"
  have core: "vm_core ?s" by (rule conc_invD(1) [OF inv])
  have core': "vm_core ?s'" using core by (simp add: vm_core_def tlb_ok_add)
  have ok: "local_ok (pde_of ?s) (walk ?s) (Keep va p ad)" using conc_invD(3) [OF inv, of t] a by simp
  have "critical ?s (doing c t) = Some (?s', Got va (MemPte ad))" using a by simp
  then show ?thesis
  proof (rule step_okI)
    show "conc_inv (after c t ?s' (Got va (MemPte ad)))"
    proof (rule inv_translate [OF inv core'])
      show "tlb_map (tlb_store ?s) x = Some q \<or> walk ?s (unat x) = Some q" if "tlb_map (tlb_store ?s') x = Some q" for x q
        using tlb_add_cases [OF vm_coreD(6) [OF core], of va "U2VA p" x q] that ok by auto
    qed (use ok in \<open>simp_all add: a\<close>)
  qed
qed

lemma step_Got:
  assumes inv: "conc_inv c" and a: "doing c t = Got va r"
  shows "step_ok c t"
proof -
  let ?s = "vm_of c" and ?v = "vpn_of (VA2U va)"
  have core: "vm_core ?s" by (rule conc_invD(1) [OF inv])
  obtain p where p: "walk ?s ?v = Some p" by (rule touched_walk [OF inv, of ?v t]) (simp_all add: a)
  note K = core_walk [OF core p]
  have "deref_pte ?s r \<noteq> None"
    using core_pte [OF core K(1-3)] conc_invD(3) [OF inv, of t] a by (cases r) (simp_all add: deref_pte_def)
  then have "critical ?s (doing c t) = Some (?s, Idle)" using a by auto
  then show ?thesis
  proof (rule step_okI)
    show "conc_inv (after c t ?s Idle)" by (rule inv_quiet [OF inv core]) (simp_all add: a)
  qed
qed

section \<open>Every section\<close>

theorem section_ok:
  assumes inv: "conc_inv c" and t: "doing c t \<noteq> Idle" "returned (doing c t) = {}" "\<not> waits c t" "byte_current c t"
  shows "step_ok c t"
proof (cases "doing c t")
  case (Enter b i n pa)
  then show ?thesis using step_Enter [OF inv] t(3) by (simp add: waits_def)
next
  case (EnterFree b n)
  then show ?thesis using step_EnterFree [OF inv] t(3) by (simp add: waits_def)
next
  case (Take b i n)
  then show ?thesis using step_Take [OF inv] t(2) by (simp split: if_splits)
qed (use t(1) step_Table [OF inv] step_Fill [OF inv] step_MarkPhys [OF inv] step_MarkVirt [OF inv] step_Cache [OF inv]
    step_Free [OF inv] step_ClearPhys [OF inv] step_ClearVirt [OF inv] step_Drop [OF inv] step_Release [OF inv] step_PutBack [OF inv _ t(4)] step_Look [OF inv]
    step_Tally [OF inv] step_Walk [OF inv] step_Keep [OF inv] step_Got [OF inv] in simp_all)

end
