(* ===== verification/VM_Torn.thy ===== *)
theory VM_Torn
  imports VM_Steps
begin

text \<open>
  What holds in every interleaving, also when a frame is taken between the two halves of the unlocked
  \<open>clear_bit\<close>. A frame may have two roles then, so nothing is known of the page map; but the tables
  hold frame addresses only, so no section leaves the memory, and the page numbers keep one owner
  each, because \<open>virt_bitmap\<close> is never accessed without its lock.
\<close>

section \<open>The memory\<close>

abbreviation frame_addr :: "u32 \<Rightarrow> bool" where
  "frame_addr \<equiv> used_frame (\<lambda>_. True)"

lemma used_frame_addr: "used_frame pb p \<Longrightarrow> frame_addr p"
  by (erule used_frame_mono) simp

definition entries_ok :: "vm \<Rightarrow> bool" where
  "entries_ok s \<longleftrightarrow> (\<forall>i < 1024. pde_of s i \<noteq> 0 \<longrightarrow>
     frame_addr (pde_of s i) \<and> (\<forall>j < 1024. pte_of s i j \<noteq> 0 \<longrightarrow> frame_addr (pte_of s i j)))"

definition vm_sane :: "vm \<Rightarrow> bool" where
  "vm_sane s \<longleftrightarrow> phys_ready s \<and> page_dir s = Some 0 \<and> num_phys_pages s = 262144 \<and> num_virt_pages s = 1048576 \<and>
     bit_at (phys_bitmap s) 0 \<and> entries_ok s"

lemma vm_saneD:
  assumes "vm_sane s"
  shows "phys_ready s" "page_dir s = Some 0" "num_phys_pages s = 262144" "num_virt_pages s = 1048576" "bit_at (phys_bitmap s) 0"
    "i < 1024 \<Longrightarrow> pde_of s i \<noteq> 0 \<Longrightarrow> frame_addr (pde_of s i)"
    "i < 1024 \<Longrightarrow> pde_of s i \<noteq> 0 \<Longrightarrow> j < 1024 \<Longrightarrow> pte_of s i j \<noteq> 0 \<Longrightarrow> frame_addr (pte_of s i j)"
  using assms by (simp_all add: vm_sane_def entries_ok_def)

lemma sane_same:
  "vm_sane s \<Longrightarrow> phys_mem s' = phys_mem s \<Longrightarrow> phys_ready s' = phys_ready s \<Longrightarrow> page_dir s' = page_dir s \<Longrightarrow>
   num_phys_pages s' = num_phys_pages s \<Longrightarrow> num_virt_pages s' = num_virt_pages s \<Longrightarrow> bit_at (phys_bitmap s') 0 \<Longrightarrow> vm_sane s'"
  by (simp add: vm_sane_def entries_ok_def pte_of_def pde_of_def)

lemma frame_pde_disjoint: "frame_addr p \<Longrightarrow> k < 1024 \<Longrightarrow> 4 * k + 4 \<le> unat p"
  using used_frame_bounds [of "\<lambda>_. True" p] by simp

text \<open>Addresses of entries are equal or do not overlap.\<close>

lemma entries_apart:
  assumes "frame_addr p" "frame_addr q" "j < 1024" "k < 1024" "unat p + 4 * j \<noteq> unat q + 4 * k"
  shows "unat p + 4 * j + 4 \<le> unat q + 4 * k \<or> unat q + 4 * k + 4 \<le> unat p + 4 * j"
  using used_frames_disjoint [OF assms(1,2)] assms(3-5) by (cases "p = q") auto

lemma sane_pte:
  assumes s: "vm_sane s" and p: "frame_addr p" "j < 1024" and w: "w = 0 \<or> frame_addr w"
  shows "st32 s (unat p + 4 * j) w = Some (s\<lparr>phys_mem := store32 (phys_mem s) (unat p + 4 * j) w\<rparr>)" (is "_ = Some ?s")
    "vm_sane (s\<lparr>phys_mem := store32 (phys_mem s) (unat p + 4 * j) w\<rparr>)"
proof -
  note S = vm_saneD [OF s]
  note B = used_frame_bounds [OF p(1)]
  show "st32 s (unat p + 4 * j) w = Some ?s" using S(1) B p(2) by (simp add: st32_def in_phys_def)
  have P: "pde_of ?s k = pde_of s k" if "k < 1024" for k
    using frame_pde_disjoint [OF p(1) that] by (simp add: pde_of_def load32_store32_other)
  have "pte_of ?s k l \<noteq> 0 \<longrightarrow> frame_addr (pte_of ?s k l)" if k: "k < 1024" "pde_of s k \<noteq> 0" "l < 1024" for k l
  proof (cases "unat p + 4 * j = unat (pde_of s k) + 4 * l")
    case True
    then show ?thesis using w P [OF k(1)] by (auto simp: pte_of_def simp del: used_frame_def)
  next
    case False
    then have "pte_of ?s k l = pte_of s k l"
      using entries_apart [OF p(1) S(6) [OF k(1,2)] p(2) k(3)] P [OF k(1)] by (auto simp: pte_of_def load32_store32_other)
    then show ?thesis using S(7) [OF k] by simp
  qed
  then have "entries_ok ?s" using S(6) P by (simp add: entries_ok_def)
  then show "vm_sane ?s" using S by (simp add: vm_sane_def)
qed

lemma sane_fill:
  assumes s: "vm_sane s" and p: "frame_addr p"
  shows "memset0_page s (unat p) = Some (s\<lparr>phys_mem := fill_bytes (phys_mem s) (unat p) 0 4096\<rparr>)" (is "_ = Some ?s")
    "vm_sane (s\<lparr>phys_mem := fill_bytes (phys_mem s) (unat p) 0 4096\<rparr>)"
    "j < 1024 \<Longrightarrow> load32 (fill_bytes (phys_mem s) (unat p) 0 4096) (unat p + 4 * j) = 0"
proof -
  note S = vm_saneD [OF s]
  note B = used_frame_bounds [OF p]
  show "memset0_page s (unat p) = Some ?s" using S(1) B by (simp add: memset0_page_def in_phys_def PGSIZE_def)
  show z: "load32 (fill_bytes (phys_mem s) (unat p) 0 4096) (unat p + 4 * j) = 0" if "j < 1024" for j
    using that by (simp add: load32_fill_zero)
  have far: "load32 (fill_bytes (phys_mem s) (unat p) 0 4096) a = load32 (phys_mem s) a" if "a + 4 \<le> unat p \<or> unat p + 4096 \<le> a" for a
    using that by (intro load32_cong) (auto simp: fill_bytes_def)
  have P: "pde_of ?s k = pde_of s k" if "k < 1024" for k
    using frame_pde_disjoint [OF p that] by (simp add: pde_of_def far)
  have "pte_of ?s k l \<noteq> 0 \<longrightarrow> frame_addr (pte_of ?s k l)" if k: "k < 1024" "pde_of s k \<noteq> 0" "l < 1024" for k l
  proof (cases "pde_of s k = p")
    case True
    then show ?thesis using z [OF k(3)] P [OF k(1)] by (simp add: pte_of_def)
  next
    case False
    then have "pte_of ?s k l = pte_of s k l"
      using used_frames_disjoint [OF S(6) [OF k(1,2)] p] P [OF k(1)] k(3) by (auto simp: pte_of_def far)
    then show ?thesis using S(7) [OF k] by simp
  qed
  then have "entries_ok ?s" using S(6) P by (simp add: entries_ok_def)
  then show "vm_sane ?s" using S by (simp add: vm_sane_def)
qed

lemma sane_pde:
  assumes s: "vm_sane s" and i: "i < 1024"
    and t: "t = 0 \<or> frame_addr t \<and> (\<forall>j < 1024. load32 (phys_mem s) (unat t + 4 * j) = 0)"
  shows "write_pde s (page_dir s) i t = Some (s\<lparr>phys_mem := store32 (phys_mem s) (4 * i) t\<rparr>)" (is "_ = Some ?s")
    "vm_sane (s\<lparr>phys_mem := store32 (phys_mem s) (4 * i) t\<rparr>)"
proof -
  note S = vm_saneD [OF s]
  show "write_pde s (page_dir s) i t = Some ?s"
    using S(1,2) i by (simp add: write_pde_def st32_def in_phys_def MEMSIZE_def)
  have P: "pde_of ?s k = (if k = i then t else pde_of s k)" for k by (simp add: pde_of_def load32_store32_index)
  have far: "load32 (store32 (phys_mem s) (4 * i) t) (unat q + 4 * l) = load32 (phys_mem s) (unat q + 4 * l)" if "frame_addr q" for q l
    using frame_pde_disjoint [OF that i] by (simp add: load32_store32_other)
  have "frame_addr (pde_of ?s k) \<and> (\<forall>l < 1024. pte_of ?s k l \<noteq> 0 \<longrightarrow> frame_addr (pte_of ?s k l))"
    if k: "k < 1024" "pde_of ?s k \<noteq> 0" for k
  proof (cases "k = i")
    case True
    then have "frame_addr t" "\<forall>j < 1024. load32 (phys_mem s) (unat t + 4 * j) = 0" using t k(2) P by auto
    then show ?thesis using True P far [of t] by (simp add: pte_of_def)
  next
    case False
    then have e: "pde_of ?s k = pde_of s k" "pde_of s k \<noteq> 0" using P k(2) by simp_all
    have "pte_of ?s k l = pte_of s k l" for l using e far [OF S(6) [OF k(1) e(2)]] by (simp add: pte_of_def)
    then show ?thesis using S(6,7) [OF k(1) e(2)] e(1) by simp
  qed
  then have "entries_ok ?s" by (simp add: entries_ok_def)
  then show "vm_sane ?s" using S by (simp add: vm_sane_def)
qed

lemma sane_read:
  assumes s: "vm_sane s" and i: "i < 1024"
  shows "read_pde s (page_dir s) i = Some (pde_of s i)"
    "pde_of s i \<noteq> 0 \<Longrightarrow> j < 1024 \<Longrightarrow> ld32 s (unat (pde_of s i) + 4 * j) = Some (pte_of s i j)"
    "pde_of s i \<noteq> 0 \<Longrightarrow> j < 1024 \<Longrightarrow> unat (pde_of s i) + 4 * j + 4 \<le> MEMSIZE"
proof -
  note S = vm_saneD [OF s]
  show "read_pde s (page_dir s) i = Some (pde_of s i)"
    using S(1,2) i by (simp add: read_pde_def ld32_def in_phys_def MEMSIZE_def pde_of_def)
  assume p: "pde_of s i \<noteq> 0" "j < 1024"
  note B = used_frame_bounds [OF S(6) [OF i p(1)]]
  show "unat (pde_of s i) + 4 * j + 4 \<le> MEMSIZE" using B p(2) by simp
  then show "ld32 s (unat (pde_of s i) + 4 * j) = Some (pte_of s i j)"
    using S(1) by (simp add: ld32_def in_phys_def pte_of_def)
qed

lemma sane_allocate:
  assumes s: "vm_sane s"
  obtains (none) "allocate_phys_page s = (INVALID_PA, s)"
  | (some) p f where "allocate_phys_page s = (p, s\<lparr>phys_bitmap := set_bit (phys_bitmap s) f\<rparr>)" "p \<noteq> INVALID_PA" "frame_addr p"
      "vm_sane (s\<lparr>phys_bitmap := set_bit (phys_bitmap s) f\<rparr>)"
proof -
  note S = vm_saneD [OF s]
  consider "allocate_phys_page s = (INVALID_PA, s)"
    | (y) f where "f < 262144" "\<not> bit_at (phys_bitmap s) f"
      "allocate_phys_page s = (of_nat f * of_nat PGSIZE, s\<lparr>phys_bitmap := set_bit (phys_bitmap s) f\<rparr>)"
    using allocate_phys_page_cases [OF S(3)] by metis
  then show thesis
  proof cases
    case (y f)
    let ?p = "of_nat f * of_nat PGSIZE :: u32"
    have p: "unat ?p = f * 4096" by (rule unat_frame_addr [OF y(1)])
    have "f \<noteq> 0" using S(5) y(2) by metis
    then have "?p \<noteq> 0" using p by auto
    then have "frame_addr ?p" using p y(1) by (simp add: used_frame_def MEMSIZE_def)
    moreover have "vm_sane (s\<lparr>phys_bitmap := set_bit (phys_bitmap s) f\<rparr>)"
      by (rule sane_same [OF s]) (simp_all add: bitmap_simps S(5))
    ultimately show thesis using some y(3) frame_addr_not_invalid [OF y(1)] by blast
  qed (rule none)
qed

section \<open>A section\<close>

text \<open>What a thread carries with it. None of this depends on the memory, so the others keep it.\<close>

fun sane_at :: "activity \<Rightarrow> bool" where
  "sane_at Idle = True"
| "sane_at (Take b i n) = (block_ok b n \<and> i \<le> n \<and> 0 < n)"
| "sane_at (Enter b i n pa) = (block_ok b n \<and> i < n \<and> frame_addr pa)"
| "sane_at (Table b i n pa) = (block_ok b n \<and> i < n \<and> frame_addr pa)"
| "sane_at (Fill b i n pa t) = (block_ok b n \<and> i < n \<and> frame_addr pa \<and> frame_addr t)"
| "sane_at (MarkPhys b i n pa) = (block_ok b n \<and> i < n \<and> frame_addr pa)"
| "sane_at (MarkVirt b i n pa) = (block_ok b n \<and> i < n)"
| "sane_at (Cache b i n pa) = (block_ok b n \<and> i < n)"
| "sane_at (EnterFree b n) = block_ok b n"
| "sane_at (Free b i n) = (block_ok b n \<and> i \<le> n)"
| "sane_at (ClearPhys b i n pde pte) = (block_ok b n \<and> i < n \<and> frame_addr pde \<and> frame_addr pte)"
| "sane_at (ClearVirt b i n pde) = (block_ok b n \<and> i < n \<and> frame_addr pde)"
| "sane_at (Drop b i n pde) = (block_ok b n \<and> i < n \<and> frame_addr pde)"
| "sane_at (Release b i n pde) = (block_ok b n \<and> i < n \<and> frame_addr pde)"
| "sane_at (PutBack b i n pde old) = (block_ok b n \<and> i < n \<and> frame_addr pde \<and> (vpn_of pde div 8 = 0 \<longrightarrow> bit old 0))"
| "sane_at (Keep va p a) = (a + 4 \<le> MEMSIZE)"
| "sane_at (Got va (MemPte a)) = (a + 4 \<le> MEMSIZE)"
| "sane_at _ = True"

definition sane_step :: "vm \<Rightarrow> activity \<Rightarrow> bool" where
  "sane_step s a \<longleftrightarrow> (\<exists>s' a'. critical s a = Some (s', a') \<and> vm_sane s' \<and> sane_at a' \<and> pages a' \<subseteq> pages a \<and>
     (\<forall>v. bit_at (virt_bitmap s) v \<longrightarrow> v \<notin> pages a \<or> v \<in> pages a' \<longrightarrow> bit_at (virt_bitmap s') v))"

lemma sane_stepI:
  assumes "critical s a = Some (s', a')" "vm_sane s'" "sane_at a'" "pages a' \<subseteq> pages a"
    "\<And>v. bit_at (virt_bitmap s) v \<Longrightarrow> v \<notin> pages a \<or> v \<in> pages a' \<Longrightarrow> bit_at (virt_bitmap s') v"
  shows "sane_step s a"
  using assms unfolding sane_step_def by blast

lemma frame_number: "frame_addr p \<Longrightarrow> vpn_of p < 262144" "frame_addr p \<Longrightarrow> vpn_of p \<noteq> 0"
  using used_frame_number [of "\<lambda>_. True" p] used_frame_not_0 [of "\<lambda>_. True" p] by (simp_all add: vpn_of_def)

lemma shift_vpn: "unat (drop_bit PFN_SHIFT p) = vpn_of p"
  by (simp add: vpn_of_def unat_shift_PFN)

lemma sane_phys_bit:
  assumes s: "vm_sane s" and p: "frame_addr p"
  shows "phys_bit_ok s (vpn_of p)" "vm_sane (s\<lparr>phys_bitmap := set_bit (phys_bitmap s) (vpn_of p)\<rparr>)"
    "vm_sane (s\<lparr>phys_bitmap := clear_bit (phys_bitmap s) (vpn_of p)\<rparr>)"
    "vpn_of p div 8 = 0 \<longrightarrow> bit old 0 \<Longrightarrow> vm_sane (s\<lparr>phys_bitmap := clear_write old (phys_bitmap s) (vpn_of p)\<rparr>)"
  using vm_saneD [OF s] frame_number [OF p]
  by (auto simp: phys_bit_ok_def bitmap_simps bit_at_clear_write intro!: sane_same [OF s])

lemma sane_Take:
  assumes s: "vm_sane s" and a: "sane_at (Take b i n)"
  shows "sane_step s (Take b i n)"
proof (cases "i < n")
  case False
  then show ?thesis using s by (intro sane_stepI [of _ _ s Idle]) simp_all
next
  case True
  have U: "undo b i = EnterFree b i \<and> block_ok b i" using a by (intro undo_pages [of b n]) simp_all
  show ?thesis
  proof (cases rule: sane_allocate [OF s])
    case 1
    then show ?thesis using s True U by (intro sane_stepI [of _ _ s "undo b i"]) (auto simp: run_pages_def)
  next
    case (2 p f)
    then show ?thesis using a True by (intro sane_stepI [OF _ 2(4), where a' = "Enter b i n p"]) simp_all
  qed
qed

lemma sane_Enter:
  assumes s: "vm_sane s" and a: "sane_at (Enter b i n pa)"
  shows "sane_step s (Enter b i n pa)"
proof -
  have ok: "block_ok b n" "i < n" "frame_addr pa" using a by simp_all
  note B = block_page [OF ok(1,2)] and S = vm_saneD [OF s]
  let ?k = "(first b + i) div 1024"
  have j: "(first b + i) mod 1024 < 1024" by simp
  show ?thesis
  proof (cases "pde_of s ?k = 0")
    case True
    then show ?thesis using ok s B sane_read(1) [OF s B(3)] by (intro sane_stepI [of _ _ s "Table b i n pa"]) (simp_all add: Let_def)
  next
    case False
    note W = sane_pte [OF s S(6) [OF B(3) False] j disjI2, of pa, OF ok(3)]
    show ?thesis
      by (rule sane_stepI [OF _ W(2), where a' = "MarkPhys b i n pa"])
        (use ok False B sane_read(1) [OF s B(3)] W(1) in \<open>simp_all add: Let_def\<close>)
  qed
qed

lemma sane_Table:
  assumes s: "vm_sane s" and a: "sane_at (Table b i n pa)"
  shows "sane_step s (Table b i n pa)"
proof -
  have U: "undo b i = EnterFree b i \<and> block_ok b i" using a by (intro undo_pages [of b n]) simp_all
  show ?thesis
  proof (cases rule: sane_allocate [OF s])
    case 1
    then show ?thesis using s a U by (intro sane_stepI [of _ _ s "undo b i"]) (auto simp: run_pages_def)
  next
    case (2 p f)
    then show ?thesis using a by (intro sane_stepI [OF _ 2(4), where a' = "Fill b i n pa p"]) simp_all
  qed
qed

lemma sane_Fill:
  assumes s: "vm_sane s" and a: "sane_at (Fill b i n pa t)"
  shows "sane_step s (Fill b i n pa t)"
proof -
  have ok: "block_ok b n" "i < n" "frame_addr pa" "frame_addr t" using a by simp_all
  note B = block_page [OF ok(1,2)]
  have j: "(first b + i) mod 1024 < 1024" by simp
  note M = sane_fill [OF s ok(4)]
  let ?s1 = "s\<lparr>phys_mem := fill_bytes (phys_mem s) (unat t) 0 4096\<rparr>"
  have z: "t = 0 \<or> frame_addr t \<and> (\<forall>j < 1024. load32 (phys_mem ?s1) (unat t + 4 * j) = 0)" using ok(4) M(3) by simp
  note P = sane_pde [OF M(2) B(3) z]
  note W = sane_pte [OF P(2) ok(4) j disjI2, of pa, OF ok(3)]
  show ?thesis
    by (rule sane_stepI [OF _ W(2), where a' = "MarkPhys b i n pa"])
      (use ok B M(1) P(1) W(1) in \<open>simp_all add: Let_def\<close>)
qed

lemma sane_marks:
  assumes s: "vm_sane s"
  shows "sane_at (MarkPhys b i n pa) \<Longrightarrow> sane_step s (MarkPhys b i n pa)"
    "sane_at (MarkVirt b i n pa) \<Longrightarrow> sane_step s (MarkVirt b i n pa)"
    "sane_at (Cache b i n pa) \<Longrightarrow> sane_step s (Cache b i n pa)"
proof -
  note S = vm_saneD [OF s]
  show "sane_step s (MarkPhys b i n pa)" if a: "sane_at (MarkPhys b i n pa)"
  proof -
    have p: "frame_addr pa" using a by simp
    note P = sane_phys_bit [OF s p]
    show ?thesis
      by (rule sane_stepI [OF _ P(2), where a' = "MarkVirt b i n pa"]) (use a P(1) in \<open>simp_all add: set_phys_bit_def shift_vpn\<close>)
  qed
  show "sane_step s (MarkVirt b i n pa)" if a: "sane_at (MarkVirt b i n pa)"
  proof -
    have ok: "block_ok b n" "i < n" using a by simp_all
    note B = block_page [OF ok]
    let ?s = "s\<lparr>virt_bitmap := set_bit (virt_bitmap s) (first b + i)\<rparr>"
    have "vm_sane ?s" by (rule sane_same [OF s]) (simp_all add: S)
    then show ?thesis
      by (rule sane_stepI [rotated 1, where a' = "Cache b i n pa"])
        (use ok B(1,2) S in \<open>simp_all add: set_virt_bit_def virt_bit_ok_def unat_shift_vpn bitmap_simps\<close>)
  qed
  show "sane_step s (Cache b i n pa)" if a: "sane_at (Cache b i n pa)"
    using a sane_same [OF s] S by (auto intro!: sane_stepI)
qed

lemma sane_Free:
  assumes s: "vm_sane s" and a: "sane_at (Free b i n)"
  shows "sane_step s (Free b i n)"
proof (cases "i < n")
  case False
  then show ?thesis using s by (intro sane_stepI [of _ _ s Idle]) simp_all
next
  case True
  have ok: "block_ok b n" using a by simp
  note B = block_page [OF ok True] and S = vm_saneD [OF s]
  let ?k = "(first b + i) div 1024" and ?j = "(first b + i) mod 1024"
  have j: "?j < 1024" by simp
  show ?thesis
  proof (cases "pde_of s ?k = 0 \<or> pte_of s ?k ?j = 0")
    case skip: True
    have "critical s (Free b i n) = Some (s, Free b (Suc i) n)"
      using True skip B sane_read(1) [OF s B(3)] sane_read(2) [OF s B(3) _ j] by (auto simp: Let_def)
    then show ?thesis by (rule sane_stepI) (use ok True s in auto)
  next
    case False
    then have nz: "pde_of s ?k \<noteq> 0" "pte_of s ?k ?j \<noteq> 0" by simp_all
    note F = S(6) [OF B(3) nz(1)] S(7) [OF B(3) nz(1) j nz(2)]
    note W = sane_pte [OF s F(1) j disjI1, of 0, OF refl]
    show ?thesis
      by (rule sane_stepI [OF _ W(2), where a' = "ClearPhys b i n (pde_of s ?k) (pte_of s ?k ?j)"])
        (use True ok nz F B sane_read(1) [OF s B(3)] sane_read(2) [OF s B(3) nz(1) j] W(1) in \<open>simp_all add: Let_def\<close>)
  qed
qed

lemma sane_clears:
  assumes s: "vm_sane s"
  shows "sane_at (ClearPhys b i n pde pte) \<Longrightarrow> sane_step s (ClearPhys b i n pde pte)"
    "sane_at (ClearVirt b i n pde) \<Longrightarrow> sane_step s (ClearVirt b i n pde)"
    "sane_at (Drop b i n pde) \<Longrightarrow> sane_step s (Drop b i n pde)"
proof -
  note S = vm_saneD [OF s]
  show "sane_step s (ClearPhys b i n pde pte)" if a: "sane_at (ClearPhys b i n pde pte)"
  proof -
    have p: "frame_addr pte" using a by simp
    note P = sane_phys_bit [OF s p]
    show ?thesis
      by (rule sane_stepI [OF _ P(3), where a' = "ClearVirt b i n pde"]) (use a P(1) in \<open>simp_all add: clear_phys_bit_def shift_vpn\<close>)
  qed
  show "sane_step s (ClearVirt b i n pde)" if a: "sane_at (ClearVirt b i n pde)"
  proof -
    have ok: "block_ok b n" "i < n" using a by simp_all
    note B = block_page [OF ok]
    let ?s = "s\<lparr>virt_bitmap := clear_bit (virt_bitmap s) (first b + i)\<rparr>"
    have "vm_sane ?s" by (rule sane_same [OF s]) (simp_all add: S)
    then show ?thesis
      by (rule sane_stepI [rotated 1, where a' = "Drop b i n pde"])
        (use a B(1,2) S in \<open>auto simp: clear_virt_bit_def virt_bit_ok_def unat_shift_vpn bitmap_simps\<close>)
  qed
  show "sane_step s (Drop b i n pde)" if a: "sane_at (Drop b i n pde)"
    using a sane_same [OF s] S by (auto intro!: sane_stepI)
qed

lemma sane_Release:
  assumes s: "vm_sane s" and a: "sane_at (Release b i n pde)"
  shows "sane_step s (Release b i n pde)"
proof -
  have ok: "block_ok b n" "i < n" "frame_addr pde" using a by simp_all
  note B = block_page [OF ok(1,2)] and S = vm_saneD [OF s]
  obtain e where e: "page_table_empty s (unat pde) = Some e"
    using page_table_empty_eq [OF S(1), of "unat pde"] used_frame_bounds [OF ok(3)] by blast
  show ?thesis
  proof (cases e)
    case False
    then show ?thesis using e ok s by (intro sane_stepI [of _ _ s "Free b (Suc i) n"]) (simp_all add: Let_def)
  next
    case True
    note W = sane_pde [OF s B(3) disjI1, of 0, OF refl]
    have "bit (phys_bitmap s 0) 0" using S(5) by (simp add: bit_at_def)
    then show ?thesis
      using True e ok B W sane_phys_bit(1) [OF s ok(3)]
      by (intro sane_stepI [OF _ W(2), where a' = "PutBack b i n pde (clear_read (phys_bitmap s) (vpn_of pde))"])
        (simp_all add: Let_def shift_vpn phys_bit_ok_def clear_read_def)
  qed
qed

lemma sane_PutBack:
  assumes s: "vm_sane s" and a: "sane_at (PutBack b i n pde old)"
  shows "sane_step s (PutBack b i n pde old)"
proof -
  have ok: "block_ok b n" "i < n" "frame_addr pde" "vpn_of pde div 8 = 0 \<longrightarrow> bit old 0" using a by simp_all
  note P = sane_phys_bit(4) [OF s ok(3,4)]
  note M = sane_fill [OF P ok(3)]
  show ?thesis
    by (rule sane_stepI [OF _ M(2), where a' = "Free b (Suc i) n"])
      (use ok sane_phys_bit(1) [OF s ok(3)] M(1) in \<open>simp_all add: Let_def shift_vpn\<close>)
qed

lemma sane_translate:
  assumes s: "vm_sane s"
  shows "sane_step s (Look va)" "sane_step s (Tally va r)" "sane_step s (Walk va)"
    "sane_at (Keep va p a) \<Longrightarrow> sane_step s (Keep va p a)" "sane_at (Got va q) \<Longrightarrow> sane_step s (Got va q)"
proof -
  note S = vm_saneD [OF s]
  show "sane_step s (Look va)" using s by (auto intro!: sane_stepI)
  show "sane_step s (Tally va r)" using sane_same [OF s] S by (cases r) (auto intro!: sane_stepI)
  show "sane_step s (Keep va p a)" if "sane_at (Keep va p a)" using that sane_same [OF s] S by (auto intro!: sane_stepI)
  show "sane_step s (Got va q)" if "sane_at (Got va q)"
    using that s S(1) by (cases q) (auto simp: deref_pte_def ld32_def in_phys_def intro!: sane_stepI)
  have k: "unat (PDX (VA2U va)) < 1024" "unat (PTX (VA2U va)) < 1024" by simp_all
  let ?p = "pde_of s (unat (PDX (VA2U va)))" and ?e = "pte_of s (unat (PDX (VA2U va))) (unat (PTX (VA2U va)))"
  show "sane_step s (Walk va)"
  proof (cases "?p = 0 \<or> ?e = 0")
    case True
    then have "critical s (Walk va) = Some (s, Idle)"
      using sane_read(1) [OF s k(1)] sane_read(2) [OF s k(1) _ k(2)] by auto
    then show ?thesis by (rule sane_stepI) (use s in simp_all)
  next
    case False
    then have "critical s (Walk va) = Some (s, Keep va ?e (unat ?p + 4 * unat (PTX (VA2U va))))"
      using sane_read(1) [OF s k(1)] sane_read(2) [OF s k(1) _ k(2)] by auto
    then show ?thesis by (rule sane_stepI) (use s False sane_read(3) [OF s k(1) _ k(2)] in simp_all)
  qed
qed

theorem sane_section:
  assumes s: "vm_sane s" and a: "sane_at a" "a \<noteq> Idle"
  shows "sane_step s a"
proof (cases a)
  case (EnterFree b n)
  then show ?thesis using s a by (auto simp: run_pages_def intro!: sane_stepI)
qed (use a sane_Take [OF s] sane_Enter [OF s] sane_Table [OF s] sane_Fill [OF s] sane_marks [OF s] sane_Free [OF s]
    sane_clears [OF s] sane_Release [OF s] sane_PutBack [OF s] sane_translate [OF s] in simp_all)

section \<open>The owners of page numbers\<close>

definition owners :: "(nat \<Rightarrow> activity) \<Rightarrow> (ptr \<times> nat) set \<Rightarrow> (nat \<Rightarrow> bool) \<Rightarrow> bool" where
  "owners D B vb \<longleftrightarrow> (\<forall>o1 o2 v. v \<in> region D B o1 \<longrightarrow> v \<in> region D B o2 \<longrightarrow> o1 = o2) \<and> (\<forall>o1 v. v \<in> region D B o1 \<longrightarrow> vb v)"

lemma ownersD:
  assumes "owners D B vb"
  shows "v \<in> region D B o1 \<Longrightarrow> v \<in> region D B o2 \<Longrightarrow> o1 = o2" "v \<in> region D B o1 \<Longrightarrow> vb v"
  using assms unfolding owners_def by blast+

text \<open>Every owner of the new state owns no more than one of the old state, and different ones different ones.\<close>

lemma owners_transfer:
  assumes own: "owners D B vb" and inj: "\<And>w w'. r w = r w' \<Longrightarrow> region D' B' w \<noteq> {} \<Longrightarrow> region D' B' w' \<noteq> {} \<Longrightarrow> w = w'"
    and sub: "\<And>w. region D' B' w \<subseteq> region D B (r w)" and bits: "\<And>v w. vb v \<Longrightarrow> v \<in> region D' B' w \<Longrightarrow> vb' v"
  shows "owners D' B' vb'"
  unfolding owners_def
proof (intro conjI allI impI)
  fix o1 o2 v assume v: "v \<in> region D' B' o1" "v \<in> region D' B' o2"
  then have "r o1 = r o2" using ownersD(1) [OF own] sub by blast
  then show "o1 = o2" using inj v by blast
next
  fix w v assume v: "v \<in> region D' B' w"
  then have "vb v" using ownersD(2) [OF own] sub by blast
  then show "vb' v" using bits v by blast
qed

lemma owners_section:
  assumes own: "owners D B vb" and sub: "pages a' \<subseteq> pages (D t)"
    and bits: "\<And>v. vb v \<Longrightarrow> v \<notin> pages (D t) \<or> v \<in> pages a' \<Longrightarrow> vb' v"
  shows "owners (D(t := a')) B vb'"
proof (rule owners_transfer [OF own, where r = "\<lambda>w. w"])
  show reg: "region (D(t := a')) B w \<subseteq> region D B w" for w using sub by (auto simp: region_def split: sum.splits)
  show "vb' v" if v: "vb v" "v \<in> region (D(t := a')) B w" for v w
  proof (cases "w = Inl t")
    case True
    then show ?thesis using v bits by (simp add: region_def)
  next
    case False
    then have "v \<notin> pages (D t)" using ownersD(1) [OF own, of v w "Inl t"] v(2) reg by (auto simp: region_def)
    then show ?thesis using bits v(1) by blast
  qed
qed simp

lemma owners_reserve:
  assumes own: "owners D B vb" and idle: "D t = Idle" and run: "\<And>v. v \<in> run_pages b n \<Longrightarrow> \<not> vb v"
  shows "owners (D(t := Take b 0 n)) B (\<lambda>v. v \<in> run_pages b n \<or> vb v)"
proof -
  have reg: "region (D(t := Take b 0 n)) B w = (if w = Inl t then run_pages b n else region D B w)" for w
    by (auto simp: region_def split: sum.splits)
  show ?thesis
    unfolding owners_def reg using ownersD [OF own] run by (auto split: if_splits) blast+
qed

lemma owners_free:
  assumes own: "owners D B vb" and idle: "D t = Idle" and b: "(b, n) \<in> B"
  shows "owners (D(t := EnterFree b n)) (B - {(b, n)}) vb"
proof (rule owners_transfer [OF own, where r = "\<lambda>w. if w = Inl t then Inr (b, n) else w"])
  show "region (D(t := EnterFree b n)) (B - {(b, n)}) w \<subseteq> region D B (if w = Inl t then Inr (b, n) else w)" for w
    using b by (auto simp: region_def split: sum.splits if_splits)
qed (auto simp: region_def split: if_splits)

lemma owners_return:
  assumes own: "owners D B vb" and a: "D t = Take b n n" "0 < n"
  shows "owners (D(t := Idle)) (insert (b, n) B) vb"
proof -
  have "(b, n) \<notin> B"
  proof
    assume "(b, n) \<in> B"
    then have "first b \<in> region D B (Inr (b, n))" "first b \<in> region D B (Inl t)" using a by (auto simp: region_def run_pages_def)
    then show False using ownersD(1) [OF own] by blast
  qed
  then show ?thesis
  proof (intro owners_transfer [OF own, where r = "\<lambda>w. if w = Inr (b, n) then Inl t else w"])
    show "region (D(t := Idle)) (insert (b, n) B) w \<subseteq> region D B (if w = Inr (b, n) then Inl t else w)" for w
      using a by (auto simp: region_def split: sum.splits if_splits)
  qed (auto simp: region_def split: if_splits)
qed

lemma owners_translate: "owners D B vb \<Longrightarrow> D t = Idle \<Longrightarrow> owners (D(t := Look va)) B vb"
  by (rule owners_section [where vb' = vb]) auto

section \<open>Every interleaving\<close>

definition conc_sane :: "conc \<Rightarrow> bool" where
  "conc_sane c \<longleftrightarrow> vm_sane (vm_of c) \<and> (\<forall>t. sane_at (doing c t)) \<and> (\<forall>b n. (b, n) \<in> blocks c \<longrightarrow> block_ok b n) \<and>
     owners (doing c) (blocks c) (bit_at (virt_bitmap (vm_of c))) \<and> (\<forall>t. holding (doing c t) \<longleftrightarrow> pt_holder c = Some t)"

lemma conc_saneD:
  assumes "conc_sane c"
  shows "vm_sane (vm_of c)" "sane_at (doing c t)" "(b, n) \<in> blocks c \<Longrightarrow> block_ok b n"
    "owners (doing c) (blocks c) (bit_at (virt_bitmap (vm_of c)))" "holding (doing c t) \<longleftrightarrow> pt_holder c = Some t"
  using assms unfolding conc_sane_def by blast+

lemma sane_advance:
  assumes c: "conc_sane c" and t: "doing c t \<noteq> Idle" "\<not> waits c t"
  obtains c' where "advance c t = Some c'" "conc_sane c'"
proof -
  note S = conc_saneD [OF c]
  obtain s' a' where a: "critical (vm_of c) (doing c t) = Some (s', a')" "vm_sane s'" "sane_at a'" "pages a' \<subseteq> pages (doing c t)"
    "\<And>v. bit_at (virt_bitmap (vm_of c)) v \<Longrightarrow> v \<notin> pages (doing c t) \<or> v \<in> pages a' \<Longrightarrow> bit_at (virt_bitmap s') v"
    using sane_section [OF S(1) S(2) t(1)] unfolding sane_step_def by blast
  let ?c' = "c\<lparr>vm_of := s', doing := (doing c)(t := a'), blocks := blocks c \<union> returned (doing c t),
     pt_holder := (if holding a' then Some t else if holding (doing c t) then None else pt_holder c)\<rparr>"
  have adv: "advance c t = Some ?c'" using a(1) by (simp add: advance_def)
  have own: "owners ((doing c)(t := a')) (blocks c \<union> returned (doing c t)) (bit_at (virt_bitmap s'))"
    and blk: "\<forall>b n. (b, n) \<in> blocks c \<union> returned (doing c t) \<longrightarrow> block_ok b n"
  proof -
    show "owners ((doing c)(t := a')) (blocks c \<union> returned (doing c t)) (bit_at (virt_bitmap s'))"
    proof (cases "returned (doing c t) = {}")
      case True
      then show ?thesis using owners_section [OF S(4) a(4), of "bit_at (virt_bitmap s')"] a(5) by simp
    next
      case False
      then obtain b i n where d: "doing c t = Take b i n" "\<not> i < n" by (cases "doing c t") (auto split: if_splits)
      then have n: "i = n" "0 < n" using S(2) [of t] by simp_all
      then show ?thesis using owners_return [OF S(4), of t b n] a(1) d by simp
    qed
    show "\<forall>b n. (b, n) \<in> blocks c \<union> returned (doing c t) \<longrightarrow> block_ok b n"
      using S(2) [of t] S(3) by (cases "doing c t") (auto split: if_splits)
  qed
  have "holding a' \<Longrightarrow> holding (doing c t) \<or> locking (doing c t)"
    using a(1) by (cases "doing c t") (auto simp: Let_def undo_def split: if_splits option.splits Option.bind_splits prod.splits)
  then have lk: "holding (((doing c)(t := a')) u) \<longleftrightarrow>
      (if holding a' then Some t else if holding (doing c t) then None else pt_holder c) = Some u" for u
    using S(5) [of u] S(5) [of t] t(2) by (auto simp: waits_def)
  have "conc_sane ?c'" using a(2,3) S(2) own blk lk by (simp add: conc_sane_def)
  with adv show thesis by (rule that)
qed

text \<open>\<open>get_next_avail\<close> gives a run of free page numbers and marks it.\<close>

lemma reserved_run:
  assumes v: "num_virt_pages s0 = 1048576" and n: "page_count nbytes \<noteq> 0"
    and g: "get_next_avail s0 (of_nat (page_count nbytes)) = (base, s)" "base \<noteq> 0"
  obtains st where "block_ok base (page_count nbytes)" "base = run_base st" "first base = st"
    "s = s0\<lparr>virt_bitmap := set_run (virt_bitmap s0) st (page_count nbytes)\<rparr>"
    "\<And>w. w \<in> run_pages base (page_count nbytes) \<Longrightarrow> \<not> bit_at (virt_bitmap s0) w"
    "bit_at (virt_bitmap s) = (\<lambda>w. w \<in> run_pages base (page_count nbytes) \<or> bit_at (virt_bitmap s0) w)"
proof -
  let ?n = "page_count nbytes"
  have num: "(of_nat ?n :: u32) \<noteq> 0" "unat (of_nat ?n :: u32) = ?n" "unat (of_nat ?n :: u32) < 1048576"
    using n page_count_le [of nbytes] by (auto simp: unat_of_nat of_nat_eq_0_iff word_of_nat_eq_0_iff dest!: dvd_imp_le)
  from v num(1,3) show thesis
  proof (cases rule: get_next_avail_run)
    case none
    then show thesis using g by simp
  next
    case (run st)
    have b: "base = run_base st" "s = s0\<lparr>virt_bitmap := set_run (virt_bitmap s0) st ?n\<rparr>"
      using run(1) g(1) num(2) by simp_all
    have st: "1 \<le> st" "st + ?n \<le> 1048576" "0 < ?n" "run_free (virt_bitmap s0) st ?n"
      using run(2) n num(2) by (simp_all add: free_run_def)
    have fb: "first base = st" using vpn_of_page_addr [of st 0] st b(1) by (simp add: page_addr_def)
    have ok: "block_ok base ?n" using st b fb by (simp add: block_ok_def)
    have bits: "bit_at (virt_bitmap s) = (\<lambda>w. w \<in> run_pages base ?n \<or> bit_at (virt_bitmap s0) w)"
      by (auto simp: b(2) bit_at_set_run fun_eq_iff run_pages_def fb)
    have free: "\<not> bit_at (virt_bitmap s0) w" if "w \<in> run_pages base ?n" for w
    proof -
      have "w = st + (w - st)" "w - st < ?n" using that by (auto simp: run_pages_def fb)
      then show ?thesis using st(4) unfolding run_free_def by metis
    qed
    show thesis by (rule that [OF ok b(1) fb b(2) free bits])
  qed
qed

lemma sane_vstep:
  assumes "vstep c c'" and c: "conc_sane c"
  shows "conc_sane c'"
  using assms(1)
proof cases
  case (malloc t nbytes base s)
  note S = conc_saneD [OF c]
  obtain st where R: "block_ok base (page_count nbytes)" "s = (vm_of c)\<lparr>virt_bitmap := set_run (virt_bitmap (vm_of c)) st (page_count nbytes)\<rparr>"
    "\<And>w. w \<in> run_pages base (page_count nbytes) \<Longrightarrow> \<not> bit_at (virt_bitmap (vm_of c)) w"
    "bit_at (virt_bitmap s) = (\<lambda>w. w \<in> run_pages base (page_count nbytes) \<or> bit_at (virt_bitmap (vm_of c)) w)"
    by (rule reserved_run [OF vm_saneD(4) [OF S(1)] malloc(3-5)]) blast
  have "vm_sane s" by (rule sane_same [OF S(1)]) (simp_all add: R(2) vm_saneD(5) [OF S(1)])
  moreover have "holding (((doing c)(t := Take base 0 (page_count nbytes))) u) \<longleftrightarrow> pt_holder c = Some u" for u
    using S(5) [of u] malloc(2) by (cases "u = t") simp_all
  ultimately show ?thesis
    using S(2,3) R(1) malloc(3) owners_reserve [OF S(4) malloc(2) R(3)] unfolding conc_sane_def malloc(1) by (simp add: R(4))
next
  case (free t base nbytes)
  note S = conc_saneD [OF c]
  have "holding (((doing c)(t := EnterFree base (page_count nbytes))) u) \<longleftrightarrow> pt_holder c = Some u" for u
    using S(5) [of u] free(2) by (cases "u = t") simp_all
  then show ?thesis
    using S(1-3) owners_free [OF S(4) free(2,3)] free(3) unfolding conc_sane_def free(1) by simp
next
  case (translate t base n va)
  note S = conc_saneD [OF c]
  have "holding (((doing c)(t := Look va)) u) \<longleftrightarrow> pt_holder c = Some u" for u
    using S(5) [of u] translate(2) by (cases "u = t") simp_all
  then show ?thesis
    using S(1-3) owners_translate [OF S(4) translate(2)] unfolding conc_sane_def translate(1) by simp
next
  case (run t)
  then show ?thesis using sane_advance [OF c, of t] by (metis option.inject)
qed (use c in simp)

lemma sane_start: "conc_sane \<lparr>vm_of = vm_booted h, pt_holder = None, doing = \<lambda>_. Idle, blocks = {}\<rparr>"
proof -
  note V = vm_inv_booted [of h]
  have "pde_of (vm_booted h) i = 0" if "i < 1024" for i using that by (simp add: pde_of_booted)
  then show ?thesis
    using V frames_invD(1) [OF vm_invD(5) [OF V]]
    by (simp add: conc_sane_def vm_sane_def vm_inv_def entries_ok_def owners_def region_def split: sum.splits)
qed

theorem vreach_sane: "vreach c \<Longrightarrow> conc_sane c"
  by (induction rule: vreach_if.induct) (auto intro: sane_start sane_vstep)

end
