(* ===== verification/VM_Threads.thy ===== *)
theory VM_Threads
  imports VM_Torn
begin

text \<open>
  The calls begin and return under the invariant of \<open>VM_Interleave\<close>, so it holds in every state that
  threads reach by a guarded interleaving; calls without interruption are such interleavings. And
  in every interleaving, guarded or not, the calls come to an end.
\<close>

section \<open>A call begins or returns\<close>

text \<open>What matters of a call is what it owns; the owners change, the pages do not.\<close>

lemma sharing_reserve:
  assumes S: "sharing P W pb vb T D B L" and idle: "D t = Idle" and ok: "block_ok b n" "0 < n"
    and run: "\<And>v. v \<in> run_pages b n \<Longrightarrow> \<not> vb v"
  shows "sharing P W pb (\<lambda>v. v \<in> run_pages b n \<or> vb v) T (D(t := Take b 0 n)) B L"
proof -
  note D = sharingD [OF S]
  let ?D = "D(t := Take b 0 n)"
  have reg: "region ?D B w = (if w = Inl t then run_pages b n else region D B w)" for w
    by (auto simp: region_def split: sum.splits)
  have new: "v \<notin> run_pages b n" if "v \<in> region D B w" for v w using D(4) [OF that] run by blast
  have map: "mapped ?D B w = mapped D B w" for w
    using idle by (auto simp: mapped_def split: sum.splits)
  have "o1 = o2" if "v \<in> region ?D B o1" "v \<in> region ?D B o2" for o1 o2 v
    using that new D(3) [of v o1 o2] unfolding reg by (auto split: if_splits)
  moreover have "v \<in> run_pages b n \<or> vb v" if "v \<in> region ?D B w" for v w
    using that D(4) unfolding reg by (auto split: if_splits)
  moreover have "local_ok P W (?D u)" "frames_of (?D u) = frames_of (D u)" "holding (?D u) = holding (D u)"
    "stale (?D u) = stale (D u)" "touched (?D u) = touched (D u)" for u using D(1) [of u] ok idle by auto
  ultimately show ?thesis
    unfolding sharing_def map using D(2,5-10) by simp
qed

lemma sharing_free:
  assumes S: "sharing P W pb vb T D B L" and idle: "D t = Idle" and b: "(b, n) \<in> B"
    and free: "\<And>u. touched (D u) \<inter> run_pages b n = {}"
  shows "sharing P W pb vb T (D(t := EnterFree b n)) (B - {(b, n)}) L"
proof -
  note D = sharingD [OF S]
  let ?D = "D(t := EnterFree b n)" and ?B = "B - {(b, n)}"
  let ?f = "\<lambda>w. if w = Inl t then Inr (b, n) else w"
  have reg: "region ?D ?B w = (if w = Inr (b, n) then {} else region D B (?f w))" for w
    using b by (auto simp: region_def split: sum.splits)
  have map: "mapped ?D ?B w = (if w = Inr (b, n) then {} else mapped D B (?f w))" for w
    using b by (auto simp: mapped_def split: sum.splits)
  have none: "region D B (Inl t) = {}" "mapped D B (Inl t) = {}" using idle by (simp_all add: region_def mapped_def)
  have "o1 = o2" if "v \<in> region ?D ?B o1" "v \<in> region ?D ?B o2" for o1 o2 v
    using that D(3) [of v "?f o1" "?f o2"] unfolding reg by (auto split: if_splits)
  moreover have "vb v" if "v \<in> region ?D ?B w" for v w using that D(4) unfolding reg by (auto split: if_splits)
  moreover have "(\<exists>w. v \<in> mapped ?D ?B w) \<longleftrightarrow> (\<exists>w. v \<in> mapped D B w)" for v
  proof
    assume "\<exists>w. v \<in> mapped D B w"
    then obtain w where w: "v \<in> mapped D B w" ..
    show "\<exists>w. v \<in> mapped ?D ?B w"
      using w none(2) by (cases "w = Inr (b, n)"; cases "w = Inl t")
        (auto simp: map intro!: exI [of _ "if w = Inr (b, n) then Inl t else w"])
  qed (auto simp: map split: if_splits)
  moreover have "\<exists>b' n'. (b', n') \<in> ?B \<and> v \<in> run_pages b' n'" if "v \<in> touched (?D u)" for u v
  proof -
    have v: "v \<in> touched (D u)" using that by (auto split: if_splits)
    then obtain b' n' where "(b', n') \<in> B" "v \<in> run_pages b' n'" using D(10) by blast
    then show ?thesis using free [of u] v by blast
  qed
  moreover have "local_ok P W (?D u)" "frames_of (?D u) = frames_of (D u)" "holding (?D u) = holding (D u)"
    "stale (?D u) = stale (D u)" for u using D(1) [of u] D(2) [OF b] idle by auto
  ultimately show ?thesis
    unfolding sharing_def using D(2,5-9) by (simp del: fun_upd_apply)
qed

lemma sharing_return:
  assumes S: "sharing P W pb vb T D B L" and a: "D t = Take b n n"
  shows "sharing P W pb vb T (D(t := Idle)) (insert (b, n) B) L"
proof -
  note D = sharingD [OF S]
  have ok: "block_ok b n" "0 < n" using D(1) [of t] a by simp_all
  let ?D = "D(t := Idle)" and ?B = "insert (b, n) B"
  let ?f = "\<lambda>w. if w = Inr (b, n) then Inl t else w"
  have own: "region D B (Inl t) = run_pages b n" "mapped D B (Inl t) = run_pages b n"
    using a by (simp_all add: region_def mapped_def run_pages_def)
  have fresh: "(b, n) \<notin> B"
  proof
    assume "(b, n) \<in> B"
    then have "first b \<in> region D B (Inr (b, n))" using ok by (simp add: region_def run_pages_def)
    moreover have "first b \<in> region D B (Inl t)" using ok own by (simp add: run_pages_def)
    ultimately show False using D(3) by blast
  qed
  have reg: "region ?D ?B w = (if w = Inl t then {} else region D B (?f w))" for w
    using own by (auto simp: region_def split: sum.splits)
  have map: "mapped ?D ?B w = (if w = Inl t then {} else mapped D B (?f w))" for w
    using own by (auto simp: mapped_def split: sum.splits)
  have none: "region D B (Inr (b, n)) = {}" "mapped D B (Inr (b, n)) = {}" using fresh by (simp_all add: region_def mapped_def)
  have "o1 = o2" if "v \<in> region ?D ?B o1" "v \<in> region ?D ?B o2" for o1 o2 v
    using that D(3) [of v "?f o1" "?f o2"] unfolding reg by (auto split: if_splits)
  moreover have "vb v" if "v \<in> region ?D ?B w" for v w using that D(4) unfolding reg by (auto split: if_splits)
  moreover have "(\<exists>w. v \<in> mapped ?D ?B w) \<longleftrightarrow> (\<exists>w. v \<in> mapped D B w)" for v
  proof
    assume "\<exists>w. v \<in> mapped D B w"
    then obtain w where w: "v \<in> mapped D B w" ..
    show "\<exists>w. v \<in> mapped ?D ?B w"
      using w none(2) by (cases "w = Inr (b, n)"; cases "w = Inl t")
        (auto simp: map intro!: exI [of _ "if w = Inl t then Inr (b, n) else w"])
  qed (auto simp: map split: if_splits)
  moreover have "\<exists>b' n'. (b', n') \<in> ?B \<and> v \<in> run_pages b' n'" if "v \<in> touched (?D u)" for u v
    using that D(10) [of v u] by (auto split: if_splits)
  moreover have "local_ok P W (?D u)" "frames_of (?D u) = frames_of (D u)" "holding (?D u) = holding (D u)"
    "stale (?D u) = stale (D u)" for u using D(1) [of u] a by auto
  moreover have "block_ok b' n'" if "(b', n') \<in> ?B" for b' n' using that D(2) ok by auto
  ultimately show ?thesis
    unfolding sharing_def using D(5-9) by (simp del: fun_upd_apply)
qed

lemma sharing_translate:
  assumes S: "sharing P W pb vb T D B L" and idle: "D t = Idle" and b: "(b, n) \<in> B" "first va \<in> run_pages b n"
  shows "sharing P W pb vb T (D(t := Look va)) B L"
proof -
  note D = sharingD [OF S]
  let ?D = "D(t := Look va)"
  have reg: "region ?D B = region D B" using idle by (auto simp: region_def fun_eq_iff split: sum.splits)
  have map: "mapped ?D B = mapped D B" using idle by (auto simp: mapped_def fun_eq_iff split: sum.splits)
  have "\<exists>b' n'. (b', n') \<in> B \<and> v \<in> run_pages b' n'" if "v \<in> touched (?D u)" for u v
    using that D(10) [of v u] b by (auto split: if_splits)
  moreover have "local_ok P W (?D u)" "frames_of (?D u) = frames_of (D u)" "holding (?D u) = holding (D u)"
    "stale (?D u) = stale (D u)" for u using D(1) [of u] idle by auto
  ultimately show ?thesis
    unfolding sharing_def reg map using D(2-9) by (simp del: fun_upd_apply)
qed

section \<open>Every step\<close>

lemma conc_inv_start: "conc_inv \<lparr>vm_of = vm_booted h, pt_holder = None, doing = \<lambda>_. Idle, blocks = {}\<rparr>"
proof -
  note V = vm_inv_booted [of h]
  have "tlb_map (tlb_store (vm_booted h)) = Map.empty" by (simp add: vm_booted_def tlb_map_reset)
  moreover have "walk (vm_booted h) = Map.empty" by (simp add: walk_booted fun_eq_iff)
  ultimately show ?thesis
    using V by (simp add: conc_inv_def vm_core_def vm_inv_def sharing_def region_def mapped_def split: sum.splits)
qed

lemma advance_ok:
  assumes inv: "conc_inv c" and t: "doing c t \<noteq> Idle" "\<not> waits c t" "byte_current c t"
  obtains c' where "advance c t = Some c'" "conc_inv c'"
proof (cases "returned (doing c t) = {}")
  case True
  obtain s' a' where s: "critical (vm_of c) (doing c t) = Some (s', a')" "conc_inv (after c t s' a')"
    using section_ok [OF inv t(1) True t(2,3)] by (auto simp: step_ok_def)
  then have "advance c t = Some (after c t s' a')" using True by (cases c) (simp add: advance_def after_def)
  then show thesis using s(2) that by blast
next
  case False
  then obtain b i n where a: "doing c t = Take b i n" "\<not> i < n" by (cases "doing c t") (auto split: if_splits)
  then have n: "i = n" using conc_invD(3) [OF inv, of t] by simp
  let ?c' = "c\<lparr>doing := (doing c)(t := Idle), blocks := insert (b, n) (blocks c)\<rparr>"
  have "advance c t = Some ?c'" using a by (cases c) (simp add: advance_def)
  moreover have "conc_inv ?c'"
    using sharing_return [OF conc_invD(2) [OF inv], of t b n] a n inv by (simp add: conc_inv_def)
  ultimately show thesis using that by blast
qed

text \<open>
  While a thread is between the halves of its \<open>clear_bit\<close>, the guard keeps the others away from the
  physical bitmap, or \<open>page_table_lock\<close> does.
\<close>

lemma critical_phys_bitmap:
  "critical s a = Some (s', a') \<Longrightarrow> \<not> phys_locking a \<Longrightarrow> \<not> clearing a \<Longrightarrow> phys_bitmap s' = phys_bitmap s"
  by (cases a) (auto simp: Let_def st32_def write_pde_def memset0_page_def set_virt_bit_def clear_virt_bit_def
      split: if_splits option.splits Option.bind_splits prod.splits)

lemma critical_reads:
  "critical s a = Some (s', PutBack b i n pde old) \<Longrightarrow> old = clear_read (phys_bitmap s') (unat (drop_bit PFN_SHIFT pde))"
  by (cases a) (auto simp: Let_def undo_def split: if_splits option.splits Option.bind_splits prod.splits)

lemma byte_current_advance:
  assumes inv: "conc_inv c" and cur: "\<And>u. byte_current c u" and g: "guarded c t" and adv: "advance c t = Some c'"
  shows "byte_current c' u"
proof -
  note D = sharingD [OF conc_invD(2) [OF inv]]
  obtain s' a' where a: "critical (vm_of c) (doing c t) = Some (s', a')" "vm_of c' = s'" "doing c' = (doing c)(t := a')"
    using adv by (auto simp: advance_def)
  show ?thesis
  proof (cases "u = t")
    case True
    then show ?thesis using critical_reads a by (auto simp: byte_current_def)
  next
    case False
    have "phys_bitmap s' = phys_bitmap (vm_of c)" if "clearing (doing c u)"
    proof (rule critical_phys_bitmap [OF a(1)])
      show "\<not> phys_locking (doing c t)" using g that False by (auto simp: guarded_def)
      have "holding (doing c u)" using that by (cases "doing c u") simp_all
      then have "\<not> holding (doing c t)" using D(8) [of u] D(8) [of t] False by simp
      then show "\<not> clearing (doing c t)" by (cases "doing c t") simp_all
    qed
    then show ?thesis using cur [of u] False a(2,3) by (auto simp: byte_current_def)
  qed
qed

definition guarded_inv :: "conc \<Rightarrow> bool" where
  "guarded_inv c \<longleftrightarrow> conc_inv c \<and> (\<forall>t. byte_current c t)"

lemma guarded_inv_vstep:
  assumes "vstep_if guarded c c'" and I: "guarded_inv c"
  shows "guarded_inv c'"
proof -
  have inv: "conc_inv c" and cur: "byte_current c t" for t using I by (simp_all add: guarded_inv_def)
  from assms(1) show ?thesis
  proof cases
    case (malloc t nbytes base s)
    let ?n = "page_count nbytes"
    have core: "vm_core (vm_of c)" by (rule conc_invD(1) [OF inv])
    obtain st where R: "block_ok base ?n" "s = (vm_of c)\<lparr>virt_bitmap := set_run (virt_bitmap (vm_of c)) st ?n\<rparr>"
      "\<And>w. w \<in> run_pages base ?n \<Longrightarrow> \<not> bit_at (virt_bitmap (vm_of c)) w"
      "bit_at (virt_bitmap s) = (\<lambda>w. w \<in> run_pages base ?n \<or> bit_at (virt_bitmap (vm_of c)) w)"
      by (rule reserved_run [OF vm_coreD(4) [OF core] malloc(3-5)]) blast
    have core': "vm_core s" using core unfolding R(2) by (auto simp: vm_core_def bit_at_set_run elim!: frames_inv_mono)
    have mem: "pde_of s = pde_of (vm_of c)" "walk s = walk (vm_of c)" "phys_bitmap s = phys_bitmap (vm_of c)"
      "tlb_store s = tlb_store (vm_of c)"
      using tables_same [of s "vm_of c"] by (simp_all add: R(2))
    have "byte_current c' u" for u using cur [of u] mem(3) unfolding malloc(1) by (simp add: byte_current_def)
    moreover have "conc_inv c'"
      using sharing_reserve [OF conc_invD(2) [OF inv] malloc(2) R(1) _ R(3)] malloc(3) core'
      unfolding conc_inv_def malloc(1) by (simp add: mem R(4))
    ultimately show ?thesis by (simp add: guarded_inv_def)
  next
    case (free t base nbytes)
    have "byte_current c' u" for u using cur [of u] unfolding free(1) by (simp add: byte_current_def)
    moreover have "conc_inv c'"
      using sharing_free [OF conc_invD(2) [OF inv] free(2-4)] inv unfolding conc_inv_def free(1) by simp
    ultimately show ?thesis by (simp add: guarded_inv_def)
  next
    case (translate t base n va)
    have "byte_current c' u" for u using cur [of u] unfolding translate(1) by (simp add: byte_current_def)
    moreover have "conc_inv c'"
      using sharing_translate [OF conc_invD(2) [OF inv] translate(2-4)] inv unfolding conc_inv_def translate(1) by simp
    ultimately show ?thesis by (simp add: guarded_inv_def)
  next
    case (run t)
    have "conc_inv c'" using advance_ok [OF inv run(1,2) cur] run(4) by (metis option.inject)
    then show ?thesis using byte_current_advance [OF inv cur run(3,4)] by (simp add: guarded_inv_def)
  qed (use I in simp)
qed

lemma guarded_inv_reach: "vreach_if guarded c \<Longrightarrow> guarded_inv c"
proof (induction rule: vreach_if.induct)
  case start
  show ?case by (simp add: guarded_inv_def byte_current_def conc_inv_start)
qed (rule guarded_inv_vstep)

theorem guarded_reach_inv: "vreach_if guarded c \<Longrightarrow> conc_inv c"
  using guarded_inv_reach by (simp add: guarded_inv_def)

section \<open>A call without interruption is a schedule\<close>

fun call_of :: "activity \<Rightarrow> (ptr \<times> nat) option" where
  "call_of (Take b i n) = Some (b, n)"
| "call_of (Enter b i n pa) = Some (b, n)"
| "call_of (Table b i n pa) = Some (b, n)"
| "call_of (Fill b i n pa t) = Some (b, n)"
| "call_of (MarkPhys b i n pa) = Some (b, n)"
| "call_of (MarkVirt b i n pa) = Some (b, n)"
| "call_of (Cache b i n pa) = Some (b, n)"
| "call_of _ = None"

lemma critical_call:
  assumes "critical s a = Some (s', a')"
  shows "call_of a' = call_of a \<or> call_of a' = None" "touched a = {} \<Longrightarrow> touched a' = {}"
    "returned a \<noteq> {} \<Longrightarrow> a' = Idle"
  using assms by (cases a; auto simp: Let_def undo_def split: if_splits option.splits prod.splits Option.bind_splits)+

lemma alone_last:
  assumes "alone s a = Some (l, a', s')"
  shows "(call_of l = call_of a \<or> call_of l = None) \<and> (touched a = {} \<longrightarrow> a' = Idle) \<and>
    (\<exists>s0. critical s0 l = Some (s', a'))"
  using assms
proof (induction s a rule: alone.induct)
  case (1 s a)
  from "1.prems" obtain s1 a1 where c: "critical s a = Some (s1, a1)" by (subst (asm) alone.simps) (auto split: option.splits)
  show ?case
  proof (cases "paused a1")
    case True
    then have "l = a" "a' = a1" "s' = s1" using "1.prems" c by (subst (asm) alone.simps, simp)+
    then show ?thesis using True c critical_call(2) [OF c] by (cases a1) auto
  next
    case False
    then have "alone s1 a1 = Some (l, a', s')" using "1.prems" c by (subst (asm) alone.simps) simp
    then show ?thesis using "1.IH" [OF c refl False] critical_call(1,2) [OF c] by auto
  qed
qed

lemma alone_returned:
  assumes "alone s a = Some (l, a', s')" "touched a = {}"
  shows "a' = Idle" "call_of a = None \<Longrightarrow> returned l = {}" "call_of a = Some (b, n) \<Longrightarrow> b \<noteq> 0 \<Longrightarrow>
    returned l = (if result_of l = 0 then {} else {(b, n)}) \<and> (result_of l = 0 \<or> result_of l = b)"
proof -
  note L = alone_last [OF assms(1)]
  show i: "a' = Idle" using L assms(2) by blast
  obtain s0 where s0: "critical s0 l = Some (s', Idle)" using L i by blast
  show "returned l = {}" if "call_of a = None" using L that by (cases l) auto
  show "returned l = (if result_of l = 0 then {} else {(b, n)}) \<and> (result_of l = 0 \<or> result_of l = b)"
    if "call_of a = Some (b, n)" "b \<noteq> 0"
    using L that s0 by (cases l) (auto simp: undo_def split: if_splits prod.splits)
qed

text \<open>
  The sections of thread \<open>t\<close>, when no other thread is in a section that holds \<open>page_table_lock\<close>, and so
  none between the halves of \<open>clear_bit\<close>.
\<close>

lemma alone_schedule:
  assumes "alone (vm_of c) (doing c t) = Some (l, a', s')"
    and "doing c t \<noteq> Idle" "pt_holder c = (if holding (doing c t) then Some t else None)" "\<And>u. u \<noteq> t \<Longrightarrow> \<not> clearing (doing c u)"
  shows "rtranclp (vstep_if guarded) c (c\<lparr>vm_of := s', doing := (doing c)(t := a'), pt_holder := None, blocks := blocks c \<union> returned l\<rparr>)"
  using assms
proof (induction "vm_of c" "doing c t" arbitrary: c rule: alone.induct)
  case 1
  let ?a = "doing c t"
  from "1.prems"(1) obtain s1 a1 where k: "critical (vm_of c) ?a = Some (s1, a1)"
    by (subst (asm) alone.simps) (auto split: option.splits)
  let ?c1 = "c\<lparr>vm_of := s1, doing := (doing c)(t := a1), pt_holder := (if holding a1 then Some t else None), blocks := blocks c \<union> returned ?a\<rparr>"
  have "holding ?a \<Longrightarrow> \<not> locking ?a" by (cases ?a) auto
  then have "\<not> waits c t" using "1.prems"(3) by (auto simp: waits_def)
  moreover have "advance c t = Some ?c1" using k "1.prems"(3) by (cases c) (simp add: advance_def)
  moreover have "guarded c t" using "1.prems"(4) by (simp add: guarded_def)
  ultimately have step: "vstep_if guarded c ?c1" using "1.prems"(2) by (intro vstep_if.run)
  show ?case
  proof (cases "paused a1")
    case True
    then have e: "l = ?a" "a' = a1" "s' = s1" using "1.prems"(1) k by (subst (asm) alone.simps, simp)+
    have "\<not> holding a1" using True by (cases a1) auto
    then show ?thesis using step unfolding e by (auto intro!: r_into_rtranclp)
  next
    case False
    have "a1 \<noteq> Idle" using False by auto
    then have r: "returned ?a = {}" using critical_call(3) [OF k] by blast
    have "alone s1 a1 = Some (l, a', s')" using "1.prems"(1) k False by (subst (asm) alone.simps) simp
    then have "rtranclp (vstep_if guarded) ?c1 (?c1\<lparr>vm_of := s', doing := (doing ?c1)(t := a'), pt_holder := None, blocks := blocks ?c1 \<union> returned l\<rparr>)"
      using \<open>a1 \<noteq> Idle\<close> False "1.prems"(4) by (intro "1.hyps" [OF k, of ?c1]) simp_all
    then have "rtranclp (vstep_if guarded) ?c1 (c\<lparr>vm_of := s', doing := (doing c)(t := a'), pt_holder := None, blocks := blocks c \<union> returned l\<rparr>)"
      using r by simp
    then show ?thesis using step by (rule converse_rtranclp_into_rtranclp [rotated])
  qed
qed

text \<open>While no thread holds \<open>page_table_lock\<close>, the invariant is that of the sequential development.\<close>

lemma unlocked_vm_inv:
  assumes inv: "conc_inv c" and free: "pt_holder c = None"
  shows "vm_inv (vm_of c)"
proof -
  note C = vm_coreD [OF conc_invD(1) [OF inv]] and D = sharingD [OF conc_invD(2) [OF inv]]
  have "stale (doing c t) = {}" for t using stale_holding [of "doing c t"] D(8) [of t] free by auto
  then have "tlb_map (tlb_store (vm_of c)) \<subseteq>\<^sub>m (\<lambda>x. walk (vm_of c) (unat x))"
    using D(9) by (force intro!: map_leI)
  then show ?thesis using C by (simp add: vm_inv_def)
qed

lemma unlocked_not_clearing: "conc_inv c \<Longrightarrow> pt_holder c = None \<Longrightarrow> \<not> clearing (doing c u)"
  using sharingD(8) [OF conc_invD(2), of c u] by (cases "doing c u") auto

lemma settled:
  "doing c t = Idle \<Longrightarrow> pt_holder c = None \<Longrightarrow>
    c\<lparr>vm_of := s', doing := (doing c)(t := Idle), pt_holder := None, blocks := B\<rparr> = c\<lparr>vm_of := s', blocks := B\<rparr>"
  by (cases c) (simp add: fun_upd_idem)

lemma malloc_schedule:
  assumes inv: "conc_inv c" and idle: "doing c t = Idle" and free: "pt_holder c = None" and m: "n_malloc (vm_of c) nbytes = Some (base, s')"
  shows "rtranclp (vstep_if guarded) c (c\<lparr>vm_of := s', blocks := blocks c \<union> (if base = 0 then {} else {(base, page_count nbytes)})\<rparr>)"
proof -
  note I = unlocked_vm_inv [OF inv free]
  let ?num = "(nbytes + of_nat PGSIZE - 1) div of_nat PGSIZE" and ?n = "page_count nbytes"
  have count: "unat ?num = ?n" "?num = of_nat ?n" by (simp_all add: page_count_def)
  have self: "c = c\<lparr>vm_of := vm_of c, blocks := blocks c \<union> {}\<rparr>" by (cases c) simp
  show ?thesis
  proof (cases "nbytes = 0 \<or> ?num = 0")
    case True
    then have "base = 0" "s' = vm_of c" using m vm_invD(1) [OF I] by (auto simp: n_malloc_def split: if_splits)
    then show ?thesis using self by simp
  next
    case False
    then have num: "?num \<noteq> 0" "unat ?num < 1048576" using page_count_le count(1) by simp_all
    have m': "(let (base_va, s2) = get_next_avail (vm_of c) ?num
        in if base_va = 0 then Some (0, s2) else malloc_loop s2 base_va 0 ?n) = Some (base, s')"
      using m False vm_invD(1) [OF I] unfolding count(1) [symmetric] by (simp add: n_malloc_def Let_def)
    from vm_invD(4) [OF I] num show ?thesis
    proof (cases rule: get_next_avail_run)
      case none
      then have "base = 0" "s' = vm_of c" using m' by simp_all
      then show ?thesis using self by simp
    next
      case (run st)
      let ?s1 = "(vm_of c)\<lparr>virt_bitmap := set_run (virt_bitmap (vm_of c)) st (unat ?num)\<rparr>" and ?b = "run_base st"
      have pos: "0 < unat ?num" using num(1) by (simp add: unat_gt_0)
      then have "1 \<le> st" "st < 1048576" using run(2) unfolding free_run_def by linarith+
      then have b: "?b \<noteq> 0" by (subst run_base_eq_0_iff) auto
      let ?c1 = "c\<lparr>vm_of := ?s1, doing := (doing c)(t := Take ?b 0 ?n)\<rparr>"
      have n0: "?n \<noteq> 0" using pos count(1) by linarith
      have g: "get_next_avail (vm_of c) (of_nat ?n) = (?b, ?s1)" using run(1) by (simp only: count(2) [symmetric])
      have step: "vstep_if guarded c ?c1" by (rule vstep_if.malloc [OF idle n0 g b])
      have "alone_malloc ?s1 (Take ?b 0 ?n) = Some (base, s')"
        using m' run(1) b by (simp add: alone_malloc_loop)
      then obtain l a' where l: "alone ?s1 (Take ?b 0 ?n) = Some (l, a', s')" "result_of l = base" by (auto simp: alone_malloc_def)
      note R = alone_returned [OF l(1)]
      have a': "a' = Idle" using R(1) by simp
      have ret: "returned l = (if base = 0 then {} else {(base, ?n)})" using R(3) [of ?b ?n] b l(2) by auto
      have "rtranclp (vstep_if guarded) ?c1 (?c1\<lparr>vm_of := s', doing := (doing ?c1)(t := Idle), pt_holder := None, blocks := blocks ?c1 \<union> returned l\<rparr>)"
        using alone_schedule [of ?c1 t l Idle s'] l(1) free unlocked_not_clearing [OF inv free] by (simp add: a')
      moreover have "?c1\<lparr>vm_of := s', doing := (doing ?c1)(t := Idle), pt_holder := None, blocks := blocks ?c1 \<union> returned l\<rparr> =
          c\<lparr>vm_of := s', blocks := blocks c \<union> returned l\<rparr>"
        using settled [OF idle free] by simp
      ultimately have "rtranclp (vstep_if guarded) ?c1 (c\<lparr>vm_of := s', blocks := blocks c \<union> returned l\<rparr>)" by (simp only:)
      from converse_rtranclp_into_rtranclp [OF step this] show ?thesis unfolding ret .
    qed
  qed
qed

lemma alone_look: "alone s (Look va) = Some (l, a', s') \<Longrightarrow> returned l = {} \<and> (a' = Idle \<or> (\<exists>r. a' = Got va r))"
  by (cases "TLB_check (tlb_store s) va")
    (auto simp: alone.simps [of s "Look va"] alone.simps [where a = "Tally v r" for v r] alone.simps [where a = "Walk v" for v]
      alone.simps [where a = "Keep v p q" for v p q] Let_def split: if_splits option.splits Option.bind_splits)

lemma translate_schedule:
  assumes inv: "conc_inv c" and idle: "doing c t = Idle" and free: "pt_holder c = None" and b: "(b, n) \<in> blocks c" "first va \<in> run_pages b n"
    and tr: "translate (vm_of c) (page_dir (vm_of c)) va = Some (Some r, s')"
  shows "rtranclp (vstep_if guarded) c (c\<lparr>vm_of := s', doing := (doing c)(t := Got va r)\<rparr>)"
proof -
  note I = unlocked_vm_inv [OF inv free]
  let ?c1 = "c\<lparr>doing := (doing c)(t := Look va)\<rparr>"
  have step: "vstep_if guarded c ?c1" using idle b by (intro vstep_if.translate)
  obtain l a' where l: "alone (vm_of c) (Look va) = Some (l, a', s')" "(case a' of Got _ r \<Rightarrow> Some r | _ \<Rightarrow> None) = Some r"
    using tr unfolding alone_translate by auto
  have l': "a' = Got va r" "returned l = {}" using alone_look [OF l(1)] l(2) by auto
  have "rtranclp (vstep_if guarded) ?c1 (?c1\<lparr>vm_of := s', doing := (doing ?c1)(t := a'), pt_holder := None, blocks := blocks ?c1 \<union> returned l\<rparr>)"
    using alone_schedule [of ?c1 t l a' s'] l free unlocked_not_clearing [OF inv free] by simp
  moreover have "?c1\<lparr>vm_of := s', doing := (doing ?c1)(t := a'), pt_holder := None, blocks := blocks ?c1 \<union> returned l\<rparr> =
      c\<lparr>vm_of := s', doing := (doing c)(t := Got va r)\<rparr>"
    using free l' by (cases c) auto
  ultimately have "rtranclp (vstep_if guarded) ?c1 (c\<lparr>vm_of := s', doing := (doing c)(t := Got va r)\<rparr>)" by (simp only:)
  from converse_rtranclp_into_rtranclp [OF step this] show ?thesis .
qed

section \<open>Every call returns\<close>

text \<open>A step that runs a section, as opposed to one that begins a call.\<close>

definition runs :: "conc \<Rightarrow> conc \<Rightarrow> bool" where
  "runs c c' \<longleftrightarrow> (\<exists>t. doing c t \<noteq> Idle \<and> \<not> waits c t \<and> advance c t = Some c')"

definition active :: "conc \<Rightarrow> nat set" where
  "active c = {t. doing c t \<noteq> Idle}"

definition work_left :: "conc \<Rightarrow> nat" where
  "work_left c = (\<Sum>t\<in>active c. sections_left (doing c t))"

lemma advance_doing:
  assumes "advance c t = Some c'"
  obtains s' a' where "critical (vm_of c) (doing c t) = Some (s', a')" "doing c' = (doing c)(t := a')"
  using assms by (auto simp: advance_def)

lemma active_finite: "vreach c \<Longrightarrow> finite (active c)"
proof (induction rule: vreach_if.induct)
  case (step c c')
  have "\<exists>t. active c' \<subseteq> insert t (active c)"
    using step.hyps(2) by cases (auto simp: active_def elim!: advance_doing)
  then show ?case using step.IH by (metis finite_insert finite_subset)
qed (simp add: active_def)

lemma work_left_less:
  assumes "finite (active c)" "runs c c'"
  shows "finite (active c') \<and> work_left c' < work_left c"
proof -
  obtain t where t: "t \<in> active c" "advance c t = Some c'" using assms(2) by (auto simp: runs_def active_def)
  obtain s' a' where a: "critical (vm_of c) (doing c t) = Some (s', a')" "doing c' = (doing c)(t := a')"
    by (rule advance_doing [OF t(2)])
  have sub: "active c' \<subseteq> active c" using t(1) a(2) by (auto simp: active_def)
  have "work_left c' = (\<Sum>u\<in>active c. sections_left (doing c' u))"
    unfolding work_left_def by (rule sum.mono_neutral_left [OF assms(1) sub]) (auto simp: active_def)
  also have "\<dots> < (\<Sum>u\<in>active c. sections_left (doing c u))"
    using sections_left_less [OF a(1)] t(1) a(2) by (intro sum_strict_mono_ex1 [OF assms(1)]) auto
  finally show ?thesis using finite_subset [OF sub assms(1)] by (simp add: work_left_def)
qed

lemma runs_bound: "(runs ^^ k) c c' \<Longrightarrow> finite (active c) \<Longrightarrow> k + work_left c' \<le> work_left c"
proof (induction k arbitrary: c')
  case (Suc k)
  then obtain d where d: "(runs ^^ k) c d" "runs d c'" by auto
  have "finite (active d)" using d(1) Suc.prems(2)
    by (induction k arbitrary: d) (auto dest: work_left_less)
  then show ?case using Suc.IH [OF d(1) Suc.prems(2)] work_left_less [OF _ d(2)] by fastforce
qed simp

text \<open>The holder of the lock does not wait for it, so some thread in a call can run.\<close>

lemma runs_possible:
  assumes c: "conc_sane c" and t: "doing c t \<noteq> Idle"
  shows "\<exists>c'. runs c c'"
proof -
  have "\<exists>u. doing c u \<noteq> Idle \<and> \<not> waits c u"
  proof (cases "waits c t")
    case True
    then obtain u where u: "pt_holder c = Some u" by (auto simp: waits_def)
    then have "holding (doing c u)" using conc_saneD(5) [OF c] by blast
    then have "doing c u \<noteq> Idle" "\<not> locking (doing c u)" by (cases "doing c u"; simp)+
    then show ?thesis by (auto simp: waits_def)
  qed (use t in blast)
  then show ?thesis using sane_advance [OF c] unfolding runs_def by metis
qed

lemma runs_vstep: "runs c c' \<Longrightarrow> vstep c c'"
  by (auto simp: runs_def intro: vstep_if.run)

lemma vreach_rtranclp: "rtranclp (vstep_if G) c c' \<Longrightarrow> vreach_if G c \<Longrightarrow> vreach_if G c'"
  by (induction rule: rtranclp_induct) (auto intro: vreach_if.step)

end
