(* ===== verification/VM_Data.thy ===== *)
theory VM_Data
  imports VM_MallocSpec
begin

text \<open>
  Data movement through virtual addresses: \<open>put_data\<close>, \<open>get_data\<close> and \<open>mat_mult\<close>. The
  specification of the first two is the virtual byte memory \<open>vread\<close>: a page walk followed by a
  read of the frame. A user buffer is its bytes; the null pointer is \<open>None\<close>.
\<close>

section \<open>Operations\<close>

definition copy_len :: "u32 \<Rightarrow> nat \<Rightarrow> nat" where
  "copy_len curr_va bytes_remaining =
     (let space_in_page = PGSIZE - unat (OFF curr_va)
      in if bytes_remaining < space_in_page then bytes_remaining else space_in_page)"

lemma unat_OFF_less: "unat (OFF va) < 4096"
  by (simp add: unat_OFF)

lemma copy_len_bounds:
  "0 < rem \<Longrightarrow> 0 < copy_len va rem" "copy_len va rem \<le> rem" "unat (OFF va) + copy_len va rem \<le> 4096"
  using unat_OFF_less [of va] by (auto simp: copy_len_def PGSIZE_def Let_def)

lemma copy_len_less: "0 < rem \<Longrightarrow> rem - copy_len va rem < rem"
  using copy_len_bounds(1) by (simp add: diff_less)

function put_loop :: "vm \<Rightarrow> u32 \<Rightarrow> mem \<Rightarrow> nat \<Rightarrow> nat \<Rightarrow> (int \<times> vm) option" where
  "put_loop s curr_va val src bytes_remaining =
     (if 0 < bytes_remaining then
        do { (pte, s1) \<leftarrow> translate s (page_dir s) (U2VA curr_va);
             case pte of
               None \<Rightarrow> Some (- 1, s1)
             | Some r \<Rightarrow>
                 do { page_base \<leftarrow> deref_pte s1 r;
                      let bytes_to_copy = copy_len curr_va bytes_remaining;
                      s2 \<leftarrow> memcpy_in s1 (unat page_base + unat (OFF curr_va))
                              (load_bytes val src bytes_to_copy);
                      put_loop s2 (curr_va + of_nat bytes_to_copy) val (src + bytes_to_copy)
                        (bytes_remaining - bytes_to_copy) } }
      else Some (0, s))"
  by pat_completeness auto
termination
  by (relation "measure (\<lambda>(s, v, b, p, n). n)") (auto simp: copy_len_less)

declare put_loop.simps [simp del]

definition put_data :: "vm \<Rightarrow> ptr \<Rightarrow> mem option \<Rightarrow> int \<Rightarrow> (int \<times> vm) option" where
  "put_data s va val nbytes =
     (case val of
        None \<Rightarrow> Some (- 1, s)
      | Some buf \<Rightarrow> if nbytes \<le> 0 then Some (- 1, s) else put_loop s (VA2U va) buf 0 (nat nbytes))"

function get_loop :: "vm \<Rightarrow> u32 \<Rightarrow> mem \<Rightarrow> nat \<Rightarrow> nat \<Rightarrow> (mem \<times> vm) option" where
  "get_loop s curr_va val dst bytes_remaining =
     (if 0 < bytes_remaining then
        do { (pte, s1) \<leftarrow> translate s (page_dir s) (U2VA curr_va);
             case pte of
               None \<Rightarrow> Some (val, s1)
             | Some r \<Rightarrow>
                 do { page_base \<leftarrow> deref_pte s1 r;
                      let bytes_to_copy = copy_len curr_va bytes_remaining;
                      bs \<leftarrow> memcpy_out s1 (unat page_base + unat (OFF curr_va)) bytes_to_copy;
                      get_loop s1 (curr_va + of_nat bytes_to_copy) (store_bytes val dst bs)
                        (dst + bytes_to_copy) (bytes_remaining - bytes_to_copy) } }
      else Some (val, s))"
  by pat_completeness auto
termination
  by (relation "measure (\<lambda>(s, v, b, p, n). n)") (auto simp: copy_len_less)

declare get_loop.simps [simp del]

text \<open>The result is the user buffer after the call.\<close>

definition get_data :: "vm \<Rightarrow> ptr \<Rightarrow> mem option \<Rightarrow> int \<Rightarrow> (mem option \<times> vm) option" where
  "get_data s va val nbytes =
     (case val of
        None \<Rightarrow> Some (None, s)
      | Some buf \<Rightarrow>
          if nbytes \<le> 0 then Some (Some buf, s)
          else do { (buf', s') \<leftarrow> get_loop s (VA2U va) buf 0 (nat nbytes); Some (Some buf', s') })"

section \<open>The virtual byte memory\<close>

definition vread :: "vm \<Rightarrow> u32 \<Rightarrow> u8 option" where
  "vread s a = (case walk s (vpn_of a) of
                  None \<Rightarrow> None | Some p \<Rightarrow> Some (phys_mem s (unat p + unat (OFF a))))"

lemma vread_tlb [simp]:
  "vread (s\<lparr>tlb_lookups := l, tlb_misses := m, tlb_store := t\<rparr>) = vread s"
  by (simp add: vread_def fun_eq_iff split: option.split)

lemma vread_eq_None_iff: "vread s a = None \<longleftrightarrow> walk s (vpn_of a) = None"
  by (simp add: vread_def split: option.split)

lemma add_within:
  assumes "x mod m + d < (m :: nat)"
  shows "(x + d) div m = x div m" and "(x + d) mod m = x mod m + d"
proof -
  have x: "m * (x div m) + x mod m = x" by (rule mult_div_mod_eq)
  show q: "(x + d) div m = x div m"
  proof (rule div_nat_eqI)
    show "m * (x div m) \<le> x + d" "x + d < m * Suc (x div m)"
      using x assms unfolding mult_Suc_right by linarith+
  qed
  have "m * ((x + d) div m) + (x + d) mod m = x + d" by (rule mult_div_mod_eq)
  then show "(x + d) mod m = x mod m + d"
    using x unfolding q by linarith
qed

text \<open>Addresses within the page of \<open>cur\<close>, from \<open>cur\<close> on.\<close>

lemma same_page:
  assumes "unat (OFF cur) + d \<le> 4096" "unat (a - cur) < d"
  shows "vpn_of a = vpn_of cur" and "unat (OFF a) = unat (OFF cur) + unat (a - cur)"
proof -
  have q: "unat cur = unat cur div 4096 * 4096 + unat cur mod 4096" by (simp only: div_mult_mod_eq)
  have "unat cur div 4096 \<le> 1048575"
    using vpn_of_less [of cur] by (simp add: vpn_of_def del: vpn_of_less)
  then have "unat cur div 4096 * 4096 \<le> 4294963200" by linarith
  then have "unat cur + unat (a - cur) < 4294967296"
    using assms q unfolding unat_OFF by linarith
  then have a: "unat a = unat cur + unat (a - cur)"
    using unat_word_ariths(1) [of cur "a - cur"] by simp
  show "vpn_of a = vpn_of cur" "unat (OFF a) = unat (OFF cur) + unat (a - cur)"
    using assms add_within [of "unat cur" 4096 "unat (a - cur)"]
    unfolding vpn_of_def unat_OFF a by simp_all
qed

lemma same_page_distance:
  assumes "vpn_of a = vpn_of cur" "unat (OFF cur) \<le> unat (OFF a)"
  shows "unat (a - cur) = unat (OFF a) - unat (OFF cur)"
proof -
  have "unat cur \<le> unat a"
    using assms by (simp add: vpn_of_def unat_OFF) (metis add_le_mono div_mult_mod_eq le_refl)
  then have "unat (a - cur) = unat a - unat cur"
    by (simp add: unat_sub word_le_nat_alt)
  also have "\<dots> = unat (OFF a) - unat (OFF cur)"
    using assms(1) by (simp add: vpn_of_def unat_OFF) (metis add_diff_cancel_left div_mult_mod_eq)
  finally show ?thesis .
qed

section \<open>One chunk\<close>

lemma frame_bytes_in_range:
  assumes "vm_inv s" "walk s v = Some p" "unat (OFF a) + n \<le> 4096"
  shows "in_phys s (unat p + unat (OFF a)) n"
  using used_frame_bounds [OF vm_frames(2) [OF assms(1,2)]] assms(3) vm_invD(1) [OF assms(1)]
  by (simp add: in_phys_def)

lemma load_bytes_vread:
  assumes w: "walk s (vpn_of cur) = Some p" and n: "unat (OFF cur) + n \<le> 4096" "k < n"
  shows "vread s (cur + of_nat k) = Some (load_bytes (phys_mem s) (unat p + unat (OFF cur)) n ! k)"
proof -
  have "unat (OFF cur) + n \<le> 4096" "unat (cur + of_nat k - cur) < n" "unat (of_nat k :: u32) = k"
    using n by (simp_all add: unat_of_nat)
  then show ?thesis
    using same_page [of cur n "cur + of_nat k"] w n(2) by (simp add: vread_def add.assoc)
qed

lemma store_chunk:
  assumes inv: "vm_inv s" and w: "walk s (vpn_of cur) = Some p"
    and n: "unat (OFF cur) + length bs \<le> 4096"
    and s': "s' = s\<lparr>phys_mem := store_bytes (phys_mem s) (unat p + unat (OFF cur)) bs\<rparr>"
  shows "vm_inv s'" and "walk s' = walk s"
    and "vread s' a = (if unat (a - cur) < length bs then Some (bs ! unat (a - cur)) else vread s a)"
proof -
  note D = vm_invD [OF inv]
  have p: "used_frame (bit_at (phys_bitmap s)) p" using vm_frames(2) [OF inv w] .
  have out: "phys_mem s' x = phys_mem s x" if "x < unat p \<or> unat p + 4096 \<le> x" for x
    using that n by (auto simp: s' mem_simps)
  have tab: "phys_mem s' x = phys_mem s x"
    if "i < 1024" "pde_of s i \<noteq> 0" "unat (pde_of s i) \<le> x" "x < unat (pde_of s i) + 4096" for i x
  proof -
    have "p \<noteq> pde_of s i" using frames_invD(8) [OF D(5) w] that(1) by metis
    then show ?thesis
      using table_frames_disjoint_data [OF D(5) w vm_frames(1) [OF inv that(1,2)]] that by (intro out) auto
  qed
  have low: "phys_mem s' x = phys_mem s x" if "x < 4096" for x
    using that used_frame_bounds [OF p] by (intro out) auto
  show W: "walk s' = walk s"
    by (rule tables_unchanged(1) [OF D(5)]) (fact low, fact tab)
  have P: "pde_of s' i = pde_of s i" if "i < 1024" for i
    by (rule tables_unchanged(2) [OF D(5) _ _ that]) (fact low, fact tab)
  have "frames_inv (pde_of s') (walk s) (bit_at (phys_bitmap s)) (bit_at (virt_bitmap s))"
    using D(5) by (simp add: frames_inv_def P)
  then show "vm_inv s'"
    using D W by (simp add: vm_inv_def) (simp add: s')
  show "vread s' a = (if unat (a - cur) < length bs then Some (bs ! unat (a - cur)) else vread s a)"
  proof (cases "unat (a - cur) < length bs")
    case True
    then show ?thesis
      using same_page [OF n True] w by (simp add: vread_def W) (simp add: s' mem_simps)
  next
    case False
    have "phys_mem s' (unat q + unat (OFF a)) = phys_mem s (unat q + unat (OFF a))"
      if q: "walk s (vpn_of a) = Some q" for q
    proof (cases "q = p")
      case True
      then have "vpn_of a = vpn_of cur" using frames_invD(7) [OF D(5) q] w by simp
      then have "unat (OFF a) < unat (OFF cur) \<or> unat (OFF cur) + length bs \<le> unat (OFF a)"
        using same_page_distance [of a cur] False by linarith
      then show ?thesis using True by (auto simp: s' mem_simps)
    next
      case False
      then show ?thesis
        using table_frames_disjoint_data [OF D(5) q p] unat_OFF_less [of a] by (intro out) auto
    qed
    then show ?thesis
      using False by (simp add: vread_def W split: option.split)
  qed
qed

lemma unat_diff_of_nat:
  fixes d :: u32
  assumes "n < 4294967296"
  shows "unat (d - of_nat n) = (if n \<le> unat d then unat d - n else 4294967296 + unat d - n)"
proof -
  have n: "unat (of_nat n :: u32) = n" using assms by (simp add: unat_of_nat)
  show ?thesis
    using unat_sub_if_size [of d "of_nat n"] n unat_u32_less [of d]
    by (simp add: word_size) linarith
qed

text \<open>The bytes of a range that starts \<open>n\<close> further on.\<close>

lemma range_split:
  fixes a cur :: u32
  assumes "n + m < 4294967296"
  shows "unat (a - (cur + of_nat n)) < m \<longleftrightarrow> n \<le> unat (a - cur) \<and> unat (a - cur) < n + m"
    and "unat (a - (cur + of_nat n)) < m \<Longrightarrow> n + unat (a - (cur + of_nat n)) = unat (a - cur)"
proof -
  have "a - (cur + of_nat n) = (a - cur) - of_nat n" by simp
  moreover have "n < 4294967296" using assms by simp
  ultimately have "unat (a - (cur + of_nat n)) = (if n \<le> unat (a - cur) then unat (a - cur) - n
      else 4294967296 + unat (a - cur) - n)"
    by (simp only: unat_diff_of_nat)
  then show "unat (a - (cur + of_nat n)) < m \<longleftrightarrow> n \<le> unat (a - cur) \<and> unat (a - cur) < n + m"
    and "unat (a - (cur + of_nat n)) < m \<Longrightarrow> n + unat (a - (cur + of_nat n)) = unat (a - cur)"
    using assms by (auto split: if_splits)
qed

section \<open>The copy loops\<close>

text \<open>
  \<open>m\<close> is the number of leading bytes of the range that are mapped: the loop copies exactly
  those and reports success exactly if they are all of it.
\<close>

definition mapped_prefix :: "vm \<Rightarrow> u32 \<Rightarrow> nat \<Rightarrow> nat \<Rightarrow> bool" where
  "mapped_prefix s va rem m \<longleftrightarrow> m \<le> rem \<and>
     (\<forall>k < m. walk s (vpn_of (va + of_nat k)) \<noteq> None) \<and>
     (m < rem \<longrightarrow> walk s (vpn_of (va + of_nat m)) = None)"

lemma mapped_prefix_unique:
  "mapped_prefix s va rem m \<Longrightarrow> mapped_prefix s va rem m' \<Longrightarrow> m = m'"
  unfolding mapped_prefix_def by (metis le_neq_implies_less less_le_trans linorder_neqE_nat)

lemma mapped_prefix_step:
  assumes "walk s (vpn_of cur) \<noteq> None" "unat (OFF cur) + n \<le> 4096" "n \<le> rem"
    "mapped_prefix s (cur + of_nat n) (rem - n) m"
  shows "mapped_prefix s cur rem (n + m)"
proof -
  have "walk s (vpn_of (cur + of_nat k)) \<noteq> None" if "k < n + m" for k
  proof (cases "k < n")
    case True
    then have "unat (cur + of_nat k - cur) < n"
      using assms(2) by (simp add: unat_of_nat)
    then show ?thesis using same_page(1) [OF assms(2), of "cur + of_nat k"] assms(1) by simp
  next
    case False
    then have "cur + of_nat k = cur + of_nat n + of_nat (k - n)" "k - n < m"
      using that by (simp_all add: of_nat_diff)
    then show ?thesis using assms(4) unfolding mapped_prefix_def by metis
  qed
  moreover have "walk s (vpn_of (cur + of_nat (n + m))) = None" if "n + m < rem"
  proof -
    have "cur + of_nat (n + m) = cur + of_nat n + of_nat m" by (simp only: of_nat_add add.assoc)
    moreover have "m < rem - n" using that by simp
    then have "walk s (vpn_of (cur + of_nat n + of_nat m)) = None"
      using assms(4) by (simp only: mapped_prefix_def)
    ultimately show ?thesis by (simp only:)
  qed
  moreover have "n + m \<le> rem" using assms(3,4) unfolding mapped_prefix_def by linarith
  ultimately show ?thesis unfolding mapped_prefix_def by blast
qed

lemma mapped_prefix_0: "0 < rem \<Longrightarrow> walk s (vpn_of cur) = None \<Longrightarrow> mapped_prefix s cur rem 0"
  by (simp add: mapped_prefix_def)

definition tlb_only :: "vm \<Rightarrow> vm \<Rightarrow> bool" where
  "tlb_only s s' \<longleftrightarrow> (\<exists>l c t. s' = s\<lparr>tlb_lookups := l, tlb_misses := c, tlb_store := t\<rparr>)"

lemma tlb_onlyD:
  assumes "tlb_only s s'"
  shows "walk s' = walk s" "vread s' = vread s" "phys_mem s' = phys_mem s"
    "phys_bitmap s' = phys_bitmap s" "virt_bitmap s' = virt_bitmap s"
  using assms by (auto simp: tlb_only_def)

lemma translate_u32:
  assumes inv: "vm_inv s"
  obtains
    (unmapped) s1 where "translate s (page_dir s) (U2VA cur) = Some (None, s1)"
      "walk s (vpn_of cur) = None" "vm_inv s1" "tlb_only s s1"
  | (mapped) s1 ref p where "translate s (page_dir s) (U2VA cur) = Some (Some ref, s1)"
      "walk s (vpn_of cur) = Some p" "deref_pte s1 ref = Some p" "vm_inv s1" "tlb_only s s1"
proof (rule translate_spec [OF inv, of "U2VA cur", unfolded VA2U_U2VA], goal_cases)
  case (1 r t l m)
  have only: "tlb_only s (s\<lparr>tlb_lookups := l, tlb_misses := m, tlb_store := t\<rparr>)"
    unfolding tlb_only_def by (intro exI) (rule refl)
  show thesis
  proof (cases "walk s (vpn_of cur)")
    case None
    then show thesis using 1(3) by (intro unmapped [OF _ None 1(4) only]) (simp add: 1(5))
  next
    case (Some p)
    then obtain ref where "r = Some ref"
      "deref_pte (s\<lparr>tlb_lookups := l, tlb_misses := m, tlb_store := t\<rparr>) ref = Some p"
      using 1(6) by blast
    then show thesis using 1(3) by (intro mapped [OF _ Some _ 1(4) only]) simp_all
  qed
qed

lemma put_loop_spec:
  assumes "vm_inv s" "rem < 4294967296"
  shows "\<exists>s' m. put_loop s cur val src rem = Some (if m = rem then 0 else - 1, s') \<and> vm_inv s' \<and>
    walk s' = walk s \<and> mapped_prefix s cur rem m \<and>
    (\<forall>a. vread s' a = (if unat (a - cur) < m then Some (val (src + unat (a - cur))) else vread s a))"
  using assms
proof (induction rem arbitrary: s cur src rule: less_induct)
  case (less rem)
  show ?case
  proof (cases "0 < rem")
    case False
    then show ?thesis
      using less.prems by (subst put_loop.simps) (auto simp: mapped_prefix_def)
  next
    case True
    let ?n = "copy_len cur rem"
    from less.prems(1) show ?thesis
    proof (cases rule: translate_u32 [of s cur, case_names unmapped mapped])
      case (unmapped s1)
      then show ?thesis
        using True mapped_prefix_0 [OF True unmapped(2)] tlb_onlyD [OF unmapped(4)]
        by (subst put_loop.simps) (auto intro!: exI [of _ "0 :: nat"])
    next
      case (mapped s1 ref p)
      note only = tlb_onlyD [OF mapped(5)]
      let ?bs = "load_bytes val src ?n"
      let ?s2 = "s1\<lparr>phys_mem := store_bytes (phys_mem s1) (unat p + unat (OFF cur)) ?bs\<rparr>"
      note n = copy_len_bounds(1) [OF True, of cur] copy_len_bounds(2,3) [of cur rem]
      have w1: "walk s1 (vpn_of cur) = Some p" using mapped(2) only by simp
      have "unat (OFF cur) + length ?bs \<le> 4096" using n by simp
      note S = store_chunk [OF mapped(4) w1 this refl]
      have "put_loop s cur val src rem
          = put_loop ?s2 (cur + of_nat ?n) val (src + ?n) (rem - ?n)"
        using True mapped(1,3) frame_bytes_in_range [OF mapped(4) w1 n(3)]
        by (subst put_loop.simps) (auto simp: memcpy_in_def Let_def)
      moreover
      have "rem - ?n < rem" "rem - ?n < 4294967296" using n less.prems(2) by simp_all
      note less.IH [OF this(1) S(1) this(2), of "cur + of_nat ?n" "src + ?n"]
      then obtain s' m where rest:
        "put_loop ?s2 (cur + of_nat ?n) val (src + ?n) (rem - ?n) = Some (if m = rem - ?n then 0 else - 1, s')"
        "vm_inv s'" "walk s' = walk ?s2" "mapped_prefix ?s2 (cur + of_nat ?n) (rem - ?n) m"
        "\<And>a. vread s' a = (if unat (a - (cur + of_nat ?n)) < m
           then Some (val (src + ?n + unat (a - (cur + of_nat ?n)))) else vread ?s2 a)"
        by blast
      moreover have m: "mapped_prefix s cur rem (?n + m)"
        using rest(4) n mapped(2) S(2) only(1) by (intro mapped_prefix_step) (auto simp: mapped_prefix_def)
      moreover have "vread s' a = (if unat (a - cur) < ?n + m then Some (val (src + unat (a - cur)))
          else vread s a)" for a
      proof -
        have "?n + m < 4294967296" using m less.prems(2) by (simp add: mapped_prefix_def)
        note split = range_split [OF this, of a cur]
        show ?thesis
          using split S(3) [of a] n only(2) by (simp add: rest(5) add.assoc)
      qed
      ultimately show ?thesis
        using S(2) n only(1) by (intro exI [of _ s'] exI [of _ "?n + m"]) auto
    qed
  qed
qed

lemma tlb_only_refl: "tlb_only s s"
  unfolding tlb_only_def by (intro exI [of _ "tlb_lookups s"] exI [of _ "tlb_misses s"] exI [of _ "tlb_store s"]) simp

lemma tlb_only_trans: "tlb_only s s1 \<Longrightarrow> tlb_only s1 s2 \<Longrightarrow> tlb_only s s2"
  unfolding tlb_only_def by (elim exE, simp) (intro exI, rule refl)

lemma get_loop_spec:
  assumes "vm_inv s" "rem < 4294967296"
  shows "\<exists>buf s' m. get_loop s cur val dst rem = Some (buf, s') \<and> vm_inv s' \<and> tlb_only s s' \<and>
    mapped_prefix s cur rem m \<and>
    (\<forall>x. buf x = (if dst \<le> x \<and> x < dst + m then the (vread s (cur + of_nat (x - dst))) else val x))"
  using assms
proof (induction rem arbitrary: s cur val dst rule: less_induct)
  case (less rem)
  show ?case
  proof (cases "0 < rem")
    case False
    then show ?thesis
      using less.prems by (subst get_loop.simps) (auto simp: mapped_prefix_def tlb_only_refl)
  next
    case True
    let ?n = "copy_len cur rem"
    from less.prems(1) show ?thesis
    proof (cases rule: translate_u32 [of s cur, case_names unmapped mapped])
      case (unmapped s1)
      then show ?thesis
        using True mapped_prefix_0 [OF True unmapped(2)]
        by (subst get_loop.simps) (auto intro!: exI [of _ "0 :: nat"])
    next
      case (mapped s1 ref p)
      note only = tlb_onlyD [OF mapped(5)]
      let ?bs = "load_bytes (phys_mem s1) (unat p + unat (OFF cur)) ?n"
      note n = copy_len_bounds(1) [OF True, of cur] copy_len_bounds(2,3) [of cur rem]
      have w1: "walk s1 (vpn_of cur) = Some p" using mapped(2) only by simp
      have run: "get_loop s cur val dst rem
          = get_loop s1 (cur + of_nat ?n) (store_bytes val dst ?bs) (dst + ?n) (rem - ?n)"
        using True mapped(1,3) frame_bytes_in_range [OF mapped(4) w1 n(3)]
        by (subst get_loop.simps) (auto simp: memcpy_out_def Let_def)
      have "rem - ?n < rem" "rem - ?n < 4294967296" using n less.prems(2) by simp_all
      note less.IH [OF this(1) mapped(4) this(2), of "cur + of_nat ?n" "store_bytes val dst ?bs" "dst + ?n"]
      then obtain buf s' m where rest:
        "get_loop s1 (cur + of_nat ?n) (store_bytes val dst ?bs) (dst + ?n) (rem - ?n) = Some (buf, s')"
        "vm_inv s'" "tlb_only s1 s'" "mapped_prefix s1 (cur + of_nat ?n) (rem - ?n) m"
        "\<And>x. buf x = (if dst + ?n \<le> x \<and> x < dst + ?n + m
           then the (vread s1 (cur + of_nat ?n + of_nat (x - (dst + ?n)))) else store_bytes val dst ?bs x)"
        by blast
      have m: "mapped_prefix s cur rem (?n + m)"
        using rest(4) n mapped(2) only(1) by (intro mapped_prefix_step) (auto simp: mapped_prefix_def)
      have "buf x = (if dst \<le> x \<and> x < dst + (?n + m) then the (vread s (cur + of_nat (x - dst))) else val x)"
        for x
      proof -
        have late: "cur + of_nat ?n + of_nat (x - (dst + ?n)) = cur + of_nat (x - dst)" if "dst + ?n \<le> x"
          using that by (simp only: add.assoc flip: of_nat_add) simp
        have early: "vread s (cur + of_nat (x - dst)) = Some (?bs ! (x - dst))" if "dst \<le> x" "x < dst + ?n"
          using load_bytes_vread [OF w1 n(3), of "x - dst"] that only(2) by simp
        show ?thesis
          using late early only(2) by (auto simp: rest(5) mem_simps)
      qed
      then show ?thesis
        using run rest(1,2) tlb_only_trans [OF mapped(5) rest(3)] m
        by (intro exI [of _ buf] exI [of _ s'] exI [of _ "?n + m"]) (simp add: fun_eq_iff)
    qed
  qed
qed

section \<open>put\_data and get\_data\<close>

text \<open>All bytes of the range are mapped.\<close>

definition range_mapped :: "vm \<Rightarrow> u32 \<Rightarrow> nat \<Rightarrow> bool" where
  "range_mapped s va n \<longleftrightarrow> (\<forall>k < n. walk s (vpn_of (va + of_nat k)) \<noteq> None)"

lemma mapped_prefix_full: "mapped_prefix s va n m \<Longrightarrow> range_mapped s va n \<Longrightarrow> m = n"
  unfolding mapped_prefix_def range_mapped_def by (metis le_neq_implies_less)

lemma mapped_prefix_partial: "mapped_prefix s va n m \<Longrightarrow> \<not> range_mapped s va n \<Longrightarrow> m \<noteq> n"
  unfolding mapped_prefix_def range_mapped_def by blast

lemma put_data_spec:
  assumes inv: "vm_inv s" and n: "0 < n" "n < 2147483648"
  obtains s' m where "put_data s va (Some buf) (int n) =
      Some (if range_mapped s (VA2U va) n then 0 else - 1, s')"
    "vm_inv s'" "walk s' = walk s" "mapped_prefix s (VA2U va) n m"
    "\<And>a. vread s' a = (if unat (a - VA2U va) < m then Some (buf (unat (a - VA2U va))) else vread s a)"
proof -
  obtain s' m where L: "put_loop s (VA2U va) buf 0 n = Some (if m = n then 0 else - 1, s')" "vm_inv s'"
    "walk s' = walk s" "mapped_prefix s (VA2U va) n m"
    "\<And>a. vread s' a = (if unat (a - VA2U va) < m then Some (buf (0 + unat (a - VA2U va))) else vread s a)"
    using put_loop_spec [OF inv, of n "VA2U va" buf 0] n by auto
  then have "m = n \<longleftrightarrow> range_mapped s (VA2U va) n"
    using mapped_prefix_full mapped_prefix_partial by blast
  with L n show thesis
    using that [of s' m] by (simp add: put_data_def)
qed

lemma get_data_spec:
  assumes inv: "vm_inv s" and n: "0 < n" "n < 2147483648"
  obtains buf' s' m where "get_data s va (Some buf) (int n) = Some (Some buf', s')" "vm_inv s'"
    "tlb_only s s'" "mapped_prefix s (VA2U va) n m"
    "\<And>x. buf' x = (if x < m then the (vread s (VA2U va + of_nat x)) else buf x)"
proof -
  obtain buf' s' m where "get_loop s (VA2U va) buf 0 n = Some (buf', s')" "vm_inv s'" "tlb_only s s'"
    "mapped_prefix s (VA2U va) n m"
    "\<And>x. buf' x = (if 0 \<le> x \<and> x < 0 + m then the (vread s (VA2U va + of_nat (x - 0))) else buf x)"
    using get_loop_spec [OF inv, of n "VA2U va" buf 0] n by auto
  then show thesis
    using n by (intro that [of buf' s' m]) (auto simp: get_data_def)
qed

end
