(* ===== verification/VM_Matrix.thy ===== *)
theory VM_Matrix
  imports VM_Data
begin

text \<open>
  \<open>mat_mult\<close>: matrices of 32-bit integers in virtual memory, read and written only through
  \<open>get_data\<close> and \<open>put_data\<close>. The locals \<open>a\<close> and \<open>b\<close> are not initialised by the code: their
  bytes on entry are parameters. The index \<open>i * size + k\<close> is a signed \<open>int\<close>; an overflow is
  undefined behaviour, here \<open>None\<close>.
\<close>

section \<open>Operations\<close>

definition mat_index :: "nat \<Rightarrow> nat \<Rightarrow> nat \<Rightarrow> nat option" where
  "mat_index i n k = (if i * n + k < 2147483648 then Some (i * n + k) else None)"

definition add_offset32 :: "ptr \<Rightarrow> u64 \<Rightarrow> u32" where
  "add_offset32 base_va off_bytes = VA2U base_va + ucast off_bytes"

function mat_inner ::
  "vm \<Rightarrow> ptr \<Rightarrow> ptr \<Rightarrow> nat \<Rightarrow> nat \<Rightarrow> nat \<Rightarrow> nat \<Rightarrow> u32 \<Rightarrow> mem \<Rightarrow> mem \<Rightarrow> (u32 \<times> mem \<times> mem \<times> vm) option" where
  "mat_inner s mat1 mat2 n i j k c a b =
     (if k < n then
        do { idx1 \<leftarrow> mat_index i n k;
             idx2 \<leftarrow> mat_index k n j;
             (pa, s1) \<leftarrow> get_data s (U2VA (add_offset32 mat1 (of_nat idx1 * 4))) (Some a) 4;
             a' \<leftarrow> pa;
             (pb, s2) \<leftarrow> get_data s1 (U2VA (add_offset32 mat2 (of_nat idx2 * 4))) (Some b) 4;
             b' \<leftarrow> pb;
             mat_inner s2 mat1 mat2 n i j (Suc k) (c + load32 a' 0 * load32 b' 0) a' b' }
      else Some (c, a, b, s))"
  by pat_completeness auto
termination
  by (relation "measure (\<lambda>(s, m1, m2, n, i, j, k, c, a, b). n - k)") auto

declare mat_inner.simps [simp del]

function mat_cols ::
  "vm \<Rightarrow> ptr \<Rightarrow> ptr \<Rightarrow> nat \<Rightarrow> ptr \<Rightarrow> nat \<Rightarrow> nat \<Rightarrow> mem \<Rightarrow> mem \<Rightarrow> (mem \<times> mem \<times> vm) option" where
  "mat_cols s mat1 mat2 n answer i j a b =
     (if j < n then
        do { (c, a', b', s1) \<leftarrow> mat_inner s mat1 mat2 n i j 0 0 a b;
             idx \<leftarrow> mat_index i n j;
             (r, s2) \<leftarrow> put_data s1 (U2VA (VA2U answer + of_nat idx * 4))
                          (Some (store32 (\<lambda>_. 0) 0 c)) 4;
             mat_cols s2 mat1 mat2 n answer i (Suc j) a' b' }
      else Some (a, b, s))"
  by pat_completeness auto
termination
  by (relation "measure (\<lambda>(s, m1, m2, n, ans, i, j, a, b). n - j)") auto

declare mat_cols.simps [simp del]

function mat_rows ::
  "vm \<Rightarrow> ptr \<Rightarrow> ptr \<Rightarrow> nat \<Rightarrow> ptr \<Rightarrow> nat \<Rightarrow> mem \<Rightarrow> mem \<Rightarrow> vm option" where
  "mat_rows s mat1 mat2 n answer i a b =
     (if i < n then
        do { (a', b', s') \<leftarrow> mat_cols s mat1 mat2 n answer i 0 a b;
             mat_rows s' mat1 mat2 n answer (Suc i) a' b' }
      else Some s)"
  by pat_completeness auto
termination
  by (relation "measure (\<lambda>(s, m1, m2, n, ans, i, a, b). n - i)") auto

declare mat_rows.simps [simp del]

definition mat_mult :: "mem \<Rightarrow> mem \<Rightarrow> vm \<Rightarrow> ptr \<Rightarrow> ptr \<Rightarrow> int \<Rightarrow> ptr \<Rightarrow> vm option" where
  "mat_mult a0 b0 s mat1 mat2 sz answer = mat_rows s mat1 mat2 (nat sz) answer 0 a0 b0"

section \<open>Words in the virtual memory\<close>

definition vload32 :: "vm \<Rightarrow> u32 \<Rightarrow> u32" where
  "vload32 s a = le_word (map (\<lambda>k. the (vread s (a + of_nat k))) [0..<4])"

definition elem :: "vm \<Rightarrow> ptr \<Rightarrow> nat \<Rightarrow> u32" where
  "elem s m e = vload32 s (VA2U m + of_nat e * 4)"

definition dot :: "vm \<Rightarrow> ptr \<Rightarrow> ptr \<Rightarrow> nat \<Rightarrow> nat \<Rightarrow> nat \<Rightarrow> nat \<Rightarrow> u32" where
  "dot s m1 m2 n i j K = (\<Sum>k < K. elem s m1 (i * n + k) * elem s m2 (k * n + j))"

lemma elem_cong: "vread s' = vread s \<Longrightarrow> elem s' = elem s"
  by (simp add: elem_def vload32_def fun_eq_iff)

lemma dot_cong: "vread s' = vread s \<Longrightarrow> dot s' = dot s"
  using elem_cong [of s' s] by (simp add: dot_def fun_eq_iff)

lemma add_offset32_index: "add_offset32 base (of_nat e * 4) = VA2U base + of_nat e * 4"
proof -
  have "(ucast (of_nat e * 4 :: u64) :: u32) = ucast (of_nat (e * 4) :: u64)" by simp
  also have "\<dots> = of_nat (e * 4)"
    by (simp add: unsigned_of_nat word_of_nat_eq_iff del: of_nat_mult)
  finally show ?thesis by (simp add: add_offset32_def)
qed

definition mat_mapped :: "vm \<Rightarrow> ptr \<Rightarrow> nat \<Rightarrow> bool" where
  "mat_mapped s m n \<longleftrightarrow> range_mapped s (VA2U m) (4 * (n * n))"

lemma elem_mapped:
  assumes "mat_mapped s m n" "e < n * n"
  shows "range_mapped s (VA2U m + of_nat e * 4) 4"
  unfolding range_mapped_def
proof (intro allI impI)
  fix k :: nat assume "k < 4"
  then have "4 * e + k < 4 * (n * n)" using assms(2) by simp
  then have "walk s (vpn_of (VA2U m + of_nat (4 * e + k))) \<noteq> None"
    using assms(1) unfolding mat_mapped_def range_mapped_def by blast
  moreover have "VA2U m + of_nat (4 * e + k) = VA2U m + of_nat e * 4 + of_nat k"
    by (simp add: mult.commute)
  ultimately show "walk s (vpn_of (VA2U m + of_nat e * 4 + of_nat k)) \<noteq> None" by (simp only:) simp
qed

lemma get_elem:
  assumes inv: "vm_inv s" and m: "mat_mapped s m n" "e < n * n"
  obtains buf s' where
    "get_data s (U2VA (add_offset32 m (of_nat e * 4))) (Some a) 4 = Some (Some buf, s')"
    "vm_inv s'" "tlb_only s s'" "load32 buf 0 = elem s m e"
proof -
  have *: "0 < (4::nat)" "(4::nat) < 2147483648" by simp_all
  obtain buf s' k where G:
    "get_data s (U2VA (VA2U m + of_nat e * 4)) (Some a) (int 4) = Some (Some buf, s')" "vm_inv s'"
    "tlb_only s s'" "mapped_prefix s (VA2U m + of_nat e * 4) 4 k"
    "\<And>x. buf x = (if x < k then the (vread s (VA2U m + of_nat e * 4 + of_nat x)) else a x)"
    using get_data_spec [OF inv *, of "U2VA (VA2U m + of_nat e * 4)" a] unfolding VA2U_U2VA by metis
  then have "k = 4" using elem_mapped [OF m] mapped_prefix_full by blast
  then have "load_bytes buf 0 4 = map (\<lambda>k. the (vread s (VA2U m + of_nat e * 4 + of_nat k))) [0..<4]"
    by (intro nth_equalityI) (simp_all add: G(5))
  then show thesis
    using that [of buf s'] G(1-3) by (simp add: add_offset32_index load32_def elem_def vload32_def)
qed

section \<open>The inner loop computes a dot product\<close>

lemma index_bound: "i < n \<Longrightarrow> k < (n :: nat) \<Longrightarrow> i * n + k < n * n"
proof -
  assume "i < n" "k < n"
  then have "i * n + k < Suc i * n" "Suc i * n \<le> n * n" by (simp, intro mult_le_mono1, simp)
  then show ?thesis by linarith
qed

lemma mat_index_Some: "i < n \<Longrightarrow> k < n \<Longrightarrow> n * n < 1073741824 \<Longrightarrow> mat_index i n k = Some (i * n + k)"
  using index_bound [of i n k] by (simp add: mat_index_def)

lemma mat_mapped_cong: "walk s' = walk s \<Longrightarrow> mat_mapped s' m n = mat_mapped s m n"
  by (simp add: mat_mapped_def range_mapped_def)

lemma mat_inner_spec:
  assumes "vm_inv s" "mat_mapped s m1 n" "mat_mapped s m2 n" "n * n < 1073741824" "i < n" "j < n" "k \<le> n"
    "c = dot s m1 m2 n i j k"
  shows "\<exists>a' b' s'. mat_inner s m1 m2 n i j k c a b = Some (dot s m1 m2 n i j n, a', b', s') \<and>
    vm_inv s' \<and> tlb_only s s'"
  using assms
proof (induction "n - k" arbitrary: s k c a b)
  case 0
  then show ?case
    by (subst mat_inner.simps) (simp add: tlb_only_refl)
next
  case (Suc x)
  then have k: "k < n" by simp
  have e1: "i * n + k < n * n" and e2: "k * n + j < n * n"
    using index_bound Suc.prems k by auto
  obtain a' s1 where A: "get_data s (U2VA (add_offset32 m1 (of_nat (i * n + k) * 4))) (Some a) 4 = Some (Some a', s1)"
    "vm_inv s1" "tlb_only s s1" "load32 a' 0 = elem s m1 (i * n + k)"
    by (rule get_elem [OF Suc.prems(1,2) e1])
  note v1 = tlb_onlyD [OF A(3)]
  have "mat_mapped s1 m2 n" using Suc.prems(3) mat_mapped_cong [OF v1(1)] by simp
  with A(2) obtain b' s2 where B:
    "get_data s1 (U2VA (add_offset32 m2 (of_nat (k * n + j) * 4))) (Some b) 4 = Some (Some b', s2)"
    "vm_inv s2" "tlb_only s1 s2" "load32 b' 0 = elem s1 m2 (k * n + j)"
    using e2 by (rule get_elem)
  note v2 = tlb_onlyD [OF tlb_only_trans [OF A(3) B(3)]]
  let ?c = "c + elem s m1 (i * n + k) * elem s m2 (k * n + j)"
  have "?c = dot s2 m1 m2 n i j (Suc k)"
    unfolding Suc.prems(8) dot_cong [OF v2(2)] by (simp add: dot_def)
  then have "\<exists>a'' b'' s'. mat_inner s2 m1 m2 n i j (Suc k) ?c a' b' = Some (dot s2 m1 m2 n i j n, a'', b'', s') \<and>
      vm_inv s' \<and> tlb_only s2 s'"
    using Suc.hyps(2) B(2) Suc.prems k mat_mapped_cong [OF v2(1)]
    by (intro Suc.hyps(1)) auto
  moreover have "mat_inner s m1 m2 n i j k c a b = mat_inner s2 m1 m2 n i j (Suc k) ?c a' b'"
    using k A B elem_cong [OF v1(2)] Suc.prems(4-6)
    by (subst mat_inner.simps) (simp add: mat_index_Some)
  ultimately show ?case
    using dot_cong [OF v2(2)] tlb_only_trans [OF tlb_only_trans [OF A(3) B(3)]] by auto
qed

section \<open>The answer, element by element\<close>

text \<open>
  \<open>upto_elem s0 s ans R e\<close>: the state \<open>s\<close> is \<open>s0\<close> with the first \<open>e\<close> elements of the answer
  written, element \<open>x\<close> being \<open>R x\<close>, and every other byte of the virtual memory as in \<open>s0\<close>.
\<close>

definition upto_elem :: "vm \<Rightarrow> vm \<Rightarrow> ptr \<Rightarrow> (nat \<Rightarrow> u32) \<Rightarrow> nat \<Rightarrow> bool" where
  "upto_elem s0 s ans R e \<longleftrightarrow> vm_inv s \<and> walk s = walk s0 \<and>
     (\<forall>a. vread s a = (if unat (a - VA2U ans) < 4 * e
        then Some (le_bytes 4 (R (unat (a - VA2U ans) div 4)) ! (unat (a - VA2U ans) mod 4))
        else vread s0 a))"

lemma upto_elemD:
  assumes "upto_elem s0 s ans R e"
  shows "vm_inv s" "walk s = walk s0"
    "unat (a - VA2U ans) < 4 * e \<Longrightarrow>
       vread s a = Some (le_bytes 4 (R (unat (a - VA2U ans) div 4)) ! (unat (a - VA2U ans) mod 4))"
    "\<not> unat (a - VA2U ans) < 4 * e \<Longrightarrow> vread s a = vread s0 a"
  using assms by (simp_all add: upto_elem_def)

lemma upto_elem_0: "vm_inv s \<Longrightarrow> upto_elem s s ans R 0"
  by (simp add: upto_elem_def)

lemma upto_elem_tlb: "upto_elem s0 s ans R e \<Longrightarrow> vm_inv s' \<Longrightarrow> tlb_only s s' \<Longrightarrow> upto_elem s0 s' ans R e"
  by (simp add: upto_elem_def tlb_onlyD)

lemma div_mod_4:
  assumes "4 * e \<le> x" "x < 4 * e + (4 :: nat)"
  shows "x div 4 = e" "x mod 4 = x - 4 * e"
proof -
  show q: "x div 4 = e" by (rule div_nat_eqI) (use assms in auto)
  show "x mod 4 = x - 4 * e" using minus_mult_div_eq_mod [of x 4] by (simp add: q)
qed

lemma put_elem:
  assumes inv: "vm_inv s" and m: "mat_mapped s ans n" "e < n * n" and n: "4 * (n * n) < 4294967296"
    and U: "upto_elem s0 s ans R e" and c: "c = R e"
  obtains s' where "put_data s (U2VA (VA2U ans + of_nat e * 4)) (Some (store32 (\<lambda>_. 0) 0 c)) 4 = Some (0, s')"
    "upto_elem s0 s' ans R (Suc e)"
proof -
  let ?a = "VA2U ans + of_nat e * 4" and ?buf = "store32 (\<lambda>_. 0) 0 c"
  have *: "0 < (4::nat)" "(4::nat) < 2147483648" by simp_all
  have full: "range_mapped s ?a 4" using elem_mapped [OF m] .
  obtain s' k where P: "put_data s (U2VA ?a) (Some ?buf) (int 4) = Some (if range_mapped s ?a 4 then 0 else - 1, s')"
    "vm_inv s'" "walk s' = walk s" "mapped_prefix s ?a 4 k"
    "\<And>a. vread s' a = (if unat (a - ?a) < k then Some (?buf (unat (a - ?a))) else vread s a)"
    using put_data_spec [OF inv *, of "U2VA ?a" ?buf] unfolding VA2U_U2VA by metis
  have k: "k = 4" using P(4) full mapped_prefix_full by blast
  have "vread s' a = (if unat (a - VA2U ans) < 4 * Suc e
      then Some (le_bytes 4 (R (unat (a - VA2U ans) div 4)) ! (unat (a - VA2U ans) mod 4)) else vread s0 a)" for a
  proof -
    have a: "?a = VA2U ans + of_nat (4 * e)" by (simp add: mult.commute)
    have "4 * e + 4 < 4294967296 \<or> 4 * e + 4 = 4 * (n * n)" using m(2) n by linarith
    then have "4 * e + 4 < 4294967296" using n by linarith
    note RS = range_split [OF this, of a "VA2U ans", folded a]
    show ?thesis
    proof (cases "unat (a - ?a) < 4")
      case True
      then have x: "4 * e \<le> unat (a - VA2U ans)" "unat (a - VA2U ans) < 4 * e + 4"
          "unat (a - ?a) = unat (a - VA2U ans) - 4 * e"
        using RS by auto
      have "vread s' a = Some (le_bytes 4 c ! unat (a - ?a))"
        using True by (simp add: P(5) k store32_def mem_simps del: le_bytes.simps)
      then show ?thesis
        using x div_mod_4 [OF x(1,2)] c by simp
    next
      case False
      then have "vread s' a = vread s a" by (simp add: P(5) k)
      moreover have "unat (a - VA2U ans) < 4 * Suc e \<longleftrightarrow> unat (a - VA2U ans) < 4 * e"
        using False RS(1) by auto
      ultimately show ?thesis
        using upto_elemD(3,4) [OF U, of a] by simp
    qed
  qed
  then have "upto_elem s0 s' ans R (Suc e)"
    using P(2,3) upto_elemD(2) [OF U] by (simp add: upto_elem_def)
  then show thesis
    using that [of s'] P(1) full by simp
qed

text \<open>An operand that does not overlap the answer reads the same throughout.\<close>

definition mat_disjoint :: "ptr \<Rightarrow> ptr \<Rightarrow> nat \<Rightarrow> bool" where
  "mat_disjoint m ans n \<longleftrightarrow>
     (\<forall>a. unat (a - VA2U m) < 4 * (n * n) \<longrightarrow> \<not> unat (a - VA2U ans) < 4 * (n * n))"

lemma elem_upto:
  assumes U: "upto_elem s0 s ans R e" and dis: "mat_disjoint m ans n"
    and e: "e \<le> n * n" "x < n * n" and n: "4 * (n * n) < 4294967296"
  shows "elem s m x = elem s0 m x"
proof -
  have "vread s (VA2U m + of_nat x * 4 + of_nat k) = vread s0 (VA2U m + of_nat x * 4 + of_nat k)"
    if "k < 4" for k
  proof -
    have lt: "x * 4 + k < 4 * (n * n)" using that e(2) by simp
    have "VA2U m + of_nat x * 4 + of_nat k - VA2U m = of_nat (x * 4 + k)" by simp
    then have "unat (VA2U m + of_nat x * 4 + of_nat k - VA2U m) = x * 4 + k"
      using lt n by (simp only: unat_of_nat) simp
    then have "\<not> unat (VA2U m + of_nat x * 4 + of_nat k - VA2U ans) < 4 * (n * n)"
      using dis lt unfolding mat_disjoint_def by metis
    then have "\<not> unat (VA2U m + of_nat x * 4 + of_nat k - VA2U ans) < 4 * e"
      using e(1) by linarith
    then show ?thesis by (rule upto_elemD(4) [OF U])
  qed
  then show ?thesis
    unfolding elem_def vload32_def by (intro arg_cong [of _ _ le_word] map_cong) auto
qed

lemma dot_upto:
  assumes "upto_elem s0 s ans R e" "mat_disjoint m1 ans n" "mat_disjoint m2 ans n"
    and "e \<le> n * n" "i < n" "j < n" "4 * (n * n) < 4294967296"
  shows "dot s m1 m2 n i j n = dot s0 m1 m2 n i j n"
  unfolding dot_def using assms
  by (intro sum.cong refl arg_cong2 [of _ _ _ _ times] elem_upto) (auto intro: index_bound)

section \<open>The outer loops\<close>

text \<open>What \<open>mat_mult\<close> needs: square matrices that fit, mapped, the operands apart from the answer.\<close>

definition mat_ready :: "vm \<Rightarrow> ptr \<Rightarrow> ptr \<Rightarrow> ptr \<Rightarrow> nat \<Rightarrow> bool" where
  "mat_ready s m1 m2 ans n \<longleftrightarrow> vm_inv s \<and> 4 * (n * n) < 4294967296 \<and>
     mat_mapped s m1 n \<and> mat_mapped s m2 n \<and> mat_mapped s ans n \<and>
     mat_disjoint m1 ans n \<and> mat_disjoint m2 ans n"

definition product :: "vm \<Rightarrow> ptr \<Rightarrow> ptr \<Rightarrow> nat \<Rightarrow> nat \<Rightarrow> u32" where
  "product s m1 m2 n e = dot s m1 m2 n (e div n) (e mod n) n"

lemma product_index: "j < n \<Longrightarrow> product s m1 m2 n (i * n + j) = dot s m1 m2 n i j n"
  by (simp add: product_def)

lemma mat_cols_spec:
  assumes ready: "mat_ready s0 m1 m2 ans n" and i: "i < n"
  shows "j \<le> n \<Longrightarrow> upto_elem s0 s ans (product s0 m1 m2 n) (i * n + j) \<Longrightarrow>
    \<exists>a' b' s'. mat_cols s m1 m2 n ans i j a b = Some (a', b', s') \<and>
      upto_elem s0 s' ans (product s0 m1 m2 n) (Suc i * n)"
proof (induction "n - j" arbitrary: s j a b)
  case 0
  then show ?case
    by (subst mat_cols.simps) (simp add: add.commute)
next
  case (Suc x)
  note U = Suc.prems(2)
  have j: "j < n" using Suc.hyps(2) by simp
  have R: "4 * (n * n) < 4294967296" "mat_mapped s0 m1 n" "mat_mapped s0 m2 n" "mat_mapped s0 ans n"
    "mat_disjoint m1 ans n" "mat_disjoint m2 ans n"
    using ready by (simp_all add: mat_ready_def)
  note e = index_bound [OF i j]
  note M = mat_mapped_cong [OF upto_elemD(2) [OF U]]
  have "\<exists>a' b' s1. mat_inner s m1 m2 n i j 0 0 a b = Some (dot s m1 m2 n i j n, a', b', s1) \<and>
      vm_inv s1 \<and> tlb_only s s1"
    using upto_elemD(1) [OF U] R M i j by (intro mat_inner_spec) (auto simp: dot_def)
  then obtain a' b' s1 where I: "mat_inner s m1 m2 n i j 0 0 a b = Some (dot s m1 m2 n i j n, a', b', s1)"
    "vm_inv s1" "tlb_only s s1" by blast
  have U1: "upto_elem s0 s1 ans (product s0 m1 m2 n) (i * n + j)"
    by (rule upto_elem_tlb [OF U I(2,3)])
  have D: "dot s m1 m2 n i j n = product s0 m1 m2 n (i * n + j)"
    using dot_upto [OF U R(5,6) _ i j R(1)] e j by (simp add: product_index)
  have "mat_mapped s1 ans n" using R(4) mat_mapped_cong [OF upto_elemD(2) [OF U1]] by simp
  from I(2) this e R(1) U1 D obtain s2 where P:
    "put_data s1 (U2VA (VA2U ans + of_nat (i * n + j) * 4)) (Some (store32 (\<lambda>_. 0) 0 (dot s m1 m2 n i j n))) 4 = Some (0, s2)"
    "upto_elem s0 s2 ans (product s0 m1 m2 n) (Suc (i * n + j))"
    by (rule put_elem)
  have "mat_cols s m1 m2 n ans i j a b = mat_cols s2 m1 m2 n ans i (Suc j) a' b'"
    using j I(1) P(1) i R(1) by (subst mat_cols.simps) (simp add: mat_index_Some)
  moreover have "\<exists>a'' b'' s'. mat_cols s2 m1 m2 n ans i (Suc j) a' b' = Some (a'', b'', s') \<and>
      upto_elem s0 s' ans (product s0 m1 m2 n) (Suc i * n)"
    using Suc.hyps(2) j P(2) by (intro Suc.hyps(1)) auto
  ultimately show ?case by simp
qed

lemma mat_rows_spec:
  assumes ready: "mat_ready s0 m1 m2 ans n"
  shows "i \<le> n \<Longrightarrow> upto_elem s0 s ans (product s0 m1 m2 n) (i * n) \<Longrightarrow>
    \<exists>s'. mat_rows s m1 m2 n ans i a b = Some s' \<and> upto_elem s0 s' ans (product s0 m1 m2 n) (n * n)"
proof (induction "n - i" arbitrary: s i a b)
  case 0
  then show ?case by (subst mat_rows.simps) simp
next
  case (Suc x)
  then have i: "i < n" by simp
  from mat_cols_spec [OF ready i, of 0 s a b] Suc.prems(2)
  obtain a' b' s1 where C: "mat_cols s m1 m2 n ans i 0 a b = Some (a', b', s1)"
    "upto_elem s0 s1 ans (product s0 m1 m2 n) (Suc i * n)" by auto
  have "\<exists>s'. mat_rows s1 m1 m2 n ans (Suc i) a' b' = Some s' \<and> upto_elem s0 s' ans (product s0 m1 m2 n) (n * n)"
    using Suc.hyps(2) i C(2) by (intro Suc.hyps(1)) auto
  then show ?case
    using i C(1) by (subst mat_rows.simps) simp
qed

lemma elem_answer:
  assumes U: "upto_elem s0 s ans R (n * n)" and e: "e < n * n" and n: "4 * (n * n) < 4294967296"
  shows "elem s ans e = R e"
proof -
  have "the (vread s (VA2U ans + of_nat e * 4 + of_nat k)) = le_bytes 4 (R e) ! k" if k: "k < 4" for k
  proof -
    have lt: "e * 4 + k < 4 * (n * n)" using k e by simp
    have "VA2U ans + of_nat e * 4 + of_nat k - VA2U ans = of_nat (e * 4 + k)" by simp
    then have "unat (VA2U ans + of_nat e * 4 + of_nat k - VA2U ans) = e * 4 + k"
      using lt n by (simp only: unat_of_nat) simp
    then show ?thesis
      using upto_elemD(3) [OF U, of "VA2U ans + of_nat e * 4 + of_nat k"] lt k div_mod_4 [of e "e * 4 + k"]
      by (simp del: le_bytes.simps)
  qed
  then have "map (\<lambda>k. the (vread s (VA2U ans + of_nat e * 4 + of_nat k))) [0..<4] = le_bytes 4 (R e)"
    by (intro nth_equalityI) (simp_all del: le_bytes.simps)
  then show ?thesis
    by (simp add: elem_def vload32_def le_word_le_bytes_full del: upt_Suc le_bytes.simps)
qed

lemma mat_mult_spec:
  assumes ready: "mat_ready s m1 m2 ans n"
  obtains s' where "mat_mult a0 b0 s m1 m2 (int n) ans = Some s'" "vm_inv s'" "walk s' = walk s"
    "\<And>i j. i < n \<Longrightarrow> j < n \<Longrightarrow> elem s' ans (i * n + j) = dot s m1 m2 n i j n"
    "\<And>a. \<not> unat (a - VA2U ans) < 4 * (n * n) \<Longrightarrow> vread s' a = vread s a"
proof -
  have inv: "vm_inv s" and n: "4 * (n * n) < 4294967296" using ready by (simp_all add: mat_ready_def)
  obtain s' where R: "mat_rows s m1 m2 n ans 0 a0 b0 = Some s'"
    "upto_elem s s' ans (product s m1 m2 n) (n * n)"
    using mat_rows_spec [OF ready, of 0 s a0 b0] upto_elem_0 [OF inv] by auto
  have "elem s' ans (i * n + j) = dot s m1 m2 n i j n" if "i < n" "j < n" for i j
    using elem_answer [OF R(2) index_bound [OF that] n] that by (simp add: product_index)
  with R(1) upto_elemD [OF R(2)] show thesis
    using that [of s'] by (simp add: mat_mult_def)
qed

end
