(* ===== verification/VM_Properties.thy ===== *)
theory VM_Properties
  imports VM_Matrix
begin

text \<open>
  The properties of the virtual memory library, each over the whole operations of
  \<open>my_vm.c\<close>, with the concrete machine on which the hypotheses are discharged: a fresh machine
  after one \<open>n_malloc(5000)\<close>.
\<close>

section \<open>A machine with two mapped pages\<close>

lemma free_frames_booted: "free_frames (vm_booted h) = 262143"
proof -
  have "{f. f < 262144 \<and> \<not> bit_at (phys_bitmap (vm_booted h)) f} = {1..<262144}"
    by (auto simp: vm_booted_def bitmap_simps)
  then show ?thesis by (simp add: free_frames_def)
qed

lemma missing_tables_booted: "missing_tables (vm_booted h) = 1024"
proof -
  have "{i. i < 1024 \<and> pde_of (vm_booted h) i = 0} = {..<1024}"
    using pde_of_booted by auto
  then show ?thesis by (simp add: missing_tables_def)
qed

lemma free_run_booted: "1 \<le> st \<Longrightarrow> st + n \<le> 1048576 \<Longrightarrow> free_run (vm_booted h) st n"
  by (simp add: free_run_def run_free_def vm_booted_def vm_start_def bitmap_simps)

definition demo :: vm where
  "demo = snd (the (n_malloc (vm_booted (\<lambda>_. 0)) 5000))"

lemma page_count_5000: "page_count 5000 = 2"
  by (simp add: page_count_def PGSIZE_def)

lemma demo_malloc: "n_malloc (vm_booted (\<lambda>_. 0)) 5000 = Some (run_base 1, demo)"
  and demo_inv: "vm_inv demo" and demo_dom: "dom (walk demo) = {1, 2}"
proof -
  have "n_malloc (vm_booted (\<lambda>_. 0)) 5000 = Some (run_base 1, demo) \<and> vm_inv demo \<and> dom (walk demo) = {1, 2}"
    using vm_inv_booted [of "\<lambda>_. 0"]
  proof (cases rule: n_malloc_spec [where nbytes = 5000, case_names null block])
    case (null s')
    then show ?thesis
      using free_run_booted [of 1 2 "\<lambda>_. 0"]
      by (simp add: page_count_5000 free_frames_booted missing_tables_booted)
  next
    case (block st s')
    have "st = 1"
      using block(4) block(5) [of 1] free_run_booted [of 1 2] by (simp add: page_count_5000 free_run_def)
    moreover have "{Suc 0..<Suc (Suc (Suc 0))} = {Suc 0, 2}" by auto
    ultimately show ?thesis
      using block by (simp add: demo_def page_count_5000 walk_booted)
  qed
  then show "n_malloc (vm_booted (\<lambda>_. 0)) 5000 = Some (run_base 1, demo)" "vm_inv demo" "dom (walk demo) = {1, 2}"
    by auto
qed

lemma demo_walk_iff: "walk demo v \<noteq> None \<longleftrightarrow> v = 1 \<or> v = 2"
  using demo_dom by (auto simp: dom_def)

lemma demo_range_mapped:
  assumes "4096 \<le> unat a" "unat a + n \<le> 12288"
  shows "range_mapped demo a n"
  unfolding range_mapped_def
proof (intro allI impI)
  fix k assume "k < n"
  then have "unat (a + of_nat k) = unat a + k"
    using assms by (simp add: unat_word_ariths unat_of_nat)
  then show "walk demo (vpn_of (a + of_nat k)) \<noteq> None"
    unfolding demo_walk_iff vpn_of_def using assms \<open>k < n\<close> by auto
qed

section \<open>Data movement\<close>

text \<open>C6: What \<open>put_data\<close> writes to a mapped range, \<open>get_data\<close> reads back, whatever the TLB
  holds and however the range crosses pages; both succeed, no other byte of the virtual memory
  changes, and the buffer of the reader is not written past the range.\<close>

theorem put_get_roundtrip:
  assumes "vm_inv s" "0 < n" "n < 2147483648" "range_mapped s (VA2U va) n"
  shows "\<exists>s1 buf' s2. put_data s va (Some buf) (int n) = Some (0, s1) \<and>
    get_data s1 va (Some old) (int n) = Some (Some buf', s2) \<and>
    (\<forall>k. buf' k = (if k < n then buf k else old k)) \<and> vm_inv s2 \<and>
    (\<forall>a. \<not> unat (a - VA2U va) < n \<longrightarrow> vread s2 a = vread s a)"
proof -
  obtain s1 m where P: "put_data s va (Some buf) (int n) = Some (if range_mapped s (VA2U va) n then 0 else - 1, s1)"
    "vm_inv s1" "walk s1 = walk s" "mapped_prefix s (VA2U va) n m"
    "\<And>a. vread s1 a = (if unat (a - VA2U va) < m then Some (buf (unat (a - VA2U va))) else vread s a)"
    by (rule put_data_spec [OF assms(1-3), of va buf], rule that)
  obtain buf' s2 m' where G: "get_data s1 va (Some old) (int n) = Some (Some buf', s2)" "vm_inv s2"
    "tlb_only s1 s2" "mapped_prefix s1 (VA2U va) n m'"
    "\<And>x. buf' x = (if x < m' then the (vread s1 (VA2U va + of_nat x)) else old x)"
    by (rule get_data_spec [OF P(2) assms(2,3), of va old], rule that)
  have "range_mapped s1 (VA2U va) n" using assms(4) P(3) by (simp add: range_mapped_def)
  then have m: "m = n" "m' = n"
    using P(4) G(4) assms(4) mapped_prefix_full by blast+
  have "buf' k = (if k < n then buf k else old k)" for k
  proof -
    have "unat (VA2U va + of_nat k - VA2U va) = k" if "k < n"
      using that assms(3) by (simp add: unat_of_nat)
    then show ?thesis by (simp add: G(5) P(5) m)
  qed
  then show ?thesis
    using P(1,5) G assms(4) m tlb_onlyD(2) [OF G(3)] by simp
qed

theorem put_get_roundtrip_witness:
  "\<exists>s1 buf' s2. put_data demo (U2VA 5000) (Some (\<lambda>k. of_nat k)) (int 6000) = Some (0, s1) \<and>
    get_data s1 (U2VA 5000) (Some (\<lambda>_. 7)) (int 6000) = Some (Some buf', s2) \<and>
    (\<forall>k. buf' k = (if k < 6000 then of_nat k else 7)) \<and> vm_inv s2 \<and>
    (\<forall>a. \<not> unat (a - VA2U (U2VA 5000)) < 6000 \<longrightarrow> vread s2 a = vread demo a)"
  by (rule put_get_roundtrip [OF demo_inv]) (auto intro!: demo_range_mapped)

text \<open>C31: \<open>put_data\<close> reports failure exactly when some byte of the range is unmapped, and it has
  then written the bytes before the first unmapped one and nothing else.\<close>

theorem put_data_failure:
  assumes "vm_inv s" "0 < n" "n < 2147483648"
  shows "\<exists>r s' m. put_data s va (Some buf) (int n) = Some (r, s') \<and> vm_inv s' \<and> walk s' = walk s \<and>
    (r = - 1 \<longleftrightarrow> (\<exists>k < n. walk s (vpn_of (VA2U va + of_nat k)) = None)) \<and> (r = 0 \<or> r = - 1) \<and>
    mapped_prefix s (VA2U va) n m \<and>
    (\<forall>a. vread s' a = (if unat (a - VA2U va) < m then Some (buf (unat (a - VA2U va))) else vread s a))"
proof -
  obtain s' m where "put_data s va (Some buf) (int n) = Some (if range_mapped s (VA2U va) n then 0 else - 1, s')"
    "vm_inv s'" "walk s' = walk s" "mapped_prefix s (VA2U va) n m"
    "\<And>a. vread s' a = (if unat (a - VA2U va) < m then Some (buf (unat (a - VA2U va))) else vread s a)"
    by (rule put_data_spec [OF assms, of va buf], rule that)
  moreover have "range_mapped s (VA2U va) n \<longleftrightarrow> \<not> (\<exists>k < n. walk s (vpn_of (VA2U va + of_nat k)) = None)"
    by (auto simp: range_mapped_def)
  ultimately show ?thesis
    by (intro exI [of _ "if range_mapped s (VA2U va) n then 0 else - 1"] exI [of _ s'] exI [of _ m]) auto
qed

theorem put_data_failure_witness:
  "\<exists>r s' m. put_data demo (U2VA 12280) (Some (\<lambda>k. of_nat k)) (int 100) = Some (r, s') \<and> vm_inv s' \<and>
    walk s' = walk demo \<and>
    (r = - 1 \<longleftrightarrow> (\<exists>k < 100. walk demo (vpn_of (VA2U (U2VA 12280) + of_nat k)) = None)) \<and> (r = 0 \<or> r = - 1) \<and>
    mapped_prefix demo (VA2U (U2VA 12280)) 100 m \<and>
    (\<forall>a. vread s' a = (if unat (a - VA2U (U2VA 12280)) < m
       then Some (of_nat (unat (a - VA2U (U2VA 12280)))) else vread demo a))"
  by (rule put_data_failure [OF demo_inv]) simp_all

text \<open>C9: \<open>mat_mult\<close> on mapped matrices, the answer apart from the operands: it finishes, every
  element of the answer is the dot product of a row and a column modulo \<open>2 ^ 32\<close>, whatever the
  uninitialised locals hold, and no byte outside the answer changes.\<close>

theorem mat_mult_correct:
  assumes "mat_ready s m1 m2 ans n"
  shows "\<exists>s'. mat_mult a0 b0 s m1 m2 (int n) ans = Some s' \<and> vm_inv s' \<and>
    (\<forall>i j. i < n \<longrightarrow> j < n \<longrightarrow>
       elem s' ans (i * n + j) = (\<Sum>k < n. elem s m1 (i * n + k) * elem s m2 (k * n + j))) \<and>
    (\<forall>a. \<not> unat (a - VA2U ans) < 4 * (n * n) \<longrightarrow> vread s' a = vread s a)"
proof -
  obtain s' where "mat_mult a0 b0 s m1 m2 (int n) ans = Some s'" "vm_inv s'"
    "\<And>i j. i < n \<Longrightarrow> j < n \<Longrightarrow> elem s' ans (i * n + j) = dot s m1 m2 n i j n"
    "\<And>a. \<not> unat (a - VA2U ans) < 4 * (n * n) \<Longrightarrow> vread s' a = vread s a"
    by (rule mat_mult_spec [OF assms, of a0 b0], rule that)
  then show ?thesis by (auto simp: dot_def)
qed

lemma demo_mat_ready: "mat_ready demo (U2VA 4096) (U2VA 4112) (U2VA 4128) 2"
proof -
  have "\<not> unat (a - (c + of_nat n)) < 16" if "unat (a - c) < n" "n < 4294967280" for a c :: u32 and n
  proof -
    have eq: "a - (c + of_nat n) = (a - c) - of_nat n" by simp
    show ?thesis unfolding eq using that unat_diff_of_nat [of n "a - c"] by simp
  qed
  from this [of _ 4096 32] this [of _ 4112 16] show ?thesis
    by (simp add: mat_ready_def mat_mapped_def demo_inv demo_range_mapped mat_disjoint_def)
qed

theorem mat_mult_correct_witness:
  "\<exists>s'. mat_mult (\<lambda>_. 1) (\<lambda>_. 2) demo (U2VA 4096) (U2VA 4112) (int 2) (U2VA 4128) = Some s' \<and> vm_inv s' \<and>
    (\<forall>i j. i < 2 \<longrightarrow> j < 2 \<longrightarrow> elem s' (U2VA 4128) (i * 2 + j) =
       (\<Sum>k < 2. elem demo (U2VA 4096) (i * 2 + k) * elem demo (U2VA 4112) (k * 2 + j))) \<and>
    (\<forall>a. \<not> unat (a - VA2U (U2VA 4128)) < 4 * (2 * 2) \<longrightarrow> vread s' a = vread demo a)"
  by (rule mat_mult_correct [OF demo_mat_ready])

section \<open>Allocation\<close>

text \<open>C13: A successful \<open>n_malloc\<close> returns the page-aligned base of the lowest run of free virtual
  pages (page 0 excluded) that is long enough, maps exactly the pages of that run on top of the
  old mappings, and leaves every byte of the pages mapped before as it was.\<close>

theorem n_malloc_block:
  assumes "vm_inv s" "n_malloc s nbytes = Some (va, s')" "va \<noteq> 0"
  shows "\<exists>st. va = run_base st \<and> free_run s st (page_count nbytes) \<and>
    (\<forall>st'. free_run s st' (page_count nbytes) \<longrightarrow> st \<le> st') \<and> 0 < page_count nbytes \<and> vm_inv s' \<and>
    (\<forall>v. st \<le> v \<and> v < st + page_count nbytes \<longrightarrow> walk s v = None \<and> walk s' v \<noteq> None) \<and>
    (\<forall>v. \<not> (st \<le> v \<and> v < st + page_count nbytes) \<longrightarrow> walk s' v = walk s v) \<and>
    (\<forall>a. walk s (vpn_of a) \<noteq> None \<longrightarrow> vread s' a = vread s a)"
  using assms(1)
proof (cases rule: n_malloc_spec [where nbytes = nbytes, case_names null block])
  case (null s1)
  then show ?thesis using assms(2,3) by simp
next
  case (block st s1)
  have eq: "s1 = s'" "va = run_base st" using block(1) assms(2) by auto
  have new: "walk s v = None" if "st \<le> v" "v < st + page_count nbytes" for v
    using free_run_unmapped [OF assms(1) block(4), of "v - st"] that by simp
  have old: "walk s' v = walk s v" if "\<not> (st \<le> v \<and> v < st + page_count nbytes)" for v
  proof (cases "walk s v")
    case None
    then have "v \<notin> dom (walk s')" using block(7) that by (auto simp: eq)
    then show ?thesis using None by (simp add: domIff)
  next
    case (Some p)
    then show ?thesis using map_leD [OF Some block(6)] eq by simp
  qed
  have data: "vread s' a = vread s a" if w: "walk s (vpn_of a) \<noteq> None" for a
  proof -
    obtain p where p: "walk s (vpn_of a) = Some p" using w by (cases "walk s (vpn_of a)") auto
    then have "walk s' (vpn_of a) = Some p" using block(6) by (auto simp: eq dest: map_leD)
    then show ?thesis
      using p block(3) unat_OFF_less [of a] by (simp add: vread_def data_same_def eq)
  qed
  have "walk s' v \<noteq> None" if "st \<le> v" "v < st + page_count nbytes" for v
    using block(7) that by (auto simp: eq dom_def set_eq_iff)
  then show ?thesis
    using block new old data by (intro exI [of _ st]) (auto simp: eq)
qed

theorem n_malloc_block_witness:
  "\<exists>st. run_base 1 = run_base st \<and> free_run (vm_booted (\<lambda>_. 0)) st (page_count 5000) \<and>
    (\<forall>st'. free_run (vm_booted (\<lambda>_. 0)) st' (page_count 5000) \<longrightarrow> st \<le> st') \<and> 0 < page_count 5000 \<and> vm_inv demo \<and>
    (\<forall>v. st \<le> v \<and> v < st + page_count 5000 \<longrightarrow> walk (vm_booted (\<lambda>_. 0)) v = None \<and> walk demo v \<noteq> None) \<and>
    (\<forall>v. \<not> (st \<le> v \<and> v < st + page_count 5000) \<longrightarrow> walk demo v = walk (vm_booted (\<lambda>_. 0)) v) \<and>
    (\<forall>a. walk (vm_booted (\<lambda>_. 0)) (vpn_of a) \<noteq> None \<longrightarrow> vread demo a = vread (vm_booted (\<lambda>_. 0)) a)"
  by (rule n_malloc_block [OF vm_inv_booted demo_malloc]) (simp add: run_base_eq_0_iff)

text \<open>C29: \<open>n_malloc\<close> never crashes, and it returns a block whenever the rounded page count is not
  0, some run of virtual pages is free and the free frames cover the pages and every page table
  that does not exist yet.\<close>

theorem n_malloc_succeeds:
  assumes "vm_inv s" "nbytes \<noteq> 0" "page_count nbytes \<noteq> 0" "free_run s st (page_count nbytes)"
    and "page_count nbytes + missing_tables s \<le> free_frames s"
  shows "\<exists>va s'. n_malloc s nbytes = Some (va, s') \<and> va \<noteq> 0"
  using assms(1)
proof (cases rule: n_malloc_spec [where nbytes = nbytes, case_names null block])
  case (null s')
  then show ?thesis using assms by auto
next
  case (block st' s')
  then have "run_base st' \<noteq> 0"
    by (subst run_base_eq_0_iff) (auto simp: free_run_def)
  then show ?thesis using block(1) by blast
qed

theorem n_malloc_succeeds_witness:
  "\<exists>va s'. n_malloc (vm_booted (\<lambda>_. 0)) 5000 = Some (va, s') \<and> va \<noteq> 0"
  by (rule n_malloc_succeeds [OF vm_inv_booted, of _ _ 1])
    (simp_all add: page_count_5000 free_run_booted free_frames_booted missing_tables_booted)

text \<open>C30: A null result of \<open>n_malloc\<close> changes no mapping and no byte of a mapped page: the pages
  mapped before the frames ran out are unmapped again.\<close>

theorem n_malloc_null_undoes:
  assumes "vm_inv s" "n_malloc s nbytes = Some (0, s')"
  shows "vm_inv s' \<and> walk s' = walk s \<and> vread s' = vread s"
  using assms(1)
proof (cases rule: n_malloc_spec [where nbytes = nbytes, case_names null block])
  case (null s1)
  then have "s1 = s'" using assms(2) by simp
  moreover have "vread s1 = vread s"
    using null(3,4) unat_OFF_less
    by (auto simp: vread_def data_same_def fun_eq_iff split: option.split)
  ultimately show ?thesis using null(2,3) by simp
next
  case (block st s1)
  then have "run_base st \<noteq> 0"
    by (subst run_base_eq_0_iff) (auto simp: free_run_def)
  then show ?thesis using block(1) assms(2) by simp
qed

text \<open>A machine whose frames are all taken.\<close>

definition exhausted :: vm where
  "exhausted = (vm_booted (\<lambda>_. 0))\<lparr>phys_bitmap := (\<lambda>_. 255)\<rparr>"

lemma bit_at_all: "bit_at (\<lambda>_. 255) i"
proof -
  have m: "(255 :: u8) = mask 8" by (simp add: mask_eq_exp_minus_1)
  show ?thesis unfolding bit_at_def m bit_mask_iff by simp
qed

lemma exhausted_inv: "vm_inv exhausted"
  using vm_inv_booted [of "\<lambda>_. 0"] unfolding vm_inv_def exhausted_def
  by (auto simp: bit_at_all elim!: frames_inv_mono)

lemma free_run_exhausted: "1 \<le> st \<Longrightarrow> st + n \<le> 1048576 \<Longrightarrow> free_run exhausted st n"
  using free_run_booted [of st n] by (simp add: free_run_def exhausted_def)

lemma n_malloc_no_frames:
  assumes inv: "vm_inv s" and used: "\<And>f. f < 262144 \<Longrightarrow> bit_at (phys_bitmap s) f"
    and run: "free_run s st (page_count nbytes)" "\<And>st'. free_run s st' (page_count nbytes) \<Longrightarrow> st \<le> st'"
    and n: "nbytes \<noteq> 0" "page_count nbytes \<noteq> 0"
  shows "n_malloc s nbytes = Some (0, s\<lparr>virt_bitmap := set_run (virt_bitmap s) st (page_count nbytes)\<rparr>)"
proof -
  let ?num = "(nbytes + of_nat PGSIZE - 1) div of_nat PGSIZE"
  let ?s = "s\<lparr>virt_bitmap := set_run (virt_bitmap s) st (page_count nbytes)\<rparr>"
  have count: "unat ?num = page_count nbytes" by (simp add: page_count_def)
  have num: "?num \<noteq> 0" "unat ?num < 1048576" using n(2) page_count_le count by auto
  have avail: "get_next_avail s ?num = (run_base st, ?s)"
    using vm_invD(4) [OF inv] num
  proof (cases rule: get_next_avail_run)
    case none
    then show ?thesis using run(1) count by simp
  next
    case (run st')
    then have "st' = st" using assms(3,4) count by (metis le_antisym)
    then show ?thesis using run(1) count by simp
  qed
  have "run_base st \<noteq> 0" using run(1) n(2) by (subst run_base_eq_0_iff) (auto simp: free_run_def)
  moreover have "allocate_phys_page ?s = (INVALID_PA, ?s)"
    using vm_inv_reserve [OF inv, of st "page_count nbytes"]
    by (cases rule: allocate_spec) (use used in auto)
  moreover have "n_free ?s (run_base st) (of_nat 0 * of_nat PGSIZE) = Some ?s"
    by (simp add: n_free_def PGSIZE_def) (subst free_loop.simps, simp)
  moreover have "0 < page_count nbytes" using n(2) by simp
  ultimately have "malloc_loop ?s (run_base st) 0 (page_count nbytes) = Some (0, ?s)"
    by (subst malloc_loop.simps) (simp add: Let_def)
  then show ?thesis
    using n(1) num(1) avail \<open>run_base st \<noteq> 0\<close> vm_invD(1) [OF inv]
    unfolding count [symmetric] by (simp add: n_malloc_def Let_def)
qed

lemma n_malloc_exhausted:
  "n_malloc exhausted 5000 = Some (0, exhausted\<lparr>virt_bitmap := set_run (virt_bitmap exhausted) 1 2\<rparr>)"
  using n_malloc_no_frames [OF exhausted_inv, of 1 5000]
  by (simp add: page_count_5000 free_run_exhausted) (simp add: exhausted_def bit_at_all free_run_def)

theorem n_malloc_null_undoes_witness:
  "\<exists>s'. n_malloc exhausted 5000 = Some (0, s') \<and>
     vm_inv s' \<and> walk s' = walk exhausted \<and> vread s' = vread exhausted"
  using n_malloc_null_undoes [OF exhausted_inv n_malloc_exhausted] n_malloc_exhausted by blast

text \<open>When no frame is left, \<open>n_malloc\<close> returns null but the run of virtual pages it reserved
  stays marked in the virtual bitmap although no page of it is mapped: a failed call leaks its
  address range, and \<open>n_free\<close>, which skips unmapped pages, cannot give it back.\<close>

theorem n_malloc_null_leaks_range:
  assumes "vm_inv s" "\<forall>f < 262144. bit_at (phys_bitmap s) f" "nbytes \<noteq> 0" "page_count nbytes \<noteq> 0"
    and "free_run s st (page_count nbytes)" "\<forall>st'. free_run s st' (page_count nbytes) \<longrightarrow> st \<le> st'"
  shows "\<exists>s'. n_malloc s nbytes = Some (0, s') \<and>
    (\<forall>v. st \<le> v \<and> v < st + page_count nbytes \<longrightarrow> bit_at (virt_bitmap s') v \<and> walk s' v = None) \<and>
    (\<forall>n. 0 < n \<longrightarrow> \<not> free_run s' st n)"
proof -
  let ?s = "s\<lparr>virt_bitmap := set_run (virt_bitmap s) st (page_count nbytes)\<rparr>"
  have "n_malloc s nbytes = Some (0, ?s)"
    by (rule n_malloc_no_frames) (use assms in auto)
  moreover have "walk ?s v = None" if "st \<le> v" "v < st + page_count nbytes" for v
    using free_run_unmapped [OF assms(1,5), of "v - st"] that by simp
  moreover have "\<not> free_run ?s st n" if "0 < n" for n
    using that assms(4) by (auto simp: free_run_def run_free_def bit_at_set_run intro!: exI [of _ 0])
  ultimately show ?thesis
    by (intro exI [of _ ?s]) (auto simp: bit_at_set_run)
qed

theorem n_malloc_null_leaks_range_witness:
  "\<exists>s'. n_malloc exhausted 5000 = Some (0, s') \<and>
    (\<forall>v. 1 \<le> v \<and> v < 1 + page_count 5000 \<longrightarrow> bit_at (virt_bitmap s') v \<and> walk s' v = None) \<and>
    (\<forall>n. 0 < n \<longrightarrow> \<not> free_run s' 1 n)"
  by (rule n_malloc_null_leaks_range [OF exhausted_inv])
    (simp_all add: page_count_5000 free_run_exhausted, simp_all add: exhausted_def bit_at_all free_run_def)

text \<open>\<open>get_next_avail\<close> is first fit: it returns the lowest run of the requested length that
  is free in the virtual bitmap, never page 0, and marks exactly that run; it returns null, and
  changes nothing, only when there is no such run.\<close>

theorem get_next_avail_first_fit:
  assumes "vm_inv s" "num_pages \<noteq> 0" "unat num_pages < 1048576"
  shows "case get_next_avail s num_pages of (base, s') \<Rightarrow>
    if base = 0 then s' = s \<and> (\<forall>st. 1 \<le> st \<and> st + unat num_pages \<le> 1048576 \<longrightarrow>
        (\<exists>k < unat num_pages. bit_at (virt_bitmap s) (st + k)))
    else \<exists>st. unat (VA2U base) = st * 4096 \<and> 1 \<le> st \<and> st + unat num_pages \<le> 1048576 \<and>
      (\<forall>k < unat num_pages. \<not> bit_at (virt_bitmap s) (st + k)) \<and>
      (\<forall>v. bit_at (virt_bitmap s') v \<longleftrightarrow> st \<le> v \<and> v < st + unat num_pages \<or> bit_at (virt_bitmap s) v) \<and>
      (\<forall>st'. 1 \<le> st' \<and> st' < st \<longrightarrow> (\<exists>k < unat num_pages. bit_at (virt_bitmap s) (st' + k)))"
  using vm_invD(4) [OF assms(1)] assms(2,3)
proof (cases rule: get_next_avail_run)
  case none
  then show ?thesis by (auto simp: free_run_def run_free_def)
next
  case (run st)
  have num: "0 < unat num_pages" using assms(2) by (simp add: unat_gt_0)
  have st: "1 \<le> st" "st + unat num_pages \<le> 1048576" "st < 1048576"
    using run(2) num by (auto simp: free_run_def)
  then have "run_base st \<noteq> 0" by (subst run_base_eq_0_iff) auto
  moreover have "unat (VA2U (run_base st)) = st * 4096"
    using st(3) by (simp add: run_base_def unat_shift_left)
  moreover have "\<exists>k < unat num_pages. bit_at (virt_bitmap s) (st' + k)" if "1 \<le> st'" "st' < st" for st'
    using run(3) [of st'] that st(2) by (auto simp: free_run_def run_free_def)
  ultimately show ?thesis
    using run(1,2) st by (auto simp: free_run_def run_free_def bit_at_set_run)
qed

theorem get_next_avail_first_fit_witness:
  "case get_next_avail demo 3 of (base, s') \<Rightarrow>
    if base = 0 then s' = demo \<and> (\<forall>st. 1 \<le> st \<and> st + unat (3 :: u32) \<le> 1048576 \<longrightarrow>
        (\<exists>k < unat (3 :: u32). bit_at (virt_bitmap demo) (st + k)))
    else \<exists>st. unat (VA2U base) = st * 4096 \<and> 1 \<le> st \<and> st + unat (3 :: u32) \<le> 1048576 \<and>
      (\<forall>k < unat (3 :: u32). \<not> bit_at (virt_bitmap demo) (st + k)) \<and>
      (\<forall>v. bit_at (virt_bitmap s') v \<longleftrightarrow> st \<le> v \<and> v < st + unat (3 :: u32) \<or> bit_at (virt_bitmap demo) v) \<and>
      (\<forall>st'. 1 \<le> st' \<and> st' < st \<longrightarrow> (\<exists>k < unat (3 :: u32). bit_at (virt_bitmap demo) (st' + k)))"
  by (rule get_next_avail_first_fit [OF demo_inv]) simp_all

section \<open>Freeing\<close>

text \<open>C26: \<open>n_free\<close> never crashes; it unmaps exactly the pages of the range (those of the rounded
  page count from the given address on, modulo the 32-bit address space), keeps every other
  mapping and every byte of the pages that stay, and takes no frame.\<close>

theorem n_free_unmaps_range:
  assumes "vm_inv s" "unat (VA2U va) mod 4096 \<noteq> 4095"
  shows "\<exists>s'. n_free s va nbytes = Some s' \<and> vm_inv s' \<and>
    (\<forall>v. walk s' v = (if \<exists>k < page_count nbytes. v = vpn_of (page_addr (VA2U va) k) then None else walk s v)) \<and>
    (\<forall>a. walk s' (vpn_of a) \<noteq> None \<longrightarrow> vread s' a = vread s a) \<and>
    (\<forall>f. bit_at (phys_bitmap s') f \<longrightarrow> bit_at (phys_bitmap s) f)"
proof -
  obtain s' where F: "n_free s va nbytes = Some s'" "vm_inv s'"
    "walk s' = walk s |` (- (\<lambda>k. vpn_of (page_addr (VA2U va) k)) ` {0..<page_count nbytes})" "data_same s' s"
    "\<And>f. bit_at (phys_bitmap s') f \<Longrightarrow> bit_at (phys_bitmap s) f"
    by (rule n_free_spec [OF assms refl, of nbytes], rule that)
  have "walk s' v = (if \<exists>k < page_count nbytes. v = vpn_of (page_addr (VA2U va) k) then None else walk s v)" for v
    unfolding F(3) by (auto simp: restrict_map_def)
  moreover have "vread s' a = vread s a" if w: "walk s' (vpn_of a) \<noteq> None" for a
  proof -
    obtain p where p: "walk s' (vpn_of a) = Some p" using w by (cases "walk s' (vpn_of a)") auto
    moreover have "walk s (vpn_of a) = Some p"
      using p by (auto simp: F(3) restrict_map_def split: if_splits)
    ultimately show ?thesis
      using F(4) unat_OFF_less [of a] by (simp add: vread_def data_same_def)
  qed
  ultimately show ?thesis using F(1,2,5) by blast
qed

theorem n_free_unmaps_range_witness:
  "\<exists>s'. n_free demo (U2VA 8192) 1 = Some s' \<and> vm_inv s' \<and>
    (\<forall>v. walk s' v = (if \<exists>k < page_count 1. v = vpn_of (page_addr (VA2U (U2VA 8192)) k) then None else walk demo v)) \<and>
    (\<forall>a. walk s' (vpn_of a) \<noteq> None \<longrightarrow> vread s' a = vread demo a) \<and>
    (\<forall>f. bit_at (phys_bitmap s') f \<longrightarrow> bit_at (phys_bitmap demo) f)"
  by (rule n_free_unmaps_range [OF demo_inv]) simp

text \<open>C27: Freeing the block that \<open>n_malloc\<close> just returned brings back the page map from before the
  allocation, with the contents of its pages.\<close>

theorem n_malloc_n_free_roundtrip:
  assumes "vm_inv s" "n_malloc s nbytes = Some (va, s1)" "va \<noteq> 0"
  shows "\<exists>s2. n_free s1 va nbytes = Some s2 \<and> vm_inv s2 \<and> walk s2 = walk s \<and> vread s2 = vread s"
  using assms(1)
proof (cases rule: n_malloc_spec [where nbytes = nbytes, case_names null block])
  case (null s')
  then show ?thesis using assms(2,3) by simp
next
  case (block st s')
  have eq: "s' = s1" "va = run_base st" using block(1) assms(2) by auto
  have st: "1 \<le> st" "st + page_count nbytes \<le> 1048576" "st < 1048576"
    using block(4,8) by (auto simp: free_run_def)
  have off: "unat (VA2U va) mod 4096 \<noteq> 4095" unfolding eq(2) using run_base_offset [OF st(3)] by simp
  obtain s2 where F: "n_free s1 va nbytes = Some s2" "vm_inv s2"
    "walk s2 = walk s1 |` (- (\<lambda>k. vpn_of (page_addr (VA2U va) k)) ` {0..<page_count nbytes})" "data_same s2 s1"
    by (rule n_free_spec [OF block(2) [unfolded eq] off refl, of nbytes], rule that)
  have "(\<lambda>k. vpn_of (page_addr (VA2U va) k)) ` {0..<page_count nbytes} = (\<lambda>k. st + k) ` {0..<page_count nbytes}"
    unfolding eq(2) using st(2) by (intro image_cong) (auto simp: vpn_of_page_addr)
  then have W2: "walk s2 = walk s1 |` (- {st..<st + page_count nbytes})"
    unfolding F(3) by (simp add: add.commute)
  have W: "walk s2 = walk s"
  proof
    fix v
    show "walk s2 v = walk s v"
    proof (cases "st \<le> v \<and> v < st + page_count nbytes")
      case True
      then have v: "v - st < page_count nbytes" "st + (v - st) = v" by linarith+
      have "walk s v = None"
        using free_run_unmapped [OF assms(1) block(4) v(1)] unfolding v(2) .
      then show ?thesis
        using True by (simp add: W2 restrict_map_def)
    next
      case False
      then have "walk s2 v = walk s1 v" by (auto simp: W2 restrict_map_def)
      moreover have "walk s1 v = walk s v" if "walk s v \<noteq> None"
        using that map_leD [OF _ block(6)] by (auto simp: eq)
      moreover have "walk s1 v = None" if "walk s v = None"
      proof -
        have "v \<notin> dom (walk s1)" using block(7) that False by (auto simp: eq)
        then show ?thesis by (simp add: domIff)
      qed
      ultimately show ?thesis by (cases "walk s v") auto
    qed
  qed
  have le: "walk s \<subseteq>\<^sub>m walk s1" using block(6) by (simp add: eq)
  have data: "phys_mem s2 x = phys_mem s x" if "walk s v = Some p" "unat p \<le> x" "x < unat p + 4096" for v p x
    using block(3) F(4) that W unfolding data_same_def eq by metis
  have "vread s2 a = vread s a" for a
    using data [of "vpn_of a"] unat_OFF_less [of a] by (simp add: vread_def W split: option.split)
  then show ?thesis using F(1,2) W by blast
qed

theorem n_malloc_n_free_roundtrip_witness:
  "\<exists>s2. n_free demo (run_base 1) 5000 = Some s2 \<and> vm_inv s2 \<and> walk s2 = walk (vm_booted (\<lambda>_. 0)) \<and>
     vread s2 = vread (vm_booted (\<lambda>_. 0))"
  by (rule n_malloc_n_free_roundtrip [OF vm_inv_booted demo_malloc]) (simp add: run_base_eq_0_iff)

section \<open>Translation\<close>

text \<open>C28: \<open>translate\<close> is the walk of the two-level table, hit or miss: it returns null exactly for
  an unmapped page, otherwise a pointer to the entry of the page; memory is not written and the
  invariant, with the coherence of the TLB, is kept.\<close>

theorem translate_is_page_walk:
  assumes "vm_inv s"
  shows "\<exists>r s'. translate s (page_dir s) va = Some (r, s') \<and> vm_inv s' \<and> phys_mem s' = phys_mem s \<and>
    walk s' = walk s \<and>
    (case r of None \<Rightarrow> None | Some ref \<Rightarrow> deref_pte s' ref) = walk s (vpn_of (VA2U va))"
  using assms
proof (rule translate_spec [of s va], goal_cases)
  case (1 r t l m)
  then show ?case
    by (cases "walk s (vpn_of (VA2U va))") (intro exI conjI, assumption, assumption, auto)
qed

theorem translate_is_page_walk_witness:
  "\<exists>r s'. translate demo (page_dir demo) (U2VA 5000) = Some (r, s') \<and> vm_inv s' \<and> phys_mem s' = phys_mem demo \<and>
    walk s' = walk demo \<and>
    (case r of None \<Rightarrow> None | Some ref \<Rightarrow> deref_pte s' ref) = walk demo (vpn_of (VA2U (U2VA 5000)))"
  by (rule translate_is_page_walk [OF demo_inv])

text \<open>The TLB against the map it caches: after \<open>TLB_add\<close> the page hits with the new entry
  and no other page gains an answer; after \<open>TLB_invalidate\<close> the page misses and every other page
  answers as before. Both keep at most one valid entry for a page and at most 512 entries.\<close>

theorem tlb_add_invalidate:
  assumes "tlb_ok t" "va \<noteq> 0" "VA2U pa \<noteq> INVALID_PA" "VA2U va \<noteq> INVALID_PA"
  shows "fst (TLB_add t va pa) = 0 \<and>
    tlb_ok (snd (TLB_add t va pa)) \<and> tlb_ok (TLB_invalidate t va) \<and>
    (\<exists>i. TLB_check (snd (TLB_add t va pa)) va = Some i \<and>
         te_pte (tlb_entries (snd (TLB_add t va pa)) i) = VA2U pa \<and>
         te_pfn (tlb_entries (snd (TLB_add t va pa)) i) = drop_bit PFN_SHIFT (VA2U pa)) \<and>
    (\<forall>v p. v \<noteq> drop_bit PFN_SHIFT (VA2U va) \<longrightarrow> tlb_map (snd (TLB_add t va pa)) v = Some p \<longrightarrow> tlb_map t v = Some p) \<and>
    TLB_check (TLB_invalidate t va) va = None \<and>
    (\<forall>v. v \<noteq> drop_bit PFN_SHIFT (VA2U va) \<longrightarrow> tlb_map (TLB_invalidate t va) v = tlb_map t v)"
proof -
  let ?v = "drop_bit PFN_SHIFT (VA2U va)" and ?t = "snd (TLB_add t va pa)"
  have ok: "tlb_ok ?t" by (rule tlb_cache.ok_fill [OF assms(1)])
  have "tlb_map ?t ?v = Some (VA2U pa)" by (rule tlb_cache.fill_same) (use assms in auto)
  then obtain i where i: "tlb_find ?t ?v = Some i" "te_pte (tlb_entries ?t i) = VA2U pa"
    by (auto simp: tlb_map_def)
  have pfn: "te_pfn (tlb_entries ?t i) = drop_bit PFN_SHIFT (VA2U pa)"
    using ok tlb_find_SomeD [OF i(1)] i(2) by (auto simp: tlb_ok_def)
  have inv: "tlb_map (TLB_invalidate t va) = (tlb_map t)(?v := None)"
    by (rule tlb_cache.view_remove) (use assms in auto)
  then have miss: "tlb_find (TLB_invalidate t va) ?v = None"
    by (metis fun_upd_same option.map_disc_iff tlb_map_def)
  have add: "fst (TLB_add t va pa) = 0"
    using assms(2,3) by (cases "tlb_find t ?v") (simp_all add: TLB_add_hit TLB_add_miss)
  from i pfn miss add inv show ?thesis
    using ok tlb_cache.ok_remove [OF assms(1), of va] tlb_cache.fill_other [OF assms(1), of _ va pa] assms(4)
    by (auto simp: TLB_check_eq)
qed

theorem tlb_add_invalidate_witness:
  "TLB_check (TLB_invalidate (tlb_store demo) (U2VA 4096)) (U2VA 4096) = None"
proof -
  have "U2VA 4096 \<noteq> 0" "VA2U (U2VA 8192) \<noteq> INVALID_PA" "VA2U (U2VA 4096) \<noteq> INVALID_PA"
    by (simp_all add: INVALID_PA_def)
  from tlb_add_invalidate [OF vm_invD(6) [OF demo_inv] this] show ?thesis by blast
qed

section \<open>All runs\<close>

text \<open>
  The states a client can reach: boot, then any sequence of library calls. An \<open>int\<close> size has any
  value; the address given to \<open>n_free\<close> is not the last byte of a page (the sentinel defect).
\<close>

inductive vm_call :: "vm \<Rightarrow> vm \<Rightarrow> bool" where
  malloc: "n_malloc s nbytes = Some (va, s') \<Longrightarrow> vm_call s s'"
| free: "unat (VA2U va) mod 4096 \<noteq> 4095 \<Longrightarrow> n_free s va nbytes = Some s' \<Longrightarrow> vm_call s s'"
| put: "sz < 2147483648 \<Longrightarrow> put_data s va val sz = Some (r, s') \<Longrightarrow> vm_call s s'"
| get: "sz < 2147483648 \<Longrightarrow> get_data s va val sz = Some (val', s') \<Longrightarrow> vm_call s s'"
| lookup: "translate s (page_dir s) va = Some (ref, s') \<Longrightarrow> vm_call s s'"

inductive vm_reach :: "vm \<Rightarrow> bool" where
  boot: "set_physical_mem (vm_start host_bytes True) = Some s \<Longrightarrow> vm_reach s"
| call: "vm_reach s \<Longrightarrow> vm_call s s' \<Longrightarrow> vm_reach s'"

lemma put_data_inv:
  assumes "vm_inv s" "sz < 2147483648"
  shows "\<exists>r s'. put_data s va val sz = Some (r, s') \<and> vm_inv s'"
proof (cases "val = None \<or> sz \<le> 0")
  case True
  then show ?thesis using assms(1) by (cases val) (auto simp: put_data_def)
next
  case False
  then obtain buf where "val = Some buf" by auto
  moreover have "sz = int (nat sz)" "0 < nat sz" "nat sz < 2147483648" using False assms(2) by auto
  ultimately show ?thesis using put_data_spec [OF assms(1), of "nat sz" va buf] by metis
qed

lemma get_data_inv:
  assumes "vm_inv s" "sz < 2147483648"
  shows "\<exists>val' s'. get_data s va val sz = Some (val', s') \<and> vm_inv s'"
proof (cases "val = None \<or> sz \<le> 0")
  case True
  then show ?thesis using assms(1) by (cases val) (auto simp: get_data_def)
next
  case False
  then obtain buf where "val = Some buf" by auto
  moreover have "sz = int (nat sz)" "0 < nat sz" "nat sz < 2147483648" using False assms(2) by auto
  ultimately show ?thesis using get_data_spec [OF assms(1), of "nat sz" va buf] by metis
qed

lemma n_malloc_inv: "vm_inv s \<Longrightarrow> \<exists>va s'. n_malloc s nbytes = Some (va, s') \<and> vm_inv s'"
  by (rule n_malloc_spec [of s nbytes]) blast+

lemma n_free_inv:
  "vm_inv s \<Longrightarrow> unat (VA2U va) mod 4096 \<noteq> 4095 \<Longrightarrow> \<exists>s'. n_free s va nbytes = Some s' \<and> vm_inv s'"
  by (rule n_free_spec [of s va "page_count nbytes" nbytes]) blast+

lemma translate_inv: "vm_inv s \<Longrightarrow> \<exists>r s'. translate s (page_dir s) va = Some (r, s') \<and> vm_inv s'"
  by (rule translate_spec [of s va]) blast+

lemma vm_call_inv: "vm_call s s' \<Longrightarrow> vm_inv s \<Longrightarrow> vm_inv s'"
proof (induction rule: vm_call.induct)
  case (malloc s nbytes va s')
  then show ?case using n_malloc_inv [of s nbytes] by auto
next
  case (free va s nbytes s')
  then show ?case using n_free_inv [of s va nbytes] by auto
next
  case (put sz s va val r s')
  then show ?case using put_data_inv [of s sz va val] by auto
next
  case (get sz s va val val' s')
  then show ?case using get_data_inv [of s sz va val] by auto
next
  case (lookup s va ref s')
  then show ?case using translate_inv [of s va] by auto
qed

lemma vm_reach_inv: "vm_reach s \<Longrightarrow> vm_inv s"
  by (induction rule: vm_reach.induct) (auto simp: set_physical_mem_boot vm_inv_booted intro: vm_call_inv)

text \<open>C1: In every state a client can reach, no two virtual pages share a frame, no page maps to
  the directory or to a page table, every frame in use is marked in the bitmap, the TLB answers
  only with current translations, and no library call leaves the simulated memory.\<close>

theorem vm_reach_safe:
  assumes "vm_reach s"
  shows "(\<forall>v w p. walk s v = Some p \<longrightarrow> walk s w = Some p \<longrightarrow> v = w) \<and>
    (\<forall>v p. walk s v = Some p \<longrightarrow> 4096 \<le> unat p \<and> unat p + 4096 \<le> MEMSIZE \<and>
       bit_at (phys_bitmap s) (unat p div 4096) \<and> bit_at (virt_bitmap s) v) \<and>
    (\<forall>v p i. walk s v = Some p \<longrightarrow> i < 1024 \<longrightarrow> pde_of s i \<noteq> p) \<and>
    (\<forall>va i. TLB_check (tlb_store s) va = Some i \<longrightarrow>
       walk s (vpn_of (VA2U va)) = Some (te_pte (tlb_entries (tlb_store s) i))) \<and>
    (\<forall>nbytes. n_malloc s nbytes \<noteq> None) \<and>
    (\<forall>va nbytes. unat (VA2U va) mod 4096 \<noteq> 4095 \<longrightarrow> n_free s va nbytes \<noteq> None) \<and>
    (\<forall>va val sz. sz < 2147483648 \<longrightarrow> put_data s va val sz \<noteq> None \<and> get_data s va val sz \<noteq> None)"
proof -
  have inv: "vm_inv s" by (rule vm_reach_inv [OF assms])
  note D = vm_invD(5) [OF inv]
  have "walk s (vpn_of (VA2U va)) = Some (te_pte (tlb_entries (tlb_store s) i))"
    if "TLB_check (tlb_store s) va = Some i" for va i
    using map_leD [OF TLB_check_SomeD(3) [OF that] vm_invD(7) [OF inv]] by (simp add: unat_shift_vpn)
  moreover have "4096 \<le> unat p \<and> unat p + 4096 \<le> MEMSIZE \<and> bit_at (phys_bitmap s) (unat p div 4096) \<and>
      bit_at (virt_bitmap s) v" if "walk s v = Some p" for v p
    using used_frame_bounds [OF frames_invD(5) [OF D that]] frames_invD(5,6) [OF D that]
    by (simp add: used_frame_def)
  moreover have "n_malloc s nbytes \<noteq> None" for nbytes
    using n_malloc_inv [OF inv, of nbytes] by auto
  moreover have "n_free s va nbytes \<noteq> None" if "unat (VA2U va) mod 4096 \<noteq> 4095" for va nbytes
    using n_free_inv [OF inv that, of nbytes] by auto
  moreover have "put_data s va val sz \<noteq> None \<and> get_data s va val sz \<noteq> None" if "sz < 2147483648" for va val sz
    using put_data_inv [OF inv that, of va val] get_data_inv [OF inv that, of va val] by auto
  ultimately show ?thesis
    using frames_invD(7,8) [OF D] by blast
qed

lemma demo_reach: "vm_reach demo"
  using vm_reach.call [OF vm_reach.boot [OF set_physical_mem_boot] vm_call.malloc [OF demo_malloc]] .

theorem vm_reach_safe_witness:
  "\<exists>p q. walk demo 1 = Some p \<and> walk demo 2 = Some q \<and> p \<noteq> q \<and>
     4096 \<le> unat p \<and> bit_at (phys_bitmap demo) (unat p div 4096) \<and> pde_of demo 0 \<noteq> p \<and>
     n_malloc demo 100 \<noteq> None \<and> n_free demo (U2VA 8192) 1 \<noteq> None \<and>
     put_data demo (U2VA 0) (Some (\<lambda>_. 0)) 9 \<noteq> None"
proof -
  obtain p q where pq: "walk demo 1 = Some p" "walk demo 2 = Some q"
    using demo_walk_iff [of 1] demo_walk_iff [of 2] by auto
  note S = vm_reach_safe [OF demo_reach]
  have "p = q \<Longrightarrow> (1 :: nat) = 2" using S [THEN conjunct1] pq by blast
  then have "p \<noteq> q" by auto
  moreover have "4096 \<le> unat p \<and> bit_at (phys_bitmap demo) (unat p div 4096)"
    using S [THEN conjunct2, THEN conjunct1] pq(1) by blast
  moreover have "pde_of demo 0 \<noteq> p"
    using S [THEN conjunct2, THEN conjunct2, THEN conjunct1] pq(1) by auto
  moreover have "n_malloc demo 100 \<noteq> None \<and> n_free demo (U2VA 8192) 1 \<noteq> None \<and>
      put_data demo (U2VA 0) (Some (\<lambda>_. 0)) 9 \<noteq> None"
    using S [THEN conjunct2, THEN conjunct2, THEN conjunct2, THEN conjunct2] by simp
  ultimately show ?thesis using pq by blast
qed

end
