(* ===== verification/VM_ThreadProperties.thy ===== *)
theory VM_ThreadProperties
  imports VM_Threads VM_Properties
begin

text \<open>
  Properties of any number of threads in \<open>n_malloc\<close>, \<open>n_free\<close> and \<open>translate\<close> at once: what holds
  whatever the order of their critical sections, and what holds when no frame is taken or given back
  between the two halves of the unlocked \<open>clear_bit\<close>.
\<close>

section \<open>A state that is reached\<close>

text \<open>A block of two pages is there, thread 3 translates an address in it and thread 4 allocates.\<close>

definition shared_demo :: conc where
  "shared_demo = \<lparr>vm_of = demo, pt_holder = None, doing = \<lambda>_. Idle, blocks = {(run_base 1, 2)}\<rparr>"

lemma shared_demo_reach: "vreach_if guarded shared_demo"
proof -
  let ?c = "\<lparr>vm_of = vm_booted (\<lambda>_. 0), pt_holder = None, doing = \<lambda>_. Idle, blocks = {}\<rparr>"
  have "run_base 1 \<noteq> 0" by (simp add: run_base_eq_0_iff)
  then have "rtranclp (vstep_if guarded) ?c shared_demo"
    using malloc_schedule [OF conc_inv_start [of "\<lambda>_. 0"], of 0 5000 "run_base 1" demo] demo_malloc
    by (simp add: shared_demo_def page_count_5000)
  then show ?thesis by (rule vreach_rtranclp) (rule vreach_if.start)
qed

lemma first_run_base_1: "first (run_base 1) = 1"
  using vpn_of_page_addr [of 1 0] by (simp add: page_addr_def)

definition busy_demo :: conc where
  "busy_demo = shared_demo\<lparr>doing := (\<lambda>_. Idle)(3 := Look (run_base 1))\<rparr>"

lemma busy_demo_reach: "vreach_if guarded busy_demo"
proof -
  have "vstep_if guarded shared_demo (shared_demo\<lparr>doing := (doing shared_demo)(3 := Look (run_base 1))\<rparr>)"
    by (rule vstep_if.translate [of _ _ "run_base 1" 2]) (simp_all add: shared_demo_def run_pages_def first_run_base_1)
  then show ?thesis
    using vreach_if.step [OF shared_demo_reach] by (simp add: busy_demo_def shared_demo_def)
qed

section \<open>Any interleaving\<close>



text \<open>C12: Frames have one owner as long as no section that takes \<open>phys_bit_lock\<close> runs between the read and
  the write of another thread's \<open>clear_bit\<close> for a page table, which \<open>n_free\<close> calls without that lock;
  so in every interleaving if the call took it. Then, in every state that is reached, every page of a
  block is mapped to a frame of its own, which the bitmap marks as used and which is no page table; and
  the frame a call has taken and not mapped yet is marked, is no page table, is mapped nowhere, and no
  other call has taken it.\<close>

theorem guarded_frames_owned:
  assumes "vreach_if guarded c"
  shows "(\<forall>b n v. (b, n) \<in> blocks c \<and> v \<in> run_pages b n \<longrightarrow> (\<exists>p. walk (vm_of c) v = Some p \<and>
       used_frame (bit_at (phys_bitmap (vm_of c))) p \<and> (\<forall>i < 1024. pde_of (vm_of c) i \<noteq> p) \<and>
       (\<forall>w. walk (vm_of c) w = Some p \<longrightarrow> w = v))) \<and>
    (\<forall>t p. p \<in> frames_of (doing c t) \<longrightarrow> used_frame (bit_at (phys_bitmap (vm_of c))) p \<and>
       (\<forall>i < 1024. pde_of (vm_of c) i \<noteq> p) \<and> (\<forall>v. walk (vm_of c) v \<noteq> Some p) \<and>
       (\<forall>u. p \<in> frames_of (doing c u) \<longrightarrow> u = t))"
proof -
  note inv = guarded_reach_inv [OF assms]
  note D = sharingD [OF conc_invD(2) [OF inv]]
  note F = frames_invD [OF vm_coreD(5) [OF conc_invD(1) [OF inv]]]
  have "\<exists>p. walk (vm_of c) v = Some p \<and> used_frame (bit_at (phys_bitmap (vm_of c))) p \<and>
      (\<forall>i < 1024. pde_of (vm_of c) i \<noteq> p) \<and> (\<forall>w. walk (vm_of c) w = Some p \<longrightarrow> w = v)"
    if "(b, n) \<in> blocks c" "v \<in> run_pages b n" for b n v
  proof -
    have "v \<in> mapped (doing c) (blocks c) (Inr (b, n))" using that by (simp add: mapped_def)
    then obtain p where "walk (vm_of c) v = Some p" using D(5) [of v] by blast
    then show ?thesis using F(5,7,8) by blast
  qed
  moreover have "held (pde_of (vm_of c)) (walk (vm_of c)) (bit_at (phys_bitmap (vm_of c))) p"
    "p \<in> frames_of (doing c u) \<Longrightarrow> u = t" if "p \<in> frames_of (doing c t)" for p t u
    using D(6) [OF that] D(7) [OF that] by blast+
  ultimately show ?thesis unfolding held_def by blast
qed

theorem guarded_frames_owned_witness:
  "\<exists>p. walk demo 2 = Some p \<and> used_frame (bit_at (phys_bitmap demo)) p \<and> (\<forall>w. walk demo w = Some p \<longrightarrow> w = 2)"
proof -
  have "2 \<in> run_pages (run_base 1) 2" unfolding run_pages_def first_run_base_1 by simp
  moreover have "(run_base 1, 2) \<in> blocks busy_demo" "vm_of busy_demo = demo" by (simp_all add: busy_demo_def shared_demo_def)
  ultimately show ?thesis using guarded_frames_owned [OF busy_demo_reach] by metis
qed

text \<open>C11: From every reachable state there is a bound on the number of sections that threads can run
  before a new call begins, whatever the schedule, and when no section can run every call has
  returned: the calls neither deadlock on \<open>page_table_lock\<close> nor run for ever.\<close>

theorem concurrent_calls_return:
  assumes "vreach c"
  shows "\<exists>N. \<forall>k c'. (runs ^^ k) c c' \<longrightarrow> k \<le> N \<and> ((\<forall>c''. \<not> runs c' c'') \<longrightarrow> (\<forall>t. doing c' t = Idle))"
proof (intro exI allI impI)
  fix k c' assume r: "(runs ^^ k) c c'"
  have "rtranclp vstep c c'" using r
    by (induction k arbitrary: c') (auto dest: runs_vstep intro: rtranclp.rtrancl_into_rtrancl)
  then have "vreach c'" using assms by (rule vreach_rtranclp)
  then show "k \<le> work_left c \<and> ((\<forall>c''. \<not> runs c' c'') \<longrightarrow> (\<forall>t. doing c' t = Idle))"
    using runs_bound [OF r active_finite [OF assms]] runs_possible [OF vreach_sane] by fastforce
qed

theorem concurrent_calls_return_witness:
  "\<exists>N. \<forall>k c'. (runs ^^ k) busy_demo c' \<longrightarrow> k \<le> N \<and> ((\<forall>c''. \<not> runs c' c'') \<longrightarrow> (\<forall>t. doing c' t = Idle))"
  by (rule concurrent_calls_return [OF guarded_vreach [OF busy_demo_reach]])

end
