(* ===== verification/VM_Race.thy ===== *)
theory VM_Race
  imports VM_Threads VM_Properties
begin

text \<open>
  \<open>translate\<close> returns a pointer into the TLB and has given back \<open>tlb_lock\<close> by then. A schedule in
  which another thread's \<open>TLB_add\<close> overwrites the entry before the pointer is used: one block of 512
  pages fills the TLB, a thread translates an address of it, another allocates a page.
\<close>

section \<open>A round of n\_malloc and the TLB\<close>

lemma map_page_tlb: "map_page s pd va pa = Some (0, s') \<Longrightarrow> tlb_store s' = snd (TLB_add (tlb_store s) va pa)"
  by (auto simp: map_page_def ensure_table_def Let_def allocate_phys_page_def memset0_page_def write_pde_def st32_def
      set_phys_bit_def set_virt_bit_def split: if_splits option.splits prod.splits Option.bind_splits)

text \<open>The TLB with \<open>k\<close> entries in use and no eviction yet.\<close>

definition tlb_filled :: "tlb \<Rightarrow> nat \<Rightarrow> bool" where
  "tlb_filled t k \<longleftrightarrow> tlb_ok t \<and> tlb_count t = k \<and> tlb_next_evict t = 0 \<and> (\<forall>j < k. te_valid (tlb_entries t j))"

lemma malloc_round:
  assumes inv: "vm_inv s" and i: "i < n" and st: "1 \<le> st" "st + n \<le> 1048576" and none: "walk s (st + i) = None"
    and frames: "n - i + missing_tables s \<le> free_frames s"
  obtains p s2 where "malloc_loop s (run_base st) i n = malloc_loop s2 (run_base st) (Suc i) n" "vm_inv s2"
    "walk s2 = (walk s)(st + i \<mapsto> p)" "\<And>v. bit_at (virt_bitmap s2) v \<longleftrightarrow> v = st + i \<or> bit_at (virt_bitmap s) v"
    "n - Suc i + missing_tables s2 \<le> free_frames s2"
    "tlb_store s2 = snd (TLB_add (tlb_store s) (U2VA (page_addr (VA2U (run_base st)) i)) (U2VA p))" "p \<noteq> INVALID_PA"
    "free_frames s2 + missing_tables s + 1 = free_frames s + missing_tables s2"
proof -
  let ?va = "page_addr (VA2U (run_base st)) i"
  have vpn: "vpn_of ?va = st + i" using i st(2) by (intro vpn_of_page_addr) simp
  from inv show thesis
  proof (cases rule: allocate_spec)
    case none
    then show thesis using free_frames_0 [OF none(2)] i frames by simp
  next
    case (some p f)
    let ?s1 = "s\<lparr>phys_bitmap := set_bit (phys_bitmap s) f\<rparr>"
    have ff: "free_frames s = Suc (free_frames ?s1)" "missing_tables ?s1 = missing_tables s"
      using some(3,5) free_frames_take [of f s ?s1] by (auto simp: missing_tables_def)
    have owned: "used_frame (bit_at (phys_bitmap ?s1)) (VA2U (U2VA p))"
        "\<forall>i < 1024. pde_of ?s1 i \<noteq> VA2U (U2VA p)" "\<And>v. walk ?s1 v \<noteq> Some (VA2U (U2VA p))"
        "walk ?s1 (vpn_of (VA2U (U2VA ?va))) = None"
      using some(7-9) none by (simp_all add: vpn)
    from some(6) owned show thesis
    proof (cases rule: map_page_spec)
      case full
      have "0 < missing_tables s" "free_frames ?s1 = 0"
        using full(2) missing_tables_pos [of "unat (PDX ?va)" s] free_frames_0 [OF full(3)] by auto
      then show thesis using ff(1) i frames by linarith
    next
      case (mapped s2)
      have "malloc_loop s (run_base st) i n = malloc_loop s2 (run_base st) (Suc i) n"
        using i some(1,2) mapped(1) unfolding page_addr_def by (subst malloc_loop.simps) (simp add: Let_def)
      then show thesis
        using map_page_tlb [OF mapped(1)] mapped(2-4,7) ff frames i some(2)
        by (intro that [of s2 p]) (simp_all add: vpn)
    qed
  qed
qed

text \<open>The page was not mapped, so it was not in the TLB.\<close>

lemma tlb_miss:
  assumes "vm_inv s" "walk s (vpn_of va) = None"
  shows "tlb_find (tlb_store s) (drop_bit PFN_SHIFT va) = None"
proof -
  have "tlb_map (tlb_store s) (drop_bit PFN_SHIFT va) = None"
    using map_leD [OF _ vm_invD(7) [OF assms(1)], of "drop_bit PFN_SHIFT va"] assms(2)
    by (cases "tlb_map (tlb_store s) (drop_bit PFN_SHIFT va)") (auto simp: unat_shift_vpn)
  then show ?thesis by (simp add: tlb_map_def)
qed

lemma tlb_filled_add:
  assumes "tlb_filled t k" "k < TLB_ENTRIES" "tlb_find t (drop_bit PFN_SHIFT (VA2U va)) = None" "va \<noteq> 0" "VA2U pa \<noteq> INVALID_PA"
  shows "tlb_filled (snd (TLB_add t va pa)) (Suc k)"
  using assms tlb_ok_add [of t va pa] by (auto simp: tlb_filled_def TLB_add_def Let_def less_Suc_eq)

text \<open>A block that fills the TLB no further than its end.\<close>

lemma malloc_loop_fills:
  assumes "vm_inv s" "i \<le> n" "1 \<le> st" "st + n \<le> 1048576" "\<And>k. i \<le> k \<Longrightarrow> k < n \<Longrightarrow> walk s (st + k) = None"
    and "n - i + missing_tables s \<le> free_frames s" "tlb_filled (tlb_store s) k" "k + (n - i) \<le> TLB_ENTRIES"
  shows "\<exists>s'. malloc_loop s (run_base st) i n = Some (run_base st, s') \<and> vm_inv s' \<and>
    (\<forall>v. bit_at (virt_bitmap s') v \<longrightarrow> bit_at (virt_bitmap s) v \<or> st \<le> v \<and> v < st + n) \<and>
    dom (walk s') = dom (walk s) \<union> {st + i..<st + n} \<and>
    tlb_filled (tlb_store s') (k + (n - i)) \<and> free_frames s' + missing_tables s + (n - i) = free_frames s + missing_tables s'"
  using assms
proof (induction "n - i" arbitrary: s i k)
  case 0
  then show ?case by (subst malloc_loop.simps) simp
next
  case (Suc m)
  then have i: "i < n" by simp
  have ok: "block_ok (run_base st) n" using Suc.prems(3,4) i vpn_of_page_addr [of st 0] by (simp add: block_ok_def page_addr_def)
  note B = block_page [OF ok i]
  have v: "first (run_base st) = st" using Suc.prems(4) i vpn_of_page_addr [of st 0] by (simp add: page_addr_def)
  have none: "walk s (st + i) = None" using Suc.prems(5) i by simp
  obtain p s2 where s2: "malloc_loop s (run_base st) i n = malloc_loop s2 (run_base st) (Suc i) n" "vm_inv s2"
    "walk s2 = (walk s)(st + i \<mapsto> p)" "\<And>v. bit_at (virt_bitmap s2) v \<longleftrightarrow> v = st + i \<or> bit_at (virt_bitmap s) v"
    "n - Suc i + missing_tables s2 \<le> free_frames s2"
    "tlb_store s2 = snd (TLB_add (tlb_store s) (U2VA (page_addr (VA2U (run_base st)) i)) (U2VA p))" "p \<noteq> INVALID_PA"
    "free_frames s2 + missing_tables s + 1 = free_frames s + missing_tables s2"
    by (rule malloc_round [OF Suc.prems(1) i Suc.prems(3,4) none Suc.prems(6)]) blast
  have "tlb_find (tlb_store s) (drop_bit PFN_SHIFT (VA2U (U2VA (page_addr (VA2U (run_base st)) i)))) = None"
    using tlb_miss [OF Suc.prems(1), of "page_addr (VA2U (run_base st)) i"] none B(1) v by simp
  then have t: "tlb_filled (tlb_store s2) (Suc k)"
    unfolding s2(6) using Suc.prems(7,8) i B(6) s2(7) by (intro tlb_filled_add) auto
  have "\<exists>s'. malloc_loop s2 (run_base st) (Suc i) n = Some (run_base st, s') \<and> vm_inv s' \<and>
    (\<forall>v. bit_at (virt_bitmap s') v \<longrightarrow> bit_at (virt_bitmap s2) v \<or> st \<le> v \<and> v < st + n) \<and>
    dom (walk s') = dom (walk s2) \<union> {st + Suc i..<st + n} \<and>
    tlb_filled (tlb_store s') (Suc k + (n - Suc i)) \<and>
    free_frames s' + missing_tables s2 + (n - Suc i) = free_frames s2 + missing_tables s'"
    by (rule Suc.hyps(1)) (use Suc.hyps(2) Suc.prems s2 t i in auto)
  then obtain s' where s': "malloc_loop s2 (run_base st) (Suc i) n = Some (run_base st, s')" "vm_inv s'"
    "\<And>v. bit_at (virt_bitmap s') v \<Longrightarrow> bit_at (virt_bitmap s2) v \<or> st \<le> v \<and> v < st + n"
    "dom (walk s') = dom (walk s2) \<union> {st + Suc i..<st + n}" "tlb_filled (tlb_store s') (Suc k + (n - Suc i))"
    "free_frames s' + missing_tables s2 + (n - Suc i) = free_frames s2 + missing_tables s'" by blast
  have "dom (walk s') = dom (walk s) \<union> {st + i..<st + n}" using s'(4) s2(3) i by auto
  moreover have "Suc k + (n - Suc i) = k + (n - i)" using i by simp
  with s'(5) have "tlb_filled (tlb_store s') (k + (n - i))" by (simp only:)
  moreover have "bit_at (virt_bitmap s) v \<or> st \<le> v \<and> v < st + n" if "bit_at (virt_bitmap s') v" for v
    using s'(3) [OF that] s2(4) [of v] i by auto
  moreover have "free_frames s' + missing_tables s + (n - i) = free_frames s + missing_tables s'"
    using s'(6) s2(8) i by linarith
  ultimately show ?case using s2(1) s'(1,2) by metis
qed

lemma n_malloc_run:
  assumes inv: "vm_inv s" and n: "page_count nbytes \<noteq> 0" and fr: "free_run s st0 (page_count nbytes)"
  obtains st where "n_malloc s nbytes =
      malloc_loop (s\<lparr>virt_bitmap := set_run (virt_bitmap s) st (page_count nbytes)\<rparr>) (run_base st) 0 (page_count nbytes)"
    "free_run s st (page_count nbytes)" "st \<le> st0"
proof -
  let ?num = "(nbytes + of_nat PGSIZE - 1) div of_nat PGSIZE"
  have count: "unat ?num = page_count nbytes" by (simp add: page_count_def)
  have pos: "0 < unat ?num" using n count by linarith
  then have num: "?num \<noteq> 0" "unat ?num < 1048576" using page_count_le [of nbytes] count by (auto simp: unat_gt_0)
  have "nbytes \<noteq> 0" using n by (auto simp: page_count_def PGSIZE_def)
  then have def: "n_malloc s nbytes = (let (base_va, s2) = get_next_avail s ?num
      in if base_va = 0 then Some (0, s2) else malloc_loop s2 base_va 0 (page_count nbytes))"
    using num(1) vm_invD(1) [OF inv] unfolding count [symmetric] by (simp add: n_malloc_def Let_def)
  from vm_invD(4) [OF inv] num show thesis
  proof (cases rule: get_next_avail_run)
    case none
    then show thesis using fr count by simp
  next
    case (run st)
    have "1 \<le> st" "st < 1048576" using run(2) pos unfolding free_run_def by linarith+
    then have "run_base st \<noteq> 0" by (subst run_base_eq_0_iff) auto
    then show thesis using run fr def count by (intro that [of st]) simp_all
  qed
qed

section \<open>The schedule\<close>

lemma page_count_block: "page_count 2097152 = 512" "page_count 1 = 1"
  by (simp_all add: page_count_def PGSIZE_def)

lemma missing_tables_le: "missing_tables s \<le> 1024"
proof -
  have "missing_tables s \<le> card {..<1024::nat}" unfolding missing_tables_def by (rule card_mono) auto
  then show ?thesis by simp
qed

lemma tlb_filled_booted: "tlb_filled (tlb_store (vm_booted h)) 0"
  by (simp add: tlb_filled_def vm_booted_def tlb_ok_reset) (simp add: tlb_reset_def)

text \<open>The block of 512 pages.\<close>

lemma full_block:
  obtains s where "n_malloc (vm_booted h) 2097152 = Some (run_base 1, s)" "vm_inv s" "dom (walk s) = {1..<513}"
    "tlb_filled (tlb_store s) 512" "free_run s 513 1" "1 + missing_tables s \<le> free_frames s"
proof -
  let ?s = "vm_booted h"
  have inv: "vm_inv ?s" by (rule vm_inv_booted)
  have fr: "free_run ?s 1 (page_count 2097152)" unfolding page_count_block by (rule free_run_booted) simp_all
  obtain st where st: "n_malloc ?s 2097152 = malloc_loop (?s\<lparr>virt_bitmap := set_run (virt_bitmap ?s) st 512\<rparr>) (run_base st) 0 512"
    "free_run ?s st 512" "st \<le> 1" using n_malloc_run [OF inv _ fr] unfolding page_count_block by auto
  have "st = 1" using st(2,3) by (simp add: free_run_def)
  note st = st(1) [unfolded this]
  let ?s1 = "?s\<lparr>virt_bitmap := set_run (virt_bitmap ?s) 1 512\<rparr>"
  have eq: "walk ?s1 = walk ?s" "missing_tables ?s1 = missing_tables ?s" "free_frames ?s1 = free_frames ?s"
    using tables_same [of ?s1 ?s] by (simp_all add: missing_tables_def free_frames_def)
  have "\<exists>s'. malloc_loop ?s1 (run_base 1) 0 512 = Some (run_base 1, s') \<and> vm_inv s' \<and>
    (\<forall>v. bit_at (virt_bitmap s') v \<longrightarrow> bit_at (virt_bitmap ?s1) v \<or> 1 \<le> v \<and> v < 1 + 512) \<and>
    dom (walk s') = dom (walk ?s1) \<union> {1 + 0..<1 + 512} \<and>
    tlb_filled (tlb_store s') (0 + (512 - 0)) \<and> free_frames s' + missing_tables ?s1 + (512 - 0) = free_frames ?s1 + missing_tables s'"
  proof (rule malloc_loop_fills)
    show "512 - 0 + missing_tables ?s1 \<le> free_frames ?s1"
      using missing_tables_le [of ?s] unfolding eq by (simp add: free_frames_booted)
  qed (use vm_inv_reserve [OF inv] tlb_filled_booted eq in \<open>simp_all add: walk_booted TLB_ENTRIES_def\<close>)
  then obtain s' where s': "malloc_loop ?s1 (run_base 1) 0 512 = Some (run_base 1, s')" "vm_inv s'"
    "\<forall>v. bit_at (virt_bitmap s') v \<longrightarrow> bit_at (virt_bitmap ?s1) v \<or> 1 \<le> v \<and> v < 1 + 512"
    "dom (walk s') = dom (walk ?s1) \<union> {1 + 0..<1 + 512}" "tlb_filled (tlb_store s') (0 + (512 - 0))"
    "free_frames s' + missing_tables ?s1 + (512 - 0) = free_frames ?s1 + missing_tables s'" by blast
  have "\<not> bit_at (virt_bitmap ?s) 513" using free_run_booted [of 513 1 h] by (simp add: free_run_def run_free_def)
  then have "\<not> bit_at (virt_bitmap s') 513" using s'(3) by (auto simp: bit_at_set_run)
  then have "free_run s' 513 1" by (simp add: free_run_def run_free_def)
  moreover have "dom (walk s') = {1..<513}" using s'(4) eq(1) by (simp add: walk_booted dom_def)
  moreover have "1 + missing_tables s' \<le> free_frames s'"
    using s'(6) eq free_frames_booted [of h] missing_tables_booted [of h] by linarith
  ultimately show thesis using st s'(1,2,5) by (intro that [of s']) simp_all
qed

text \<open>The next page replaces entry 0.\<close>

lemma next_page:
  assumes inv: "vm_inv s" and t: "tlb_filled (tlb_store s) 512" and fr: "free_run s st0 1" and frames: "1 + missing_tables s \<le> free_frames s"
  obtains st s' where "n_malloc s 1 = Some (run_base st, s')" "vm_inv s'" "walk s st = None"
    "walk s' st = Some (te_pte (tlb_entries (tlb_store s') 0))"
proof -
  obtain st where st: "n_malloc s 1 = malloc_loop (s\<lparr>virt_bitmap := set_run (virt_bitmap s) st 1\<rparr>) (run_base st) 0 1"
    "free_run s st 1" using n_malloc_run [OF inv, of 1 st0] fr unfolding page_count_block by auto
  let ?s1 = "s\<lparr>virt_bitmap := set_run (virt_bitmap s) st 1\<rparr>"
  have eq: "walk ?s1 = walk s" "missing_tables ?s1 = missing_tables s" "free_frames ?s1 = free_frames s"
    using tables_same [of ?s1 s] by (simp_all add: missing_tables_def free_frames_def)
  have r: "1 \<le> st" "st + 1 \<le> 1048576" using st(2) by (simp_all add: free_run_def)
  have none: "walk s st = None" using free_run_unmapped [OF inv st(2), of 0] by simp
  then have none1: "walk ?s1 (st + 0) = None" by (simp add: eq)
  have fr1: "1 - 0 + missing_tables ?s1 \<le> free_frames ?s1" using frames unfolding eq by simp
  let ?va = "U2VA (page_addr (VA2U (run_base st)) 0)"
  obtain p s2 where s2: "malloc_loop ?s1 (run_base st) 0 1 = malloc_loop s2 (run_base st) (Suc 0) 1" "vm_inv s2"
    "walk s2 = (walk ?s1)(st + 0 \<mapsto> p)" "tlb_store s2 = snd (TLB_add (tlb_store ?s1) ?va (U2VA p))" "p \<noteq> INVALID_PA"
    by (rule malloc_round [OF vm_inv_reserve [OF inv] zero_less_one r none1 fr1]) blast
  have v: "vpn_of (VA2U ?va) = st" using r(2) vpn_of_page_addr [of st 0] by simp
  have ok: "block_ok (run_base st) 1" using r vpn_of_page_addr [of st 0] by (simp add: block_ok_def page_addr_def)
  have miss: "tlb_find (tlb_store s) (drop_bit PFN_SHIFT (VA2U ?va)) = None" using tlb_miss [OF inv, of "VA2U ?va"] none v by simp
  have "tlb_entries (tlb_store s2) 0 = \<lparr>te_vpn = drop_bit PFN_SHIFT (VA2U ?va), te_pfn = drop_bit PFN_SHIFT (VA2U (U2VA p)),
      te_pte = VA2U (U2VA p), te_valid = True\<rparr>"
    using TLB_add_miss(2) [OF block_page(6) [OF ok zero_less_one], of "U2VA p" "tlb_store s"] miss s2(4,5) t
    by (simp add: victim_def tlb_filled_def TLB_ENTRIES_def)
  moreover have "malloc_loop s2 (run_base st) (Suc 0) 1 = Some (run_base st, s2)" by (subst malloc_loop.simps) simp
  ultimately show thesis using st(1) s2(1-3) none by (intro that [of st s2]) simp_all
qed

text \<open>A hit on entry 0, and a thread that got the pointer to it.\<close>

lemma hit_entry_0:
  assumes inv: "vm_inv s" and t: "tlb_filled (tlb_store s) k" "0 < k"
  obtains v where "walk s v \<noteq> None" "vpn_of (VA2U (run_base v)) = v" "TLB_check (tlb_store s) (run_base v) = Some 0"
proof -
  let ?e = "tlb_entries (tlb_store s) 0" and ?v = "unat (te_vpn (tlb_entries (tlb_store s) 0))"
  have e: "te_valid ?e" "tlb_ok (tlb_store s)" using t by (simp_all add: tlb_filled_def)
  have "tlb_map (tlb_store s) (te_vpn ?e) = Some (te_pte ?e)"
    unfolding tlb_map_iff [OF e(2)] using e(1) by (intro exI [of _ 0]) simp
  then have w: "walk s ?v = Some (te_pte ?e)" using map_leD [OF _ vm_invD(7) [OF inv]] by fastforce
  then have n: "?v < 1048576" by (auto simp: walk_def split: if_splits)
  then have v: "vpn_of (VA2U (run_base ?v)) = ?v" using vpn_of_page_addr [of ?v 0] by (simp add: page_addr_def)
  then have sh: "drop_bit PFN_SHIFT (VA2U (run_base ?v)) = te_vpn ?e"
    using unat_shift_vpn [of "VA2U (run_base ?v)"] by (metis word_eq_iff_unsigned)
  have na: "VA2U (run_base ?v) \<noteq> INVALID_PA"
  proof
    assume z: "VA2U (run_base ?v) = INVALID_PA"
    have "unat INVALID_PA mod 4096 = 0" using run_base_offset [OF n] unfolding z by simp
    then show False by (simp add: unat_INVALID_PA)
  qed
  have "TLB_check (tlb_store s) (run_base ?v) = Some 0"
    using tlb_find_valid [OF e(2) TLB_ENTRIES_pos e(1) refl] na sh by (simp add: TLB_check_eq)
  then show thesis using w v by (intro that [of ?v]) simp_all
qed

lemma full_tlb_reader:
  obtains c v where "vreach_if guarded c" "doing c = (\<lambda>_. Idle)(0 := Got (run_base v) (TlbPte 0))" "pt_holder c = None"
    "vpn_of (VA2U (run_base v)) = v" "walk (vm_of c) v \<noteq> None"
    "tlb_filled (tlb_store (vm_of c)) 512" "free_run (vm_of c) 513 1" "1 + missing_tables (vm_of c) \<le> free_frames (vm_of c)"
proof -
  let ?c0 = "\<lparr>vm_of = vm_booted (\<lambda>_. 0), pt_holder = None, doing = \<lambda>_. Idle, blocks = {}\<rparr>"
  obtain s where s: "n_malloc (vm_booted (\<lambda>_. 0)) 2097152 = Some (run_base 1, s)" "vm_inv s" "dom (walk s) = {1..<513}"
    "tlb_filled (tlb_store s) 512" "free_run s 513 1" "1 + missing_tables s \<le> free_frames s" by (rule full_block)
  let ?c1 = "\<lparr>vm_of = s, pt_holder = None, doing = \<lambda>_. Idle, blocks = {(run_base 1, 512)}\<rparr>"
  have "run_base 1 \<noteq> 0" by (simp add: run_base_eq_0_iff)
  then have "rtranclp (vstep_if guarded) ?c0 ?c1"
    using malloc_schedule [OF conc_inv_start [of "\<lambda>_. 0"], of 0 2097152 "run_base 1" s] s(1) by (simp add: page_count_block)
  then have r1: "vreach_if guarded ?c1" by (rule vreach_rtranclp) (rule vreach_if.start)
  obtain v where v: "walk s v \<noteq> None" "vpn_of (VA2U (run_base v)) = v" "TLB_check (tlb_store s) (run_base v) = Some 0"
    by (rule hit_entry_0 [OF s(2,4)]) simp
  let ?s' = "s\<lparr>tlb_lookups := tlb_lookups s + 1\<rparr>"
  have tr: "translate s (page_dir s) (run_base v) = Some (Some (TlbPte 0), ?s')" using v(3) by (simp add: translate_def Let_def)
  let ?c2 = "\<lparr>vm_of = ?s', pt_holder = None, doing = (\<lambda>_. Idle)(0 := Got (run_base v) (TlbPte 0)), blocks = {(run_base 1, 512)}\<rparr>"
  have "v \<in> {1..<513}" using v(1) s(3) by blast
  then have "first (run_base v) \<in> run_pages (run_base 1) 512"
    using vpn_of_page_addr [of 1 0] by (simp add: v(2) run_pages_def page_addr_def)
  then have "rtranclp (vstep_if guarded) ?c1 ?c2"
    using translate_schedule [OF guarded_reach_inv [OF r1], of 0 "run_base 1" 512 "run_base v" "TlbPte 0" ?s'] tr by simp
  then have r2: "vreach_if guarded ?c2" using r1 by (rule vreach_rtranclp)
  have "walk ?s' = walk s" "missing_tables ?s' = missing_tables s" "free_frames ?s' = free_frames s" "free_run ?s' 513 1"
    using tables_same [of ?s' s] s(5) by (simp_all add: missing_tables_def free_frames_def free_run_def)
  then show thesis using r2 v(1,2) s(4,6) by (intro that [of ?c2 v]) simp_all
qed

text \<open>C22: \<open>translate\<close> returns a pointer into the TLB that no lock protects when the caller reads through
  it: in a reachable state a thread holds the pointer it was given for an address of a mapped page,
  and the entry it points to holds the frame of another page, because another thread's \<open>n_malloc\<close> has
  replaced the entry. A \<open>put_data\<close> or \<open>get_data\<close> that uses the pointer then accesses the wrong page.\<close>

theorem tlb_pointer_dangles:
  "\<exists>c t va i q. vreach c \<and> doing c t = Got va (TlbPte i) \<and> walk (vm_of c) (vpn_of (VA2U va)) \<noteq> None \<and>
     deref_pte (vm_of c) (TlbPte i) = Some q \<and> walk (vm_of c) (vpn_of (VA2U va)) \<noteq> Some q \<and>
     (\<exists>v. walk (vm_of c) v = Some q)"
proof -
  obtain c v where c: "vreach_if guarded c" "doing c = (\<lambda>_. Idle)(0 := Got (run_base v) (TlbPte 0))" "pt_holder c = None"
    "vpn_of (VA2U (run_base v)) = v" "walk (vm_of c) v \<noteq> None"
    "tlb_filled (tlb_store (vm_of c)) 512" "free_run (vm_of c) 513 1" "1 + missing_tables (vm_of c) \<le> free_frames (vm_of c)"
    by (rule full_tlb_reader)
  have inv: "vm_inv (vm_of c)" by (rule unlocked_vm_inv [OF guarded_reach_inv [OF c(1)] c(3)])
  obtain st s where s: "n_malloc (vm_of c) 1 = Some (run_base st, s)" "vm_inv s" "walk (vm_of c) st = None"
    "walk s st = Some (te_pte (tlb_entries (tlb_store s) 0))" by (rule next_page [OF inv c(6-8)])
  let ?c = "c\<lparr>vm_of := s, blocks := blocks c \<union> (if run_base st = 0 then {} else {(run_base st, page_count 1)})\<rparr>"
  have "doing c 1 = Idle" using c(2) by simp
  from malloc_schedule [OF guarded_reach_inv [OF c(1)] this c(3) s(1)] have r: "vreach_if guarded ?c" by (rule vreach_rtranclp) (rule c(1))
  have d: "doing ?c 0 = Got (run_base v) (TlbPte 0)" using c(2) by simp
  have w: "walk s v \<noteq> None"
    using touched_walk [OF guarded_reach_inv [OF r], of v 0] d c(4) by auto
  have "walk s v \<noteq> Some (te_pte (tlb_entries (tlb_store s) 0))"
    using frames_invD(7) [OF vm_invD(5) [OF s(2)] s(4), of v] s(3) c(5) by auto
  then show ?thesis
    using guarded_vreach [OF r] d w s(4) c(4)
    by (intro exI [of _ ?c] exI [of _ 0] exI [of _ "run_base v"] exI [of _ "te_pte (tlb_entries (tlb_store s) 0)"])
      (auto simp: deref_pte_def)
qed

section \<open>The setup\<close>

text \<open>
  \<open>set_physical_mem\<close> assigns \<open>phys_mem\<close> before it computes the numbers of pages, and \<open>n_malloc\<close> tests
  \<open>phys_mem\<close> without \<open>setup_lock\<close>. A call of another thread in between finds no page and answers \<open>NULL\<close>.
\<close>

lemma n_malloc_during_setup:
  "n_malloc ((vm_start h True)\<lparr>phys_ready := True\<rparr>) nbytes = Some (0, (vm_start h True)\<lparr>phys_ready := True\<rparr>)"
  by (simp add: n_malloc_def Let_def get_next_avail_def vm_start_def avail_loop.simps)

end
