(* ===== verification/VM_Lost.thy ===== *)
theory VM_Lost
  imports VM_Threads VM_Properties
begin

text \<open>
  The race on the physical bitmap. \<open>n_free\<close> gives the frame of an empty page table back with a
  \<open>clear_bit\<close> that no \<open>phys_bit_lock\<close> protects. Here an \<open>n_malloc\<close> takes a frame between the read and
  the write of that \<open>clear_bit\<close>; the write undoes its mark, the next \<open>n_malloc\<close> takes the frame again,
  and both blocks are handed out.
\<close>

section \<open>What is known of a state\<close>

definition snapshot :: "conc \<Rightarrow> (nat \<Rightarrow> u32) \<Rightarrow> (nat \<Rightarrow> u32 option) \<Rightarrow> (nat \<Rightarrow> bool) \<Rightarrow> (nat \<Rightarrow> bool) \<Rightarrow>
    (nat \<Rightarrow> activity) \<Rightarrow> nat option \<Rightarrow> (ptr \<times> nat) set \<Rightarrow> bool" where
  "snapshot c P W pb vb D L B \<longleftrightarrow> vreach c \<and> tlb_ok (tlb_store (vm_of c)) \<and> (\<forall>k < 1024. pde_of (vm_of c) k = P k) \<and>
     walk (vm_of c) = W \<and> bit_at (phys_bitmap (vm_of c)) = pb \<and> bit_at (virt_bitmap (vm_of c)) = vb \<and>
     doing c = D \<and> pt_holder c = L \<and> blocks c = B"

lemma snapshotD:
  assumes "snapshot c P W pb vb D L B"
  shows "vreach c" "tlb_ok (tlb_store (vm_of c))" "k < 1024 \<Longrightarrow> pde_of (vm_of c) k = P k" "walk (vm_of c) = W"
    "bit_at (phys_bitmap (vm_of c)) = pb" "bit_at (virt_bitmap (vm_of c)) = vb" "doing c = D" "pt_holder c = L" "blocks c = B"
    "vm_sane (vm_of c)"
  using assms conc_saneD(1) [OF vreach_sane, of c] unfolding snapshot_def by blast+

lemma snapshot_core:
  assumes s: "snapshot c P W pb vb D L B" and F: "frames_inv P W pb vb"
  shows "vm_core (vm_of c)"
proof -
  note S = snapshotD [OF s]
  have "frames_inv (pde_of (vm_of c)) W pb vb" using F S(3) unfolding frames_inv_def by auto
  then show ?thesis using vm_saneD [OF S(10)] S(2,4-6) by (simp add: vm_core_def)
qed

text \<open>A thread runs its next section.\<close>

lemma snapshot_run:
  assumes s: "snapshot c P W pb vb D L B" and t: "D t \<noteq> Idle" "locking (D t) \<Longrightarrow> L = None"
    and k: "critical (vm_of c) (D t) = Some (s', a')"
    and new: "tlb_ok (tlb_store s')" "\<And>k. k < 1024 \<Longrightarrow> pde_of s' k = P' k" "walk s' = W'" "bit_at (phys_bitmap s') = pb'"
      "bit_at (virt_bitmap s') = vb'"
  shows "\<exists>c'. snapshot c' P' W' pb' vb' (D(t := a')) (if holding a' then Some t else if holding (D t) then None else L)
    (B \<union> returned (D t))"
proof -
  note S = snapshotD [OF s]
  let ?c' = "c\<lparr>vm_of := s', doing := (doing c)(t := a'), blocks := blocks c \<union> returned (doing c t),
     pt_holder := (if holding a' then Some t else if holding (doing c t) then None else pt_holder c)\<rparr>"
  have "doing c t \<noteq> Idle" "\<not> waits c t" "advance c t = Some ?c'"
    using t k by (auto simp: waits_def advance_def S(7,8))
  from vstep_if.run [OF this(1,2) TrueI this(3)] have "vstep c ?c'" .
  then have "vreach ?c'" by (rule vreach_if.step [OF S(1)])
  then have "snapshot ?c' P' W' pb' vb' (D(t := a')) (if holding a' then Some t else if holding (D t) then None else L)
      (B \<union> returned (D t))"
    unfolding snapshot_def S(7-9) by (simp add: new)
  then show ?thesis by blast
qed

definition frame :: "nat \<Rightarrow> u32" where
  "frame f = of_nat f * of_nat PGSIZE"

lemma frame_facts:
  assumes "f < 262144"
  shows "unat (frame f) = f * 4096" "unat (drop_bit PFN_SHIFT (frame f)) = f" "frame f \<noteq> INVALID_PA"
    "0 < f \<Longrightarrow> frame f \<noteq> 0" "used_frame pb (frame f) \<longleftrightarrow> 0 < f \<and> pb f"
proof -
  show u: "unat (frame f) = f * 4096" unfolding frame_def by (rule unat_frame_addr [OF assms])
  show "unat (drop_bit PFN_SHIFT (frame f)) = f" "frame f \<noteq> INVALID_PA"
    using u frame_addr_not_invalid [OF assms] by (simp_all add: unat_shift_PFN frame_def)
  show nz: "frame f \<noteq> 0" if "0 < f"
  proof
    assume "frame f = 0"
    then have "unat (frame f) = 0" by (simp only: unat_0)
    then show False using u that by simp
  qed
  have "frame f = 0" if "f = 0" using that by (simp add: frame_def)
  then show "used_frame pb (frame f) \<longleftrightarrow> 0 < f \<and> pb f"
    using u nz assms by (cases "f = 0") (auto simp: used_frame_def MEMSIZE_def)
qed

text \<open>A page in the first page table.\<close>

lemma low_page:
  assumes "1 \<le> v" "v < 1024"
  shows "block_ok (run_base v) 1" "first (run_base v) = v" "unat (PDX (page_addr (VA2U (run_base v)) 0)) = 0"
    "unat (PTX (page_addr (VA2U (run_base v)) 0)) = v" "unat (drop_bit PFN_SHIFT (page_addr (VA2U (run_base v)) 0)) = v"
    "run_pages (run_base v) 1 = {v}"
proof -
  show f: "first (run_base v) = v" using vpn_of_page_addr [of v 0] assms by (simp add: page_addr_def)
  then show ok: "block_ok (run_base v) 1" using assms by (simp add: block_ok_def)
  show "unat (PDX (page_addr (VA2U (run_base v)) 0)) = 0" "unat (PTX (page_addr (VA2U (run_base v)) 0)) = v"
    "unat (drop_bit PFN_SHIFT (page_addr (VA2U (run_base v)) 0)) = v"
    using block_page [OF ok zero_less_one] f assms by (simp_all add: unat_shift_vpn)
  show "run_pages (run_base v) 1 = {v}" by (auto simp: run_pages_def f)
qed

section \<open>n\_malloc of a page\<close>

lemma allocate_lowest:
  assumes s: "vm_sane s" and f: "f < 262144" "\<not> bit_at (phys_bitmap s) f" "\<And>g. g < f \<Longrightarrow> bit_at (phys_bitmap s) g"
  shows "allocate_phys_page s = (frame f, s\<lparr>phys_bitmap := set_bit (phys_bitmap s) f\<rparr>)"
  using vm_saneD(3) [OF s]
proof (cases rule: allocate_phys_page_cases)
  case (some k)
  then have "k = f" using f(2,3) by (metis linorder_neqE_nat)
  then show ?thesis using some by (simp add: frame_def)
qed (use f in blast)

lemma snap_malloc:
  assumes s: "snapshot c P W pb vb D L B" and idle: "D t = Idle"
    and v: "1 \<le> v" "v < 1024" "\<not> vb v" "\<And>w. 1 \<le> w \<Longrightarrow> w < v \<Longrightarrow> vb w"
  shows "\<exists>c'. snapshot c' P W pb (vb(v := True)) (D(t := Take (run_base v) 0 1)) L B"
proof -
  note S = snapshotD [OF s]
  have pc: "page_count 1 = 1" by (simp add: page_count_def PGSIZE_def)
  have fr: "free_run (vm_of c) v 1" using v S(6) by (simp add: free_run_def run_free_def)
  have one: "(1 :: u32) \<noteq> 0" "unat (1 :: u32) < 1048576" by simp_all
  from vm_saneD(4) [OF S(10)] one have g: "get_next_avail (vm_of c) 1 =
      (run_base v, (vm_of c)\<lparr>virt_bitmap := set_run (virt_bitmap (vm_of c)) v 1\<rparr>)"
  proof (cases rule: get_next_avail_run)
    case none
    then show ?thesis using fr by simp
  next
    case (run st)
    have "st \<le> v" using run(3) [of v] fr by simp
    moreover have "1 \<le> st" "\<not> vb st" using run(2) S(6) by (simp_all add: free_run_def run_free_def)
    ultimately have "st = v" using v(4) [of st] by linarith
    then show ?thesis using run(1) by simp
  qed
  let ?s' = "(vm_of c)\<lparr>virt_bitmap := set_run (virt_bitmap (vm_of c)) v 1\<rparr>"
  let ?c' = "c\<lparr>vm_of := ?s', doing := (doing c)(t := Take (run_base v) 0 (page_count 1))\<rparr>"
  have nz: "run_base v \<noteq> 0" using v by (simp add: run_base_eq_0_iff)
  have "doing c t = Idle" "page_count 1 \<noteq> 0" "get_next_avail (vm_of c) (of_nat (page_count 1)) = (run_base v, ?s')"
    using idle g by (simp_all add: S(7) pc)
  from vstep_if.malloc [OF this nz] have "vstep c ?c'" .
  then have "vreach ?c'" by (rule vreach_if.step [OF S(1)])
  moreover have "bit_at (virt_bitmap ?s') = vb(v := True)" using S(6) by (auto simp: bit_at_set_run bitmap_simps fun_eq_iff)
  moreover have "pde_of ?s' = pde_of (vm_of c)" "walk ?s' = walk (vm_of c)"
    using tables_same [of ?s' "vm_of c"] by simp_all
  ultimately have "snapshot ?c' P W pb (vb(v := True)) (D(t := Take (run_base v) 0 1)) L B"
    unfolding snapshot_def S(7-9) by (simp add: pc S(2-9))
  then show ?thesis by blast
qed

lemma snap_Take:
  assumes s: "snapshot c P W pb vb D L B" and a: "D t = Take b i n" "i < n"
    and f: "f < 262144" "\<not> pb f" "\<And>g. g < f \<Longrightarrow> pb g"
  shows "\<exists>c'. snapshot c' P W (pb(f := True)) vb (D(t := Enter b i n (frame f))) L B"
proof -
  note S = snapshotD [OF s]
  note A = allocate_lowest [OF S(10), of f, unfolded S(5), OF f]
  let ?s' = "(vm_of c)\<lparr>phys_bitmap := set_bit (phys_bitmap (vm_of c)) f\<rparr>"
  have "pde_of ?s' = pde_of (vm_of c)" "walk ?s' = walk (vm_of c)" using tables_same [of ?s' "vm_of c"] by simp_all
  moreover have "bit_at (phys_bitmap ?s') = pb(f := True)" using S(5) by (auto simp: bitmap_simps fun_eq_iff)
  moreover have "critical (vm_of c) (D t) = Some (?s', Enter b i n (frame f))"
    using a A frame_facts(3) [OF f(1)] by simp
  ultimately show ?thesis
    using snapshot_run [OF s, of t ?s' "Enter b i n (frame f)" P W "pb(f := True)" vb] a S(2-6) by simp
qed

text \<open>The table is made: \<open>Enter\<close>, \<open>Table\<close> and \<open>Fill\<close>.\<close>

lemma snap_map_new:
  assumes s: "snapshot c P W pb vb D None B" and F: "frames_inv P W pb vb" and v: "1 \<le> v" "v < 1024" "vb v"
    and a: "D t = Enter (run_base v) 0 1 (frame f)" and p: "P 0 = 0"
    and f: "f < 262144" "0 < f" "pb f" "\<And>k. k < 1024 \<Longrightarrow> P k \<noteq> frame f" "\<And>w. W w \<noteq> Some (frame f)"
    and g: "g < 262144" "\<not> pb g" "\<And>h. h < g \<Longrightarrow> pb h"
  shows "\<exists>c'. snapshot c' (P(0 := frame g)) (W(v \<mapsto> frame f)) (pb(g := True)) vb
    (D(t := MarkPhys (run_base v) 0 1 (frame f))) None B"
proof -
  note L = low_page [OF v(1,2)]
  note S = snapshotD [OF s]
  have "critical (vm_of c) (D t) = Some (vm_of c, Table (run_base v) 0 1 (frame f))"
    using a p sane_read(1) [OF S(10), of 0] S(3) [of 0] L by (simp add: Let_def)
  then obtain c1 where s1: "snapshot c1 P W pb vb (D(t := Table (run_base v) 0 1 (frame f))) (Some t) B"
    using snapshot_run [OF s, of t "vm_of c" _ P W pb vb] a S(2-6) by auto
  note S1 = snapshotD [OF s1]
  note A = allocate_lowest [OF S1(10), of g, unfolded S1(5), OF g]
  let ?s2 = "(vm_of c1)\<lparr>phys_bitmap := set_bit (phys_bitmap (vm_of c1)) g\<rparr>"
  have same: "pde_of ?s2 = pde_of (vm_of c1)" "walk ?s2 = walk (vm_of c1)" using tables_same [of ?s2 "vm_of c1"] by simp_all
  have bits: "bit_at (phys_bitmap ?s2) = pb(g := True)" using S1(5) by (auto simp: bitmap_simps fun_eq_iff)
  have "critical (vm_of c1) (Table (run_base v) 0 1 (frame f)) = Some (?s2, Fill (run_base v) 0 1 (frame f) (frame g))"
    using A frame_facts(3) [OF g(1)] by simp
  then obtain c2 where s2: "snapshot c2 P W (pb(g := True)) vb (D(t := Fill (run_base v) 0 1 (frame f) (frame g))) (Some t) B"
    using snapshot_run [OF s1, of t ?s2 "Fill (run_base v) 0 1 (frame f) (frame g)" P W "pb(g := True)" vb] S1(2-6) same bits by auto
  note S2 = snapshotD [OF s2]
  have g0: "g \<noteq> 0" using frames_invD(1) [OF F] g(2) by metis
  have F2: "frames_inv P W (pb(g := True)) vb" by (rule frames_inv_mono [OF F]) auto
  have core: "vm_core (vm_of c2)" by (rule snapshot_core [OF s2 F2])
  have gu: "used_frame (pb(g := True)) (frame g)" "\<not> used_frame pb (frame g)" using g g0 by (simp_all add: frame_facts)
  have gP: "P k \<noteq> frame g" "W w \<noteq> Some (frame g)" if "k < 1024" for k w
    using frames_invD(2) [OF F that] frames_invD(5) [OF F, of w] gu(2) frame_facts(4) [OF g(1)] g0 by fastforce+
  have hg: "held (pde_of (vm_of c2)) (walk (vm_of c2)) (bit_at (phys_bitmap (vm_of c2))) (frame g)"
    using gu gP gP(2) [of 0] S2(3-5) by (simp add: held_def)
  have p2: "pde_of (vm_of c2) 0 = 0" using p S2(3) by simp
  obtain s3 s4 where s4: "memset0_page (vm_of c2) (unat (frame g)) = Some s3" "write_pde s3 (page_dir s3) 0 (frame g) = Some s4" "vm_core s4"
    "\<And>k. k < 1024 \<Longrightarrow> pde_of s4 k = (if k = 0 then frame g else pde_of (vm_of c2) k)" "walk s4 = walk (vm_of c2)"
    "phys_bitmap s4 = phys_bitmap (vm_of c2)" "virt_bitmap s4 = virt_bitmap (vm_of c2)" "tlb_store s4 = tlb_store (vm_of c2)"
    by (rule core_new_table [OF core _ p2 hg]) auto
  have "frame f \<noteq> frame g" using f(1,3) g(1,2) frame_facts(2) by metis
  then have hf: "held (pde_of s4) (walk s4) (bit_at (phys_bitmap s4)) (frame f)"
    using f S2(3-5) s4(4-6) by (auto simp: held_def frame_facts)
  have t0: "pde_of s4 (v div 1024) \<noteq> 0" "frame f \<noteq> 0" using s4(4) [of 0] v g0 frame_facts(4) [OF g(1)] frame_facts(4) [OF f(1,2)] by simp_all
  have vm: "v < 1048576" "frame f = 0 \<or> held (pde_of s4) (walk s4) (bit_at (phys_bitmap s4)) (frame f) \<and> bit_at (virt_bitmap s4) v"
    using v hf S2(6) s4(7) by simp_all
  obtain s5 where s5: "st32 s4 (unat (pde_of s4 (v div 1024)) + 4 * (v mod 1024)) (frame f) = Some s5" "vm_core s5"
    "\<And>k. k < 1024 \<Longrightarrow> pde_of s5 k = pde_of s4 k" "walk s5 = (walk s4)(v := if frame f = 0 then None else Some (frame f))"
    "phys_bitmap s5 = phys_bitmap s4" "virt_bitmap s5 = virt_bitmap s4" "tlb_store s5 = tlb_store s4"
    by (rule core_write_pte [OF s4(3) vm(1) t0(1) vm(2)]) blast
  have "critical (vm_of c2) (Fill (run_base v) 0 1 (frame f) (frame g)) = Some (s5, MarkPhys (run_base v) 0 1 (frame f))"
    using s4(1,2,4) s5(1) v by (simp add: Let_def L)
  then show ?thesis
    using snapshot_run [OF s2, of t s5 "MarkPhys (run_base v) 0 1 (frame f)" "P(0 := frame g)" "W(v \<mapsto> frame f)" "pb(g := True)" vb]
      s4 s5 S2(2-6) t0(2) by auto
qed

text \<open>The table is there.\<close>

lemma snap_map:
  assumes s: "snapshot c P W pb vb D None B" and F: "frames_inv P W pb vb" and v: "1 \<le> v" "v < 1024"
    and a: "D t = Enter (run_base v) 0 1 p" and p: "P 0 \<noteq> 0" "p \<noteq> 0"
  shows "\<exists>c'. snapshot c' P (W(v \<mapsto> p)) pb vb (D(t := MarkPhys (run_base v) 0 1 p)) None B"
proof -
  note L = low_page [OF v]
  note S = snapshotD [OF s]
  have core: "vm_core (vm_of c)" by (rule snapshot_core [OF s F])
  have p0: "pde_of (vm_of c) 0 = P 0" using S(3) by simp
  let ?s' = "(vm_of c)\<lparr>phys_mem := store32 (phys_mem (vm_of c)) (unat (P 0) + 4 * v) p\<rparr>"
  have W: "k < 1024 \<Longrightarrow> pde_of ?s' k = pde_of (vm_of c) k" "walk ?s' = (walk (vm_of c))(1024 * 0 + v := if p = 0 then None else Some p)" for k
    using write_pte [OF vm_coreD(5) [OF core], of 0 v ?s' p] p v p0 by simp_all
  have "st32 (vm_of c) (unat (P 0) + 4 * v) p = Some ?s'"
    using core_table(2) [OF core, of 0 v] p v p0 by (simp add: st32_def)
  then have "critical (vm_of c) (D t) = Some (?s', MarkPhys (run_base v) 0 1 p)"
    using a p p0 sane_read(1) [OF S(10), of 0] L by (simp add: Let_def)
  then show ?thesis
    using snapshot_run [OF s, of t ?s' "MarkPhys (run_base v) 0 1 p" P "W(v \<mapsto> p)" pb vb] W a p S(2-6) by simp
qed

text \<open>The bits are set, the translation goes to the TLB, \<open>n_malloc\<close> returns.\<close>

lemma snap_return:
  assumes s: "snapshot c P W pb vb D L B" and v: "1 \<le> v" "v < 1024" "vb v"
    and a: "D t = MarkPhys (run_base v) 0 1 (frame f)" and f: "f < 262144" "pb f"
  shows "\<exists>c'. snapshot c' P W pb vb (D(t := Idle)) L (insert (run_base v, 1) B)"
proof -
  note K = low_page [OF v(1,2)]
  note S = snapshotD [OF s]
  let ?b = "run_base v" and ?p = "frame f"
  let ?s1 = "(vm_of c)\<lparr>phys_bitmap := set_bit (phys_bitmap (vm_of c)) f\<rparr>"
  have "pde_of ?s1 = pde_of (vm_of c)" "walk ?s1 = walk (vm_of c)" using tables_same [of ?s1 "vm_of c"] by simp_all
  moreover have "bit_at (phys_bitmap ?s1) = pb" using S(5) f(2) by (auto simp: bitmap_simps fun_eq_iff)
  moreover have "critical (vm_of c) (D t) = Some (?s1, MarkVirt ?b 0 1 ?p)"
    using a f(1) vm_saneD(3) [OF S(10)] by (simp add: set_phys_bit_def phys_bit_ok_def frame_facts)
  ultimately obtain c1 where s1: "snapshot c1 P W pb vb (D(t := MarkVirt ?b 0 1 ?p)) L B"
    using snapshot_run [OF s, of t ?s1 "MarkVirt ?b 0 1 ?p" P W pb vb] a S(2-6) by auto
  note S1 = snapshotD [OF s1]
  let ?s2 = "(vm_of c1)\<lparr>virt_bitmap := set_bit (virt_bitmap (vm_of c1)) v\<rparr>"
  have "pde_of ?s2 = pde_of (vm_of c1)" "walk ?s2 = walk (vm_of c1)" using tables_same [of ?s2 "vm_of c1"] by simp_all
  moreover have "bit_at (virt_bitmap ?s2) = vb" using S1(6) v(3) by (auto simp: bitmap_simps fun_eq_iff)
  moreover have "critical (vm_of c1) (MarkVirt ?b 0 1 ?p) = Some (?s2, Cache ?b 0 1 ?p)"
    using v vm_saneD(4) [OF S1(10)] by (simp add: set_virt_bit_def virt_bit_ok_def K)
  ultimately obtain c2 where s2: "snapshot c2 P W pb vb (D(t := Cache ?b 0 1 ?p)) L B"
    using snapshot_run [OF s1, of t ?s2 "Cache ?b 0 1 ?p" P W pb vb] S1(2-6) by auto
  note S2 = snapshotD [OF s2]
  let ?s3 = "(vm_of c2)\<lparr>tlb_lookups := tlb_lookups (vm_of c2) + 1, tlb_misses := tlb_misses (vm_of c2) + 1,
      tlb_store := snd (TLB_add (tlb_store (vm_of c2)) (U2VA (page_addr (VA2U ?b) 0)) (U2VA ?p))\<rparr>"
  have "pde_of ?s3 = pde_of (vm_of c2)" "walk ?s3 = walk (vm_of c2)" using tables_same [of ?s3 "vm_of c2"] by simp_all
  moreover have "critical (vm_of c2) (Cache ?b 0 1 ?p) = Some (?s3, Take ?b 1 1)" by simp
  ultimately obtain c3 where s3: "snapshot c3 P W pb vb (D(t := Take ?b 1 1)) L B"
    using snapshot_run [OF s2, of t ?s3 "Take ?b 1 1" P W pb vb] S2(2-6) tlb_ok_add [OF S2(2)] by auto
  note S3 = snapshotD [OF s3]
  have "critical (vm_of c3) (Take ?b 1 1) = Some (vm_of c3, Idle)" by simp
  then show ?thesis
    using snapshot_run [OF s3, of t "vm_of c3" Idle P W pb vb] S3(2-6) by auto
qed

section \<open>n\_free of the page, up to the unlocked clear\_bit\<close>

text \<open>The call begins and the entry of the page is cleared.\<close>

lemma snap_free:
  assumes s: "snapshot c P W pb vb D None B" and F: "frames_inv P W pb vb" and v: "1 \<le> v" "v < 1024"
    and idle: "\<And>u. D u = Idle" and b: "(run_base v, 1) \<in> B" and w: "W v = Some p" "P 0 \<noteq> 0"
  shows "\<exists>c'. snapshot c' P (W(v := None)) pb vb (D(t := ClearPhys (run_base v) 0 1 (P 0) p)) (Some t) (B - {(run_base v, 1)})"
proof -
  note K = low_page [OF v]
  note S = snapshotD [OF s]
  let ?b = "run_base v"
  have pc: "page_count 1 = 1" by (simp add: page_count_def PGSIZE_def)
  let ?c0 = "c\<lparr>doing := (doing c)(t := EnterFree ?b (page_count 1)), blocks := blocks c - {(?b, page_count 1)}\<rparr>"
  have "vstep c ?c0" by (rule vstep_if.free) (use idle b in \<open>simp_all add: S(7,9) pc\<close>)
  then have "vreach ?c0" by (rule vreach_if.step [OF S(1)])
  then have s0: "snapshot ?c0 P W pb vb (D(t := EnterFree ?b 1)) None (B - {(?b, 1)})"
    unfolding snapshot_def using S(2-9) by (simp add: pc)
  note S0 = snapshotD [OF s0]
  have "critical (vm_of ?c0) (EnterFree ?b 1) = Some (vm_of ?c0, Free ?b 0 1)" by simp
  then obtain c1 where s1: "snapshot c1 P W pb vb (D(t := Free ?b 0 1)) (Some t) (B - {(?b, 1)})"
    using snapshot_run [OF s0, of t "vm_of ?c0" "Free ?b 0 1" P W pb vb] S0(2-6) by auto
  note S1 = snapshotD [OF s1]
  have core: "vm_core (vm_of c1)" by (rule snapshot_core [OF s1 F])
  have k: "pde_of (vm_of c1) 0 = P 0" "pte_of (vm_of c1) 0 v = p" "p \<noteq> 0"
    using core_walk [OF core, of v p] S1(3,4) v w by auto
  have vm: "v < 1048576" "pde_of (vm_of c1) (v div 1024) \<noteq> 0" using v w k by simp_all
  obtain s2 where s2: "st32 (vm_of c1) (unat (pde_of (vm_of c1) (v div 1024)) + 4 * (v mod 1024)) 0 = Some s2" "vm_core s2"
    "\<And>k. k < 1024 \<Longrightarrow> pde_of s2 k = pde_of (vm_of c1) k" "walk s2 = (walk (vm_of c1))(v := if (0 :: u32) = 0 then None else Some 0)"
    "phys_bitmap s2 = phys_bitmap (vm_of c1)" "virt_bitmap s2 = virt_bitmap (vm_of c1)" "tlb_store s2 = tlb_store (vm_of c1)"
    by (rule core_write_pte [OF core vm disjI1, of 0, OF refl]) blast
  have "critical (vm_of c1) (Free ?b 0 1) = Some (s2, ClearPhys ?b 0 1 (P 0) p)"
    using s2(1) k v w sane_read(1) [OF S1(10), of 0] sane_read(2) [OF S1(10), of 0 v] by (simp add: Let_def K)
  then show ?thesis
    using snapshot_run [OF s1, of t s2 "ClearPhys ?b 0 1 (P 0) p" P "W(v := None)" pb vb] s2(3-7) S1(2-6) by auto
qed

text \<open>The bits of the page and its translation go; the page table is empty, its frame is \<open>g\<close>.\<close>

lemma snap_release:
  assumes s: "snapshot c P Map.empty pb vb D (Some t) B" and v: "1 \<le> v" "v < 1024"
    and a: "D t = ClearPhys (run_base v) 0 1 (frame g) (frame f)"
    and f: "f < 262144" and g: "g < 262144" "P 0 = frame g" "0 < g" "\<And>k. 0 < k \<Longrightarrow> k < 1024 \<Longrightarrow> P k = 0"
    and pb: "pb 0" "pb g" "f \<noteq> 0" "f \<noteq> g"
  shows "\<exists>c' old. snapshot c' (P(0 := 0)) Map.empty (pb(f := False)) (vb(v := False))
      (D(t := PutBack (run_base v) 0 1 (frame g) old)) (Some t) B \<and> (\<forall>j < 8. bit old j \<longleftrightarrow> (pb(f := False)) (8 * (g div 8) + j))"
proof -
  note K = low_page [OF v]
  note S = snapshotD [OF s]
  let ?b = "run_base v" and ?p = "frame g" and ?pb = "pb(f := False)" and ?vb = "vb(v := False)"
  let ?s1 = "(vm_of c)\<lparr>phys_bitmap := clear_bit (phys_bitmap (vm_of c)) f\<rparr>"
  have "pde_of ?s1 = pde_of (vm_of c)" "walk ?s1 = walk (vm_of c)" using tables_same [of ?s1 "vm_of c"] by simp_all
  moreover have "bit_at (phys_bitmap ?s1) = ?pb" using S(5) by (auto simp: bitmap_simps fun_eq_iff)
  moreover have "critical (vm_of c) (D t) = Some (?s1, ClearVirt ?b 0 1 ?p)"
    using a f vm_saneD(3) [OF S(10)] by (simp add: clear_phys_bit_def phys_bit_ok_def frame_facts)
  ultimately obtain c1 where s1: "snapshot c1 P Map.empty ?pb vb (D(t := ClearVirt ?b 0 1 ?p)) (Some t) B"
    using snapshot_run [OF s, of t ?s1 "ClearVirt ?b 0 1 ?p" P Map.empty ?pb vb] a S(2-6) by auto
  note S1 = snapshotD [OF s1]
  let ?s2 = "(vm_of c1)\<lparr>virt_bitmap := clear_bit (virt_bitmap (vm_of c1)) v\<rparr>"
  have "pde_of ?s2 = pde_of (vm_of c1)" "walk ?s2 = walk (vm_of c1)" using tables_same [of ?s2 "vm_of c1"] by simp_all
  moreover have "bit_at (virt_bitmap ?s2) = ?vb" using S1(6) by (auto simp: bitmap_simps fun_eq_iff)
  moreover have "critical (vm_of c1) (ClearVirt ?b 0 1 ?p) = Some (?s2, Drop ?b 0 1 ?p)"
    using v vm_saneD(4) [OF S1(10)] by (simp add: clear_virt_bit_def virt_bit_ok_def K)
  ultimately obtain c2 where s2: "snapshot c2 P Map.empty ?pb ?vb (D(t := Drop ?b 0 1 ?p)) (Some t) B"
    using snapshot_run [OF s1, of t ?s2 "Drop ?b 0 1 ?p" P Map.empty ?pb ?vb] S1(2-6) by auto
  note S2 = snapshotD [OF s2]
  let ?s3 = "(vm_of c2)\<lparr>tlb_store := TLB_invalidate (tlb_store (vm_of c2)) (U2VA (page_addr (VA2U ?b) 0))\<rparr>"
  have "pde_of ?s3 = pde_of (vm_of c2)" "walk ?s3 = walk (vm_of c2)" using tables_same [of ?s3 "vm_of c2"] by simp_all
  moreover have "critical (vm_of c2) (Drop ?b 0 1 ?p) = Some (?s3, Release ?b 0 1 ?p)" by simp
  ultimately obtain c3 where s3: "snapshot c3 P Map.empty ?pb ?vb (D(t := Release ?b 0 1 ?p)) (Some t) B"
    using snapshot_run [OF s2, of t ?s3 "Release ?b 0 1 ?p" P Map.empty ?pb ?vb] S2(2-6) tlb_ok_invalidate [OF S2(2)] by auto
  note S3 = snapshotD [OF s3]
  have nz: "frame g \<noteq> 0" using frame_facts(4) [OF g(1,3)] .
  have ginv: "frames_inv P Map.empty ?pb ?vb"
    unfolding frames_inv_def
  proof (intro conjI allI impI)
    fix i assume i: "i < 1024" "P i \<noteq> 0"
    then have "i = 0" using g(4) by (cases i) auto
    then show "used_frame ?pb (P i)" using g pb by (simp add: frame_facts)
  next
    fix i k assume "i < 1024" "k < 1024" "P i \<noteq> 0" "P i = P k"
    then show "i = k" using g(4) [of i] g(4) [of k] by (cases "i = 0"; cases "k = 0") auto
  qed (use pb in auto)
  have core: "vm_core (vm_of c3)" by (rule snapshot_core [OF s3 ginv])
  have p3: "pde_of (vm_of c3) 0 = frame g" using S3(3) g(2) by simp
  have empty: "page_table_empty (vm_of c3) (unat (frame g)) \<noteq> Some False"
  proof -
    have "pte_of (vm_of c3) 0 j = 0" if "j < 1024" for j
    proof (rule ccontr)
      assume "pte_of (vm_of c3) 0 j \<noteq> 0"
      then have "walk (vm_of c3) j \<noteq> None" using that p3 nz by (simp add: walk_def)
      then show False using S3(4) by simp
    qed
    then show ?thesis
      using page_table_empty_eq [OF vm_saneD(1) [OF S3(10)], of "unat (frame g)"] used_frame_bounds [of "\<lambda>_. True" "frame g"] p3 g
      by (simp add: pte_of_def frame_facts)
  qed
  from core have "\<exists>s'. page_table_empty (vm_of c3) (unat (frame g)) = Some True \<and> write_pde (vm_of c3) (page_dir (vm_of c3)) 0 0 = Some s' \<and>
      vm_core s' \<and> (\<forall>k < 1024. pde_of s' k = (if k = 0 then 0 else pde_of (vm_of c3) k)) \<and> walk s' = walk (vm_of c3) \<and>
      phys_bitmap s' = phys_bitmap (vm_of c3) \<and> virt_bitmap s' = virt_bitmap (vm_of c3) \<and> tlb_store s' = tlb_store (vm_of c3)"
  proof (rule core_erase [of _ 0], goal_cases)
    case 3
    then show ?case using empty p3 by simp
  next
    case (4 s')
    then show ?case using p3 by (intro exI [of _ s']) auto
  qed (use p3 nz in simp_all)
  then obtain s4 where s4: "page_table_empty (vm_of c3) (unat (frame g)) = Some True" "write_pde (vm_of c3) (page_dir (vm_of c3)) 0 0 = Some s4"
    "vm_core s4" "\<And>k. k < 1024 \<Longrightarrow> pde_of s4 k = (if k = 0 then 0 else pde_of (vm_of c3) k)" "walk s4 = walk (vm_of c3)"
    "phys_bitmap s4 = phys_bitmap (vm_of c3)" "virt_bitmap s4 = virt_bitmap (vm_of c3)" "tlb_store s4 = tlb_store (vm_of c3)" by blast
  let ?old = "clear_read (phys_bitmap s4) g"
  have "critical (vm_of c3) (Release ?b 0 1 ?p) = Some (s4, PutBack ?b 0 1 ?p ?old)"
    using s4(1,2) g(1) vm_coreD(3) [OF s4(3)] by (simp add: Let_def K phys_bit_ok_def frame_facts)
  moreover have "pde_of s4 k = (P(0 := 0)) k" if "k < 1024" for k using s4(4) S3(3) that by simp
  ultimately obtain c4 where "snapshot c4 (P(0 := 0)) Map.empty ?pb ?vb (D(t := PutBack ?b 0 1 ?p ?old)) (Some t) B"
    using snapshot_run [OF s3, of t s4 "PutBack ?b 0 1 ?p ?old" "P(0 := 0)" Map.empty ?pb ?vb] s4(5-8) S3(2,4-6) by auto
  moreover have "bit ?old j \<longleftrightarrow> ?pb (8 * (g div 8) + j)" if "j < 8" for j
  proof -
    have "bit ?old j \<longleftrightarrow> bit_at (phys_bitmap s4) (8 * (g div 8) + j)" using that by (simp add: clear_read_def bit_at_def)
    then show ?thesis by (simp only: s4(6) S3(5))
  qed
  ultimately show ?thesis by blast
qed

text \<open>The late write; then \<open>n_free\<close> returns.\<close>

lemma snap_put_back:
  assumes s: "snapshot c P W pb vb D L B" and F: "frames_inv P W pb vb"
    and a: "D t = PutBack b i n (frame g) old" and g: "g < 262144" "0 < g" "\<And>k. k < 1024 \<Longrightarrow> P k \<noteq> frame g"
  shows "\<exists>c'. snapshot c' P W (\<lambda>j. if j div 8 = g div 8 then j \<noteq> g \<and> bit old (j mod 8) else pb j) vb (D(t := Free b (Suc i) n)) (Some t) B"
proof -
  note S = snapshotD [OF s]
  let ?pb = "\<lambda>j. if j div 8 = g div 8 then j \<noteq> g \<and> bit old (j mod 8) else pb j"
  have core: "vm_core (vm_of c)" by (rule snapshot_core [OF s F])
  have u: "used_frame (\<lambda>_. True) (frame g)" "k < 1024 \<Longrightarrow> pde_of (vm_of c) k \<noteq> frame g" for k
    using g S(3) by (simp_all add: frame_facts)
  obtain s1 where s1: "memset0_page (vm_of c) (unat (frame g)) = Some s1" "vm_core s1" "\<And>k. k < 1024 \<Longrightarrow> pde_of s1 k = pde_of (vm_of c) k"
    "walk s1 = walk (vm_of c)" "phys_bitmap s1 = phys_bitmap (vm_of c)" "virt_bitmap s1 = virt_bitmap (vm_of c)" "tlb_store s1 = tlb_store (vm_of c)"
    using core_wipe [OF core u(1)] u(2) by blast
  let ?s' = "s1\<lparr>phys_bitmap := clear_write old (phys_bitmap (vm_of c)) g\<rparr>"
  have "memset0_page ((vm_of c)\<lparr>phys_bitmap := clear_write old (phys_bitmap (vm_of c)) g\<rparr>) (unat (frame g)) = Some ?s'"
    using s1(1) by (auto simp: memset0_page_def in_phys_def split: if_splits)
  then have "critical (vm_of c) (D t) = Some (?s', Free b (Suc i) n)"
    using a g(1) vm_saneD(3) [OF S(10)] by (simp add: Let_def phys_bit_ok_def frame_facts)
  moreover have "pde_of ?s' = pde_of s1" "walk ?s' = walk s1" using tables_same [of ?s' s1] by simp_all
  moreover have "bit_at (phys_bitmap ?s') = ?pb" using S(5) by (auto simp: bit_at_clear_write fun_eq_iff)
  ultimately show ?thesis
    using snapshot_run [OF s, of t ?s' "Free b (Suc i) n" P W ?pb vb] a s1 S(2-6) by auto
qed

lemma snap_free_end:
  assumes s: "snapshot c P W pb vb D L B" and a: "D t = Free b i i"
  shows "\<exists>c'. snapshot c' P W pb vb (D(t := Idle)) None B"
proof -
  note S = snapshotD [OF s]
  have "critical (vm_of c) (D t) = Some (vm_of c, Idle)" using a by simp
  then show ?thesis using snapshot_run [OF s, of t "vm_of c" Idle P W pb vb] a S(2-6) by auto
qed

section \<open>The schedule\<close>

text \<open>
  Three threads. Thread 0 allocates a page (data in frame 1, page table in frame 2) and frees it; the
  two others allocate a page each.
\<close>

definition trio :: "activity \<Rightarrow> activity \<Rightarrow> activity \<Rightarrow> nat \<Rightarrow> activity" where
  "trio a b c t = (if t = 0 then a else if t = 1 then b else if t = 2 then c else Idle)"

lemma trio_simps [simp]:
  "trio a b c 0 = a" "trio a b c (Suc 0) = b" "trio a b c 2 = c"
  "(trio a b c)(0 := x) = trio x b c" "(trio a b c)(Suc 0 := x) = trio a x c" "(trio a b c)(2 := x) = trio a b x"
  by (auto simp: trio_def fun_eq_iff)

lemma trio_idle [simp]: "trio Idle Idle Idle t = Idle"
  by (simp add: trio_def)

definition marked :: "nat set \<Rightarrow> nat \<Rightarrow> bool" where
  marked_iff [simp]: "marked A j \<longleftrightarrow> j \<in> A"

lemma marked_upd [simp]: "(marked A)(k := True) = marked (insert k A)" "(marked A)(k := False) = marked (A - {k})"
  by (auto simp: fun_eq_iff)

abbreviation one_table :: "nat \<Rightarrow> u32" where
  "one_table \<equiv> (\<lambda>_. 0)(0 := frame 2)"

lemma const_upd [simp]: "(\<lambda>_. x)(k := x) = (\<lambda>_. x)"
  by auto

lemma frame_1_2: "frame 1 \<noteq> 0" "frame 2 \<noteq> 0" "frame 1 \<noteq> frame 2"
proof -
  show "frame 1 \<noteq> 0" "frame 2 \<noteq> 0" by (rule frame_facts(4); simp)+
  show "frame 1 \<noteq> frame 2"
  proof
    assume e: "frame 1 = frame 2"
    have "1 * 4096 = unat (frame 1)" by (rule frame_facts(1) [symmetric]) simp
    also have "\<dots> = 2 * 4096" unfolding e by (rule frame_facts(1)) simp
    finally show False by simp
  qed
qed

lemma no_tables: "0 \<in> A \<Longrightarrow> frames_inv (\<lambda>_. 0) Map.empty (marked A) vb"
  by (simp add: frames_inv_def)

lemma first_page: "vb 1 \<Longrightarrow> frames_inv one_table [1 \<mapsto> frame 1] (marked {0, 1, 2}) vb"
proof -
  assume vb: "vb 1"
  have u: "used_frame (marked {0, 1, 2}) (frame 1)" "used_frame (marked {0, 1, 2}) (frame 2)" by (simp_all add: frame_facts)
  show ?thesis
    unfolding frames_inv_def
  proof (intro conjI allI impI)
    fix v w :: nat and q assume "[1 \<mapsto> frame 1] v = Some q" "[1 \<mapsto> frame 1] w = Some q"
    then show "v = w" by (auto split: if_splits)
  qed (use u vb frame_1_2 in \<open>auto split: if_splits\<close>)
qed

text \<open>Up to the read of the byte: thread 0 is about to write it with the bits of frames 1 and 2 clear.\<close>

lemma before_write:
  obtains c vb old where "snapshot c (\<lambda>_. 0) Map.empty (marked {0, 2}) vb (trio (PutBack (run_base 1) 0 1 (frame 2) old) Idle Idle) (Some 0) {}"
    "\<And>j. j < 8 \<Longrightarrow> bit old j \<longleftrightarrow> j = 0 \<or> j = 2" "\<And>w. 1 \<le> w \<Longrightarrow> \<not> vb w"
proof -
  let ?s = "vm_booted (\<lambda>_. 0)" and ?b = "run_base 1"
  let ?vb = "bit_at (virt_bitmap ?s)"
  have v0: "\<not> ?vb w" if "1 \<le> w" for w using that by (simp add: vm_booted_def vm_start_def bitmap_simps)
  have "snapshot \<lparr>vm_of = ?s, pt_holder = None, doing = \<lambda>_. Idle, blocks = {}\<rparr> (\<lambda>_. 0) Map.empty (marked {0}) ?vb (trio Idle Idle Idle) None {}"
    using vreach_if.start [of "\<lambda>c t. True" "\<lambda>_. 0"] vm_invD(6) [OF vm_inv_booted [of "\<lambda>_. 0"]]
    by (simp add: snapshot_def pde_of_booted walk_booted fun_eq_iff) (auto simp: vm_booted_def bitmap_simps fun_eq_iff)
  from snap_malloc [OF this, of 0 1] v0 obtain c1 where
    c1: "snapshot c1 (\<lambda>_. 0) Map.empty (marked {0}) (?vb(1 := True)) (trio (Take ?b 0 1) Idle Idle) None {}" by auto
  from snap_Take [OF c1, of 0 _ _ _ 1] obtain c2 where
    c2: "snapshot c2 (\<lambda>_. 0) Map.empty (marked {0, 1}) (?vb(1 := True)) (trio (Enter ?b 0 1 (frame 1)) Idle Idle) None {}"
    by (auto simp: insert_commute less_2_cases_iff)
  from snap_map_new [OF c2 no_tables, of 1 0 1 2] obtain c3 where
    c3: "snapshot c3 one_table [1 \<mapsto> frame 1] (marked {0, 1, 2}) (?vb(1 := True)) (trio (MarkPhys ?b 0 1 (frame 1)) Idle Idle) None {}"
    using frame_1_2 by (auto simp: insert_commute less_2_cases_iff)
  from snap_return [OF c3, of 1 0 1] obtain c4 where
    c4: "snapshot c4 one_table [1 \<mapsto> frame 1] (marked {0, 1, 2}) (?vb(1 := True)) (trio Idle Idle Idle) None {(?b, 1)}" by auto
  from snap_free [OF c4 first_page, of 1 "frame 1" 0] obtain c5 where
    c5: "snapshot c5 one_table Map.empty (marked {0, 1, 2}) (?vb(1 := True)) (trio (ClearPhys ?b 0 1 (frame 2) (frame 1)) Idle Idle) (Some 0) {}"
    using frame_1_2 by auto
  from snap_release [OF c5, of 1 2 1] obtain c6 old where
    c6: "snapshot c6 (\<lambda>_. 0) Map.empty (marked ({0, 1, 2} - {1})) (?vb(1 := True, 1 := False)) (trio (PutBack ?b 0 1 (frame 2) old) Idle Idle) (Some 0) {}"
    "\<forall>j < 8. bit old j \<longleftrightarrow> j \<in> {0, 1, 2} - {1}" by auto
  have "{0, 1, 2} - {1} = {0, 2 :: nat}" by auto
  with c6 show thesis using v0 by (intro that [of c6 "?vb(1 := True, 1 := False)" old]) auto
qed

text \<open>Thread 1 takes frame 1 before the write and thread 2 takes it after the write.\<close>

lemma frame_taken_twice:
  obtains c vb where "snapshot c (\<lambda>_. 0) Map.empty (marked {0, 1}) (vb(1 := True, 2 := True))
      (trio Idle (Enter (run_base 1) 0 1 (frame 1)) (Enter (run_base 2) 0 1 (frame 1))) None {}"
proof -
  let ?b = "run_base 1"
  obtain c vb old where c: "snapshot c (\<lambda>_. 0) Map.empty (marked {0, 2}) vb (trio (PutBack ?b 0 1 (frame 2) old) Idle Idle) (Some 0) {}"
    and old: "\<And>j. j < 8 \<Longrightarrow> bit old j \<longleftrightarrow> j = 0 \<or> j = 2" and vb: "\<And>w. 1 \<le> w \<Longrightarrow> \<not> vb w" by (rule before_write) blast
  from snap_malloc [OF c, of 1 1] vb obtain c1 where
    c1: "snapshot c1 (\<lambda>_. 0) Map.empty (marked {0, 2}) (vb(1 := True)) (trio (PutBack ?b 0 1 (frame 2) old) (Take ?b 0 1) Idle) (Some 0) {}" by auto
  from snap_Take [OF c1, of 1 _ _ _ 1] obtain c2 where
    c2: "snapshot c2 (\<lambda>_. 0) Map.empty (marked {1, 0, 2}) (vb(1 := True)) (trio (PutBack ?b 0 1 (frame 2) old) (Enter ?b 0 1 (frame 1)) Idle) (Some 0) {}"
    by auto
  have lost: "(\<lambda>j. if j div 8 = 2 div 8 then j \<noteq> 2 \<and> bit old (j mod 8) else marked {1, 0, 2} j) = marked {0}"
  proof
    fix j :: nat
    show "(if j div 8 = 2 div 8 then j \<noteq> 2 \<and> bit old (j mod 8) else marked {1, 0, 2} j) = marked {0} j"
    proof (cases "j < 8")
      case True
      then show ?thesis using old [OF True] by auto
    next
      case False
      then have "j div 8 \<noteq> 2 div 8" by auto
      then show ?thesis using False by auto
    qed
  qed
  from snap_put_back [OF c2 no_tables, of 0 ?b 0 1 2 old] frame_1_2 obtain c3 where
    c3: "snapshot c3 (\<lambda>_. 0) Map.empty (marked {0}) (vb(1 := True)) (trio (Free ?b 1 1) (Enter ?b 0 1 (frame 1)) Idle) (Some 0) {}"
    unfolding lost by auto
  from snap_malloc [OF c3, of 2 2] vb obtain c4 where
    c4: "snapshot c4 (\<lambda>_. 0) Map.empty (marked {0}) (vb(1 := True, 2 := True))
      (trio (Free ?b 1 1) (Enter ?b 0 1 (frame 1)) (Take (run_base 2) 0 1)) (Some 0) {}" by auto
  from snap_Take [OF c4, of 2 _ _ _ 1] obtain c5 where
    c5: "snapshot c5 (\<lambda>_. 0) Map.empty (marked {0, 1}) (vb(1 := True, 2 := True))
      (trio (Free ?b 1 1) (Enter ?b 0 1 (frame 1)) (Enter (run_base 2) 0 1 (frame 1))) (Some 0) {}" by (auto simp: insert_commute less_2_cases_iff)
  from snap_free_end [OF c5, of 0 ?b 1] obtain c6 where
    "snapshot c6 (\<lambda>_. 0) Map.empty (marked {0, 1}) (vb(1 := True, 2 := True))
      (trio Idle (Enter ?b 0 1 (frame 1)) (Enter (run_base 2) 0 1 (frame 1))) None {}" by auto
  then show thesis by (rule that)
qed

text \<open>C23: The unlocked \<open>clear_bit\<close> of \<open>n_free\<close> gives one frame to two blocks. There is an interleaving of one
  \<open>n_free\<close> and two calls of \<open>n_malloc\<close> after which all calls have returned, two different blocks that
  \<open>n_malloc\<close> returned are in use, and a page of the one and a page of the other are mapped to the same
  frame: what is stored in the one block overwrites the other. No interleaving in which a section that
  takes \<open>phys_bit_lock\<close> stays out of the two halves of that \<open>clear_bit\<close> leads to this state.\<close>

theorem unlocked_clear_loses_frame:
  "\<exists>c b b' v v' p. vreach c \<and> (\<forall>t. doing c t = Idle) \<and> (b, 1) \<in> blocks c \<and> (b', 1) \<in> blocks c \<and> b \<noteq> b' \<and>
     v \<in> run_pages b 1 \<and> v' \<in> run_pages b' 1 \<and> v \<noteq> v' \<and>
     walk (vm_of c) v = Some p \<and> walk (vm_of c) v' = Some p \<and> \<not> vreach_if guarded c"
proof -
  let ?b = "run_base 1" and ?b' = "run_base 2"
  obtain c vb where c: "snapshot c (\<lambda>_. 0) Map.empty (marked {0, 1}) (vb(1 := True, 2 := True))
      (trio Idle (Enter ?b 0 1 (frame 1)) (Enter ?b' 0 1 (frame 1))) None {}" by (rule frame_taken_twice)
  from snap_map_new [OF c no_tables, of 1 1 1 2] frame_1_2 obtain c1 where
    c1: "snapshot c1 one_table [1 \<mapsto> frame 1] (marked {0, 1, 2}) (vb(1 := True, 2 := True))
      (trio Idle (MarkPhys ?b 0 1 (frame 1)) (Enter ?b' 0 1 (frame 1))) None {}" by (auto simp: insert_commute less_2_cases_iff)
  from snap_return [OF c1, of 1 1 1] obtain c2 where
    c2: "snapshot c2 one_table [1 \<mapsto> frame 1] (marked {0, 1, 2}) (vb(1 := True, 2 := True))
      (trio Idle Idle (Enter ?b' 0 1 (frame 1))) None {(?b, 1)}" by auto
  from snap_map [OF c2 first_page, of 2 2 "frame 1"] frame_1_2 obtain c3 where
    c3: "snapshot c3 one_table [1 \<mapsto> frame 1, 2 \<mapsto> frame 1] (marked {0, 1, 2}) (vb(1 := True, 2 := True))
      (trio Idle Idle (MarkPhys ?b' 0 1 (frame 1))) None {(?b, 1)}" by auto
  from snap_return [OF c3, of 2 2 1] obtain c4 where
    c4: "snapshot c4 one_table [1 \<mapsto> frame 1, 2 \<mapsto> frame 1] (marked {0, 1, 2}) (vb(1 := True, 2 := True))
      (trio Idle Idle Idle) None {(?b', 1), (?b, 1)}" by auto
  note S = snapshotD [OF c4]
  have b: "run_pages ?b 1 = {1}" "run_pages ?b' 1 = {2}" using low_page(6) [of 1] low_page(6) [of 2] by simp_all
  then have "?b \<noteq> ?b'" by auto
  moreover have w: "walk (vm_of c4) 1 = Some (frame 1)" "walk (vm_of c4) 2 = Some (frame 1)" using S(4) by simp_all
  moreover have "\<not> vreach_if guarded c4"
    using frames_invD(7) [OF vm_coreD(5) [OF conc_invD(1) [OF guarded_reach_inv]] w] by auto
  ultimately show ?thesis
    using S(1,7,9) b by (intro exI [of _ c4] exI [of _ ?b] exI [of _ ?b'] exI [of _ 1] exI [of _ 2] exI [of _ "frame 1"]) simp
qed

end
