(* ===== verification/FS_Device.thy ===== *)
theory FS_Device
  imports CMem
begin

text \<open>
  The block device of \<open>project4/code/block.c\<close>: an emulated disk in a host file. A block is a byte
  memory of which the first \<open>BLOCK_SIZE\<close> bytes count. What the host decides is part of the state:
  whether the file exists and can be opened, and on which blocks its reads and writes fail.
\<close>

section \<open>State\<close>

definition BLOCK_SIZE :: nat where "BLOCK_SIZE = 4096"
definition DISK_SIZE :: nat where "DISK_SIZE = 32 * 1024 * 1024"

text \<open>
  \<open>dev_open_flag\<close> is \<open>diskfile >= 0\<close>; \<open>dev_live\<close> tells whether the descriptor refers to an open
  file (\<open>dev_close\<close> does not reset \<open>diskfile\<close>). \<open>dev_len\<close> is the length of the file in blocks.
\<close>

record device =
  dev_open_flag :: bool
  dev_live :: bool
  host_exists :: bool
  host_opens :: bool
  dev_bad :: "nat \<Rightarrow> bool"
  dev_len :: nat
  dev_data :: "nat \<Rightarrow> mem"

section \<open>Operations\<close>

text \<open>\<open>None\<close> is \<open>exit(EXIT_FAILURE)\<close>. \<open>ftruncate\<close> cuts the file or extends it with zeros.\<close>

definition dev_init :: "device \<Rightarrow> device option" where
  "dev_init d =
     (if dev_open_flag d then Some d
      else if \<not> host_opens d then None
      else let len = (if host_exists d then dev_len d else 0)
           in Some (d\<lparr>dev_open_flag := True, dev_live := True, host_exists := True,
                      dev_len := DISK_SIZE div BLOCK_SIZE,
                      dev_data := (\<lambda>b. if b < len then dev_data d b else (\<lambda>_. 0))\<rparr>))"

definition dev_open :: "device \<Rightarrow> int \<times> device" where
  "dev_open d =
     (if dev_open_flag d then (0, d)
      else if \<not> (host_exists d \<and> host_opens d) then (- 1, d)
      else (0, d\<lparr>dev_open_flag := True, dev_live := True\<rparr>))"

definition dev_close :: "device \<Rightarrow> device" where
  "dev_close d = (if dev_open_flag d then d\<lparr>dev_live := False\<rparr> else d)"

text \<open>
  The host's \<open>pread\<close> and \<open>pwrite\<close> at \<open>block_num * BLOCK_SIZE\<close>. They fail on a closed descriptor,
  on a negative offset and where the host says so. The product is an \<open>int\<close>: from block 524288
  on it overflows, which is undefined, and is taken as a failure.
\<close>

definition io_fails :: "device \<Rightarrow> int \<Rightarrow> bool" where
  "io_fails d block_num \<longleftrightarrow>
     \<not> dev_live d \<or> block_num < 0 \<or> block_num \<ge> 524288 \<or> dev_bad d (nat block_num)"

text \<open>The result and the bytes of \<open>buf\<close>; a read at or past the end of the file returns 0.\<close>

definition bio_read :: "device \<Rightarrow> int \<Rightarrow> int \<times> mem" where
  "bio_read d block_num =
     (let retstat = (if io_fails d block_num then - 1
                     else if nat block_num < dev_len d then int BLOCK_SIZE else 0)
      in if retstat \<le> 0 then (retstat, \<lambda>_. 0) else (retstat, dev_data d (nat block_num)))"

text \<open>A write past the end extends the file; the gap reads as zeros.\<close>

definition bio_write :: "device \<Rightarrow> int \<Rightarrow> mem \<Rightarrow> int \<times> device" where
  "bio_write d block_num buf =
     (if io_fails d block_num then (- 1, d)
      else (int BLOCK_SIZE,
            d\<lparr>dev_data := (\<lambda>b. if b = nat block_num then buf
                               else if b < dev_len d then dev_data d b else (\<lambda>_. 0)),
              dev_len := max (dev_len d) (nat block_num + 1)\<rparr>))"

section \<open>The contract of a block store\<close>

text \<open>The contents of a block, as a read sees them.\<close>

definition block :: "device \<Rightarrow> nat \<Rightarrow> mem" where
  "block d n = (if n < dev_len d then dev_data d n else (\<lambda>_. 0))"

text \<open>A device on which every access in range works.\<close>

definition dev_good :: "device \<Rightarrow> bool" where
  "dev_good d \<longleftrightarrow> dev_live d \<and> (\<forall>n < 524288. \<not> dev_bad d n)"

locale block_store =
  fixes good :: "'d \<Rightarrow> bool"
    and contents :: "'d \<Rightarrow> nat \<Rightarrow> mem"
    and rd :: "'d \<Rightarrow> int \<Rightarrow> int \<times> mem"
    and wr :: "'d \<Rightarrow> int \<Rightarrow> mem \<Rightarrow> int \<times> 'd"
  assumes rd_ok: "good d \<Longrightarrow> n < 524288 \<Longrightarrow> 0 \<le> fst (rd d (int n)) \<and> snd (rd d (int n)) = contents d n"
    and wr_ok: "good d \<Longrightarrow> n < 524288 \<Longrightarrow> 0 \<le> fst (wr d (int n) buf)"
    and wr_good: "good d \<Longrightarrow> good (snd (wr d b buf))"
    and wr_contents: "good d \<Longrightarrow> n < 524288 \<Longrightarrow>
      contents (snd (wr d (int n) buf)) = (contents d)(n := buf)"
begin

lemma read_after_write:
  assumes "good d" "n < 524288" "m < 524288"
  shows "snd (rd (snd (wr d (int n) buf)) (int m)) = (if m = n then buf else snd (rd d (int m)))"
  using assms by (simp add: rd_ok wr_good wr_contents)

text \<open>Two writes to different blocks commute; the later of two writes to a block wins.\<close>

lemma write_write:
  assumes "good d" "n < 524288" "m < 524288"
  shows "contents (snd (wr (snd (wr d (int n) a)) (int m) b)) = (contents d)(n := a, m := b)"
  using assms by (simp add: wr_good wr_contents)

end

lemma bio_read_ok: "dev_good d \<Longrightarrow> n < 524288 \<Longrightarrow> 0 \<le> fst (bio_read d (int n)) \<and> snd (bio_read d (int n)) = block d n"
  by (simp add: bio_read_def io_fails_def dev_good_def block_def BLOCK_SIZE_def Let_def)

interpretation disk: block_store dev_good block bio_read bio_write
proof unfold_locales
  fix d :: device and n :: nat and buf :: mem
  assume g: "dev_good d" and n: "n < 524288"
  show "0 \<le> fst (bio_read d (int n)) \<and> snd (bio_read d (int n)) = block d n"
    by (rule bio_read_ok [OF g n])
  show "0 \<le> fst (bio_write d (int n) buf)"
    using g n by (simp add: bio_write_def io_fails_def dev_good_def)
  show "block (snd (bio_write d (int n) buf)) = (block d)(n := buf)"
    using g n by (auto simp: bio_write_def io_fails_def dev_good_def block_def fun_eq_iff)
next
  fix d :: device and b :: int and buf :: mem
  assume "dev_good d"
  then show "dev_good (snd (bio_write d b buf))" by (simp add: bio_write_def dev_good_def)
qed

end
