(* ===== verification/FS_Types.thy ===== *)
theory FS_Types
  imports FS_Device Bitmap
begin

text \<open>
  The on-disk structures of \<open>rufs.h\<close> as records, with the bytes that \<open>memcpy\<close> moves: the layout
  of the structs on x86-64 Linux (\<open>struct stat\<close> has 144 bytes, \<open>struct inode\<close> 256, \<open>struct
  dirent\<close> 214, \<open>struct superblock\<close> 24). Decoding inverts encoding.
\<close>

section \<open>Structures\<close>

definition MAGIC_NUM :: u32 where "MAGIC_NUM = 0x5C3A"
definition MAX_INUM :: nat where "MAX_INUM = 1024"
definition MAX_DNUM :: nat where "MAX_DNUM = 16384"

record superblock =
  magic_num :: u32
  max_inum :: u16
  max_dnum :: u16
  i_bitmap_blk :: u32
  d_bitmap_blk :: u32
  i_start_blk :: u32
  d_start_blk :: u32

text \<open>The fields of \<open>struct stat\<close> that the code reads or writes; \<open>st_rest\<close> is the other bytes.\<close>

record stat =
  st_nlink :: u64
  st_mode :: u32
  st_uid :: u32
  st_gid :: u32
  st_size :: u64
  st_atime :: u64
  st_mtime :: u64

record inode =
  i_ino :: u16
  i_valid :: u16
  i_size :: u32
  i_type :: u32
  i_link :: u32
  direct_ptr :: "u32 list"
  indirect_ptr :: "u32 list"
  vstat :: stat

record dirent =
  d_ino :: u16
  d_valid :: u16
  d_name :: "u8 list"
  d_len :: u16

section \<open>Encodings\<close>

definition enc_superblock :: "superblock \<Rightarrow> u8 list" where
  "enc_superblock s = le_bytes 4 (magic_num s) @ le_bytes 2 (max_inum s) @ le_bytes 2 (max_dnum s) @
     le_bytes 4 (i_bitmap_blk s) @ le_bytes 4 (d_bitmap_blk s) @ le_bytes 4 (i_start_blk s) @
     le_bytes 4 (d_start_blk s)"

definition dec_superblock :: "mem \<Rightarrow> nat \<Rightarrow> superblock" where
  "dec_superblock m a =
     \<lparr>magic_num = load32 m a, max_inum = load16 m (a + 4), max_dnum = load16 m (a + 6),
      i_bitmap_blk = load32 m (a + 8), d_bitmap_blk = load32 m (a + 12),
      i_start_blk = load32 m (a + 16), d_start_blk = load32 m (a + 20)\<rparr>"

text \<open>
  \<open>struct stat\<close>: \<open>st_dev\<close> 0, \<open>st_ino\<close> 8, \<open>st_nlink\<close> 16, \<open>st_mode\<close> 24, \<open>st_uid\<close> 28, \<open>st_gid\<close> 32,
  \<open>st_rdev\<close> 40, \<open>st_size\<close> 48, \<open>st_blksize\<close> 56, \<open>st_blocks\<close> 64, \<open>st_atim\<close> 72, \<open>st_mtim\<close> 88,
  \<open>st_ctim\<close> 104. The fields the code never sets are 0.
\<close>

definition enc_stat :: "stat \<Rightarrow> u8 list" where
  "enc_stat s = replicate 16 0 @ le_bytes 8 (st_nlink s) @ le_bytes 4 (st_mode s) @
     le_bytes 4 (st_uid s) @ le_bytes 4 (st_gid s) @ replicate 12 0 @ le_bytes 8 (st_size s) @
     replicate 16 0 @ le_bytes 8 (st_atime s) @ replicate 8 0 @ le_bytes 8 (st_mtime s) @ replicate 48 0"

definition dec_stat :: "mem \<Rightarrow> nat \<Rightarrow> stat" where
  "dec_stat m a =
     \<lparr>st_nlink = load64 m (a + 16), st_mode = load32 m (a + 24), st_uid = load32 m (a + 28),
      st_gid = load32 m (a + 32), st_size = load64 m (a + 48), st_atime = load64 m (a + 72),
      st_mtime = load64 m (a + 88)\<rparr>"

definition enc_u32s :: "u32 list \<Rightarrow> u8 list" where
  "enc_u32s ws = concat (map (le_bytes 4) ws)"

definition dec_u32s :: "mem \<Rightarrow> nat \<Rightarrow> nat \<Rightarrow> u32 list" where
  "dec_u32s m a n = map (\<lambda>k. load32 m (a + 4 * k)) [0..<n]"

definition sizeof_inode :: nat where "sizeof_inode = 256"
definition sizeof_dirent :: nat where "sizeof_dirent = 214"

definition enc_inode :: "inode \<Rightarrow> u8 list" where
  "enc_inode i = le_bytes 2 (i_ino i) @ le_bytes 2 (i_valid i) @ le_bytes 4 (i_size i) @
     le_bytes 4 (i_type i) @ le_bytes 4 (i_link i) @ enc_u32s (direct_ptr i) @
     enc_u32s (indirect_ptr i) @ enc_stat (vstat i)"

definition dec_inode :: "mem \<Rightarrow> nat \<Rightarrow> inode" where
  "dec_inode m a =
     \<lparr>i_ino = load16 m a, i_valid = load16 m (a + 2), i_size = load32 m (a + 4),
      i_type = load32 m (a + 8), i_link = load32 m (a + 12), direct_ptr = dec_u32s m (a + 16) 16,
      indirect_ptr = dec_u32s m (a + 80) 8, vstat = dec_stat m (a + 112)\<rparr>"

definition dec_dirent :: "mem \<Rightarrow> nat \<Rightarrow> dirent" where
  "dec_dirent m a =
     \<lparr>d_ino = load16 m a, d_valid = load16 m (a + 2), d_name = load_bytes m (a + 4) 208,
      d_len = load16 m (a + 212)\<rparr>"

text \<open>The C arrays have their declared lengths.\<close>

definition inode_wf :: "inode \<Rightarrow> bool" where
  "inode_wf i \<longleftrightarrow> length (direct_ptr i) = 16 \<and> length (indirect_ptr i) = 8"

section \<open>Round trips\<close>

lemma load_store_word:
  assumes "k + n \<le> length bs" "take n (drop k bs) = le_bytes n (w :: 'a::len word)" "LENGTH('a) \<le> 8 * n"
  shows "le_word (load_bytes (store_bytes m a bs) (a + k) n) = w"
  using assms by (simp add: load_store_bytes_part le_word_le_bytes_full)

lemma length_enc_stat [simp]: "length (enc_stat s) = 144"
  by (simp add: enc_stat_def)

lemma length_enc_u32s [simp]: "length (enc_u32s ws) = 4 * length ws"
  by (induction ws) (simp_all add: enc_u32s_def)

lemma length_enc_inode: "inode_wf i \<Longrightarrow> length (enc_inode i) = 256"
  by (simp add: enc_inode_def inode_wf_def)

lemma length_enc_superblock [simp]: "length (enc_superblock s) = 24"
  by (simp add: enc_superblock_def)

lemma take_drop_enc_u32s:
  "k < length ws \<Longrightarrow> take 4 (drop (4 * k) (enc_u32s ws @ rest)) = le_bytes 4 (ws ! k)"
proof (induction ws arbitrary: k)
  case Nil
  then show ?case by simp
next
  case (Cons w ws)
  then show ?case
    by (cases k) (simp_all add: enc_u32s_def del: le_bytes.simps)
qed

lemma dec_enc_superblock: "dec_superblock (store_bytes m a (enc_superblock s)) a = s"
  using load_store_word [of 0 4 "enc_superblock s" "magic_num s" m a]
  by (simp add: dec_superblock_def load32_def load16_def load_store_word enc_superblock_def del: le_bytes.simps)

lemma dec_enc_stat:
  assumes "k + 144 \<le> length bs" "take 144 (drop k bs) = enc_stat s"
  shows "dec_stat (store_bytes m a bs) (a + k) = s"
proof -
  have part: "take n (drop (k + j) bs) = take n (drop j (enc_stat s))" if "j + n \<le> 144" for j n
    using that assms(2) by (simp add: assms(2) [symmetric] take_drop drop_drop add.commute min_def)
  show ?thesis
    using assms(1)
    by (simp add: dec_stat_def load32_def load64_def add.assoc load_store_word part)
      (simp add: enc_stat_def load_store_word part del: le_bytes.simps)
qed

lemma dec_enc_u32s:
  assumes "k + 4 * n \<le> length bs" "take (4 * n) (drop k bs) = enc_u32s ws" "length ws = n"
  shows "dec_u32s (store_bytes m a bs) (a + k) n = ws"
proof (rule nth_equalityI)
  show "length (dec_u32s (store_bytes m a bs) (a + k) n) = length ws"
    using assms(3) by (simp add: dec_u32s_def)
  fix j assume "j < length (dec_u32s (store_bytes m a bs) (a + k) n)"
  then have j: "j < n" by (simp add: dec_u32s_def)
  then have "4 * j + 4 \<le> 4 * n" by simp
  then have "take 4 (drop (k + 4 * j) bs) = take 4 (drop (4 * j) (take (4 * n) (drop k bs)))"
    by (simp add: drop_take add.commute min_def)
  also have "\<dots> = le_bytes 4 (ws ! j)"
    using take_drop_enc_u32s [of j ws "[]"] j assms(2,3) by simp
  finally have "load32 (store_bytes m a bs) (a + (k + 4 * j)) = ws ! j"
    using assms(1) j unfolding load32_def by (intro load_store_word) simp_all
  then show "dec_u32s (store_bytes m a bs) (a + k) n ! j = ws ! j"
    using j by (simp add: dec_u32s_def add.assoc)
qed

lemma dec_enc_inode:
  assumes "inode_wf i"
  shows "dec_inode (store_bytes m a (enc_inode i)) a = i"
proof -
  have n: "length (direct_ptr i) = 16" "length (indirect_ptr i) = 8"
    using assms by (simp_all add: inode_wf_def)
  let ?b = "enc_inode i"
  have w: "load16 (store_bytes m a ?b) (a + 0) = i_ino i" "load16 (store_bytes m a ?b) (a + 2) = i_valid i"
    "load32 (store_bytes m a ?b) (a + 4) = i_size i" "load32 (store_bytes m a ?b) (a + 8) = i_type i"
    "load32 (store_bytes m a ?b) (a + 12) = i_link i"
    unfolding load16_def load32_def
    by (rule load_store_word; simp add: enc_inode_def n del: le_bytes.simps)+
  have p: "dec_u32s (store_bytes m a ?b) (a + 16) 16 = direct_ptr i"
    "dec_u32s (store_bytes m a ?b) (a + 80) 8 = indirect_ptr i"
    by (rule dec_enc_u32s; simp add: enc_inode_def n del: le_bytes.simps)+
  have s: "dec_stat (store_bytes m a ?b) (a + 112) = vstat i"
    by (rule dec_enc_stat; simp add: enc_inode_def n del: le_bytes.simps)
  show ?thesis
    using w p s by (simp add: dec_inode_def)
qed

text \<open>A structure read from bytes depends on those bytes only.\<close>

lemma load_cong:
  assumes "\<And>x. a \<le> x \<Longrightarrow> x < a + n \<Longrightarrow> m x = m' x"
  shows "load_bytes m a n = load_bytes m' a n"
  using assms by (intro load_bytes_cong) auto

lemma dec_stat_cong:
  assumes "\<And>x. a \<le> x \<Longrightarrow> x < a + 144 \<Longrightarrow> m x = m' x"
  shows "dec_stat m a = dec_stat m' a"
  unfolding dec_stat_def load32_def load64_def using assms
  by (intro stat.equality) (auto intro!: arg_cong [of _ _ le_word] load_cong)

lemma dec_u32s_cong:
  assumes "\<And>x. a \<le> x \<Longrightarrow> x < a + 4 * n \<Longrightarrow> m x = m' x"
  shows "dec_u32s m a n = dec_u32s m' a n"
  unfolding dec_u32s_def load32_def using assms
  by (intro map_cong refl arg_cong [of _ _ le_word] load_cong) auto

lemma dec_inode_cong:
  assumes "\<And>x. a \<le> x \<Longrightarrow> x < a + 256 \<Longrightarrow> m x = m' x"
  shows "dec_inode m a = dec_inode m' a"
proof -
  have "dec_u32s m (a + 16) 16 = dec_u32s m' (a + 16) 16" "dec_u32s m (a + 80) 8 = dec_u32s m' (a + 80) 8"
    "dec_stat m (a + 112) = dec_stat m' (a + 112)"
    using assms by (auto intro!: dec_u32s_cong dec_stat_cong)
  moreover have "load_bytes m a 2 = load_bytes m' a 2" "load_bytes m (a + 2) 2 = load_bytes m' (a + 2) 2"
    "load_bytes m (a + 4) 4 = load_bytes m' (a + 4) 4" "load_bytes m (a + 8) 4 = load_bytes m' (a + 8) 4"
    "load_bytes m (a + 12) 4 = load_bytes m' (a + 12) 4"
    using assms by (auto intro!: load_cong)
  ultimately show ?thesis by (simp add: dec_inode_def load16_def load32_def)
qed

lemma dec_dirent_cong:
  assumes "\<And>x. a \<le> x \<Longrightarrow> x < a + 214 \<Longrightarrow> m x = m' x"
  shows "dec_dirent m a = dec_dirent m' a"
proof -
  have "load_bytes m a 2 = load_bytes m' a 2" "load_bytes m (a + 2) 2 = load_bytes m' (a + 2) 2"
    "load_bytes m (a + 4) 208 = load_bytes m' (a + 4) 208" "load_bytes m (a + 212) 2 = load_bytes m' (a + 212) 2"
    using assms by (auto intro!: load_cong)
  then show ?thesis by (simp add: dec_dirent_def load16_def)
qed

end
