(* ===== verification/FS_Inode.thy ===== *)
theory FS_Inode
  imports FS_Types
begin

text \<open>
  The allocators and the inode table of \<open>rufs.c\<close>: \<open>get_avail_ino\<close>, \<open>get_avail_blkno\<close>, \<open>readi\<close>,
  \<open>writei\<close>, \<open>count_used_inodes\<close> and \<open>count_used_dblocks\<close>, on the bytes of the blocks. The table
  and the two bitmaps are read off the disk by \<open>inode_at\<close>, \<open>ino_used\<close> and \<open>blk_used\<close>.
\<close>

section \<open>State\<close>

text \<open>The clock and the ids are what \<open>time\<close>, \<open>getuid\<close> and \<open>getgid\<close> answer.\<close>

record fs =
  dev :: device
  sb :: superblock
  fs_time :: u64
  fs_uid :: u32
  fs_gid :: u32

definition ENOENT :: int where "ENOENT = 2"
definition EIO :: int where "EIO = 5"
definition ENOTDIR :: int where "ENOTDIR = 20"
definition EISDIR :: int where "EISDIR = 21"
definition ENOSPC :: int where "ENOSPC = 28"
definition ENONET :: int where "ENONET = 64"

lemmas errno_defs = ENOENT_def EIO_def ENOTDIR_def EISDIR_def ENOSPC_def ENONET_def

section \<open>Operations\<close>

definition read_block :: "fs \<Rightarrow> int \<Rightarrow> int \<times> mem" where
  "read_block s n = bio_read (dev s) n"

definition write_block :: "fs \<Rightarrow> int \<Rightarrow> mem \<Rightarrow> int \<times> fs" where
  "write_block s n buf = (case bio_write (dev s) n buf of (r, d) \<Rightarrow> (r, s\<lparr>dev := d\<rparr>))"

definition get_avail_ino :: "fs \<Rightarrow> int \<times> fs" where
  "get_avail_ino s =
     (let (r, buffer) = read_block s (sint (i_bitmap_blk (sb s)))
      in if r < 0 then (- EIO, s)
         else case scan (\<lambda>i. get_bitmap buffer i = 0) 0 (unat (max_inum (sb s))) of
                Some i \<Rightarrow> (int i, snd (write_block s (sint (i_bitmap_blk (sb s))) (set_bitmap buffer i)))
              | None \<Rightarrow> (- 1, s))"

definition get_avail_blkno :: "fs \<Rightarrow> int \<times> fs" where
  "get_avail_blkno s =
     (let (r, buffer) = read_block s (sint (d_bitmap_blk (sb s)))
      in if r < 0 then (- EIO, s)
         else case scan (\<lambda>i. get_bitmap buffer i = 0) 0 (unat (max_dnum (sb s))) of
                Some i \<Rightarrow> (sint (d_start_blk (sb s) + of_nat i),
                           snd (write_block s (sint (d_bitmap_blk (sb s))) (set_bitmap buffer i)))
              | None \<Rightarrow> (- 1, s))"

definition inodes_per_block :: nat where
  "inodes_per_block = BLOCK_SIZE div sizeof_inode"

definition inode_block :: "fs \<Rightarrow> u16 \<Rightarrow> int" where
  "inode_block s ino = sint (i_start_blk (sb s) + of_nat (unat ino div inodes_per_block))"

definition inode_offset :: "u16 \<Rightarrow> nat" where
  "inode_offset ino = unat ino mod inodes_per_block * sizeof_inode"

text \<open>The inode is \<open>None\<close> where the code leaves the caller's structure untouched.\<close>

definition readi :: "fs \<Rightarrow> u16 \<Rightarrow> int \<times> inode option" where
  "readi s ino =
     (if ino \<ge> max_inum (sb s) then (- ENOENT, None)
      else let (r, blockbuffer) = read_block s (inode_block s ino)
           in if r < 0 then (- EIO, None)
              else let inode = dec_inode blockbuffer (inode_offset ino)
                   in if i_valid inode = 0 then (- ENOENT, Some inode) else (0, Some inode))"

definition writei :: "fs \<Rightarrow> u16 \<Rightarrow> inode \<Rightarrow> int \<times> fs" where
  "writei s ino inode =
     (if ino \<ge> max_inum (sb s) then (- 1, s)
      else let (r, blockbuffer) = read_block s (inode_block s ino)
           in if r < 0 then (- EIO, s)
              else let (w, s') = write_block s (inode_block s ino)
                                   (store_bytes blockbuffer (inode_offset ino) (enc_inode inode))
                   in if w < 0 then (- EIO, s') else (0, s'))"

text \<open>The counting loops.\<close>

primrec count_bits :: "mem \<Rightarrow> nat \<Rightarrow> nat" where
  "count_bits b 0 = 0"
| "count_bits b (Suc n) = count_bits b n + (if get_bitmap b n \<noteq> 0 then 1 else 0)"

definition count_used_dblocks :: "fs \<Rightarrow> int" where
  "count_used_dblocks s =
     (let (r, b) = read_block s (sint (d_bitmap_blk (sb s)))
      in if r < 0 then - 1 else int (count_bits b (unat (max_dnum (sb s)))))"

definition count_used_inodes :: "fs \<Rightarrow> int" where
  "count_used_inodes s =
     (let (r, b) = read_block s (sint (i_bitmap_blk (sb s)))
      in if r < 0 then - 1 else int (count_bits b (unat (max_inum (sb s)))))"

section \<open>A mounted file system\<close>

text \<open>The superblock \<open>rufs_mkfs\<close> writes: inode table in blocks 3 to 66, data from block 67.\<close>

definition std_sb :: superblock where
  "std_sb = \<lparr>magic_num = MAGIC_NUM, max_inum = of_nat MAX_INUM, max_dnum = of_nat MAX_DNUM,
     i_bitmap_blk = 1, d_bitmap_blk = 2, i_start_blk = 3, d_start_blk = 67\<rparr>"

definition mounted :: "fs \<Rightarrow> bool" where
  "mounted s \<longleftrightarrow> dev_good (dev s) \<and> sb s = std_sb"

definition contents :: "fs \<Rightarrow> nat \<Rightarrow> mem" where
  "contents s = block (dev s)"

definition ino_used :: "fs \<Rightarrow> nat \<Rightarrow> bool" where
  "ino_used s i \<longleftrightarrow> bit_at (contents s 1) i"

definition blk_used :: "fs \<Rightarrow> nat \<Rightarrow> bool" where
  "blk_used s i \<longleftrightarrow> bit_at (contents s 2) i"

definition inode_at :: "fs \<Rightarrow> nat \<Rightarrow> inode" where
  "inode_at s n = dec_inode (contents s (3 + n div 16)) (n mod 16 * 256)"

lemma mounted_sb [simp]:
  assumes "mounted s"
  shows "i_bitmap_blk (sb s) = 1" "d_bitmap_blk (sb s) = 2" "i_start_blk (sb s) = 3" "d_start_blk (sb s) = 67"
    "max_inum (sb s) = 1024" "max_dnum (sb s) = 16384"
  using assms by (simp_all add: mounted_def std_sb_def MAX_INUM_def MAX_DNUM_def)

lemma read_block_mounted:
  assumes "mounted s" "n < 524288"
  shows "0 \<le> fst (read_block s (int n))" "snd (read_block s (int n)) = contents s n"
  using disk.rd_ok [of "dev s" n] assms by (auto simp: mounted_def read_block_def contents_def)

lemma write_block_mounted:
  assumes "mounted s" "n < 524288"
  shows "0 \<le> fst (write_block s (int n) buf)" "mounted (snd (write_block s (int n) buf))"
    "contents (snd (write_block s (int n) buf)) = (contents s)(n := buf)"
    "fs_time (snd (write_block s (int n) buf)) = fs_time s"
    "fs_uid (snd (write_block s (int n) buf)) = fs_uid s" "fs_gid (snd (write_block s (int n) buf)) = fs_gid s"
  using disk.wr_ok [of "dev s" n buf] disk.wr_good [of "dev s" "int n" buf] disk.wr_contents [of "dev s" n buf] assms
  by (simp_all add: mounted_def write_block_def contents_def split_beta)

text \<open>Named forms of a successful read and write.\<close>

lemma read_blockE:
  assumes "mounted s" "n < 524288"
  obtains r where "read_block s (int n) = (r, contents s n)" "0 \<le> r"
  using read_block_mounted [OF assms] by (cases "read_block s (int n)") auto

lemma write_blockE:
  assumes "mounted s" "n < 524288"
  obtains r s' where "write_block s (int n) buf = (r, s')" "0 \<le> r" "mounted s'"
    "contents s' = (contents s)(n := buf)" "fs_time s' = fs_time s" "fs_uid s' = fs_uid s" "fs_gid s' = fs_gid s"
  using write_block_mounted [OF assms, of buf] by (cases "write_block s (int n) buf") auto

section \<open>Allocators\<close>

lemma int_literals: "sint (1 :: u32) = int 1" "sint (2 :: u32) = int 2"
  by simp_all

lemma get_avail_ino_spec:
  assumes m: "mounted s"
  obtains
    (full) "get_avail_ino s = (- 1, s)" "\<And>i. i < 1024 \<Longrightarrow> ino_used s i"
  | (avail) i s' where "get_avail_ino s = (int i, s')" "i < 1024" "\<not> ino_used s i"
      "\<And>j. j < i \<Longrightarrow> ino_used s j" "mounted s'" "contents s' = (contents s)(1 := set_bitmap (contents s 1) i)"
      "fs_time s' = fs_time s" "fs_uid s' = fs_uid s" "fs_gid s' = fs_gid s"
proof -
  obtain r where r: "read_block s (int 1) = (r, contents s 1)" "0 \<le> r"
    by (rule read_blockE [OF m, of 1]) simp_all
  have run: "get_avail_ino s = (case scan (\<lambda>i. get_bitmap (contents s 1) i = 0) 0 1024 of
      Some i \<Rightarrow> (int i, snd (write_block s (int 1) (set_bitmap (contents s 1) i))) | None \<Rightarrow> (- 1, s))"
    using r unfolding get_avail_ino_def mounted_sb [OF m] int_literals by (simp cong: option.case_cong)
  show thesis
  proof (cases "scan (\<lambda>i. get_bitmap (contents s 1) i = 0) 0 1024")
    case None
    then have "get_avail_ino s = (- 1, s)" using run by simp
    moreover have "\<And>i. i < 1024 \<Longrightarrow> ino_used s i"
      using None by (simp add: fs_bits.first_fit_None ino_used_def)
    ultimately show thesis by (rule full)
  next
    case (Some i)
    obtain w s' where W: "write_block s (int 1) (set_bitmap (contents s 1) i) = (w, s')" "mounted s'"
      "contents s' = (contents s)(1 := set_bitmap (contents s 1) i)"
      "fs_time s' = fs_time s" "fs_uid s' = fs_uid s" "fs_gid s' = fs_gid s"
      by (rule write_blockE [OF m, of 1 "set_bitmap (contents s 1) i"]) simp_all
    have "get_avail_ino s = (int i, s')" using run Some W(1) by simp
    then show thesis
      using Some W(2-) by (intro avail [of i s']) (auto simp: fs_bits.first_fit_Some ino_used_def)
  qed
qed

lemma get_avail_blkno_spec:
  assumes m: "mounted s"
  obtains
    (full) "get_avail_blkno s = (- 1, s)" "\<And>i. i < 16384 \<Longrightarrow> blk_used s i"
  | (avail) i s' where "get_avail_blkno s = (int (67 + i), s')" "i < 16384" "\<not> blk_used s i"
      "\<And>j. j < i \<Longrightarrow> blk_used s j" "mounted s'" "contents s' = (contents s)(2 := set_bitmap (contents s 2) i)"
      "fs_time s' = fs_time s" "fs_uid s' = fs_uid s" "fs_gid s' = fs_gid s"
proof -
  obtain r where r: "read_block s (int 2) = (r, contents s 2)" "0 \<le> r"
    by (rule read_blockE [OF m, of 2]) simp_all
  have run: "get_avail_blkno s = (case scan (\<lambda>i. get_bitmap (contents s 2) i = 0) 0 16384 of
      Some i \<Rightarrow> (sint (67 + of_nat i :: u32), snd (write_block s (int 2) (set_bitmap (contents s 2) i)))
    | None \<Rightarrow> (- 1, s))"
    using r unfolding get_avail_blkno_def mounted_sb [OF m] int_literals by (simp cong: option.case_cong)
  have num: "sint (67 + of_nat i :: u32) = int (67 + i)" if "i < 16384" for i
  proof -
    have "(67 + of_nat i :: u32) = of_nat (67 + i)" by simp
    then show ?thesis
      using that by (simp only: signed_of_nat) (simp add: signed_take_bit_int_eq_self)
  qed
  show thesis
  proof (cases "scan (\<lambda>i. get_bitmap (contents s 2) i = 0) 0 16384")
    case None
    then have "get_avail_blkno s = (- 1, s)" using run by simp
    moreover have "\<And>i. i < 16384 \<Longrightarrow> blk_used s i"
      using None by (simp add: fs_bits.first_fit_None blk_used_def)
    ultimately show thesis by (rule full)
  next
    case (Some i)
    then have i: "i < 16384" "\<not> blk_used s i" "\<And>j. j < i \<Longrightarrow> blk_used s j"
      by (auto simp: fs_bits.first_fit_Some blk_used_def)
    obtain w s' where W: "write_block s (int 2) (set_bitmap (contents s 2) i) = (w, s')" "mounted s'"
      "contents s' = (contents s)(2 := set_bitmap (contents s 2) i)"
      "fs_time s' = fs_time s" "fs_uid s' = fs_uid s" "fs_gid s' = fs_gid s"
      by (rule write_blockE [OF m, of 2 "set_bitmap (contents s 2) i"]) simp_all
    show thesis
      using run Some W num [OF i(1)] i by (intro avail [of i s']) auto
  qed
qed

section \<open>The inode table\<close>

lemma per_block: "inodes_per_block = 16"
  by (simp add: inodes_per_block_def BLOCK_SIZE_def sizeof_inode_def)

lemma inode_block_mounted: "mounted s \<Longrightarrow> inode_block s ino = int (3 + unat ino div 16)"
proof -
  assume m: "mounted s"
  have "unat ino < 65536" using unsigned_less [of ino, where ?'a = nat] by simp
  then have "unat ino div 16 < 4096" by (simp add: less_mult_imp_div_less)
  moreover have "(3 + of_nat (unat ino div 16) :: u32) = of_nat (3 + unat ino div 16)" by simp
  ultimately show ?thesis
    unfolding inode_block_def mounted_sb [OF m] per_block
    by (simp only: signed_of_nat) (simp add: signed_take_bit_int_eq_self)
qed

lemma inode_offset_eq: "inode_offset ino = unat ino mod 16 * 256"
  by (simp add: inode_offset_def per_block sizeof_inode_def)

lemma inode_block_number: "unat ino < 1024 \<Longrightarrow> 3 + unat (ino :: u16) div 16 < 67"
  by (simp add: less_mult_imp_div_less)

lemma ino_bound: "ino \<ge> (1024 :: u16) \<longleftrightarrow> \<not> unat ino < 1024"
  by (simp add: word_le_nat_alt not_less)

lemma readi_spec:
  assumes m: "mounted s" and ino: "unat ino < 1024"
  shows "readi s ino =
    (if i_valid (inode_at s (unat ino)) = 0 then - ENOENT else 0, Some (inode_at s (unat ino)))"
proof -
  obtain r where "read_block s (int (3 + unat ino div 16)) = (r, contents s (3 + unat ino div 16))" "0 \<le> r"
    by (rule read_blockE [OF m, of "3 + unat ino div 16"]) (use inode_block_number [OF ino] in simp_all)
  then show ?thesis
    using ino m by (simp add: readi_def ino_bound inode_block_mounted inode_offset_eq inode_at_def Let_def)
qed

lemma readi_out_of_range: "mounted s \<Longrightarrow> \<not> unat ino < 1024 \<Longrightarrow> readi s ino = (- ENOENT, None)"
  by (simp add: readi_def ino_bound)

lemma inode_at_cong: "contents s' (3 + n div 16) = contents s (3 + n div 16) \<Longrightarrow> inode_at s' n = inode_at s n"
  by (simp add: inode_at_def)

lemma writei_spec:
  assumes m: "mounted s" and ino: "unat ino < 1024" and wf: "inode_wf inode"
  obtains s' where "writei s ino inode = (0, s')" "mounted s'"
    "\<And>n. inode_at s' n = (if n = unat ino then inode else inode_at s n)"
    "\<And>b. b < 3 \<or> 67 \<le> b \<Longrightarrow> contents s' b = contents s b"
    "fs_time s' = fs_time s" "fs_uid s' = fs_uid s" "fs_gid s' = fs_gid s"
proof -
  let ?b = "3 + unat ino div 16" and ?o = "unat ino mod 16 * 256"
  let ?buf = "store_bytes (contents s ?b) ?o (enc_inode inode)"
  have b: "?b < 67" by (rule inode_block_number [OF ino])
  obtain r where R: "read_block s (int ?b) = (r, contents s ?b)" "0 \<le> r"
    by (rule read_blockE [OF m, of ?b]) (use b in simp_all)
  obtain w s' where W: "write_block s (int ?b) ?buf = (w, s')" "0 \<le> w" "mounted s'"
    "contents s' = (contents s)(?b := ?buf)" "fs_time s' = fs_time s" "fs_uid s' = fs_uid s" "fs_gid s' = fs_gid s"
    by (rule write_blockE [OF m, of ?b ?buf]) (use b in simp_all)
  have run: "writei s ino inode = (0, s')"
    using ino R W(1,2) m by (simp add: writei_def ino_bound inode_block_mounted inode_offset_eq Let_def)
  have "inode_at s' n = (if n = unat ino then inode else inode_at s n)" for n
  proof (cases "n = unat ino")
    case True
    then show ?thesis by (simp add: inode_at_def W(4) dec_enc_inode [OF wf])
  next
    case False
    show ?thesis
    proof (cases "n div 16 = unat ino div 16")
      case True
      then have "n mod 16 \<noteq> unat ino mod 16" using False by (metis div_mult_mod_eq)
      then have "n mod 16 < unat ino mod 16 \<or> unat ino mod 16 < n mod 16" by (simp only: nat_neq_iff)
      then have "n mod 16 * 256 + 256 \<le> ?o \<or> ?o + 256 \<le> n mod 16 * 256" by auto
      then have "dec_inode ?buf (n mod 16 * 256) = dec_inode (contents s ?b) (n mod 16 * 256)"
        using length_enc_inode [OF wf] by (intro dec_inode_cong) (auto simp: mem_simps)
      then show ?thesis using False True by (simp add: inode_at_def W(4))
    next
      case False
      then show ?thesis by (auto simp: inode_at_def W(4))
    qed
  qed
  then show thesis
    using run W b by (intro that [of s']) auto
qed

section \<open>Counting\<close>

lemma count_bits_card: "count_bits b n = card {i. i < n \<and> bit_at b i}"
proof (induction n)
  case 0
  then show ?case by simp
next
  case (Suc n)
  have "{i. i < Suc n \<and> bit_at b i} = {i. i < n \<and> bit_at b i} \<union> (if bit_at b n then {n} else {})"
    by (auto simp: less_Suc_eq)
  then show ?case using Suc by (simp add: fs_bits.get_eq)
qed

lemma count_used_spec:
  assumes m: "mounted s"
  shows "count_used_inodes s = int (card {i. i < 1024 \<and> ino_used s i})"
    and "count_used_dblocks s = int (card {i. i < 16384 \<and> blk_used s i})"
proof -
  obtain r1 where "read_block s (int 1) = (r1, contents s 1)" "0 \<le> r1"
    by (rule read_blockE [OF m, of 1]) simp_all
  then show "count_used_inodes s = int (card {i. i < 1024 \<and> ino_used s i})"
    by (simp add: count_used_inodes_def m count_bits_card ino_used_def)
  obtain r2 where "read_block s (int 2) = (r2, contents s 2)" "0 \<le> r2"
    by (rule read_blockE [OF m, of 2]) simp_all
  then show "count_used_dblocks s = int (card {i. i < 16384 \<and> blk_used s i})"
    by (simp add: count_used_dblocks_def m count_bits_card blk_used_def)
qed

end
