(* ===== verification/FS_Dir.thy ===== *)
theory FS_Dir
  imports FS_Inode
begin

text \<open>
  Directories and path names: \<open>dir_find\<close>, \<open>dir_add\<close> and \<open>get_node_by_path\<close>, with the C string
  functions they call. A C string is the list of its bytes before the terminating 0.
\<close>

section \<open>String functions\<close>

type_synonym cstr = "u8 list"

text \<open>\<open>strncmp(xs, ys, n) == 0\<close>; past the end of a list comes the terminator.\<close>

primrec strncmp_eq :: "u8 list \<Rightarrow> u8 list \<Rightarrow> nat \<Rightarrow> bool" where
  "strncmp_eq xs ys 0 = True"
| "strncmp_eq xs ys (Suc n) =
     (let a = (if xs = [] then 0 else hd xs); b = (if ys = [] then 0 else hd ys)
      in if a \<noteq> b then False else if a = 0 then True else strncmp_eq (tl xs) (tl ys) n)"

definition SLASH :: u8 where "SLASH = 47"
definition DOT :: u8 where "DOT = 46"

text \<open>One call of \<open>strtok(p, "/")\<close>: the next token and the rest of the string.\<close>

definition strtok :: "cstr \<Rightarrow> (cstr \<times> cstr) option" where
  "strtok p = (let q = dropWhile (\<lambda>c. c = SLASH) p
               in if q = [] then None
                  else Some (takeWhile (\<lambda>c. c \<noteq> SLASH) q, tl (dropWhile (\<lambda>c. c \<noteq> SLASH) q)))"

lemma strtok_shorter:
  assumes "strtok p = Some (t, rest)"
  shows "length rest < length p"
proof -
  define q where "q = dropWhile (\<lambda>c. c = SLASH) p"
  have q: "q \<noteq> []" "rest = tl (dropWhile (\<lambda>c. c \<noteq> SLASH) q)"
    using assms unfolding strtok_def Let_def q_def [symmetric] by (auto split: if_splits)
  have "length rest \<le> length (dropWhile (\<lambda>c. c \<noteq> SLASH) q) - 1" using q(2) by simp
  also have "\<dots> < length q"
    using q(1) length_dropWhile_le [of "\<lambda>c. c \<noteq> SLASH" q] by (cases q) auto
  also have "length q \<le> length p" unfolding q_def by (rule length_dropWhile_le)
  finally show ?thesis .
qed

section \<open>dir\_find\<close>

definition ents_per_blk :: nat where
  "ents_per_blk = BLOCK_SIZE div sizeof_dirent"

definition entry_at :: "mem \<Rightarrow> nat \<Rightarrow> dirent" where
  "entry_at buf j = dec_dirent buf (j * sizeof_dirent)"

definition entry_matches :: "dirent \<Rightarrow> cstr \<Rightarrow> nat \<Rightarrow> bool" where
  "entry_matches e fname name_len \<longleftrightarrow>
     d_valid e \<noteq> 0 \<and> d_len e = of_nat name_len \<and> strncmp_eq (d_name e) fname name_len"

text \<open>The loop over the 16 block pointers.\<close>

function dir_find_loop :: "fs \<Rightarrow> inode \<Rightarrow> cstr \<Rightarrow> nat \<Rightarrow> nat \<Rightarrow> int \<times> dirent option" where
  "dir_find_loop s dir_inode fname name_len i =
     (if i < 16 then
        let blk = direct_ptr dir_inode ! i
        in if blk = 0 then dir_find_loop s dir_inode fname name_len (Suc i)
           else let (r, buffer) = read_block s (sint blk)
           in if r < 0 then (- EIO, None)
              else case scan (\<lambda>j. entry_matches (entry_at buffer j) fname name_len) 0 ents_per_blk of
                     Some j \<Rightarrow> (0, Some (entry_at buffer j))
                   | None \<Rightarrow> dir_find_loop s dir_inode fname name_len (Suc i)
      else (- ENONET, None))"
  by pat_completeness auto
termination
  by (relation "measure (\<lambda>(s, d, f, n, i). 16 - i)") auto

declare dir_find_loop.simps [simp del]

definition dir_find :: "fs \<Rightarrow> u16 \<Rightarrow> cstr \<Rightarrow> nat \<Rightarrow> int \<times> dirent option" where
  "dir_find s ino fname name_len =
     (if name_len > 208 then (- 1, None)
      else case readi s ino of
             (r, None) \<Rightarrow> (- 1, None)
           | (r, Some dir_inode) \<Rightarrow>
               if r < 0 then (- 1, None)
               else if i_valid dir_inode = 0 then (- 1, None)
               else dir_find_loop s dir_inode fname name_len 0)"

section \<open>dir\_add\<close>

definition fill_entry :: "mem \<Rightarrow> nat \<Rightarrow> u16 \<Rightarrow> cstr \<Rightarrow> nat \<Rightarrow> mem" where
  "fill_entry buf j f_ino fname name_len =
     (let a = j * sizeof_dirent
      in store_bytes (store16 (store16 (store16 buf (a + 2) 1) a f_ino) (a + 212) (of_nat name_len))
           (a + 4) (take name_len fname))"

text \<open>\<open>dir_inode.size += sizeof(struct dirent); dir_inode.vstat.st_mtime = time(NULL);\<close>\<close>

definition grow_dir :: "fs \<Rightarrow> inode \<Rightarrow> inode" where
  "grow_dir s d = d\<lparr>i_size := i_size d + of_nat sizeof_dirent,
                    vstat := (vstat d)\<lparr>st_mtime := fs_time s\<rparr>\<rparr>"

text \<open>The loop for a free entry in the blocks the directory has: \<open>Some\<close> if it returns from it.\<close>

function dir_add_loop :: "fs \<Rightarrow> inode \<Rightarrow> u16 \<Rightarrow> cstr \<Rightarrow> nat \<Rightarrow> nat \<Rightarrow> (int \<times> fs) option" where
  "dir_add_loop s dir_inode f_ino fname name_len i =
     (if i < 16 then
        let blk = direct_ptr dir_inode ! i
        in if blk = 0 then dir_add_loop s dir_inode f_ino fname name_len (Suc i)
           else let (r, buffer) = read_block s (sint blk)
           in if r < 0 then Some (- 1, s)
              else case scan (\<lambda>j. d_valid (entry_at buffer j) = 0) 0 ents_per_blk of
                     Some j \<Rightarrow>
                       let (w, s1) = write_block s (sint blk) (fill_entry buffer j f_ino fname name_len)
                       in if w < 0 then Some (- EIO, s1)
                          else Some (0, snd (writei s1 (i_ino dir_inode) (grow_dir s1 dir_inode)))
                   | None \<Rightarrow> dir_add_loop s dir_inode f_ino fname name_len (Suc i)
      else None)"
  by pat_completeness auto
termination
  by (relation "measure (\<lambda>(s, d, o', f, n, i). 16 - i)") auto

declare dir_add_loop.simps [simp del]

definition dir_add :: "fs \<Rightarrow> inode \<Rightarrow> u16 \<Rightarrow> cstr \<Rightarrow> nat \<Rightarrow> int \<times> fs" where
  "dir_add s dir_inode f_ino fname name_len =
     (if name_len > 208 then (- 1, s)
      else if fst (dir_find s (i_ino dir_inode) fname name_len) = 0 then (- 1, s)
      else case dir_add_loop s dir_inode f_ino fname name_len 0 of
             Some result \<Rightarrow> result
           | None \<Rightarrow>
               let (new_blk, s1) = get_avail_blkno s
               in if new_blk < 0 then (- 1, s1)
                  else case scan (\<lambda>i. direct_ptr dir_inode ! i = 0) 0 16 of
                         None \<Rightarrow> (- 1, s1)
                       | Some i \<Rightarrow>
                           let dir1 = dir_inode\<lparr>direct_ptr := (direct_ptr dir_inode)[i := word_of_int new_blk]\<rparr>;
                               (w, s2) = write_block s1 new_blk (fill_entry (\<lambda>_. 0) 0 f_ino fname name_len)
                           in if w < 0 then (- EIO, s2)
                              else (0, snd (writei s2 (i_ino dir1) (grow_dir s2 dir1))))"

section \<open>get\_node\_by\_path\<close>

definition S_IFMT :: u32 where "S_IFMT = 0xF000"
definition S_IFDIR :: u32 where "S_IFDIR = 0x4000"
definition S_IFREG :: u32 where "S_IFREG = 0x8000"

definition S_ISDIR :: "u32 \<Rightarrow> bool" where "S_ISDIR m \<longleftrightarrow> m AND S_IFMT = S_IFDIR"
definition S_ISREG :: "u32 \<Rightarrow> bool" where "S_ISREG m \<longleftrightarrow> m AND S_IFMT = S_IFREG"

definition PATH_MAX :: nat where "PATH_MAX = 4096"

text \<open>The \<open>while (token != NULL)\<close> loop on the rest \<open>p\<close> of the path; \<open>None\<close> is \<open>return -1\<close>.\<close>

function path_loop :: "fs \<Rightarrow> inode \<Rightarrow> cstr \<Rightarrow> inode option" where
  "path_loop s cur p =
     (case strtok p of
        None \<Rightarrow> Some cur
      | Some (token, rest) \<Rightarrow>
          if \<not> S_ISDIR (st_mode (vstat cur)) then None
          else case dir_find s (i_ino cur) token (length token) of
                 (r, dent) \<Rightarrow>
                   if r < 0 then None
                   else case dent of
                          None \<Rightarrow> None
                        | Some e \<Rightarrow>
                            (case readi s (d_ino e) of
                               (r', None) \<Rightarrow> None
                             | (r', Some node) \<Rightarrow> if r' < 0 then None else path_loop s node rest))"
  by pat_completeness auto
termination
  by (relation "measure (\<lambda>(s, c, p). length p)") (auto dest: strtok_shorter)

declare path_loop.simps [simp del]

definition get_node_by_path :: "fs \<Rightarrow> cstr \<Rightarrow> u16 \<Rightarrow> int \<times> inode option" where
  "get_node_by_path s path ino =
     (case readi s ino of
        (r, None) \<Rightarrow> (- 1, None)
      | (r, Some cur) \<Rightarrow>
          if r < 0 then (- 1, None)
          else if path = [SLASH] then (0, Some cur)
          else let path_copy = take (PATH_MAX - 1) path;
                   p = (if path_copy \<noteq> [] \<and> hd path_copy = SLASH then tl path_copy else path_copy)
               in case path_loop s cur p of None \<Rightarrow> (- 1, None) | Some node \<Rightarrow> (0, Some node))"

end
