(* ===== verification/FS_Ops.thy ===== *)
theory FS_Ops
  imports FS_Dir
begin

text \<open>
  The file-system calls of \<open>rufs.c\<close>: \<open>rufs_mkfs\<close>, \<open>rufs_init\<close>, \<open>rufs_destroy\<close> and the FUSE
  operations. A result is the C return code with the new state; \<open>None\<close> is a run the C standard
  does not define (or \<open>exit\<close>).
\<close>

section \<open>dirname and basename\<close>

definition strip_slashes :: "cstr \<Rightarrow> cstr" where
  "strip_slashes p = (let q = rev (dropWhile (\<lambda>c. c = SLASH) (rev p))
                      in if q = [] \<and> p \<noteq> [] then [SLASH] else q)"

definition base_name :: "cstr \<Rightarrow> cstr" where
  "base_name p =
     (if p = [] then [DOT]
      else let q = strip_slashes p
           in if q = [SLASH] then q else rev (takeWhile (\<lambda>c. c \<noteq> SLASH) (rev q)))"

definition dir_name :: "cstr \<Rightarrow> cstr" where
  "dir_name p =
     (let q = strip_slashes p
      in if q = [SLASH] then q
         else if SLASH \<notin> set q then [DOT]
         else strip_slashes (rev (dropWhile (\<lambda>c. c \<noteq> SLASH) (rev q))))"

section \<open>rufs\_mkfs and rufs\_init\<close>

definition zero_stat :: stat where
  "zero_stat = \<lparr>st_nlink = 0, st_mode = 0, st_uid = 0, st_gid = 0, st_size = 0, st_atime = 0, st_mtime = 0\<rparr>"

definition zero_inode :: inode where
  "zero_inode = \<lparr>i_ino = 0, i_valid = 0, i_size = 0, i_type = 0, i_link = 0,
     direct_ptr = replicate 16 0, indirect_ptr = replicate 8 0, vstat = zero_stat\<rparr>"

definition new_superblock :: superblock where
  "new_superblock =
     (let inode_blocks = (MAX_INUM + inodes_per_block - 1) div inodes_per_block
      in \<lparr>magic_num = MAGIC_NUM, max_inum = of_nat MAX_INUM, max_dnum = of_nat MAX_DNUM,
          i_bitmap_blk = 1, d_bitmap_blk = 2, i_start_blk = 3, d_start_blk = 3 + of_nat inode_blocks\<rparr>)"

definition root_inode :: "fs \<Rightarrow> inode" where
  "root_inode s =
     zero_inode\<lparr>i_valid := 1, i_type := S_IFDIR, i_link := 2,
       direct_ptr := (replicate 16 0)[0 := d_start_blk (sb s)],
       vstat := zero_stat\<lparr>st_atime := fs_time s, st_mtime := fs_time s, st_mode := S_IFDIR OR 0x1ED,
                          st_uid := fs_uid s, st_gid := fs_gid s, st_nlink := 2\<rparr>\<rparr>"

definition rufs_mkfs :: "fs \<Rightarrow> (int \<times> fs) option" where
  "rufs_mkfs s =
     do { d \<leftarrow> dev_init (dev s);
          let s0 = s\<lparr>dev := d\<rparr>;
          let nsb = new_superblock;
          let (r, s1) = write_block s0 0 (store_bytes (\<lambda>_. 0) 0 (enc_superblock nsb));
          if r < 0 then Some (- 1, s1)
          else let s2 = snd (write_block s1 (sint (i_bitmap_blk nsb)) (set_bitmap (\<lambda>_. 0) 0));
                   s3 = snd (write_block s2 (sint (d_bitmap_blk nsb)) (set_bitmap (\<lambda>_. 0) 0));
                   s4 = snd (write_block s3 (sint (d_start_blk nsb)) (\<lambda>_. 0));
                   s5 = s4\<lparr>sb := nsb\<rparr>;
                   s6 = snd (writei s5 0 (root_inode s5))
               in Some (0, s6) }"

text \<open>The result is the pointer the function returns, as a number: 0 is \<open>NULL\<close>, the success.\<close>

definition rufs_init :: "fs \<Rightarrow> (int \<times> fs) option" where
  "rufs_init s =
     do { (r, s1) \<leftarrow> (if \<not> host_exists (dev s) then rufs_mkfs s
                        else let (r, d) = dev_open (dev s) in Some (r, s\<lparr>dev := d\<rparr>));
          if r < 0 then Some (- 1, s1)
          else let (q, blockbuffer) = read_block s1 0
               in if q < 0 then Some (- EIO, s1)
                  else Some (0, s1\<lparr>sb := dec_superblock blockbuffer 0\<rparr>) }"

definition rufs_destroy :: "fs \<Rightarrow> int \<times> int \<times> fs" where
  "rufs_destroy s = (count_used_dblocks s, count_used_inodes s, s\<lparr>dev := dev_close (dev s)\<rparr>)"

section \<open>Attributes and directories\<close>

definition rufs_getattr :: "fs \<Rightarrow> cstr \<Rightarrow> int \<times> stat option" where
  "rufs_getattr s path =
     (case get_node_by_path s path 0 of
        (r, Some node) \<Rightarrow> if r < 0 then (- ENOENT, None) else (0, Some (vstat node))
      | (r, None) \<Rightarrow> (- ENOENT, None))"

definition rufs_opendir :: "fs \<Rightarrow> cstr \<Rightarrow> int" where
  "rufs_opendir s path =
     (case get_node_by_path s path 0 of
        (r, Some node) \<Rightarrow> if r < 0 then - ENOENT
                         else if \<not> S_ISDIR (st_mode (vstat node)) then - 1 else 0
      | (r, None) \<Rightarrow> - ENOENT)"

text \<open>
  The names of one block as passed to \<open>filler\<close>. A length above 208 overruns \<open>char name[209]\<close>.
\<close>

primrec block_names :: "mem \<Rightarrow> nat \<Rightarrow> cstr list option" where
  "block_names buf 0 = Some []"
| "block_names buf (Suc j) =
     do { names \<leftarrow> block_names buf j;
          let e = entry_at buf j;
          if d_valid e = 0 then Some names
          else if unat (d_len e) > 208 then None
          else Some (names @ [takeWhile (\<lambda>c. c \<noteq> 0) (take (unat (d_len e)) (d_name e))]) }"

function readdir_loop :: "fs \<Rightarrow> inode \<Rightarrow> nat \<Rightarrow> cstr list \<Rightarrow> (int \<times> cstr list) option" where
  "readdir_loop s d i names =
     (if i < 16 then
        let blk = direct_ptr d ! i
        in if blk = 0 then readdir_loop s d (Suc i) names
           else let (r, blockbuffer) = read_block s (sint blk)
           in if r < 0 then Some (- EIO, names)
              else do { more \<leftarrow> block_names blockbuffer ents_per_blk;
                        readdir_loop s d (Suc i) (names @ more) }
      else Some (0, names))"
  by pat_completeness auto
termination
  by (relation "measure (\<lambda>(s, d, i, n). 16 - i)") auto

declare readdir_loop.simps [simp del]

definition rufs_readdir :: "fs \<Rightarrow> cstr \<Rightarrow> (int \<times> cstr list) option" where
  "rufs_readdir s path =
     (case get_node_by_path s path 0 of
        (r, Some node) \<Rightarrow>
          if r < 0 then Some (- ENOENT, [])
          else if \<not> S_ISDIR (st_mode (vstat node)) then Some (- 1, [])
          else readdir_loop s node 0 [[DOT], [DOT, DOT]]
      | (r, None) \<Rightarrow> Some (- ENOENT, []))"

definition new_node :: "fs \<Rightarrow> int \<Rightarrow> u32 \<Rightarrow> u32 \<Rightarrow> u32 \<Rightarrow> inode" where
  "new_node s ino typ links mode =
     zero_inode\<lparr>i_ino := word_of_int ino, i_valid := 1, i_type := typ, i_link := links,
       vstat := zero_stat\<lparr>st_mode := typ OR mode, st_uid := fs_uid s, st_gid := fs_gid s,
                          st_nlink := ucast links, st_atime := fs_time s, st_mtime := fs_time s\<rparr>\<rparr>"

definition rufs_mkdir :: "fs \<Rightarrow> cstr \<Rightarrow> u32 \<Rightarrow> int \<times> fs" where
  "rufs_mkdir s path mode =
     (case get_node_by_path s (dir_name path) 0 of
        (r, None) \<Rightarrow> (- ENOENT, s)
      | (r, Some parent) \<Rightarrow>
          if r < 0 then (- ENOENT, s)
          else if \<not> S_ISDIR (st_mode (vstat parent)) then (- 1, s)
          else let (new_ino, s1) = get_avail_ino s
          in if new_ino < 0 then (- 1, s1)
          else let name = base_name path;
                   (a, s2) = dir_add s1 parent (word_of_int new_ino) name (length name)
          in if a < 0 then (- 1, s2)
          else let (blk, s3) = get_avail_blkno s2
          in if blk < 0 then (- ENOSPC, s3)
          else let node = new_node s3 new_ino S_IFDIR 2 mode
          in (0, snd (writei s3 (word_of_int new_ino)
                (node\<lparr>direct_ptr := (direct_ptr node)[0 := word_of_int blk]\<rparr>))))"

definition rufs_create :: "fs \<Rightarrow> cstr \<Rightarrow> u32 \<Rightarrow> int \<times> fs" where
  "rufs_create s path mode =
     (case get_node_by_path s (dir_name path) 0 of
        (r, None) \<Rightarrow> (- ENOENT, s)
      | (r, Some parent) \<Rightarrow>
          if r < 0 then (- ENOENT, s)
          else if \<not> S_ISDIR (st_mode (vstat parent)) then (- ENOTDIR, s)
          else let (new_ino, s1) = get_avail_ino s
          in if new_ino < 0 then (- ENOSPC, s1)
          else let name = base_name path;
                   (a, s2) = dir_add s1 parent (word_of_int new_ino) name (length name)
          in if a < 0 then (- EIO, s2)
          else (0, snd (writei s2 (word_of_int new_ino) (new_node s2 new_ino S_IFREG 1 mode))))"

definition rufs_open :: "fs \<Rightarrow> cstr \<Rightarrow> int" where
  "rufs_open s path =
     (case get_node_by_path s path 0 of
        (r, Some node) \<Rightarrow> if r < 0 then - ENOENT
                         else if \<not> S_ISREG (st_mode (vstat node)) then - EISDIR else 0
      | (r, None) \<Rightarrow> - ENOENT)"

section \<open>rufs\_read and rufs\_write\<close>

text \<open>
  The kernel passes no negative offset. \<open>int start_blk = offset / BLOCK_SIZE\<close> keeps the low 32
  bits of the quotient.
\<close>

definition start_blk :: "nat \<Rightarrow> int" where
  "start_blk offset = sint (of_nat (offset div BLOCK_SIZE) :: u32)"

definition chunk :: "nat \<Rightarrow> nat \<Rightarrow> nat" where
  "chunk blk_offset left =
     (let to_copy = BLOCK_SIZE - blk_offset in if to_copy > left then left else to_copy)"

function read_loop :: "fs \<Rightarrow> inode \<Rightarrow> nat \<Rightarrow> nat \<Rightarrow> nat \<Rightarrow> u8 list \<Rightarrow> u8 list" where
  "read_loop s node i blk_offset nbytes buffer =
     (if i < 16 \<and> length buffer < nbytes then
        let blkno = direct_ptr node ! i
        in if blkno = 0 then buffer
           else let blkbuf = snd (read_block s (sint blkno));
                    to_copy = chunk blk_offset (nbytes - length buffer)
                in read_loop s node (Suc i) 0 nbytes (buffer @ load_bytes blkbuf blk_offset to_copy)
      else buffer)"
  by pat_completeness auto
termination
  by (relation "measure (\<lambda>(s, d, i, b, n, buf). 16 - i)") auto

declare read_loop.simps [simp del]

text \<open>The result code is the length of the bytes returned, as an \<open>int\<close>.\<close>

definition rufs_read :: "fs \<Rightarrow> cstr \<Rightarrow> nat \<Rightarrow> nat \<Rightarrow> int \<times> u8 list" where
  "rufs_read s path nbytes offset =
     (case get_node_by_path s path 0 of
        (r, None) \<Rightarrow> (- ENOENT, [])
      | (r, Some node) \<Rightarrow>
          if r < 0 then (- ENOENT, [])
          else if \<not> S_ISREG (st_mode (vstat node)) then (- EISDIR, [])
          else if offset \<ge> unat (i_size node) then (0, [])
          else let nbytes' = (if (of_nat offset + of_nat nbytes :: u64) > ucast (i_size node)
                              then unat (i_size node) - offset else nbytes);
                   bytes = read_loop s node (nat (start_blk offset)) (offset mod BLOCK_SIZE) nbytes' []
               in (sint (of_nat (length bytes) :: u32), bytes))"

text \<open>The loop of \<open>rufs_write\<close>; \<open>None\<close> in the result is \<open>return -ENOSPC\<close>.\<close>

function write_loop ::
  "fs \<Rightarrow> inode \<Rightarrow> nat \<Rightarrow> nat \<Rightarrow> nat \<Rightarrow> u8 list \<Rightarrow> fs \<times> (inode \<times> nat) option" where
  "write_loop s node i bytes_written blk_offset buffer =
     (if i < 16 \<and> bytes_written < length buffer then
        let (blk, s1) = (if direct_ptr node ! i = 0 then get_avail_blkno s
                         else (sint (direct_ptr node ! i), s))
        in if direct_ptr node ! i = 0 \<and> blk < 0 then (s1, None)
           else let node1 = (if direct_ptr node ! i = 0
                             then node\<lparr>direct_ptr := (direct_ptr node)[i := word_of_int blk]\<rparr> else node);
                    blockbuffer = snd (read_block s1 (sint (direct_ptr node1 ! i)));
                    to_copy = chunk blk_offset (length buffer - bytes_written);
                    s2 = snd (write_block s1 (sint (direct_ptr node1 ! i))
                           (store_bytes blockbuffer blk_offset (take to_copy (drop bytes_written buffer))))
                in write_loop s2 node1 (Suc i) (bytes_written + to_copy) 0 buffer
      else (s, Some (node, bytes_written)))"
  by pat_completeness auto
termination
  by (relation "measure (\<lambda>(s, d, i, w, b, buf). 16 - i)") auto

declare write_loop.simps [simp del]

text \<open>\<open>None\<close>: the loop would index \<open>direct_ptr\<close> with a negative \<open>start_blk\<close>.\<close>

definition rufs_write :: "fs \<Rightarrow> cstr \<Rightarrow> u8 list \<Rightarrow> nat \<Rightarrow> (int \<times> fs) option" where
  "rufs_write s path buffer offset =
     (case get_node_by_path s path 0 of
        (r, None) \<Rightarrow> Some (- ENOENT, s)
      | (r, Some node) \<Rightarrow>
          if r < 0 then Some (- ENOENT, s)
          else if \<not> S_ISREG (st_mode (vstat node)) then Some (- EISDIR, s)
          else if start_blk offset < 0 \<and> buffer \<noteq> [] then None
          else case write_loop s node (nat (start_blk offset)) 0 (offset mod BLOCK_SIZE) buffer of
                 (s1, None) \<Rightarrow> Some (- ENOSPC, s1)
               | (s1, Some (node1, bytes_written)) \<Rightarrow>
                   let node2 = (if (of_nat (offset + bytes_written) :: u64) > ucast (i_size node1)
                                then node1\<lparr>i_size := of_nat (offset + bytes_written),
                                           vstat := (vstat node1)\<lparr>st_size := ucast (of_nat (offset + bytes_written) :: u32)\<rparr>\<rparr>
                                else node1);
                       node3 = node2\<lparr>vstat := (vstat node2)\<lparr>st_mtime := fs_time s1\<rparr>\<rparr>
                   in Some (sint (of_nat bytes_written :: u32), snd (writei s1 (i_ino node3) node3)))"

section \<open>Stubs\<close>

definition rufs_rmdir :: "fs \<Rightarrow> cstr \<Rightarrow> int \<times> fs" where "rufs_rmdir s path = (0, s)"
definition rufs_releasedir :: "fs \<Rightarrow> cstr \<Rightarrow> int \<times> fs" where "rufs_releasedir s path = (0, s)"
definition rufs_unlink :: "fs \<Rightarrow> cstr \<Rightarrow> int \<times> fs" where "rufs_unlink s path = (0, s)"
definition rufs_truncate :: "fs \<Rightarrow> cstr \<Rightarrow> int \<Rightarrow> int \<times> fs" where "rufs_truncate s path len = (0, s)"
definition rufs_release :: "fs \<Rightarrow> cstr \<Rightarrow> int \<times> fs" where "rufs_release s path = (0, s)"
definition rufs_flush :: "fs \<Rightarrow> cstr \<Rightarrow> int \<times> fs" where "rufs_flush s path = (0, s)"
definition rufs_utimens :: "fs \<Rightarrow> cstr \<Rightarrow> int \<times> fs" where "rufs_utimens s path = (0, s)"

end
