(* ===== verification/FS_Inv.thy ===== *)
theory FS_Inv
  imports FS_Ops
begin

text \<open>
  The invariant of a mounted file system and the steps that keep it: allocating an inode number
  or a block, writing a data block, writing an inode. A data block belongs to one pointer of one
  inode, a block that is not allocated holds zeros, and an inode that is not valid has no type.
\<close>

section \<open>Invariant\<close>

definition valid :: "fs \<Rightarrow> nat \<Rightarrow> bool" where
  "valid s n \<longleftrightarrow> i_valid (inode_at s n) \<noteq> 0"

definition bptr :: "inode \<Rightarrow> nat \<Rightarrow> nat" where
  "bptr node k = unat (direct_ptr node ! k)"

text \<open>A block number in the data region whose bit is set.\<close>

definition data_block :: "fs \<Rightarrow> nat \<Rightarrow> bool" where
  "data_block s b \<longleftrightarrow> 67 \<le> b \<and> b < 16451 \<and> blk_used s (b - 67)"

text \<open>\<open>node\<close> may stand in the table as inode \<open>n\<close>: its blocks are its own.\<close>

definition node_ok :: "fs \<Rightarrow> nat \<Rightarrow> inode \<Rightarrow> bool" where
  "node_ok s n node \<longleftrightarrow> inode_wf node \<and> unat (i_ino node) = n \<and> ino_used s n \<and>
     (\<forall>k < 16. bptr node k \<noteq> 0 \<longrightarrow> data_block s (bptr node k)) \<and>
     (\<forall>k < 16. \<forall>l < 16. bptr node k \<noteq> 0 \<longrightarrow> bptr node k = bptr node l \<longrightarrow> k = l) \<and>
     (\<forall>m < 1024. \<forall>k < 16. \<forall>l < 16. m \<noteq> n \<longrightarrow> valid s m \<longrightarrow> bptr node k \<noteq> 0 \<longrightarrow>
        bptr (inode_at s m) l \<noteq> bptr node k)"

definition fs_inv :: "fs \<Rightarrow> bool" where
  "fs_inv s \<longleftrightarrow> mounted s \<and> dec_superblock (contents s 0) 0 = std_sb \<and>
     (\<forall>n < 1024. valid s n \<longrightarrow> node_ok s n (inode_at s n)) \<and>
     (\<forall>n < 1024. \<not> valid s n \<longrightarrow> st_mode (vstat (inode_at s n)) = 0) \<and>
     (\<forall>b < 16384. \<not> blk_used s b \<longrightarrow> (\<forall>x < 4096. contents s (67 + b) x = 0))"

lemma fs_invD:
  assumes "fs_inv s"
  shows "mounted s" "n < 1024 \<Longrightarrow> valid s n \<Longrightarrow> node_ok s n (inode_at s n)"
    "b < 16384 \<Longrightarrow> \<not> blk_used s b \<Longrightarrow> x < 4096 \<Longrightarrow> contents s (67 + b) x = 0"
    "n < 1024 \<Longrightarrow> \<not> valid s n \<Longrightarrow> st_mode (vstat (inode_at s n)) = 0"
    "dec_superblock (contents s 0) 0 = std_sb"
  using assms unfolding fs_inv_def by blast+

lemma node_okD:
  assumes "node_ok s n node"
  shows "inode_wf node" "unat (i_ino node) = n" "ino_used s n"
    "k < 16 \<Longrightarrow> bptr node k \<noteq> 0 \<Longrightarrow> data_block s (bptr node k)"
    "k < 16 \<Longrightarrow> l < 16 \<Longrightarrow> bptr node k \<noteq> 0 \<Longrightarrow> bptr node k = bptr node l \<Longrightarrow> k = l"
    "m < 1024 \<Longrightarrow> k < 16 \<Longrightarrow> l < 16 \<Longrightarrow> m \<noteq> n \<Longrightarrow> valid s m \<Longrightarrow> bptr node k \<noteq> 0 \<Longrightarrow>
       bptr (inode_at s m) l \<noteq> bptr node k"
  using assms unfolding node_ok_def by blast+

lemma inode_wf_dec [simp]: "inode_wf (inode_at s n)"
  by (simp add: inode_at_def dec_inode_def inode_wf_def dec_u32s_def)

lemma sint_bptr: "bptr node k < 16451 \<Longrightarrow> sint (direct_ptr node ! k) = int (bptr node k)"
proof -
  assume "bptr node k < 16451"
  moreover have "sint (direct_ptr node ! k) = sint (of_nat (bptr node k) :: u32)" by (simp add: bptr_def)
  ultimately show ?thesis by (simp only: signed_of_nat) (simp add: signed_take_bit_int_eq_self)
qed

lemma bptr_eq_0_iff: "bptr node k = 0 \<longleftrightarrow> direct_ptr node ! k = 0"
  by (simp add: bptr_def unat_eq_0)

text \<open>\<open>node_ok\<close> depends on the inode table, on the two bitmaps and on nothing else.\<close>

lemma node_ok_mono:
  assumes "node_ok s n node" "\<And>m. m < 1024 \<Longrightarrow> inode_at s' m = inode_at s m" "\<And>i. ino_used s i \<Longrightarrow> ino_used s' i"
    "\<And>b. blk_used s b \<Longrightarrow> blk_used s' b"
  shows "node_ok s' n node"
  using assms(1,3,4) unfolding node_ok_def data_block_def valid_def by (simp add: assms(2))

text \<open>A step that leaves the table alone and frees nothing keeps the invariant.\<close>

lemma fs_inv_frame:
  assumes inv: "fs_inv s" and m: "mounted s'" and sb: "contents s' 0 = contents s 0" and tab: "\<And>n. n < 1024 \<Longrightarrow> inode_at s' n = inode_at s n"
    and io: "\<And>i. ino_used s i \<Longrightarrow> ino_used s' i" and bu: "\<And>b. blk_used s b \<Longrightarrow> blk_used s' b"
    and z: "\<And>b x. b < 16384 \<Longrightarrow> \<not> blk_used s' b \<Longrightarrow> x < 4096 \<Longrightarrow> contents s' (67 + b) x = 0"
  shows "fs_inv s'"
proof -
  have "node_ok s' n (inode_at s' n)" if "n < 1024" "valid s' n" for n
    unfolding tab [OF that(1)] using that tab io bu
    by (intro node_ok_mono [OF fs_invD(2) [OF inv that(1)]]) (auto simp: valid_def)
  then show ?thesis
    using m z sb fs_invD(4,5) [OF inv] unfolding fs_inv_def by (simp add: valid_def tab)
qed

section \<open>Allocation\<close>

lemma table_same: "(\<And>b. 3 \<le> b \<Longrightarrow> b < 67 \<Longrightarrow> contents s' b = contents s b) \<Longrightarrow> n < 1024 \<Longrightarrow> inode_at s' n = inode_at s n"
  by (rule inode_at_cong) (simp add: less_mult_imp_div_less)

lemma inode_at_block: "b < 3 \<Longrightarrow> contents s' = (contents s)(b := buf) \<Longrightarrow> inode_at s' n = inode_at s n"
  by (rule inode_at_cong) auto

lemma valid_cong: "inode_at s' n = inode_at s n \<Longrightarrow> valid s' n = valid s n"
  by (simp add: valid_def)

text \<open>What an operation keeps that changes nothing but the bitmaps.\<close>

lemma alloc_ino_inv:
  assumes inv: "fs_inv s"
  obtains
    (full) "get_avail_ino s = (- 1, s)" "\<And>i. i < 1024 \<Longrightarrow> ino_used s i"
  | (avail) i s' where "get_avail_ino s = (int i, s')" "i < 1024" "\<not> ino_used s i" "fs_inv s'"
      "\<And>j. ino_used s' j \<longleftrightarrow> j = i \<or> ino_used s j" "\<And>b. blk_used s' b = blk_used s b"
      "\<And>n. inode_at s' n = inode_at s n" "\<And>b. b \<noteq> 1 \<Longrightarrow> contents s' b = contents s b"
      "\<not> valid s' i" "fs_time s' = fs_time s" "fs_uid s' = fs_uid s" "fs_gid s' = fs_gid s"
proof (rule get_avail_ino_spec [OF fs_invD(1) [OF inv]], goal_cases)
  case 1
  show ?case using 1(3) by (rule full) (rule 1(4))
next
  case (2 i s')
  note c = 2(8)
  have io: "ino_used s' j \<longleftrightarrow> j = i \<or> ino_used s j" for j by (simp add: ino_used_def c bitmap_simps)
  have bu: "blk_used s' b = blk_used s b" for b by (simp add: blk_used_def c)
  have tab: "inode_at s' n = inode_at s n" for n by (rule inode_at_block [OF _ c]) simp
  have "fs_inv s'"
    by (rule fs_inv_frame [OF inv 2(7) _ tab]) (use fs_invD(3) [OF inv] in \<open>simp_all add: io bu c\<close>)
  moreover have "\<not> valid s' i"
    using fs_invD(2) [OF inv 2(4)] 2(5) node_okD(3) unfolding valid_def tab by blast
  ultimately show ?case
    using 2 io bu tab by (intro avail [of i s']) auto
qed

lemma alloc_blk_inv:
  assumes inv: "fs_inv s"
  obtains
    (full) "get_avail_blkno s = (- 1, s)" "\<And>i. i < 16384 \<Longrightarrow> blk_used s i"
  | (avail) j s' where "get_avail_blkno s = (int (67 + j), s')" "j < 16384" "\<not> blk_used s j" "fs_inv s'"
      "\<And>i. ino_used s' i = ino_used s i" "\<And>b. blk_used s' b \<longleftrightarrow> b = j \<or> blk_used s b"
      "\<And>n. inode_at s' n = inode_at s n" "\<And>b. b \<noteq> 2 \<Longrightarrow> contents s' b = contents s b"
      "fs_time s' = fs_time s" "fs_uid s' = fs_uid s" "fs_gid s' = fs_gid s"
proof (rule get_avail_blkno_spec [OF fs_invD(1) [OF inv]], goal_cases)
  case 1
  show ?case using 1(3) by (rule full) (rule 1(4))
next
  case (2 j s')
  note c = 2(8)
  have io: "ino_used s' i = ino_used s i" for i by (simp add: ino_used_def c)
  have bu: "blk_used s' b \<longleftrightarrow> b = j \<or> blk_used s b" for b by (simp add: blk_used_def c bitmap_simps)
  have tab: "inode_at s' n = inode_at s n" for n by (rule inode_at_block [OF _ c]) simp
  have "fs_inv s'"
    by (rule fs_inv_frame [OF inv 2(7) _ tab]) (use fs_invD(3) [OF inv] in \<open>simp_all add: io bu c\<close>)
  then show ?case
    using 2 io bu tab by (intro avail [of j s']) auto
qed

section \<open>Writes\<close>

lemma write_data_inv:
  assumes inv: "fs_inv s" and b: "data_block s b"
  obtains r s' where "write_block s (int b) buf = (r, s')" "0 \<le> r" "fs_inv s'"
    "contents s' = (contents s)(b := buf)" "\<And>n. n < 1024 \<Longrightarrow> inode_at s' n = inode_at s n"
    "\<And>i. ino_used s' i = ino_used s i" "\<And>i. blk_used s' i = blk_used s i"
    "fs_time s' = fs_time s" "fs_uid s' = fs_uid s" "fs_gid s' = fs_gid s"
proof -
  have b': "67 \<le> b" "b < 16451" "blk_used s (b - 67)" using b by (simp_all add: data_block_def)
  obtain r s' where W: "write_block s (int b) buf = (r, s')" "0 \<le> r" "mounted s'"
    "contents s' = (contents s)(b := buf)" "fs_time s' = fs_time s" "fs_uid s' = fs_uid s" "fs_gid s' = fs_gid s"
    by (rule write_blockE [OF fs_invD(1) [OF inv], of b buf]) (use b' in simp_all)
  have tab: "inode_at s' n = inode_at s n" if "n < 1024" for n
    using that b'(1) by (intro table_same) (auto simp: W(4))
  have io: "ino_used s' i = ino_used s i" for i using b'(1) by (auto simp: ino_used_def W(4))
  have bu: "blk_used s' i = blk_used s i" for i using b'(1) by (auto simp: blk_used_def W(4))
  have "contents s' (67 + i) x = 0" if "i < 16384" "\<not> blk_used s' i" "x < 4096" for i x
  proof -
    have "67 + i \<noteq> b" using that(2) b'(3) bu by auto
    then show ?thesis using fs_invD(3) [OF inv that(1)] that by (simp add: W(4) bu)
  qed
  then have "fs_inv s'" by (intro fs_inv_frame [OF inv W(3)]) (use b'(1) in \<open>simp_all add: io bu tab W(4)\<close>)
  then show thesis
    using that W(1,2,4-) tab io bu by blast
qed

lemma node_ok_other:
  assumes m: "node_ok s m mi" and n: "node_ok s n node" and ne: "m \<noteq> n" "valid s m" "m < 1024" "mi = inode_at s m"
    and tab: "\<And>i. i < 1024 \<Longrightarrow> inode_at s' i = (if i = n then node else inode_at s i)"
    and io: "\<And>i. ino_used s' i = ino_used s i" and bu: "\<And>i. blk_used s' i = blk_used s i"
  shows "node_ok s' m mi"
proof -
  have "bptr (inode_at s' i) l \<noteq> bptr mi k"
    if "i < 1024" "k < 16" "l < 16" "i \<noteq> m" "valid s' i" "bptr mi k \<noteq> 0" for i k l
  proof (cases "i = n")
    case True
    then show ?thesis
      using node_okD(6) [OF n ne(3), of l k] that tab [OF that(1)] ne by metis
  next
    case False
    then have "valid s i" using that tab by (simp add: valid_def)
    then show ?thesis using node_okD(6) [OF m that(1-4)] that False tab by simp
  qed
  then show ?thesis
    using m unfolding node_ok_def data_block_def by (simp add: io bu)
qed

lemma write_inode_inv:
  assumes inv: "fs_inv s" and n: "n < 1024" and ok: "node_ok s n node" and ino: "unat ino = n"
    and valid: "i_valid node \<noteq> 0"
  obtains s' where "writei s ino node = (0, s')" "fs_inv s'"
    "\<And>i. i < 1024 \<Longrightarrow> inode_at s' i = (if i = n then node else inode_at s i)"
    "\<And>b. b < 3 \<or> 67 \<le> b \<Longrightarrow> contents s' b = contents s b"
    "\<And>i. ino_used s' i = ino_used s i" "\<And>i. blk_used s' i = blk_used s i"
    "fs_time s' = fs_time s" "fs_uid s' = fs_uid s" "fs_gid s' = fs_gid s"
proof -
  obtain s' where W: "writei s ino node = (0, s')" "mounted s'"
    "\<And>i. inode_at s' i = (if i = n then node else inode_at s i)"
    "\<And>b. b < 3 \<or> 67 \<le> b \<Longrightarrow> contents s' b = contents s b"
    "fs_time s' = fs_time s" "fs_uid s' = fs_uid s" "fs_gid s' = fs_gid s"
    by (rule writei_spec [OF fs_invD(1) [OF inv] _ node_okD(1) [OF ok], of ino]) (use n ino in auto)
  have io: "ino_used s' i = ino_used s i" for i by (simp add: ino_used_def W(4))
  have bu: "blk_used s' i = blk_used s i" for i by (simp add: blk_used_def W(4))
  have "node_ok s' m (inode_at s' m)" if m: "m < 1024" "valid s' m" for m
  proof (cases "m = n")
    case True
    have "bptr (inode_at s' i) l \<noteq> bptr node k"
      if "i < 1024" "k < 16" "l < 16" "i \<noteq> n" "valid s' i" "bptr node k \<noteq> 0" for i k l
      using node_okD(6) [OF ok that(1-4)] that W(3) by (simp add: valid_def)
    then show ?thesis
      using ok True by (simp add: W(3) node_ok_def data_block_def io bu)
  next
    case False
    then have "valid s m" using m W(3) by (simp add: valid_def)
    then show ?thesis
      using node_ok_other [OF fs_invD(2) [OF inv m(1)] ok False, of s'] False m W(3) io bu by simp
  qed
  moreover have "contents s' (67 + b) x = 0" if "b < 16384" "\<not> blk_used s' b" "x < 4096" for b x
    using fs_invD(3) [OF inv that(1)] that by (simp add: W(4) bu)
  moreover have "st_mode (vstat (inode_at s' m)) = 0" if "m < 1024" "\<not> valid s' m" for m
    using fs_invD(4) [OF inv that(1)] that(2) valid by (auto simp: valid_def W(3) split: if_splits)
  ultimately have "fs_inv s'" unfolding fs_inv_def using W(2) using fs_invD(5) [OF inv] W(4) [of 0] by auto
  then show thesis
    using that [of s'] W(1,3-) io bu by simp
qed

end
