(* ===== verification/FS_File.thy ===== *)
theory FS_File
  imports FS_Inv
begin

text \<open>
  File contents. \<open>fbyte s node x\<close> is byte \<open>x\<close> of the file an inode describes, 0 in a hole. The
  loops of \<open>rufs_read\<close> and \<open>rufs_write\<close> read and update it.
\<close>

section \<open>The bytes of a file\<close>

definition MAX_FILE :: nat where "MAX_FILE = 65536"

definition fbyte :: "fs \<Rightarrow> inode \<Rightarrow> nat \<Rightarrow> u8" where
  "fbyte s node x =
     (if bptr node (x div 4096) = 0 then 0 else contents s (bptr node (x div 4096)) (x mod 4096))"

definition in_table :: "inode \<Rightarrow> bool" where
  "in_table node \<longleftrightarrow> (\<forall>k < 16. bptr node k < 16451)"

lemma node_ok_in_table: "node_ok s n node \<Longrightarrow> in_table node"
  unfolding in_table_def using node_okD(4) by (metis data_block_def zero_less_numeral)

lemma chunk_bounds:
  assumes "off < 4096"
  shows "0 < left \<Longrightarrow> 0 < chunk off left" "chunk off left \<le> left" "off + chunk off left \<le> 4096"
    "chunk off left < left \<Longrightarrow> off + chunk off left = 4096"
  using assms by (auto simp: chunk_def BLOCK_SIZE_def Let_def)

lemma block_index:
  fixes i off d :: nat
  assumes "off + d < 4096"
  shows "(i * 4096 + off + d) div 4096 = i" "(i * 4096 + off + d) mod 4096 = off + d"
proof -
  have "i * 4096 + off + d = (off + d) + i * 4096" by simp
  then show "(i * 4096 + off + d) div 4096 = i" "(i * 4096 + off + d) mod 4096 = off + d"
    using assms by (simp_all only: div_mult_self1 mod_mult_self1) simp_all
qed

section \<open>Reading\<close>

text \<open>
  \<open>m\<close> bytes can be read from \<open>pos\<close> on: reading stops after \<open>rem\<close> bytes, at the largest file
  offset or at a hole.
\<close>

definition read_prefix :: "inode \<Rightarrow> nat \<Rightarrow> nat \<Rightarrow> nat \<Rightarrow> bool" where
  "read_prefix node pos rem m \<longleftrightarrow> m \<le> rem \<and>
     (\<forall>k < m. pos + k < MAX_FILE \<and> bptr node ((pos + k) div 4096) \<noteq> 0) \<and>
     (m < rem \<longrightarrow> MAX_FILE \<le> pos + m \<or> bptr node ((pos + m) div 4096) = 0)"

lemma read_prefix_full:
  "read_prefix node pos rem m \<Longrightarrow> pos + rem \<le> MAX_FILE \<Longrightarrow>
     (\<forall>k < rem. bptr node ((pos + k) div 4096) \<noteq> 0) \<Longrightarrow> m = rem"
  unfolding read_prefix_def by (metis add_less_cancel_left le_neq_implies_less linorder_not_less order_less_le_trans)

lemma load_fbyte:
  assumes "off + c \<le> 4096" "bptr node i \<noteq> 0"
  shows "load_bytes (contents s (bptr node i)) off c
    = map (fbyte s node) [i * 4096 + off..<i * 4096 + off + c]"
proof (rule nth_equalityI)
  fix d assume "d < length (load_bytes (contents s (bptr node i)) off c)"
  then have "off + d < 4096" "d < c" using assms(1) by auto
  then show "load_bytes (contents s (bptr node i)) off c ! d
      = map (fbyte s node) [i * 4096 + off..<i * 4096 + off + c] ! d"
    using block_index [of off d i] assms(2) by (simp add: fbyte_def)
qed simp

lemma read_prefix_step:
  assumes "off < 4096" "i < 16" "bptr node i \<noteq> 0" "0 < left" "c = chunk off left"
    and next': "read_prefix node (Suc i * 4096) (left - c) m"
  shows "read_prefix node (i * 4096 + off) left (c + m)"
    "[i * 4096 + off..<i * 4096 + off + (c + m)]
       = [i * 4096 + off..<i * 4096 + off + c] @ [Suc i * 4096..<Suc i * 4096 + m]"
proof -
  note b = chunk_bounds [OF assms(1), of left, folded assms(5)]
  have m: "m \<le> left - c" using next' by (simp add: read_prefix_def)
  have j: "m = 0 \<or> i * 4096 + off + c = Suc i * 4096" using b m by (cases "c < left") auto
  then show "[i * 4096 + off..<i * 4096 + off + (c + m)]
       = [i * 4096 + off..<i * 4096 + off + c] @ [Suc i * 4096..<Suc i * 4096 + m]"
  proof
    assume "m = 0"
    then show ?thesis by simp
  next
    assume e: "i * 4096 + off + c = Suc i * 4096"
    have "[i * 4096 + off..<i * 4096 + off + c + m]
       = [i * 4096 + off..<i * 4096 + off + c] @ [i * 4096 + off + c..<i * 4096 + off + c + m]"
      by (rule upt_add_eq_append) simp
    then show ?thesis unfolding e by (simp only: add.assoc [symmetric] e)
  qed
  have first: "i * 4096 + off + k < MAX_FILE \<and> bptr node ((i * 4096 + off + k) div 4096) \<noteq> 0" if "k < c" for k
  proof -
    have k: "off + k < 4096" using that b by linarith
    have "i * 4096 \<le> 15 * 4096" using assms(2) by (intro mult_le_mono1) simp
    then show ?thesis using k block_index(1) [OF k, of i] assms(3) by (simp add: MAX_FILE_def)
  qed
  have later: "i * 4096 + off + k = Suc i * 4096 + (k - c)" if "c \<le> k" "m \<noteq> 0 \<or> c < left" for k
  proof -
    have "i * 4096 + off + c = Suc i * 4096" using j that(2) b(4) by auto
    then show ?thesis using that(1) by linarith
  qed
  have "i * 4096 + off + k < MAX_FILE \<and> bptr node ((i * 4096 + off + k) div 4096) \<noteq> 0" if "k < c + m" for k
  proof (cases "k < c")
    case True
    then show ?thesis by (rule first)
  next
    case False
    then have "c \<le> k" "k - c < m" "m \<noteq> 0" using that by auto
    then show ?thesis using next' later [of k] unfolding read_prefix_def by metis
  qed
  moreover have "MAX_FILE \<le> i * 4096 + off + (c + m) \<or> bptr node ((i * 4096 + off + (c + m)) div 4096) = 0"
    if "c + m < left"
  proof -
    have lt: "m < left - c" "c < left" using that by auto
    have e: "i * 4096 + off + (c + m) = Suc i * 4096 + m"
      using later [of "c + m"] lt(2) unfolding add_diff_cancel_left' using le_add1 by blast
    show ?thesis unfolding e using next' lt(1) by (simp only: read_prefix_def)
  qed
  ultimately show "read_prefix node (i * 4096 + off) left (c + m)"
    using m b(2) unfolding read_prefix_def by auto
qed

lemma read_loop_spec:
  assumes "mounted s" "in_table node" "off < 4096" "i \<le> 16" "length buf \<le> nbytes"
  shows "\<exists>m. read_loop s node i off nbytes buf
      = buf @ map (fbyte s node) [i * 4096 + off..<i * 4096 + off + m] \<and>
    read_prefix node (i * 4096 + off) (nbytes - length buf) m"
  using assms
proof (induction s node i off nbytes buf rule: read_loop.induct)
  case (1 s node i off nbytes buf)
  let ?left = "nbytes - length buf"
  show ?case
  proof (cases "i < 16 \<and> length buf < nbytes \<and> direct_ptr node ! i \<noteq> 0")
    case False
    have "read_loop s node i off nbytes buf = buf"
      using False by (subst read_loop.simps) auto
    moreover have "read_prefix node (i * 4096 + off) ?left 0"
    proof -
      have "i = 16 \<or> bptr node i = 0 \<or> ?left = 0" using False "1.prems"(4) by (auto simp: bptr_eq_0_iff)
      then show ?thesis
        using block_index(1) [of off 0 i] "1.prems"(3) by (auto simp: read_prefix_def MAX_FILE_def)
    qed
    ultimately show ?thesis by (intro exI [of _ 0]) simp
  next
    case True
    let ?c = "chunk off ?left"
    have p: "bptr node i \<noteq> 0" "bptr node i < 16451"
      using True "1.prems"(2) by (auto simp: bptr_eq_0_iff in_table_def)
    obtain r where R: "read_block s (int (bptr node i)) = (r, contents s (bptr node i))"
      by (rule read_blockE [OF "1.prems"(1), of "bptr node i"]) (use p(2) in simp_all)
    note b = chunk_bounds [OF "1.prems"(3), of ?left]
    let ?buf = "buf @ load_bytes (contents s (bptr node i)) off ?c"
    have run: "read_loop s node i off nbytes buf = read_loop s node (Suc i) 0 nbytes ?buf"
      using True R sint_bptr [OF p(2)] by (subst read_loop.simps) (simp add: Let_def)
    have len: "length ?buf \<le> nbytes" "nbytes - length ?buf = ?left - ?c" using b(2) True by auto
    have "\<exists>m. read_loop s node (Suc i) 0 nbytes ?buf
        = ?buf @ map (fbyte s node) [Suc i * 4096 + 0..<Suc i * 4096 + 0 + m] \<and>
        read_prefix node (Suc i * 4096 + 0) (nbytes - length ?buf) m"
      using True R sint_bptr [OF p(2)] "1.prems"(1,2) len(1) by (intro "1.IH") (auto simp: Let_def)
    then obtain m where m: "read_loop s node (Suc i) 0 nbytes ?buf
        = ?buf @ map (fbyte s node) [Suc i * 4096..<Suc i * 4096 + m]"
      "read_prefix node (Suc i * 4096) (?left - ?c) m"
      unfolding len(2) add_0_right by blast
    have "i < 16" "0 < ?left" using True by auto
    note step = read_prefix_step [OF "1.prems"(3) this(1) p(1) this(2) refl m(2)]
    show ?thesis
      using run m(1) step load_fbyte [OF b(3) p(1), of s] by (intro exI [of _ "?c + m"]) simp
  qed
qed

section \<open>Writing\<close>

text \<open>
  What the write loop keeps: the inode table, the blocks of the other inodes, the inode bitmap,
  the blocks in use.
\<close>

definition file_frame :: "fs \<Rightarrow> fs \<Rightarrow> nat \<Rightarrow> bool" where
  "file_frame s s' n \<longleftrightarrow> (\<forall>m < 1024. inode_at s' m = inode_at s m) \<and>
     (\<forall>m < 1024. m \<noteq> n \<longrightarrow> valid s m \<longrightarrow> (\<forall>l < 16. bptr (inode_at s m) l \<noteq> 0 \<longrightarrow>
        contents s' (bptr (inode_at s m) l) = contents s (bptr (inode_at s m) l))) \<and>
     (\<forall>i. ino_used s' i = ino_used s i) \<and> (\<forall>b. blk_used s b \<longrightarrow> blk_used s' b) \<and>
     fs_time s' = fs_time s \<and> fs_uid s' = fs_uid s \<and> fs_gid s' = fs_gid s"

lemma file_frame_refl [simp]: "file_frame s s n"
  by (simp add: file_frame_def)

lemma file_frameD:
  assumes "file_frame s s' n"
  shows "m < 1024 \<Longrightarrow> inode_at s' m = inode_at s m"
    "m < 1024 \<Longrightarrow> m \<noteq> n \<Longrightarrow> valid s m \<Longrightarrow> l < 16 \<Longrightarrow> bptr (inode_at s m) l \<noteq> 0 \<Longrightarrow>
       contents s' (bptr (inode_at s m) l) = contents s (bptr (inode_at s m) l)"
    "ino_used s' i = ino_used s i" "blk_used s b \<Longrightarrow> blk_used s' b"
    "fs_time s' = fs_time s" "fs_uid s' = fs_uid s" "fs_gid s' = fs_gid s"
  using assms by (simp_all add: file_frame_def)

lemma file_frame_trans:
  assumes "file_frame s s1 n" "file_frame s1 s2 n"
  shows "file_frame s s2 n"
  using assms unfolding file_frame_def valid_def by simp

lemma bptr_update: "length (direct_ptr node) = 16 \<Longrightarrow> i < 16 \<Longrightarrow>
    bptr (node\<lparr>direct_ptr := (direct_ptr node)[i := w]\<rparr>) k = (if k = i then unat w else bptr node k)"
  by (simp add: bptr_def nth_list_update)

text \<open>A fresh block, a block of zeros, takes the place of a hole.\<close>

lemma node_ok_new_block:
  assumes inv: "fs_inv s" "n < 1024" and ok: "node_ok s n node" and i: "i < 16" "bptr node i = 0"
    and j: "j < 16384" "\<not> blk_used s j"
    and s1: "\<And>m. inode_at s1 m = inode_at s m" "\<And>i. ino_used s1 i = ino_used s i"
      "\<And>b. blk_used s1 b \<longleftrightarrow> b = j \<or> blk_used s b"
    and node1: "node1 = node\<lparr>direct_ptr := (direct_ptr node)[i := word_of_int (int (67 + j))]\<rparr>"
  shows "node_ok s1 n node1" and "bptr node1 k = (if k = i then 67 + j else bptr node k)"
proof -
  have len: "length (direct_ptr node) = 16" using node_okD(1) [OF ok] by (simp add: inode_wf_def)
  have "unat (word_of_int (int (67 + j)) :: u32) = 67 + j"
    using j(1) by (simp only: of_int_of_nat_eq) (simp add: unat_of_nat del: of_nat_add)
  then have P: "bptr node1 k = (if k = i then 67 + j else bptr node k)" for k
    unfolding node1 bptr_update [OF len i(1)] by simp
  then show "bptr node1 k = (if k = i then 67 + j else bptr node k)" .
  have fresh: "bptr x k \<noteq> 67 + j" if "node_ok s m x" "k < 16" for m x k
    using node_okD(4) [OF that] j(2) by (auto simp: data_block_def)
  have other: "bptr (inode_at s m) l \<noteq> 67 + j" if "m < 1024" "valid s m" "l < 16" for m l
    by (rule fresh [OF fs_invD(2) [OF inv(1) that(1,2)] that(3)])
  have "data_block s1 (bptr node1 k)" if "k < 16" "bptr node1 k \<noteq> 0" for k
    using that node_okD(4) [OF ok that(1)] j(1) by (auto simp: P data_block_def s1(3))
  moreover have "k = l" if "k < 16" "l < 16" "bptr node1 k \<noteq> 0" "bptr node1 k = bptr node1 l" for k l
    using that node_okD(5) [OF ok that(1,2)] fresh [OF ok that(1)] fresh [OF ok that(2)]
    by (auto simp: P split: if_splits)
  moreover have "bptr (inode_at s1 m) l \<noteq> bptr node1 k"
    if "m < 1024" "k < 16" "l < 16" "m \<noteq> n" "valid s1 m" "bptr node1 k \<noteq> 0" for m k l
    using that node_okD(6) [OF ok that(1-4)] other [OF that(1) _ that(3)]
    by (auto simp: P s1(1) valid_def split: if_splits)
  ultimately show "node_ok s1 n node1"
    using node_okD(1-3) [OF ok] len unfolding node_ok_def by (simp add: s1(2) node1 inode_wf_def)
qed

lemma ensure_block:
  assumes inv: "fs_inv s" "n < 1024" "node_ok s n node" "i < 16"
  obtains
    (full) "direct_ptr node ! i = 0" "get_avail_blkno s = (- 1, s)" "\<And>b. b < 16384 \<Longrightarrow> blk_used s b"
  | (ready) blk s1 node1 where
      "(if direct_ptr node ! i = 0 then get_avail_blkno s else (sint (direct_ptr node ! i), s)) = (blk, s1)"
      "\<not> (direct_ptr node ! i = 0 \<and> blk < 0)"
      "node1 = (if direct_ptr node ! i = 0
                then node\<lparr>direct_ptr := (direct_ptr node)[i := word_of_int blk]\<rparr> else node)"
      "fs_inv s1" "node_ok s1 n node1" "bptr node1 i \<noteq> 0" "file_frame s s1 n"
      "\<And>x. x < MAX_FILE \<Longrightarrow> fbyte s1 node1 x = fbyte s node x"
proof (cases "direct_ptr node ! i = 0")
  case False
  then show thesis
    using inv by (intro ready [of "sint (direct_ptr node ! i)" s node]) (simp_all add: bptr_eq_0_iff)
next
  case True
  from inv(1) show thesis
  proof (cases rule: alloc_blk_inv)
    case full
    then show thesis using True by (intro that(1)) auto
  next
    case (avail j s1)
    define node1 where "node1 = node\<lparr>direct_ptr := (direct_ptr node)[i := word_of_int (int (67 + j))]\<rparr>"
    have p0: "bptr node i = 0" using True by (simp add: bptr_eq_0_iff)
    note N = node_ok_new_block [OF inv p0 avail(2,3,7,5,6) node1_def]
    have "bptr (inode_at s m) l \<noteq> 2" if "m < 1024" "valid s m" "l < 16" for m l
      using node_okD(4) [OF fs_invD(2) [OF inv(1) that(1,2)] that(3)] by (auto simp: data_block_def)
    then have frame: "file_frame s s1 n"
      using avail(5-11) unfolding file_frame_def by simp
    have zero: "contents s1 (67 + j) x = 0" if "x < 4096" for x
      using fs_invD(3) [OF inv(1) avail(2,3) that] avail(8) [of "67 + j"] by simp
    have "fbyte s1 node1 x = fbyte s node x" if "x < MAX_FILE" for x
    proof (cases "x div 4096 = i")
      case True
      then show ?thesis using zero [of "x mod 4096"] p0 by (simp add: fbyte_def N(2))
    next
      case False
      have "x div 4096 < 16" using that by (simp add: MAX_FILE_def less_mult_imp_div_less)
      then have "bptr node (x div 4096) \<noteq> 0 \<Longrightarrow> bptr node (x div 4096) \<noteq> 2"
        using node_okD(4) [OF inv(3)] by (force simp: data_block_def)
      then show ?thesis using False avail(8) by (auto simp: fbyte_def N(2))
    qed
    then show thesis
      using True avail(1,4) N frame node1_def
      by (intro that(2) [of "int (67 + j)" s1 node1]) auto
  qed
qed

text \<open>Writing part of one block of the node.\<close>

lemma put_chunk:
  assumes inv: "fs_inv s" "node_ok s n node" "i < 16" "bptr node i \<noteq> 0" "off + length bs \<le> 4096"
  obtains r s' where
    "write_block s (sint (direct_ptr node ! i)) (store_bytes (contents s (bptr node i)) off bs) = (r, s')"
    "fs_inv s'" "node_ok s' n node" "file_frame s s' n"
    "\<And>x. x < MAX_FILE \<Longrightarrow> fbyte s' node x =
       (if i * 4096 + off \<le> x \<and> x < i * 4096 + off + length bs then bs ! (x - (i * 4096 + off)) else fbyte s node x)"
proof -
  let ?b = "bptr node i" and ?buf = "store_bytes (contents s (bptr node i)) off bs"
  have d: "data_block s ?b" by (rule node_okD(4) [OF inv(2-4)])
  have sint: "sint (direct_ptr node ! i) = int ?b" using d by (intro sint_bptr) (simp add: data_block_def)
  obtain r s' where W: "write_block s (int ?b) ?buf = (r, s')" "0 \<le> r" "fs_inv s'"
    "contents s' = (contents s)(?b := ?buf)" "\<And>n. n < 1024 \<Longrightarrow> inode_at s' n = inode_at s n"
    "\<And>i. ino_used s' i = ino_used s i" "\<And>i. blk_used s' i = blk_used s i"
    "fs_time s' = fs_time s" "fs_uid s' = fs_uid s" "fs_gid s' = fs_gid s"
    by (rule write_data_inv [OF inv(1) d, of ?buf], rule that) (assumption+)
  have ok: "node_ok s' n node"
    using W(5-7) by (intro node_ok_mono [OF inv(2)]) auto
  have frame: "file_frame s s' n"
    using node_okD(6) [OF inv(2) _ inv(3) _ _ _ inv(4)] W(4-10) unfolding file_frame_def by auto
  have "fbyte s' node x =
      (if i * 4096 + off \<le> x \<and> x < i * 4096 + off + length bs then bs ! (x - (i * 4096 + off)) else fbyte s node x)"
    if "x < MAX_FILE" for x
  proof -
    have k: "x div 4096 < 16" using that by (simp add: MAX_FILE_def less_mult_imp_div_less)
    have x: "x = x div 4096 * 4096 + x mod 4096" by simp
    have lt: "x mod 4096 < 4096" by simp
    show ?thesis
    proof (cases "x div 4096 = i")
      case True
      then have "i * 4096 + off \<le> x \<and> x < i * 4096 + off + length bs \<longleftrightarrow> off \<le> x mod 4096 \<and> x mod 4096 < off + length bs"
        "x - (i * 4096 + off) = x mod 4096 - off" using x by linarith+
      then show ?thesis using True inv(4) by (auto simp: fbyte_def W(4) mem_simps)
    next
      case False
      then have "bptr node (x div 4096) \<noteq> 0 \<Longrightarrow> bptr node (x div 4096) \<noteq> ?b"
        using node_okD(5) [OF inv(2) k inv(3)] by blast
      moreover have "\<not> (i * 4096 + off \<le> x \<and> x < i * 4096 + off + length bs)"
      proof
        assume a: "i * 4096 + off \<le> x \<and> x < i * 4096 + off + length bs"
        then have "i * 4096 \<le> x" "x < Suc i * 4096" using inv(5) unfolding mult_Suc by linarith+
        then have "x div 4096 = i" by (intro div_nat_eqI) (simp_all only: mult.commute)
        then show False using False by simp
      qed
      ultimately show ?thesis by (auto simp: fbyte_def W(4))
    qed
  qed
  then show thesis using that [of r s'] W(1,3) sint ok frame by simp
qed

section \<open>The write loop\<close>

text \<open>\<open>w\<close> of \<open>left\<close> bytes fit below the largest file offset.\<close>

definition write_len :: "nat \<Rightarrow> nat \<Rightarrow> nat" where
  "write_len pos left = min left (MAX_FILE - pos)"

definition same_but_ptrs :: "inode \<Rightarrow> inode \<Rightarrow> bool" where
  "same_but_ptrs node node' \<longleftrightarrow> (\<exists>ps. node' = node\<lparr>direct_ptr := ps\<rparr>)"

lemma same_but_ptrs_refl [simp]: "same_but_ptrs node node"
  unfolding same_but_ptrs_def by (rule exI [of _ "direct_ptr node"]) simp

lemma same_but_ptrs_upd [simp]: "same_but_ptrs node (node\<lparr>direct_ptr := ps\<rparr>)"
  unfolding same_but_ptrs_def by (rule exI [of _ ps]) simp

lemma same_but_ptrs_trans: "same_but_ptrs a b \<Longrightarrow> same_but_ptrs b c \<Longrightarrow> same_but_ptrs a c"
  unfolding same_but_ptrs_def by auto

text \<open>Every block the write has touched, and every block there was before, is allocated.\<close>

definition backed :: "inode \<Rightarrow> inode \<Rightarrow> nat \<Rightarrow> nat \<Rightarrow> bool" where
  "backed node node' i end \<longleftrightarrow>
     (\<forall>k < 16. bptr node k \<noteq> 0 \<or> (i \<le> k \<and> k * 4096 < end) \<longrightarrow> bptr node' k \<noteq> 0)"

lemma backed_refl [simp]: "backed node node i 0"
  by (simp add: backed_def)

lemma backedD:
  assumes "backed node node' (pos div 4096) (pos + n)" "x < n" "pos + x < MAX_FILE"
  shows "bptr node' ((pos + x) div 4096) \<noteq> 0"
proof -
  have "(pos + x) div 4096 < 16" using assms(3) by (simp add: MAX_FILE_def less_mult_imp_div_less)
  moreover have "pos div 4096 \<le> (pos + x) div 4096" by (simp add: div_le_mono)
  moreover have "(pos + x) div 4096 * 4096 \<le> pos + x" by (rule div_times_less_eq_dividend)
  then have "(pos + x) div 4096 * 4096 < pos + n" using assms(2) by linarith
  ultimately show ?thesis using assms(1) unfolding backed_def by blast
qed

lemma backed_join:
  assumes first: "backed node node1 i (i * 4096 + 1)" and rest: "backed node1 node' (Suc i) (if c < e then Suc i * 4096 + (e - c) else 0)"
    and c: "e = c \<or> pos + c = Suc i * 4096" "c \<le> e" "pos + c \<le> Suc i * 4096"
  shows "backed node node' i (pos + e)"
  unfolding backed_def
proof (intro allI impI)
  fix k assume k: "k < 16" and a: "bptr node k \<noteq> 0 \<or> (i \<le> k \<and> k * 4096 < pos + e)"
  show "bptr node' k \<noteq> 0"
  proof (cases "bptr node1 k = 0")
    case False
    then show ?thesis using rest k unfolding backed_def by blast
  next
    case True
    then have "bptr node k = 0" "k \<noteq> i" using first k unfolding backed_def by auto
    then have b: "Suc i \<le> k" "k * 4096 < pos + e" using a by auto
    have "Suc i * 4096 \<le> k * 4096" using b(1) by (intro mult_le_mono1)
    then have "e \<noteq> c" using b(2) c(3) by linarith
    then have "k * 4096 < (if c < e then Suc i * 4096 + (e - c) else 0)" using b(2) c by auto
    then show ?thesis using rest k b(1) unfolding backed_def by blast
  qed
qed

lemma write_loop_step:
  assumes "i < 16" "w < length buffer"
    and "(if direct_ptr node ! i = 0 then get_avail_blkno s else (sint (direct_ptr node ! i), s)) = (blk, s1)"
    and "\<not> (direct_ptr node ! i = 0 \<and> blk < 0)"
    and "node1 = (if direct_ptr node ! i = 0
                  then node\<lparr>direct_ptr := (direct_ptr node)[i := word_of_int blk]\<rparr> else node)"
    and "snd (read_block s1 (sint (direct_ptr node1 ! i))) = blockbuffer"
    and "write_block s1 (sint (direct_ptr node1 ! i)) (store_bytes blockbuffer off
           (take (chunk off (length buffer - w)) (drop w buffer))) = (r, s2)"
  shows "write_loop s node i w off buffer
    = write_loop s2 node1 (Suc i) (w + chunk off (length buffer - w)) 0 buffer"
proof -
  have "i < 16 \<and> w < length buffer" using assms(1,2) by simp
  then show ?thesis
    by (subst write_loop.simps) (simp only: if_True Let_def assms(3) split_conv assms(4) if_False
        assms(5) [symmetric] assms(6,7) snd_conv simp_thms)
qed

text \<open>The chunk written to one block and what the rest of the loop writes make one write.\<close>

lemma write_join_len:
  assumes c: "c \<le> length buffer - w" "w < length buffer" "c < length buffer - w \<longrightarrow> pos + c = next"
      "pos + c \<le> next" "next \<le> MAX_FILE"
    and w': "w' = w + c + write_len next (length buffer - (w + c))"
  shows "w' = w + write_len pos (length buffer - w)"
proof (cases "c < length buffer - w")
  case True
  then show ?thesis using c(2,3,5) unfolding w' write_len_def min_def by (auto split: if_splits)
next
  case False
  then show ?thesis using c unfolding w' by (auto simp: write_len_def)
qed

lemma write_join:
  fixes f g h :: "nat \<Rightarrow> u8"
  assumes c: "c \<le> length buffer - w" "w < length buffer" "c < length buffer - w \<longrightarrow> pos + c = next"
      "pos + c \<le> next" "next \<le> MAX_FILE"
    and w': "w' = w + c + write_len next (length buffer - (w + c))"
    and g: "g x = (if pos \<le> x \<and> x < pos + c then take c (drop w buffer) ! (x - pos) else f x)"
    and h: "h x = (if next \<le> x \<and> x < next + (w' - (w + c)) then buffer ! (w + c + (x - next)) else g x)"
  shows "h x = (if pos \<le> x \<and> x < pos + (w' - w) then buffer ! (w + (x - pos)) else f x)"
proof -
  have nth: "take c (drop w buffer) ! (x - pos) = buffer ! (w + (x - pos))" if "pos \<le> x" "x < pos + c"
    using that c(1,2) by (simp add: nth_take less_diff_conv2)
  show ?thesis
  proof (cases "c < length buffer - w")
    case True
    then have join: "w + c + (x - next) = w + (x - pos)" if "next \<le> x" using c(3) that by linarith
    have le: "c \<le> write_len pos (length buffer - w)" using c(1,4,5) by (simp add: write_len_def)
    then show ?thesis using True c nth le join write_join_len [OF c w'] unfolding g h by auto
  next
    case False
    then have "c = length buffer - w" "w' = w + c" using c(1) w' by (auto simp: write_len_def)
    then show ?thesis using c nth unfolding g h by (auto simp: write_len_def)
  qed
qed

lemma write_loop_spec:
  assumes "fs_inv s" "node_ok s n node" "n < 1024" "off < 4096" "i \<le> 16" "w \<le> length buffer"
  shows "\<exists>s' res. write_loop s node i w off buffer = (s', res) \<and> fs_inv s' \<and> file_frame s s' n \<and>
    (case res of
       None \<Rightarrow> (\<forall>b < 16384. blk_used s' b)
     | Some (node', w') \<Rightarrow> node_ok s' n node' \<and> same_but_ptrs node node' \<and>
         backed node node' i (if w < w' then i * 4096 + off + (w' - w) else 0) \<and>
         w' = w + write_len (i * 4096 + off) (length buffer - w) \<and>
         (\<forall>x < MAX_FILE. fbyte s' node' x =
            (if i * 4096 + off \<le> x \<and> x < i * 4096 + off + (w' - w)
             then buffer ! (w + (x - (i * 4096 + off))) else fbyte s node x)))"
  using assms
proof (induction "16 - i" arbitrary: s node i w off)
  case 0
  then have "write_loop s node i w off buffer = (s, Some (node, w))"
    by (subst write_loop.simps) simp
  moreover have "write_len (i * 4096 + off) (length buffer - w) = 0"
    using 0 by (simp add: write_len_def MAX_FILE_def)
  ultimately show ?case using 0 by auto
next
  case (Suc d)
  then have i: "i < 16" by simp
  show ?case
  proof (cases "w < length buffer")
    case False
    then have "write_loop s node i w off buffer = (s, Some (node, w))"
      by (subst write_loop.simps) simp
    then show ?thesis using Suc.prems False by (auto simp: write_len_def)
  next
    case w: True
    from Suc.prems(1,3,2) i show ?thesis
    proof (cases rule: ensure_block)
      case full
      have "write_loop s node i w off buffer = (s, None)"
        using i w full(1,2) by (subst write_loop.simps) simp
      then show ?thesis using Suc.prems(1) full(3) by simp
    next
      case (ready blk s1 node1)
      let ?left = "length buffer - w" and ?pos = "i * 4096 + off"
      let ?c = "chunk off ?left"
      let ?bs = "take ?c (drop w buffer)"
      note b = chunk_bounds [OF Suc.prems(4), of ?left]
      have len: "length ?bs = ?c" using b(2) by simp
      have "off + length ?bs \<le> 4096" using b(3) len by simp
      then obtain r s2 where P: "write_block s1 (sint (direct_ptr node1 ! i))
            (store_bytes (contents s1 (bptr node1 i)) off ?bs) = (r, s2)"
        "fs_inv s2" "node_ok s2 n node1" "file_frame s1 s2 n"
        "\<And>x. x < MAX_FILE \<Longrightarrow> fbyte s2 node1 x =
          (if ?pos \<le> x \<and> x < ?pos + length ?bs then ?bs ! (x - ?pos) else fbyte s1 node1 x)"
        by (rule put_chunk [OF ready(4,5) i ready(6)]) blast
      have "data_block s1 (bptr node1 i)" by (rule node_okD(4) [OF ready(5) i ready(6)])
      then have blk: "bptr node1 i < 16451" by (simp add: data_block_def)
      obtain q where "read_block s1 (int (bptr node1 i)) = (q, contents s1 (bptr node1 i))" "0 \<le> q"
        by (rule read_blockE [OF fs_invD(1) [OF ready(4)], of "bptr node1 i"]) (use blk in simp_all)
      then have rd: "snd (read_block s1 (sint (direct_ptr node1 ! i))) = contents s1 (bptr node1 i)"
        by (simp add: sint_bptr [OF blk])
      note run = write_loop_step [OF i w ready(1,2,3) rd P(1)]
      have "\<exists>s' res. write_loop s2 node1 (Suc i) (w + ?c) 0 buffer = (s', res) \<and> fs_inv s' \<and> file_frame s2 s' n \<and>
        (case res of
           None \<Rightarrow> (\<forall>b < 16384. blk_used s' b)
         | Some (node', w') \<Rightarrow> node_ok s' n node' \<and> same_but_ptrs node1 node' \<and>
             backed node1 node' (Suc i) (if w + ?c < w' then Suc i * 4096 + 0 + (w' - (w + ?c)) else 0) \<and>
             w' = w + ?c + write_len (Suc i * 4096 + 0) (length buffer - (w + ?c)) \<and>
             (\<forall>x < MAX_FILE. fbyte s' node' x =
                (if Suc i * 4096 + 0 \<le> x \<and> x < Suc i * 4096 + 0 + (w' - (w + ?c))
                 then buffer ! (w + ?c + (x - (Suc i * 4096 + 0))) else fbyte s2 node1 x)))"
        using Suc.hyps(2) P(2,3) Suc.prems(3) i b(2) w by (intro Suc.hyps(1)) auto
      then obtain s' res where rest: "write_loop s2 node1 (Suc i) (w + ?c) 0 buffer = (s', res)" "fs_inv s'"
        "file_frame s2 s' n" "case res of
           None \<Rightarrow> (\<forall>b < 16384. blk_used s' b)
         | Some (node', w') \<Rightarrow> node_ok s' n node' \<and> same_but_ptrs node1 node' \<and>
             backed node1 node' (Suc i) (if w + ?c < w' then Suc i * 4096 + (w' - (w + ?c)) else 0) \<and>
             w' = w + ?c + write_len (Suc i * 4096) (length buffer - (w + ?c)) \<and>
             (\<forall>x < MAX_FILE. fbyte s' node' x =
                (if Suc i * 4096 \<le> x \<and> x < Suc i * 4096 + (w' - (w + ?c))
                 then buffer ! (w + ?c + (x - Suc i * 4096)) else fbyte s2 node1 x))"
        unfolding add_0_right by blast
      have frame: "file_frame s s' n"
        using file_frame_trans [OF file_frame_trans [OF ready(7) P(4)] rest(3)] .
      show ?thesis
      proof (cases res)
        case None
        then show ?thesis using run rest(1,2,4) frame by simp
      next
        case (Some p)
        obtain node' w' where p: "p = (node', w')" by (cases p)
        have R0: "backed node1 node' (Suc i) (if w + ?c < w' then Suc i * 4096 + (w' - (w + ?c)) else 0)"
          using rest(4) [unfolded Some p option.case prod.case] by blast
        have R: "node_ok s' n node'" "same_but_ptrs node1 node'"
          "w' = w + ?c + write_len (Suc i * 4096) (length buffer - (w + ?c))"
          "\<And>x. x < MAX_FILE \<Longrightarrow> fbyte s' node' x =
                (if Suc i * 4096 \<le> x \<and> x < Suc i * 4096 + (w' - (w + ?c))
                 then buffer ! (w + ?c + (x - Suc i * 4096)) else fbyte s2 node1 x)"
          using rest(4) by (simp_all add: Some p)
        have ok: "same_but_ptrs node node1" using ready(3) by auto
        have "Suc i * 4096 \<le> MAX_FILE" using i by (simp add: MAX_FILE_def)
        moreover have "?c < ?left \<Longrightarrow> ?pos + ?c = Suc i * 4096" "?pos + ?c \<le> Suc i * 4096"
          using b(3,4) by auto
        ultimately have C: "?c < ?left \<longrightarrow> ?pos + ?c = Suc i * 4096" "?pos + ?c \<le> Suc i * 4096"
          "Suc i * 4096 \<le> MAX_FILE" by blast+
        have G: "fbyte s2 node1 x = (if ?pos \<le> x \<and> x < ?pos + ?c then ?bs ! (x - ?pos) else fbyte s node x)"
          if "x < MAX_FILE" for x
          unfolding P(5) [OF that] len ready(8) [OF that] ..
        have J: "w' = w + write_len ?pos ?left"
          by (rule write_join_len [OF b(2) w C R(3)])
        have B: "fbyte s' node' x =
             (if ?pos \<le> x \<and> x < ?pos + (w' - w) then buffer ! (w + (x - ?pos)) else fbyte s node x)"
          if "x < MAX_FILE" for x
          by (rule write_join [OF b(2) w C R(3), of "fbyte s2 node1"]) (rule G [OF that] R(4) [OF that])+
        have len': "w < w'" "w + ?c \<le> w'" using R(3) b(1) w by simp_all
        have "bptr node1 k \<noteq> 0" if "k < 16" "bptr node k \<noteq> 0 \<or> i \<le> k \<and> k * 4096 < i * 4096 + 1" for k
          using that ready(6) node_okD(1) [OF Suc.prems(2)] i ready(3)
          by (cases "k = i") (auto simp: bptr_def inode_wf_def)
        then have "backed node node1 i (i * 4096 + 1)" unfolding backed_def by blast
        then have K: "backed node node' i (?pos + (w' - w))"
        proof (rule backed_join [where c = "?c"])
          have "?c < w' - w \<longleftrightarrow> w + ?c < w'" "w' - w - ?c = w' - (w + ?c)" using len' by auto
          then show "backed node1 node' (Suc i) (if ?c < w' - w then Suc i * 4096 + (w' - w - ?c) else 0)"
            using R0 by presburger
          show "w' - w = ?c \<or> ?pos + ?c = Suc i * 4096"
            using C(1) R(3) b(2) w by (auto simp: write_len_def)
        qed (use C(2) len' in simp_all)
        show ?thesis
          using run rest(1,2) frame R(1) same_but_ptrs_trans [OF ok R(2)] J B K len'(1) by (simp add: Some p)
      qed
    qed
  qed
qed

end
