(* ===== verification/FS_Lookup.thy ===== *)
theory FS_Lookup
  imports FS_File
begin

text \<open>
  Directories as finite maps. \<open>dents s d\<close> maps the slots of a directory (16 blocks of 19 entries)
  to the live entries; \<open>dir_find\<close> searches it in slot order, \<open>dir_add\<close> extends it in a slot that
  was not live. \<open>lookup\<close> is the map from names to inode numbers that the two implement.
\<close>

section \<open>Entries\<close>

lemma ents_per_blk_eq: "ents_per_blk = 19"
  by (simp add: ents_per_blk_def BLOCK_SIZE_def sizeof_dirent_def)

definition slot :: "fs \<Rightarrow> inode \<Rightarrow> nat \<Rightarrow> dirent" where
  "slot s d k = entry_at (contents s (bptr d (k div 19))) (k mod 19)"

definition dents :: "fs \<Rightarrow> inode \<Rightarrow> nat \<rightharpoonup> dirent" where
  "dents s d k = (if k < 304 \<and> bptr d (k div 19) \<noteq> 0 \<and> d_valid (slot s d k) \<noteq> 0
                  then Some (slot s d k) else None)"

definition entry_named :: "cstr \<Rightarrow> dirent \<Rightarrow> bool" where
  "entry_named name e \<longleftrightarrow> d_len e = of_nat (length name) \<and> strncmp_eq (d_name e) name (length name)"

definition named_at :: "fs \<Rightarrow> inode \<Rightarrow> cstr \<Rightarrow> nat \<Rightarrow> bool" where
  "named_at s d name k \<longleftrightarrow> (case dents s d k of Some e \<Rightarrow> entry_named name e | None \<Rightarrow> False)"

definition lookup_dir :: "fs \<Rightarrow> inode \<Rightarrow> cstr \<Rightarrow> nat option" where
  "lookup_dir s d name = map_option (\<lambda>k. unat (d_ino (slot s d k))) (scan (named_at s d name) 0 304)"

definition lookup :: "fs \<Rightarrow> nat \<Rightarrow> cstr \<Rightarrow> nat option" where
  "lookup s n name =
     (if valid s n \<and> length name \<le> 208 then lookup_dir s (inode_at s n) name else None)"

lemma named_at_iff: "named_at s d name k \<longleftrightarrow>
    k < 304 \<and> bptr d (k div 19) \<noteq> 0 \<and> entry_matches (slot s d k) name (length name)"
  by (auto simp: named_at_def dents_def entry_matches_def entry_named_def)

text \<open>A lookup depends on the live entries only.\<close>

lemma scan_named_cong:
  "dents s' d' = dents s d \<Longrightarrow> scan (named_at s' d' name) 0 304 = scan (named_at s d name) 0 304"
  by (rule scan_cong) (simp add: named_at_def)

lemma dents_slot: "dents s d k = Some e \<Longrightarrow> e = slot s d k"
  by (simp add: dents_def split: if_splits)

lemma named_dents: "named_at s d name k \<Longrightarrow> dents s d k = Some (slot s d k)"
  unfolding named_at_def using dents_slot by (cases "dents s d k") auto

lemma lookup_dir_iff: "lookup_dir s d name = Some m \<longleftrightarrow>
    (\<exists>k. scan (named_at s d name) 0 304 = Some k \<and> (\<exists>e. dents s d k = Some e \<and> m = unat (d_ino e)))"
proof (cases "scan (named_at s d name) 0 304")
  case None
  then show ?thesis by (simp add: lookup_dir_def)
next
  case (Some k)
  have "dents s d k = Some (slot s d k)" by (rule named_dents, rule scan_SomeD(3) [OF Some])
  then show ?thesis unfolding lookup_dir_def Some option.map option.inject by force
qed

lemma lookup_dir_cong: "dents s' d' = dents s d \<Longrightarrow> lookup_dir s' d' name = lookup_dir s d name"
  by (rule option_eqI) (simp add: lookup_dir_iff scan_named_cong [of s' d' s d])

lemma lookup_dir_None: "lookup_dir s d name = None \<longleftrightarrow> (\<forall>k < 304. \<not> named_at s d name k)"
  by (simp add: lookup_dir_def scan_None_iff)

section \<open>Names\<close>

definition name_ok :: "cstr \<Rightarrow> bool" where
  "name_ok name \<longleftrightarrow> 0 \<notin> set name \<and> length name \<le> 208"

lemma strncmp_eq_take:
  assumes "0 \<notin> set ys" "length ys = n" "n \<le> length xs"
  shows "strncmp_eq xs ys n \<longleftrightarrow> take n xs = ys"
  using assms
proof (induction n arbitrary: xs ys)
  case 0
  then show ?case by simp
next
  case (Suc n)
  obtain x xs' y ys' where "xs = x # xs'" "ys = y # ys'"
    using Suc.prems(2,3) by (cases xs; cases ys) auto
  then show ?case using Suc by auto
qed

lemma of_nat_u16_eq: "m < 65536 \<Longrightarrow> n < 65536 \<Longrightarrow> (of_nat m :: u16) = of_nat n \<longleftrightarrow> m = n"
  using of_nat_inverse [of m "of_nat n :: u16"] of_nat_inverse [of n "of_nat n :: u16"] by auto

lemma length_d_name: "length (d_name (slot s d k)) = 208"
  by (simp add: slot_def entry_at_def dec_dirent_def)

lemma entry_named_iff:
  assumes "name_ok name" "length (d_name e) = 208"
  shows "entry_named name e \<longleftrightarrow> d_len e = of_nat (length name) \<and> take (length name) (d_name e) = name"
  using strncmp_eq_take [of name "length name" "d_name e"] assms by (auto simp: entry_named_def name_ok_def)

section \<open>dir\_find\<close>

text \<open>The loop over the 16 blocks and their 19 entries is one scan of the slots.\<close>

lemma scan_blocks:
  assumes "i < 16"
  shows "scan P (i * 19) 304 = (case scan (\<lambda>j. P (i * 19 + j)) 0 19 of
    Some j \<Rightarrow> Some (i * 19 + j) | None \<Rightarrow> scan P (Suc i * 19) 304)"
proof -
  have "scan P (i * 19) (Suc i * 19) = map_option ((+) (i * 19)) (scan (\<lambda>j. P (i * 19 + j)) 0 19)"
    using scan_shift [of P "i * 19" 0 19] by (simp add: add.commute)
  moreover have "scan P (i * 19) 304 =
      (case scan P (i * 19) (Suc i * 19) of Some k \<Rightarrow> Some k | None \<Rightarrow> scan P (Suc i * 19) 304)"
    using assms by (intro scan_split) simp_all
  ultimately show ?thesis by (simp split: option.split)
qed

lemma dir_find_loop_spec:
  assumes "mounted s" "in_table d" "i \<le> 16" "n = length name"
  shows "dir_find_loop s d name n i =
    (case scan (named_at s d name) (i * 19) 304 of
       Some k \<Rightarrow> (0, Some (slot s d k)) | None \<Rightarrow> (- ENONET, None))"
  using assms(3)
proof (induction "16 - i" arbitrary: i)
  case 0
  then show ?case by (subst dir_find_loop.simps) (simp add: scan.simps)
next
  case (Suc x)
  then have i: "i < 16" by simp
  have IH: "dir_find_loop s d name n (Suc i) = (case scan (named_at s d name) (Suc i * 19) 304 of
       Some k \<Rightarrow> (0, Some (slot s d k)) | None \<Rightarrow> (- ENONET, None))"
    using Suc.hyps(2) i by (intro Suc.hyps(1)) simp_all
  note split = scan_blocks [OF i, of "named_at s d name"]
  show ?case
  proof (cases "direct_ptr d ! i = 0")
    case True
    have "\<not> named_at s d name (i * 19 + j)" if "j < 19" for j
      using that True by (simp add: named_at_iff bptr_eq_0_iff)
    then have "scan (\<lambda>j. named_at s d name (i * 19 + j)) 0 19 = None" by (simp add: scan_None_iff)
    then show ?thesis
      using True i IH split by (subst dir_find_loop.simps) simp
  next
    case False
    have p: "bptr d i \<noteq> 0" "bptr d i < 16451" using False assms(2) i by (auto simp: bptr_eq_0_iff in_table_def)
    obtain r where R: "read_block s (int (bptr d i)) = (r, contents s (bptr d i))" "0 \<le> r"
      by (rule read_blockE [OF assms(1), of "bptr d i"]) (use p(2) in simp_all)
    have match: "scan (\<lambda>j. named_at s d name (i * 19 + j)) 0 19
        = scan (\<lambda>j. entry_matches (entry_at (contents s (bptr d i)) j) name n) 0 19"
      using p(1) i by (intro scan_cong) (simp add: named_at_iff slot_def assms(4))
    have "dir_find_loop s d name n i =
        (case scan (\<lambda>j. entry_matches (entry_at (contents s (bptr d i)) j) name n) 0 19 of
           Some j \<Rightarrow> (0, Some (entry_at (contents s (bptr d i)) j))
         | None \<Rightarrow> dir_find_loop s d name n (Suc i))"
      using False i R sint_bptr [OF p(2)] by (subst dir_find_loop.simps) (simp add: ents_per_blk_eq)
    then show ?thesis
      unfolding IH split match [symmetric]
      by (cases "scan (\<lambda>j. named_at s d name (i * 19 + j)) 0 19")
        (auto simp: slot_def dest: scan_SomeD(2))
  qed
qed

lemma inode_table: "fs_inv s \<Longrightarrow> n < 1024 \<Longrightarrow> valid s n \<Longrightarrow> in_table (inode_at s n)"
  by (rule node_ok_in_table) (rule fs_invD(2))

text \<open>The two results \<open>dir_find\<close> can have on the directory of a mounted file system.\<close>

lemma dir_find_spec:
  assumes inv: "fs_inv s" and n: "unat ino < 1024"
  shows "case dir_find s ino name (length name) of
      (r, Some e) \<Rightarrow> r = 0 \<and> lookup s (unat ino) name = Some (unat (d_ino e))
    | (r, None) \<Rightarrow> r < 0 \<and> lookup s (unat ino) name = None"
proof (cases "valid s (unat ino) \<and> length name \<le> 208")
  case True
  let ?d = "inode_at s (unat ino)"
  have "dir_find s ino name (length name) = dir_find_loop s ?d name (length name) 0"
    using True readi_spec [OF fs_invD(1) [OF inv] n] by (simp add: dir_find_def valid_def)
  then show ?thesis
    using True dir_find_loop_spec [OF fs_invD(1) [OF inv] inode_table [OF inv n], of 0 "length name" name]
    by (auto simp: lookup_def lookup_dir_def errno_defs split: option.splits)
next
  case False
  then show ?thesis
    using readi_spec [OF fs_invD(1) [OF inv] n] by (auto simp: dir_find_def lookup_def valid_def errno_defs)
qed

section \<open>Filling an entry\<close>

definition new_entry :: "mem \<Rightarrow> nat \<Rightarrow> u16 \<Rightarrow> cstr \<Rightarrow> dirent" where
  "new_entry buf j f_ino name =
     \<lparr>d_ino = f_ino, d_valid = 1, d_name = name @ drop (length name) (load_bytes buf (j * 214 + 4) 208),
      d_len = of_nat (length name)\<rparr>"

lemma entry_at_fill_other:
  assumes "j \<noteq> k" "length name \<le> 208"
  shows "entry_at (fill_entry buf j f_ino name (length name)) k = entry_at buf k"
proof -
  have "j < k \<or> k < j" using assms(1) by auto
  then have apart: "j * 214 + 214 \<le> k * 214 \<or> k * 214 + 214 \<le> j * 214" by auto
  show ?thesis
    unfolding entry_at_def sizeof_dirent_def
  proof (rule dec_dirent_cong)
    fix x assume "k * 214 \<le> x" "x < k * 214 + 214"
    then have "x < j * 214 \<or> j * 214 + 214 \<le> x" using apart by linarith
    then show "fill_entry buf j f_ino name (length name) x = buf x"
      using assms(2) by (auto simp: fill_entry_def sizeof_dirent_def store16_def store_bytes_def Let_def)
  qed
qed

lemma entry_at_fill_same:
  assumes "length name \<le> 208"
  shows "entry_at (fill_entry buf j f_ino name (length name)) j = new_entry buf j f_ino name"
proof -
  let ?a = "j * 214" and ?m = "fill_entry buf j f_ino name (length name)"
  have m: "?m = store_bytes (store16 (store16 (store16 buf (?a + 2) 1) ?a f_ino) (?a + 212) (of_nat (length name)))
      (?a + 4) name"
    by (simp add: fill_entry_def sizeof_dirent_def Let_def)
  have fields: "load16 ?m ?a = f_ino" "load16 ?m (?a + 2) = 1" "load16 ?m (?a + 212) = of_nat (length name)"
    using assms load_store_bytes_same [of buf "?a + 2" "le_bytes 2 (1 :: u16)"]
      load_store_bytes_same [of "store16 buf (?a + 2) 1" ?a "le_bytes 2 f_ino"]
      load_store_bytes_same [of "store16 (store16 buf (?a + 2) 1) ?a f_ino" "?a + 212" "le_bytes 2 (of_nat (length name) :: u16)"]
    unfolding m load16_def store16_def
    by (simp_all add: load_store_bytes_disjoint le_word_le_bytes_full)
  have "load_bytes ?m (?a + 4) 208 = name @ drop (length name) (load_bytes buf (?a + 4) 208)"
    using assms unfolding m
    by (intro nth_equalityI) (auto simp: nth_append store_bytes_def store16_def)
  then show ?thesis
    using fields by (simp add: entry_at_def dec_dirent_def new_entry_def sizeof_dirent_def)
qed

lemma new_entry_named:
  assumes "name_ok name" "name_ok name'"
  shows "entry_named name' (new_entry buf j f_ino name) \<longleftrightarrow> name' = name"
proof -
  have len: "length name \<le> 208" "length name' \<le> 208" using assms by (simp_all add: name_ok_def)
  have "entry_named name' (new_entry buf j f_ino name) \<longleftrightarrow>
      (of_nat (length name) :: u16) = of_nat (length name') \<and>
      take (length name') (name @ drop (length name) (load_bytes buf (j * 214 + 4) 208)) = name'"
    using entry_named_iff [OF assms(2), of "new_entry buf j f_ino name"] len by (simp add: new_entry_def)
  also have "\<dots> \<longleftrightarrow> name' = name"
    using of_nat_u16_eq [of "length name" "length name'"] len by auto
  finally show ?thesis .
qed

text \<open>One more live entry in a directory without that name.\<close>

lemma lookup_dir_insert:
  assumes "dents s' d' = (dents s d)(k \<mapsto> e)" "k < 304" "dents s d k = None"
    and e: "\<And>x. name_ok x \<Longrightarrow> entry_named x e \<longleftrightarrow> x = name"
    and x: "name_ok x" and new: "lookup_dir s d name = None"
  shows "lookup_dir s' d' x = (if x = name then Some (unat (d_ino e)) else lookup_dir s d x)"
proof (cases "x = name")
  case True
  have "named_at s' d' name k" using assms(1) e [OF x] True by (simp add: named_at_def)
  moreover have "\<not> named_at s' d' name j" if "j \<noteq> k" "j < 304" for j
    using new that assms(1) by (auto simp: lookup_dir_None named_at_def)
  ultimately have "scan (named_at s' d' name) 0 304 = Some k"
    using assms(2) by (auto simp: scan_Some_iff)
  moreover have "slot s' d' k = e" using dents_slot [of s' d' k e] assms(1) by simp
  ultimately show ?thesis using True by (simp add: lookup_dir_def)
next
  case False
  have n: "named_at s' d' x j = named_at s d x j" for j
    using assms(1,3) e [OF x] False by (simp add: named_at_def)
  have "scan (named_at s' d' x) 0 304 = scan (named_at s d x) 0 304"
    by (rule scan_cong) (rule n)
  moreover have "dents s' d' j = dents s d j" if "named_at s d x j" for j
    using that assms(1,3) by (auto simp: named_at_def)
  ultimately have "lookup_dir s' d' x = Some m \<longleftrightarrow> lookup_dir s d x = Some m" for m
    unfolding lookup_dir_iff using scan_SomeD(3) by metis
  then show ?thesis using False by (simp add: option_eqI)
qed

end
