(* ===== verification/FS_Mkfs.thy ===== *)
theory FS_Mkfs
  imports FS_Inv
begin

text \<open>
  Formatting and mounting: \<open>rufs_mkfs\<close> on a new disk makes a file system that satisfies the
  invariant and holds an empty root directory; \<open>rufs_init\<close> mounts it, and a later process that
  opens the same disk file finds the same contents.
\<close>

section \<open>Zero bytes\<close>

lemma le_word_zeros [simp]: "le_word (replicate n 0) = 0"
  by (induction n) simp_all

lemma load_zeros: "load_bytes (\<lambda>_. 0) a n = replicate n 0"
  by (rule nth_equalityI) simp_all

lemma dec_inode_zeros: "dec_inode (\<lambda>_. 0) a = zero_inode"
proof -
  have "dec_u32s (\<lambda>_. 0) b n = replicate n 0" for b n
    by (rule nth_equalityI) (simp_all add: dec_u32s_def load32_def load_zeros)
  then show ?thesis
    by (simp add: dec_inode_def dec_stat_def zero_inode_def zero_stat_def
        load16_def load32_def load64_def load_zeros)
qed

lemma bit_at_first [simp]: "bit_at (set_bitmap (\<lambda>_. 0) 0) i \<longleftrightarrow> i = 0"
proof -
  have "bit_at (set_bitmap (\<lambda>_. 0) 0) i \<longleftrightarrow> i = 0 \<or> bit_at (\<lambda>_. 0) i" by (simp only: bitmap_simps)
  then show ?thesis by (simp add: bit_at_def)
qed

lemma new_superblock_eq: "new_superblock = std_sb"
  by (simp add: new_superblock_def std_sb_def per_block MAX_INUM_def Let_def)

section \<open>Writes before the superblock is in place\<close>

lemma write_block_good:
  assumes "dev_good (dev s)" "n < 524288"
  obtains r d where "write_block s (int n) buf = (r, s\<lparr>dev := d\<rparr>)" "0 \<le> r" "dev_good d"
    "block d = (block (dev s))(n := buf)"
  using disk.wr_ok [OF assms, of buf] disk.wr_good [OF assms(1), of "int n" buf]
    disk.wr_contents [OF assms, of buf]
  by (cases "bio_write (dev s) (int n) buf") (simp add: write_block_def)

text \<open>The disk file is there for the next process; no write changes that.\<close>

definition host_ready :: "device \<Rightarrow> bool" where
  "host_ready d \<longleftrightarrow> host_exists d \<and> host_opens d"

lemma host_ready_write: "write_block s n buf = (r, s') \<Longrightarrow> host_ready (dev s') = host_ready (dev s)"
  by (auto simp: write_block_def bio_write_def host_ready_def split: prod.splits if_splits)

lemma host_ready_writei: "writei s ino node = (r, s') \<Longrightarrow> host_ready (dev s') = host_ready (dev s)"
  by (auto simp: writei_def Let_def host_ready_write split: prod.splits if_splits)

text \<open>A device no one has opened whose disk file can be created and works.\<close>

definition fresh_disk :: "device \<Rightarrow> bool" where
  "fresh_disk d \<longleftrightarrow> \<not> dev_open_flag d \<and> host_opens d \<and> \<not> host_exists d \<and> (\<forall>n < 524288. \<not> dev_bad d n)"

lemma dev_init_fresh:
  assumes "fresh_disk d"
  obtains d' where "dev_init d = Some d'" "dev_good d'" "block d' = (\<lambda>_ _. 0)" "host_ready d'"
proof -
  define d' where "d' = d\<lparr>dev_open_flag := True, dev_live := True, host_exists := True,
    dev_len := DISK_SIZE div BLOCK_SIZE, dev_data := (\<lambda>b. if b < 0 then dev_data d b else (\<lambda>_. 0))\<rparr>"
  have "dev_init d = Some d'" using assms by (simp add: fresh_disk_def dev_init_def d'_def)
  moreover have "dev_good d'" "block d' = (\<lambda>_ _. 0)" "host_ready d'"
    using assms by (auto simp: fresh_disk_def dev_good_def d'_def block_def fun_eq_iff host_ready_def)
  ultimately show thesis by (rule that)
qed

section \<open>rufs\_mkfs\<close>

text \<open>The image \<open>rufs_mkfs\<close> leaves: only inode 0 and data block 0 are in use.\<close>

definition formatted :: "fs \<Rightarrow> bool" where
  "formatted s \<longleftrightarrow> fs_inv s \<and> inode_at s 0 = root_inode s \<and>
     (\<forall>n < 1024. 0 < n \<longrightarrow> inode_at s n = zero_inode) \<and>
     (\<forall>i. ino_used s i \<longleftrightarrow> i = 0) \<and> (\<forall>i. blk_used s i \<longleftrightarrow> i = 0) \<and> contents s 67 = (\<lambda>_. 0)"

lemma root_inode_fields:
  "inode_wf (root_inode s)" "i_ino (root_inode s) = 0" "i_valid (root_inode s) = 1"
  "bptr (root_inode s) 0 = unat (d_start_blk (sb s))" "0 < k \<Longrightarrow> k < 16 \<Longrightarrow> bptr (root_inode s) k = 0"
  by (simp_all add: root_inode_def zero_inode_def inode_wf_def bptr_def nth_list_update)

lemma S_IFDIR_mode: "S_ISDIR (S_IFDIR OR 0x1ED)"
  by (simp add: S_ISDIR_def S_IFDIR_def S_IFMT_def)

text \<open>The state before the root inode is written, and the invariant after that.\<close>

lemma formattedI:
  assumes m: "mounted s" and io: "\<And>i. ino_used s i \<longleftrightarrow> i = 0" and bu: "\<And>i. blk_used s i \<longleftrightarrow> i = 0"
    and sb: "dec_superblock (contents s 0) 0 = std_sb" and z: "\<And>b. 67 \<le> b \<Longrightarrow> contents s b = (\<lambda>_. 0)"
    and root: "inode_at s 0 = root_inode s" and rest: "\<And>n. 0 < n \<Longrightarrow> n < 1024 \<Longrightarrow> inode_at s n = zero_inode"
  shows "formatted s"
proof -
  note R = root_inode_fields [where s = s]
  have ptr: "bptr (inode_at s 0) k = (if k = 0 then 67 else 0)" if "k < 16" for k
    using R(4,5) that m by (simp add: root)
  have v: "valid s n \<longleftrightarrow> n = 0" if "n < 1024" for n
    using rest [of n] R(3) that by (cases "n = 0") (auto simp: valid_def root zero_inode_def)
  have "node_ok s 0 (inode_at s 0)"
    using ptr R(1,2) v by (auto simp: node_ok_def data_block_def io bu root split: if_splits)
  then have "fs_inv s"
    using m sb z v rest unfolding fs_inv_def by (auto simp: zero_inode_def zero_stat_def)
  then show ?thesis
    using root rest io bu z [of 67] by (simp add: formatted_def)
qed

lemma rufs_mkfs_spec:
  assumes fresh: "fresh_disk (dev s)"
  obtains s' where "rufs_mkfs s = Some (0, s')" "formatted s'"
    "fs_time s' = fs_time s" "fs_uid s' = fs_uid s" "fs_gid s' = fs_gid s" "host_ready (dev s')"
proof -
  let ?sb = "store_bytes (\<lambda>_. 0) 0 (enc_superblock std_sb)" and ?bm = "set_bitmap (\<lambda>_. 0) 0"
  obtain d where D: "dev_init (dev s) = Some d" "dev_good d" "block d = (\<lambda>_ _. 0)" "host_ready d"
    by (rule dev_init_fresh [OF fresh])
  obtain r1 d1 where W1: "write_block (s\<lparr>dev := d\<rparr>) (int 0) ?sb = (r1, s\<lparr>dev := d1\<rparr>)" "0 \<le> r1" "dev_good d1"
    "block d1 = (block d)(0 := ?sb)"
    by (rule write_block_good [of "s\<lparr>dev := d\<rparr>" 0 ?sb]) (use D(2) in simp_all)
  obtain r2 d2 where W2: "write_block (s\<lparr>dev := d1\<rparr>) (int 1) ?bm = (r2, s\<lparr>dev := d2\<rparr>)" "dev_good d2"
    "block d2 = (block d1)(1 := ?bm)"
    by (rule write_block_good [of "s\<lparr>dev := d1\<rparr>" 1 ?bm]) (use W1(3) in simp_all)
  obtain r3 d3 where W3: "write_block (s\<lparr>dev := d2\<rparr>) (int 2) ?bm = (r3, s\<lparr>dev := d3\<rparr>)" "dev_good d3"
    "block d3 = (block d2)(2 := ?bm)"
    by (rule write_block_good [of "s\<lparr>dev := d2\<rparr>" 2 ?bm]) (use W2(2) in simp_all)
  obtain r4 d4 where W4: "write_block (s\<lparr>dev := d3\<rparr>) (int 67) (\<lambda>_. 0) = (r4, s\<lparr>dev := d4\<rparr>)" "dev_good d4"
    "block d4 = (block d3)(67 := (\<lambda>_. 0))"
    by (rule write_block_good [of "s\<lparr>dev := d3\<rparr>" 67 "\<lambda>_. 0"]) (use W3(2) in simp_all)
  define s5 where "s5 = s\<lparr>dev := d4, sb := std_sb\<rparr>"
  have m5: "mounted s5" using W4(2) by (simp add: s5_def mounted_def)
  have c5: "contents s5 = (\<lambda>_ _. 0)(0 := ?sb, 1 := ?bm, 2 := ?bm)"
    by (auto simp: contents_def s5_def W4(3) W3(3) W2(3) W1(4) D(3) fun_eq_iff)
  have tab5: "inode_at s5 n = zero_inode" for n
    by (simp add: inode_at_def c5 dec_inode_zeros)
  obtain s6 where W6: "writei s5 0 (root_inode s5) = (0, s6)" "mounted s6"
    "\<And>n. inode_at s6 n = (if n = unat (0 :: u16) then root_inode s5 else inode_at s5 n)"
    "\<And>b. b < 3 \<or> 67 \<le> b \<Longrightarrow> contents s6 b = contents s5 b"
    "fs_time s6 = fs_time s5" "fs_uid s6 = fs_uid s5" "fs_gid s6 = fs_gid s5"
    by (rule writei_spec [OF m5, of 0 "root_inode s5"]) (simp_all add: root_inode_fields)
  have "sint (i_bitmap_blk std_sb) = int 1" "sint (d_bitmap_blk std_sb) = int 2" "sint (d_start_blk std_sb) = int 67"
    by (simp_all add: std_sb_def)
  then have "rufs_mkfs s = Some (0, s6)"
    using D(1) W1(1,2) W2(1) W3(1) W4(1) W6(1)
    by (simp add: rufs_mkfs_def new_superblock_eq Let_def s5_def)
  moreover have "root_inode s6 = root_inode s5"
    using W6(2,5-7) m5 by (simp add: root_inode_def)
  then have "formatted s6"
    using W6(2-4) by (intro formattedI) (simp_all add: ino_used_def blk_used_def c5 tab5 dec_enc_superblock)
  moreover have "host_ready (dev s6)"
    using host_ready_write [OF W1(1)] host_ready_write [OF W2(1)] host_ready_write [OF W3(1)]
      host_ready_write [OF W4(1)] host_ready_writei [OF W6(1)] D(4) by (simp add: s5_def)
  ultimately show thesis
    using W6(5-7) by (intro that [of s6]) (simp_all add: s5_def)
qed

section \<open>rufs\_init\<close>

lemma init_reads_superblock:
  assumes "fs_inv s"
  shows "\<exists>q. read_block s 0 = (q, contents s 0) \<and> \<not> q < 0" "s\<lparr>sb := dec_superblock (contents s 0) 0\<rparr> = s"
proof -
  obtain r where "read_block s (int 0) = (r, contents s 0)" "0 \<le> r"
    by (rule read_blockE [OF fs_invD(1) [OF assms], of 0]) simp_all
  then show "\<exists>q. read_block s 0 = (q, contents s 0) \<and> \<not> q < 0" by simp
  have "sb s = std_sb" using fs_invD(1) [OF assms] by (simp add: mounted_def)
  then show "s\<lparr>sb := dec_superblock (contents s 0) 0\<rparr> = s" using fs_invD(5) [OF assms] by simp
qed

lemma rufs_init_fresh:
  assumes fresh: "fresh_disk (dev s)"
  obtains s' where "rufs_init s = Some (0, s')" "formatted s'"
    "fs_time s' = fs_time s" "fs_uid s' = fs_uid s" "fs_gid s' = fs_gid s" "host_ready (dev s')"
proof -
  obtain s' where M: "rufs_mkfs s = Some (0, s')" "formatted s'"
    "fs_time s' = fs_time s" "fs_uid s' = fs_uid s" "fs_gid s' = fs_gid s" "host_ready (dev s')"
    by (rule rufs_mkfs_spec [OF fresh])
  have inv: "fs_inv s'" using M(2) by (simp add: formatted_def)
  obtain q where q: "read_block s' 0 = (q, contents s' 0)" "\<not> q < 0"
    using init_reads_superblock(1) [OF inv] by blast
  have "rufs_init s = Some (0, s')"
    using M(1) fresh q init_reads_superblock(2) [OF inv] by (simp add: rufs_init_def fresh_disk_def)
  then show thesis using M(2-) by (rule that)
qed

text \<open>The state of a new process: \<open>diskfile\<close> is -1 and the superblock not read yet.\<close>

definition restart :: "fs \<Rightarrow> superblock \<Rightarrow> fs" where
  "restart s junk = s\<lparr>dev := (dev s)\<lparr>dev_open_flag := False, dev_live := False\<rparr>, sb := junk\<rparr>"

lemma fs_inv_cong:
  assumes inv: "fs_inv s" and m: "mounted s'" and c: "contents s' = contents s"
  shows "fs_inv s'"
  by (rule fs_inv_frame [OF inv m])
    (use fs_invD(3) [OF inv] c in \<open>simp_all add: inode_at_def ino_used_def blk_used_def\<close>)

lemma rufs_init_restart:
  assumes inv: "fs_inv s" and host: "host_exists (dev s)" "host_opens (dev s)"
  obtains s' where "rufs_init (restart s junk) = Some (0, s')" "fs_inv s'" "contents s' = contents s"
    "fs_time s' = fs_time s" "fs_uid s' = fs_uid s" "fs_gid s' = fs_gid s"
proof -
  define s' where "s' = s\<lparr>dev := (dev s)\<lparr>dev_open_flag := True, dev_live := True\<rparr>\<rparr>"
  have good: "dev_good (dev s)" "sb s = std_sb" using fs_invD(1) [OF inv] by (simp_all add: mounted_def)
  have c: "contents s' = contents s"
    by (simp add: contents_def s'_def block_def fun_eq_iff)
  have m: "mounted s'" using good by (simp add: mounted_def dev_good_def s'_def)
  have inv': "fs_inv s'" by (rule fs_inv_cong [OF inv m c])
  obtain q where q: "read_block s' 0 = (q, contents s' 0)" "\<not> q < 0"
    using init_reads_superblock(1) [OF inv'] by blast
  have "dev_open (dev (restart s junk)) = (0, dev s')" "restart s junk\<lparr>dev := dev s'\<rparr> = s'\<lparr>sb := junk\<rparr>"
    using host by (simp_all add: restart_def dev_open_def s'_def)
  moreover have "read_block (s'\<lparr>sb := junk\<rparr>) 0 = read_block s' 0" by (simp add: read_block_def)
  ultimately have "rufs_init (restart s junk) = Some (0, s')"
    using q init_reads_superblock(2) [OF inv'] host by (simp add: rufs_init_def restart_def)
  then show thesis using inv' c by (rule that) (simp_all add: s'_def)
qed

end
