(* ===== verification/FS_DirAdd.thy ===== *)
theory FS_DirAdd
  imports FS_Lookup FS_Mkfs
begin

text \<open>
  \<open>dir_add\<close> as an update of the map of live entries: the entry goes to the first slot that is not
  live, in a new block when the blocks of the directory are full. Everything that belongs to other
  inodes stays.
\<close>

section \<open>What an operation on one inode keeps\<close>

definition nodes_same :: "fs \<Rightarrow> fs \<Rightarrow> nat \<Rightarrow> bool" where
  "nodes_same s s' n \<longleftrightarrow>
     (\<forall>m < 1024. m \<noteq> n \<longrightarrow> inode_at s' m = inode_at s m \<and> (valid s m \<longrightarrow>
        (\<forall>l < 16. bptr (inode_at s m) l \<noteq> 0 \<longrightarrow>
           contents s' (bptr (inode_at s m) l) = contents s (bptr (inode_at s m) l))))"

definition others_same :: "fs \<Rightarrow> fs \<Rightarrow> nat \<Rightarrow> bool" where
  "others_same s s' n \<longleftrightarrow> nodes_same s s' n \<and>
     (\<forall>i. ino_used s' i = ino_used s i) \<and> (\<forall>b. blk_used s b \<longrightarrow> blk_used s' b) \<and>
     fs_time s' = fs_time s \<and> fs_uid s' = fs_uid s \<and> fs_gid s' = fs_gid s"

lemma nodes_sameD:
  assumes "nodes_same s s' n"
  shows "m < 1024 \<Longrightarrow> m \<noteq> n \<Longrightarrow> inode_at s' m = inode_at s m"
    "m < 1024 \<Longrightarrow> m \<noteq> n \<Longrightarrow> valid s m \<Longrightarrow> l < 16 \<Longrightarrow> bptr (inode_at s m) l \<noteq> 0 \<Longrightarrow>
       contents s' (bptr (inode_at s m) l) = contents s (bptr (inode_at s m) l)"
  using assms by (simp_all add: nodes_same_def)

lemma others_sameD:
  assumes "others_same s s' n"
  shows "nodes_same s s' n" "ino_used s' i = ino_used s i" "blk_used s b \<Longrightarrow> blk_used s' b"
    "fs_time s' = fs_time s" "fs_uid s' = fs_uid s" "fs_gid s' = fs_gid s"
  using assms by (simp_all add: others_same_def)

lemma nodes_same_trans: "nodes_same s s1 n \<Longrightarrow> nodes_same s1 s2 n \<Longrightarrow> nodes_same s s2 n"
  unfolding nodes_same_def valid_def by simp

text \<open>No exception: 1024 is not an inode number.\<close>

lemma nodes_same_all: "nodes_same s s' 1024 \<Longrightarrow> nodes_same s s' n"
  unfolding nodes_same_def by simp

lemma others_same_trans:
  "others_same s s1 n \<Longrightarrow> others_same s1 s2 n \<Longrightarrow> others_same s s2 n"
  unfolding others_same_def using nodes_same_trans by metis

lemma others_same_frame: "file_frame s s' n \<Longrightarrow> others_same s s' n"
  unfolding others_same_def nodes_same_def file_frame_def by blast

text \<open>Blocks the inodes use lie in the data region.\<close>

lemma nodes_sameI:
  assumes inv: "fs_inv s" and tab: "\<And>i. i < 1024 \<Longrightarrow> i \<noteq> n \<Longrightarrow> inode_at s' i = inode_at s i"
    and c: "\<And>b. 67 \<le> b \<Longrightarrow> contents s' b = contents s b"
  shows "nodes_same s s' n"
proof -
  have "contents s' (bptr (inode_at s m) l) = contents s (bptr (inode_at s m) l)"
    if "m < 1024" "valid s m" "l < 16" "bptr (inode_at s m) l \<noteq> 0" for m l
    using node_okD(4) [OF fs_invD(2) [OF inv that(1,2)] that(3,4)] by (intro c) (simp add: data_block_def)
  then show ?thesis using tab unfolding nodes_same_def by simp
qed

lemma others_same_inode:
  assumes inv: "fs_inv s" and tab: "\<And>i. i < 1024 \<Longrightarrow> inode_at s' i = (if i = n then node else inode_at s i)"
    and c: "\<And>b. b < 3 \<or> 67 \<le> b \<Longrightarrow> contents s' b = contents s b"
    and u: "fs_time s' = fs_time s" "fs_uid s' = fs_uid s" "fs_gid s' = fs_gid s"
  shows "others_same s s' n"
proof -
  have "nodes_same s s' n" by (rule nodes_sameI [OF inv]) (simp_all add: tab c)
  then show ?thesis using c u unfolding others_same_def by (simp add: ino_used_def blk_used_def)
qed

text \<open>The live entries of the other inodes and the bytes of their files.\<close>

lemma nodes_same_dents:
  assumes "nodes_same s s' n" "m < 1024" "m \<noteq> n" "valid s m"
  shows "dents s' (inode_at s' m) = dents s (inode_at s m)"
proof
  fix k
  show "dents s' (inode_at s' m) k = dents s (inode_at s m) k"
  proof (cases "k < 304 \<and> bptr (inode_at s m) (k div 19) \<noteq> 0")
    case True
    then have "k div 19 < 16" by (simp add: less_mult_imp_div_less)
    then show ?thesis
      using nodes_sameD(1) [OF assms(1-3)] nodes_sameD(2) [OF assms, of "k div 19"] True
      by (simp add: dents_def slot_def)
  next
    case False
    then show ?thesis using nodes_sameD(1) [OF assms(1-3)] by (auto simp: dents_def)
  qed
qed

lemma nodes_same_fbyte:
  assumes "nodes_same s s' n" "m < 1024" "m \<noteq> n" "valid s m" "x < MAX_FILE"
  shows "fbyte s' (inode_at s' m) x = fbyte s (inode_at s m) x"
proof -
  have "x div 4096 < 16" using assms(5) by (simp add: MAX_FILE_def less_mult_imp_div_less)
  then show ?thesis
    using nodes_sameD(1) [OF assms(1-3)] nodes_sameD(2) [OF assms(1-4), of "x div 4096"]
    by (simp add: fbyte_def)
qed

lemma nodes_same_lookup:
  assumes "nodes_same s s' n" "m < 1024" "m \<noteq> n"
  shows "lookup s' m x = lookup s m x"
  using nodes_same_dents [OF assms] nodes_sameD(1) [OF assms]
  by (auto simp: lookup_def valid_def intro: lookup_dir_cong)

section \<open>The loop for a free entry\<close>

definition free_slot :: "fs \<Rightarrow> inode \<Rightarrow> nat \<Rightarrow> bool" where
  "free_slot s d k \<longleftrightarrow> bptr d (k div 19) \<noteq> 0 \<and> d_valid (slot s d k) = 0"

definition put_entry :: "fs \<Rightarrow> inode \<Rightarrow> u16 \<Rightarrow> cstr \<Rightarrow> nat \<Rightarrow> int \<times> fs" where
  "put_entry s d f_ino name k =
     (let (w, s1) = write_block s (int (bptr d (k div 19)))
                      (fill_entry (contents s (bptr d (k div 19))) (k mod 19) f_ino name (length name))
      in if w < 0 then (- EIO, s1) else (0, snd (writei s1 (i_ino d) (grow_dir s1 d))))"

lemma dir_add_loop_spec:
  assumes "mounted s" "in_table d" "i \<le> 16" "n = length name"
  shows "dir_add_loop s d f_ino name n i
    = map_option (put_entry s d f_ino name) (scan (free_slot s d) (i * 19) 304)"
  using assms(3)
proof (induction "16 - i" arbitrary: i)
  case 0
  then show ?case by (subst dir_add_loop.simps) (simp add: scan.simps)
next
  case (Suc x)
  then have i: "i < 16" by simp
  have IH: "dir_add_loop s d f_ino name n (Suc i)
      = map_option (put_entry s d f_ino name) (scan (free_slot s d) (Suc i * 19) 304)"
    using Suc.hyps(2) i by (intro Suc.hyps(1)) simp_all
  note split = scan_blocks [OF i, of "free_slot s d"]
  show ?case
  proof (cases "direct_ptr d ! i = 0")
    case True
    have "\<not> free_slot s d (i * 19 + j)" if "j < 19" for j
      using that True by (simp add: free_slot_def bptr_eq_0_iff)
    then have "scan (\<lambda>j. free_slot s d (i * 19 + j)) 0 19 = None" by (simp add: scan_None_iff)
    then show ?thesis
      using True i IH split by (subst dir_add_loop.simps) simp
  next
    case False
    have p: "bptr d i \<noteq> 0" "bptr d i < 16451" using False assms(2) i by (auto simp: bptr_eq_0_iff in_table_def)
    obtain r where R: "read_block s (int (bptr d i)) = (r, contents s (bptr d i))" "0 \<le> r"
      by (rule read_blockE [OF assms(1), of "bptr d i"]) (use p(2) in simp_all)
    have match: "scan (\<lambda>j. free_slot s d (i * 19 + j)) 0 19
        = scan (\<lambda>j. d_valid (entry_at (contents s (bptr d i)) j) = 0) 0 19"
      using p(1) by (intro scan_cong) (simp add: free_slot_def slot_def)
    have put: "put_entry s d f_ino name (i * 19 + j) =
        (let (w, s1) = write_block s (int (bptr d i)) (fill_entry (contents s (bptr d i)) j f_ino name n)
         in if w < 0 then (- EIO, s1) else (0, snd (writei s1 (i_ino d) (grow_dir s1 d))))" if "j < 19" for j
      using that by (simp add: put_entry_def assms(4))
    have "dir_add_loop s d f_ino name n i =
        (case scan (\<lambda>j. d_valid (entry_at (contents s (bptr d i)) j) = 0) 0 19 of
           Some j \<Rightarrow> Some (let (w, s1) = write_block s (int (bptr d i)) (fill_entry (contents s (bptr d i)) j f_ino name n)
             in if w < 0 then (- EIO, s1) else (0, snd (writei s1 (i_ino d) (grow_dir s1 d))))
         | None \<Rightarrow> dir_add_loop s d f_ino name n (Suc i))"
      using False i R sint_bptr [OF p(2)]
      by (subst dir_add_loop.simps) (simp add: ents_per_blk_eq split_beta Let_def split: option.split)
    then show ?thesis
      unfolding IH split match [symmetric]
      by (cases "scan (\<lambda>j. free_slot s d (i * 19 + j)) 0 19") (auto simp: put dest: scan_SomeD(2))
  qed
qed

section \<open>Writing the entry and the inode\<close>

lemma node_ok_ptrs:
  "node_ok s n node \<Longrightarrow> direct_ptr node' = direct_ptr node \<Longrightarrow> i_ino node' = i_ino node \<Longrightarrow> inode_wf node' \<Longrightarrow>
     node_ok s n node'"
  by (simp add: node_ok_def bptr_def)

lemma grow_dir_fields [simp]:
  "direct_ptr (grow_dir s d) = direct_ptr d" "i_ino (grow_dir s d) = i_ino d" "i_valid (grow_dir s d) = i_valid d"
  "inode_wf (grow_dir s d) = inode_wf d" "bptr (grow_dir s d) k = bptr d k"
  "st_mode (vstat (grow_dir s d)) = st_mode (vstat d)"
  by (simp_all add: grow_dir_def inode_wf_def bptr_def)

lemma put_dir_block:
  assumes inv: "fs_inv s" "n < 1024" "node_ok s n d" "i_valid d \<noteq> 0" and i: "i < 16" "bptr d i \<noteq> 0"
  obtains w s1 s2 where "write_block s (int (bptr d i)) buf = (w, s1)" "0 \<le> w"
    "writei s1 (i_ino d) (grow_dir s1 d) = (0, s2)" "fs_inv s2" "inode_at s2 n = grow_dir s1 d"
    "\<And>l. l < 16 \<Longrightarrow> bptr d l \<noteq> 0 \<Longrightarrow> contents s2 (bptr d l) = (if l = i then buf else contents s (bptr d l))"
    "others_same s s2 n" "\<And>b. blk_used s2 b = blk_used s b"
proof -
  have data: "data_block s (bptr d l)" if "l < 16" "bptr d l \<noteq> 0" for l by (rule node_okD(4) [OF inv(3) that])
  obtain w s1 where W: "write_block s (int (bptr d i)) buf = (w, s1)" "0 \<le> w" "fs_inv s1"
    "contents s1 = (contents s)(bptr d i := buf)" "\<And>m. m < 1024 \<Longrightarrow> inode_at s1 m = inode_at s m"
    "\<And>i. ino_used s1 i = ino_used s i" "\<And>i. blk_used s1 i = blk_used s i"
    "fs_time s1 = fs_time s" "fs_uid s1 = fs_uid s" "fs_gid s1 = fs_gid s"
    by (rule write_data_inv [OF inv(1) data [OF i], of buf], rule that) (assumption+)
  have ok: "node_ok s1 n d" using W(5-7) by (intro node_ok_mono [OF inv(3)]) auto
  then have okg: "node_ok s1 n (grow_dir s1 d)"
    using node_okD(1) [OF inv(3)] by (intro node_ok_ptrs [OF ok]) simp_all
  have "file_frame s s1 n"
    using node_okD(6) [OF inv(3) _ i(1) _ _ _ i(2)] W(4-10) unfolding file_frame_def by auto
  then have f1: "others_same s s1 n" by (rule others_same_frame)
  obtain s2 where V: "writei s1 (i_ino d) (grow_dir s1 d) = (0, s2)" "fs_inv s2"
    "\<And>m. m < 1024 \<Longrightarrow> inode_at s2 m = (if m = n then grow_dir s1 d else inode_at s1 m)"
    "\<And>b. b < 3 \<or> 67 \<le> b \<Longrightarrow> contents s2 b = contents s1 b"
    "fs_time s2 = fs_time s1" "fs_uid s2 = fs_uid s1" "fs_gid s2 = fs_gid s1"
    by (rule write_inode_inv [OF W(3) inv(2) okg, of "i_ino d"]) (use node_okD(2) [OF inv(3)] inv(4) in simp_all)
  have c: "contents s2 (bptr d l) = (if l = i then buf else contents s (bptr d l))" if "l < 16" "bptr d l \<noteq> 0" for l
    using data [OF that] node_okD(5) [OF inv(3) that(1) i(1) that(2)] V(4) [of "bptr d l"] W(4)
    by (auto simp: data_block_def)
  have "others_same s s2 n"
    using others_same_trans [OF f1 others_same_inode [OF W(3) V(3-7)]] .
  moreover have "blk_used s2 b = blk_used s b" for b
    using W(7) V(4) [of 2] by (simp add: blk_used_def)
  ultimately show thesis
    using W(1,2) V(1,2) V(3) [OF inv(2)] c by (intro that [of w s1 s2]) simp_all
qed

text \<open>The slots of the directory after the write.\<close>

lemma dents_put:
  assumes k: "k < 304" and ptr: "\<And>l. l < 16 \<Longrightarrow> bptr d' l = bptr d1 l"
    and c: "\<And>l. l < 16 \<Longrightarrow> bptr d1 l \<noteq> 0 \<Longrightarrow>
      contents s' (bptr d1 l) = (if l = k div 19
        then fill_entry (contents s (bptr d1 l)) (k mod 19) f_ino name (length name) else contents s (bptr d1 l))"
    and p: "bptr d1 (k div 19) \<noteq> 0" and name: "length name \<le> 208"
  shows "dents s' d' = (dents s d1)(k \<mapsto> new_entry (contents s (bptr d1 (k div 19))) (k mod 19) f_ino name)"
proof
  fix j
  have k16: "k div 19 < 16" using k by (simp add: less_mult_imp_div_less)
  show "dents s' d' j
      = ((dents s d1)(k \<mapsto> new_entry (contents s (bptr d1 (k div 19))) (k mod 19) f_ino name)) j"
  proof (cases "j < 304 \<and> bptr d1 (j div 19) \<noteq> 0")
    case False
    then have "j \<noteq> k" using k p by auto
    moreover have "j < 304 \<Longrightarrow> bptr d' (j div 19) = bptr d1 (j div 19)"
      by (rule ptr) (simp add: less_mult_imp_div_less)
    ultimately show ?thesis using False by (auto simp: dents_def)
  next
    case True
    then have j16: "j div 19 < 16" by (simp add: less_mult_imp_div_less)
    have j: "bptr d' (j div 19) = bptr d1 (j div 19)" by (rule ptr [OF j16])
    show ?thesis
    proof (cases "j div 19 = k div 19")
      case True
      then have "j = k \<or> j mod 19 \<noteq> k mod 19" by (metis div_mult_mod_eq)
      then show ?thesis
        using True j c [OF k16 p] p \<open>j < 304 \<and> _\<close>
        by (auto simp: dents_def slot_def entry_at_fill_same [OF name] entry_at_fill_other [OF _ name]
            new_entry_def)
    next
      case False
      then show ?thesis
        using j c [OF j16] \<open>j < 304 \<and> _\<close> by (auto simp: dents_def slot_def)
    qed
  qed
qed

section \<open>dir\_add\<close>

text \<open>What a successful \<open>dir_add\<close> of \<open>name\<close> to directory \<open>n\<close> does.\<close>

definition entry_added :: "fs \<Rightarrow> fs \<Rightarrow> nat \<Rightarrow> cstr \<Rightarrow> u16 \<Rightarrow> bool" where
  "entry_added s s' n name ino \<longleftrightarrow> fs_inv s' \<and> others_same s s' n \<and> valid s' n \<and>
     st_mode (vstat (inode_at s' n)) = st_mode (vstat (inode_at s n)) \<and>
     (\<exists>j. \<forall>b. blk_used s' b \<longrightarrow> b = j \<or> blk_used s b) \<and>
     (\<exists>k e. k < 304 \<and> dents s (inode_at s n) k = None \<and> d_ino e = ino \<and>
        (\<forall>x. name_ok x \<longrightarrow> (entry_named x e \<longleftrightarrow> x = name)) \<and>
        dents s' (inode_at s' n) = (dents s (inode_at s n))(k \<mapsto> e))"

lemma entry_addedI:
  assumes "fs_inv s'" "others_same s s' n" "valid s' n"
    "st_mode (vstat (inode_at s' n)) = st_mode (vstat (inode_at s n))" "k < 304" "dents s (inode_at s n) k = None"
    "dents s' (inode_at s' n) = (dents s (inode_at s n))(k \<mapsto> new_entry buf j f_ino name)" "name_ok name"
    "\<And>b. blk_used s' b \<Longrightarrow> b = new \<or> blk_used s b"
  shows "entry_added s s' n name f_ino"
proof -
  have "d_ino (new_entry buf j f_ino name) = f_ino" by (simp add: new_entry_def)
  then show ?thesis
    using assms new_entry_named [OF assms(8)] unfolding entry_added_def by blast
qed

lemma put_entry_added:
  assumes inv: "fs_inv s" "n < 1024" and d: "node_ok s n d" "i_valid d \<noteq> 0" and k: "k < 304"
    and p: "bptr d (k div 19) \<noteq> 0" and name: "name_ok name"
  obtains s' where "put_entry s d f_ino name k = (0, s')" "fs_inv s'" "others_same s s' n" "valid s' n"
    "st_mode (vstat (inode_at s' n)) = st_mode (vstat d)"
    "dents s' (inode_at s' n) = (dents s d)(k \<mapsto> new_entry (contents s (bptr d (k div 19))) (k mod 19) f_ino name)"
    "\<And>b. blk_used s' b = blk_used s b"
proof -
  let ?buf = "fill_entry (contents s (bptr d (k div 19))) (k mod 19) f_ino name (length name)"
  have k16: "k div 19 < 16" using k by (simp add: less_mult_imp_div_less)
  obtain w s1 s2 where W: "write_block s (int (bptr d (k div 19))) ?buf = (w, s1)" "0 \<le> w"
    "writei s1 (i_ino d) (grow_dir s1 d) = (0, s2)" "fs_inv s2" "inode_at s2 n = grow_dir s1 d"
    "\<And>l. l < 16 \<Longrightarrow> bptr d l \<noteq> 0 \<Longrightarrow> contents s2 (bptr d l) = (if l = k div 19 then ?buf else contents s (bptr d l))"
    "others_same s s2 n" "\<And>b. blk_used s2 b = blk_used s b"
    by (rule put_dir_block [OF inv d k16 p, of ?buf], rule that) (assumption+)
  have "dents s2 (inode_at s2 n)
      = (dents s d)(k \<mapsto> new_entry (contents s (bptr d (k div 19))) (k mod 19) f_ino name)"
    using W(5,6) name by (intro dents_put [OF k _ _ p]) (auto simp: name_ok_def)
  then show thesis
    using W(1-5,7,8) d(2) by (intro that [of s2]) (simp_all add: put_entry_def valid_def)
qed

lemma entry_zero: "d_valid (entry_at (\<lambda>_. 0) j) = 0"
  by (simp add: entry_at_def dec_dirent_def load16_def load_zeros)

text \<open>The entry in a new block, at the first slot of the first free pointer.\<close>

lemma new_block_entry:
  assumes inv: "fs_inv s" "n < 1024" "valid s n" and name: "name_ok name"
    and i: "i < 16" "bptr (inode_at s n) i = 0"
    and j: "j < 16384" "\<not> blk_used s j"
    and s1: "fs_inv s1" "\<And>i. ino_used s1 i = ino_used s i" "\<And>b. blk_used s1 b \<longleftrightarrow> b = j \<or> blk_used s b"
      "\<And>m. inode_at s1 m = inode_at s m" "\<And>b. b \<noteq> 2 \<Longrightarrow> contents s1 b = contents s b"
      "fs_time s1 = fs_time s" "fs_uid s1 = fs_uid s" "fs_gid s1 = fs_gid s"
    and d1: "d1 = (inode_at s n)\<lparr>direct_ptr := (direct_ptr (inode_at s n))[i := word_of_int (int (67 + j))]\<rparr>"
    and w: "write_block s1 (int (67 + j)) (fill_entry (\<lambda>_. 0) 0 f_ino name (length name)) = (w, s2)"
  shows "0 \<le> w" "\<exists>s3. writei s2 (i_ino d1) (grow_dir s2 d1) = (0, s3) \<and> entry_added s s3 n name f_ino"
proof -
  let ?d = "inode_at s n" and ?buf = "fill_entry (\<lambda>_. 0) 0 f_ino name (length name)"
  have ok: "node_ok s n ?d" by (rule fs_invD(2) [OF inv])
  note N = node_ok_new_block [OF inv(1,2) ok i j s1(4,2,3) d1]
  have v1: "i_valid d1 \<noteq> 0" using inv(3) by (simp add: d1 valid_def)
  have p: "bptr d1 i = 67 + j" "bptr d1 i \<noteq> 0" by (simp_all add: N(2))
  obtain w' t s3 where W': "write_block s1 (int (bptr d1 i)) ?buf = (w', t)" "0 \<le> w'"
    "writei t (i_ino d1) (grow_dir t d1) = (0, s3)" "fs_inv s3" "inode_at s3 n = grow_dir t d1"
    "\<And>l. l < 16 \<Longrightarrow> bptr d1 l \<noteq> 0 \<Longrightarrow> contents s3 (bptr d1 l) = (if l = i then ?buf else contents s1 (bptr d1 l))"
    "others_same s1 s3 n" "\<And>b. blk_used s3 b = blk_used s1 b"
    by (rule put_dir_block [OF s1(1) inv(2) N(1) v1 i(1) p(2), of ?buf], rule that) (assumption+)
  have "w' = w" "t = s2" using W'(1) w by (simp_all only: p(1) prod.inject)
  note W = W'(2-) [unfolded this]
  have data: "data_block s (bptr ?d l)" if "l < 16" "bptr ?d l \<noteq> 0" for l by (rule node_okD(4) [OF ok that])
  have same: "contents s3 (bptr ?d l) = contents s (bptr ?d l)" if "l < 16" "l \<noteq> i" "bptr ?d l \<noteq> 0" for l
    using W(5) [OF that(1)] that N(2) [of l] data [OF that(1,3)] by (simp add: data_block_def s1(5))
  have d3: "bptr (inode_at s3 n) l = bptr d1 l" for l by (simp add: W(4))
  have "dents s3 (inode_at s3 n) = (dents s ?d)(i * 19 \<mapsto> new_entry (\<lambda>_. 0) 0 f_ino name)"
  proof
    fix k
    show "dents s3 (inode_at s3 n) k = ((dents s ?d)(i * 19 \<mapsto> new_entry (\<lambda>_. 0) 0 f_ino name)) k"
    proof (cases "k < 304 \<and> k div 19 = i")
      case True
      have name208: "length name \<le> 208" using name by (simp add: name_ok_def)
      have "slot s3 (inode_at s3 n) k = entry_at ?buf (k mod 19)"
        using True W(5) [OF i(1) p(2)] by (simp add: slot_def d3)
      moreover have "k = i * 19 \<longleftrightarrow> k mod 19 = 0" using True by (metis add_0_right div_mult_mod_eq mod_mult_self2_is_0)
      ultimately show ?thesis
        using True p i(2)
        by (auto simp: dents_def d3 entry_at_fill_same [OF name208] entry_at_fill_other [OF _ name208]
            entry_zero new_entry_def)
    next
      case False
      then have "k \<noteq> i * 19" using i(1) by auto
      moreover have "k < 304 \<Longrightarrow> k div 19 < 16" by (simp add: less_mult_imp_div_less)
      ultimately show ?thesis
        using False same [of "k div 19"] N(2) [of "k div 19"] by (auto simp: dents_def slot_def d3)
    qed
  qed
  moreover have "dents s ?d (i * 19) = None" using i(2) by (simp add: dents_def)
  moreover have "bptr (inode_at s m) l \<noteq> 2" if "m < 1024" "valid s m" "l < 16" for m l
    using node_okD(4) [OF fs_invD(2) [OF inv(1) that(1,2)] that(3)] by (auto simp: data_block_def)
  then have "file_frame s s1 n" using s1 unfolding file_frame_def by simp
  then have "others_same s s3 n" by (rule others_same_trans [OF others_same_frame W(6)])
  moreover have "st_mode (vstat (inode_at s3 n)) = st_mode (vstat ?d)" by (simp add: W(4) d1)
  moreover have "valid s3 n" using v1 by (simp add: valid_def W(4))
  ultimately have "entry_added s s3 n name f_ino"
    using W(3,7) name i(1) s1(3) by (intro entry_addedI [of s3 s n "i * 19" "\<lambda>_. 0" 0 f_ino name j]) simp_all
  then show "0 \<le> w" "\<exists>s3. writei s2 (i_ino d1) (grow_dir s2 d1) = (0, s3) \<and> entry_added s s3 n name f_ino"
    using W(1,2) by blast+
qed

text \<open>The result of \<open>dir_find\<close> decides; \<open>fst\<close> is 0 exactly when the name is there.\<close>

lemma dir_find_fst:
  assumes "fs_inv s" "unat ino < 1024"
  shows "fst (dir_find s ino name (length name)) = 0 \<longleftrightarrow> lookup s (unat ino) name \<noteq> None"
  using dir_find_spec [OF assms, of name] by (auto split: prod.splits option.splits)

lemma dir_add_search:
  assumes inv: "fs_inv s" "n < 1024" "valid s n" and name: "name_ok name" and new: "lookup s n name = None"
  shows "dir_add s (inode_at s n) f_ino name (length name) =
    (case scan (free_slot s (inode_at s n)) 0 304 of
       Some k \<Rightarrow> put_entry s (inode_at s n) f_ino name k
     | None \<Rightarrow>
         let (new_blk, s1) = get_avail_blkno s
         in if new_blk < 0 then (- 1, s1)
            else case scan (\<lambda>i. direct_ptr (inode_at s n) ! i = 0) 0 16 of
                   None \<Rightarrow> (- 1, s1)
                 | Some i \<Rightarrow>
                     let dir1 = (inode_at s n)\<lparr>direct_ptr := (direct_ptr (inode_at s n))[i := word_of_int new_blk]\<rparr>;
                         (w, s2) = write_block s1 new_blk (fill_entry (\<lambda>_. 0) 0 f_ino name (length name))
                     in if w < 0 then (- EIO, s2)
                        else (0, snd (writei s2 (i_ino dir1) (grow_dir s2 dir1))))"
proof -
  have ino: "unat (i_ino (inode_at s n)) = n" by (rule node_okD(2) [OF fs_invD(2) [OF inv]])
  have "fst (dir_find s (i_ino (inode_at s n)) name (length name)) \<noteq> 0"
    using dir_find_fst [OF inv(1), of "i_ino (inode_at s n)" name] ino inv(2) new by simp
  moreover have "dir_add_loop s (inode_at s n) f_ino name (length name) 0
      = map_option (put_entry s (inode_at s n) f_ino name) (scan (free_slot s (inode_at s n)) 0 304)"
    using dir_add_loop_spec [OF fs_invD(1) [OF inv(1)] inode_table [OF inv], of 0 "length name" name] by simp
  ultimately show ?thesis
    using name unfolding dir_add_def by (simp add: name_ok_def split: option.split)
qed

text \<open>Everything is live: every slot of every block the directory has.\<close>

definition all_live :: "fs \<Rightarrow> inode \<Rightarrow> bool" where
  "all_live s d \<longleftrightarrow> (\<forall>k < 304. bptr d (k div 19) \<noteq> 0 \<longrightarrow> dents s d k \<noteq> None)"

lemma dir_add_spec:
  assumes inv: "fs_inv s" "n < 1024" "valid s n" and name: "name_ok name"
  obtains
    (exists) "lookup s n name \<noteq> None" "dir_add s (inode_at s n) f_ino name (length name) = (- 1, s)"
  | (disk_full) "lookup s n name = None" "all_live s (inode_at s n)" "\<And>b. b < 16384 \<Longrightarrow> blk_used s b"
      "dir_add s (inode_at s n) f_ino name (length name) = (- 1, s)"
  | (dir_full) s' j where "lookup s n name = None" "\<And>k. k < 304 \<Longrightarrow> dents s (inode_at s n) k \<noteq> None"
      "dir_add s (inode_at s n) f_ino name (length name) = (- 1, s')" "fs_inv s'"
      "others_same s s' 1024" "j < 16384" "\<not> blk_used s j" "blk_used s' j"
  | (added) s' where "lookup s n name = None"
      "dir_add s (inode_at s n) f_ino name (length name) = (0, s')" "entry_added s s' n name f_ino"
proof (cases "lookup s n name")
  case (Some m)
  have ino: "unat (i_ino (inode_at s n)) = n" by (rule node_okD(2) [OF fs_invD(2) [OF inv]])
  have "fst (dir_find s (i_ino (inode_at s n)) name (length name)) = 0"
    using dir_find_fst [OF inv(1), of "i_ino (inode_at s n)" name] ino inv(2) Some by simp
  then have "dir_add s (inode_at s n) f_ino name (length name) = (- 1, s)"
    using name by (simp add: dir_add_def name_ok_def)
  then show thesis using Some by (intro exists) simp_all
next
  case None
  let ?d = "inode_at s n"
  note run = dir_add_search [OF inv name None, of f_ino]
  have ok: "node_ok s n ?d" by (rule fs_invD(2) [OF inv])
  show thesis
  proof (cases "scan (free_slot s ?d) 0 304")
    case (Some k)
    note D = scan_SomeD(2,3) [OF Some]
    have p: "bptr ?d (k div 19) \<noteq> 0" "dents s ?d k = None" using D(2) by (simp_all add: free_slot_def dents_def)
    have v: "i_valid ?d \<noteq> 0" using inv(3) by (simp add: valid_def)
    obtain s' where P: "put_entry s ?d f_ino name k = (0, s')" "fs_inv s'" "others_same s s' n" "valid s' n"
      "st_mode (vstat (inode_at s' n)) = st_mode (vstat ?d)"
      "dents s' (inode_at s' n) = (dents s ?d)(k \<mapsto> new_entry (contents s (bptr ?d (k div 19))) (k mod 19) f_ino name)"
      "\<And>b. blk_used s' b = blk_used s b"
      by (rule put_entry_added [OF inv(1,2) ok v D(1) p(1) name], rule that) (assumption+)
    show thesis
      using run Some P(1) entry_addedI [OF P(2-5) D(1) p(2) P(6) name disjI2 [OF iffD1 [OF P(7)]]] None by (intro added [of s']) simp_all
  next
    case none: None
    have live: "all_live s ?d"
      using none by (auto simp: all_live_def scan_None_iff free_slot_def dents_def)
    from inv(1) show thesis
    proof (cases rule: alloc_blk_inv)
      case full
      then show thesis using run none live None by (intro disk_full) simp_all
    next
      case (avail j s1)
      have num: "\<not> int (67 + j) < 0" by simp
      show thesis
      proof (cases "scan (\<lambda>i. direct_ptr ?d ! i = 0) 0 16")
        case None: None
        have "bptr ?d (k div 19) \<noteq> 0" if "k < 304" for k
          using None that by (simp add: scan_None_iff bptr_eq_0_iff less_mult_imp_div_less)
        then have "dents s ?d k \<noteq> None" if "k < 304" for k
          using live that unfolding all_live_def by blast
        moreover have "dir_add s ?d f_ino name (length name) = (- 1, s1)"
          unfolding run none None avail(1) using num by (simp del: of_nat_add)
        moreover have "bptr (inode_at s m) l \<noteq> 2" if "m < 1024" "valid s m" "l < 16" for m l
          using node_okD(4) [OF fs_invD(2) [OF inv(1) that(1,2)] that(3)] by (auto simp: data_block_def)
        then have "file_frame s s1 1024" using avail(5-11) unfolding file_frame_def by simp
        then have "others_same s s1 1024" by (rule others_same_frame)
        ultimately show thesis
          using avail(2-6) \<open>lookup s n name = None\<close> by (intro dir_full [of s1 j]) simp_all
      next
        case (Some i)
        note I = scan_SomeD(2,3) [OF Some]
        obtain w s2 where w: "write_block s1 (int (67 + j)) (fill_entry (\<lambda>_. 0) 0 f_ino name (length name)) = (w, s2)"
          by (cases "write_block s1 (int (67 + j)) (fill_entry (\<lambda>_. 0) 0 f_ino name (length name))")
        have p: "bptr ?d i = 0" using I(2) by (simp add: bptr_eq_0_iff)
        note N = new_block_entry [OF inv name I(1) p avail(2-11) refl w]
        obtain s3 where s3: "writei s2 (i_ino (?d\<lparr>direct_ptr := (direct_ptr ?d)[i := word_of_int (int (67 + j))]\<rparr>))
            (grow_dir s2 (?d\<lparr>direct_ptr := (direct_ptr ?d)[i := word_of_int (int (67 + j))]\<rparr>)) = (0, s3)"
          "entry_added s s3 n name f_ino" using N(2) by blast
        have "dir_add s ?d f_ino name (length name) = (0, s3)"
          unfolding run none Some avail(1) using num w N(1) s3(1) by (simp del: of_nat_add)
        then show thesis using s3(2) \<open>lookup s n name = None\<close> by (intro added [of s3])
      qed
    qed
  qed
qed

text \<open>The lookups after it.\<close>

lemma entry_added_lookup:
  assumes a: "entry_added s s' n name f_ino" and inv: "n < 1024" "valid s n"
    and new: "lookup s n name = None" and name: "name_ok name" "name_ok x"
  shows "lookup s' n x = (if x = name then Some (unat f_ino) else lookup s n x)"
proof -
  have len: "length name \<le> 208" "length x \<le> 208" using name by (simp_all add: name_ok_def)
  obtain k e where K: "k < 304" "dents s (inode_at s n) k = None" "d_ino e = f_ino"
    "\<And>x. name_ok x \<Longrightarrow> entry_named x e \<longleftrightarrow> x = name"
    "dents s' (inode_at s' n) = (dents s (inode_at s n))(k \<mapsto> e)" "valid s' n"
    using a unfolding entry_added_def by blast
  have "lookup_dir s (inode_at s n) name = None" using new inv(2) len by (simp add: lookup_def)
  then show ?thesis
    using lookup_dir_insert [OF K(5,1,2,4) name(2)] K(3,6) inv(2) len by (simp add: lookup_def)
qed

end
