(* ===== verification/FS_Path.thy ===== *)
theory FS_Path
  imports FS_DirAdd
begin

text \<open>
  Path names. \<open>tokens\<close> splits a path at the slashes, \<open>resolve\<close> follows the names from a directory
  through \<open>lookup\<close>; \<open>get_node_by_path\<close> implements it, and \<open>dirname\<close> and \<open>basename\<close> split a path
  into its parent and its last name.
\<close>

section \<open>Tokens\<close>

function tokens :: "cstr \<Rightarrow> cstr list" where
  "tokens p = (case strtok p of None \<Rightarrow> [] | Some (t, rest) \<Rightarrow> t # tokens rest)"
  by pat_completeness auto
termination
  by (relation "measure length") (auto dest: strtok_shorter)

declare tokens.simps [simp del]

lemma strtok_slash [simp]: "strtok (SLASH # p) = strtok p"
  by (simp add: strtok_def)

lemma tokens_slash [simp]: "tokens (SLASH # p) = tokens p"
  by (subst (1 2) tokens.simps) simp

lemma tokens_Nil [simp]: "tokens [] = []"
  by (subst tokens.simps) (simp add: strtok_def)

text \<open>A path with a name in front.\<close>

lemma tokens_name:
  assumes "t \<noteq> []" "SLASH \<notin> set t"
  shows "tokens (t @ SLASH # p) = t # tokens p" "tokens t = [t]"
proof -
  have n: "\<And>c. c \<in> set t \<Longrightarrow> c \<noteq> SLASH" using assms(2) by auto
  obtain c cs where t: "t = c # cs" using assms(1) by (cases t) auto
  have "takeWhile (\<lambda>c. c \<noteq> SLASH) (t @ SLASH # p) = t" "dropWhile (\<lambda>c. c \<noteq> SLASH) (t @ SLASH # p) = SLASH # p"
    "takeWhile (\<lambda>c. c \<noteq> SLASH) t = t" "dropWhile (\<lambda>c. c \<noteq> SLASH) t = []"
    using n by (simp_all add: takeWhile_append2 dropWhile_append2)
  moreover have dw: "dropWhile (\<lambda>c. c \<noteq> SLASH) cs = []" using n by (simp add: t)
  ultimately have "strtok (t @ SLASH # p) = Some (t, p)" "strtok t = Some (t, [])"
    using n by (simp_all add: strtok_def t dw)
  then show "tokens (t @ SLASH # p) = t # tokens p" "tokens t = [t]"
    by (subst tokens.simps; simp)+
qed

lemma path_cases:
  obtains (nil) "p = []" | (slash) q where "p = SLASH # q"
  | (name) t where "t \<noteq> []" "SLASH \<notin> set t" "p = t"
  | (more) t q where "t \<noteq> []" "SLASH \<notin> set t" "p = t @ SLASH # q"
proof (cases "SLASH \<in> set p")
  case True
  then obtain t q where "p = t @ SLASH # q" "SLASH \<notin> set t" by (metis split_list_first)
  then show thesis using slash more [of t q] by (cases t) auto
next
  case False
  then show thesis using nil name [of p] by (cases p) auto
qed

lemma tokens_append: "tokens (p @ SLASH # q) = tokens p @ tokens q"
proof (induction "length p" arbitrary: p rule: less_induct)
  case less
  show ?case
  proof (cases p rule: path_cases)
    case (more t r)
    then show ?thesis using less [of r] tokens_name(1) [OF more(1,2)] by simp
  qed (use less in \<open>auto simp: tokens_name\<close>)
qed

lemma tokens_trailing: "tokens (p @ replicate k SLASH) = tokens p"
proof (induction k)
  case (Suc k)
  then show ?case
    using tokens_append [of "p @ replicate k SLASH" "[]"] by (simp add: replicate_append_same [symmetric])
qed simp

lemma tokens_sound:
  assumes "t \<in> set (tokens p)"
  shows "t \<noteq> []" "set t \<subseteq> set p" "SLASH \<notin> set t"
proof -
  have "t \<noteq> [] \<and> set t \<subseteq> set p \<and> SLASH \<notin> set t"
    using assms
  proof (induction "length p" arbitrary: p rule: less_induct)
    case less
    show ?case
    proof (cases p rule: path_cases)
      case (more u r)
      then show ?thesis using less(1) [of r] less(2) tokens_name(1) [OF more(1,2)] by auto
    qed (use less in \<open>auto simp: tokens_name\<close>)
  qed
  then show "t \<noteq> []" "set t \<subseteq> set p" "SLASH \<notin> set t" by blast+
qed

section \<open>dirname and basename\<close>

lemma strip_split:
  obtains k where "p = rev (dropWhile (\<lambda>c. c = SLASH) (rev p)) @ replicate k SLASH"
proof -
  define q where "q = rev p"
  have "takeWhile (\<lambda>c. c = SLASH) q = replicate (length (takeWhile (\<lambda>c. c = SLASH) q)) SLASH"
    by (rule replicate_length_same [symmetric]) (auto dest: set_takeWhileD)
  then have "q = replicate (length (takeWhile (\<lambda>c. c = SLASH) q)) SLASH @ dropWhile (\<lambda>c. c = SLASH) q"
    by (metis takeWhile_dropWhile_id)
  then have "rev q = rev (dropWhile (\<lambda>c. c = SLASH) q) @ replicate (length (takeWhile (\<lambda>c. c = SLASH) q)) SLASH"
    by (metis rev_append rev_replicate)
  then show thesis unfolding q_def rev_rev_ident by (rule that)
qed

lemma tokens_strip: "tokens (strip_slashes p) = tokens p"
proof -
  define q where "q = rev (dropWhile (\<lambda>c. c = SLASH) (rev p))"
  obtain k where k: "p = q @ replicate k SLASH" unfolding q_def by (rule strip_split)
  then have "tokens p = tokens q" by (simp add: tokens_trailing)
  then show ?thesis by (simp add: strip_slashes_def q_def [symmetric] Let_def)
qed

text \<open>An absolute path that names something other than the root ends in a name.\<close>

lemma strip_shape:
  assumes "hd p = SLASH" "p \<noteq> []" "tokens p \<noteq> []"
  obtains d b where "strip_slashes p = d @ SLASH # b" "b \<noteq> []" "SLASH \<notin> set b"
proof -
  define q where "q = rev (dropWhile (\<lambda>c. c = SLASH) (rev p))"
  obtain k where k: "p = q @ replicate k SLASH" unfolding q_def by (rule strip_split)
  have "q \<noteq> []" using assms(3) tokens_trailing [of "[]" k] by (auto simp: k)
  then have s: "strip_slashes p = q" by (simp add: strip_slashes_def q_def [symmetric] Let_def)
  have "rev q \<noteq> []" using \<open>q \<noteq> []\<close> by simp
  then have last: "last q \<noteq> SLASH"
    using hd_dropWhile [of "\<lambda>c. c = SLASH" "rev p"] unfolding q_def by (simp add: last_rev)
  have "hd q = SLASH" using assms(1) \<open>q \<noteq> []\<close> by (simp add: k)
  then have "SLASH \<in> set q" using \<open>q \<noteq> []\<close> by (metis hd_in_set)
  then obtain d b where db: "q = d @ SLASH # b" "SLASH \<notin> set b" by (metis split_list_last)
  then have "b \<noteq> []" using last by auto
  then show thesis using that s db by simp
qed

lemma split_last_name:
  assumes "hd p = SLASH" "p \<noteq> []" "tokens p \<noteq> []"
  shows "tokens (dir_name p) = butlast (tokens p)" "base_name p = last (tokens p)"
proof -
  obtain d b where db: "strip_slashes p = d @ SLASH # b" "b \<noteq> []" "SLASH \<notin> set b"
    by (rule strip_shape [OF assms])
  have ne: "strip_slashes p \<noteq> [SLASH]" using db(1,2) by (cases d) auto
  have tok: "tokens p = tokens d @ [b]"
    using tokens_strip [of p] tokens_append [of d b] tokens_name(2) [OF db(2,3)] by (simp add: db(1))
  have b: "takeWhile (\<lambda>c. c \<noteq> SLASH) (rev (strip_slashes p)) = rev b"
    "dropWhile (\<lambda>c. c \<noteq> SLASH) (rev (strip_slashes p)) = SLASH # rev d"
    using db(3) by (simp_all add: db(1)) (subst takeWhile_append2 dropWhile_append2; auto)+
  have "dir_name p = strip_slashes (d @ [SLASH])"
    using ne b(2) by (simp add: dir_name_def Let_def db(1))
  then show "tokens (dir_name p) = butlast (tokens p)"
    using tokens_append [of d "[]"] by (simp add: tokens_strip tok)
  show "base_name p = last (tokens p)"
    using assms(2) ne b(1) by (simp add: base_name_def Let_def tok)
qed

section \<open>Resolution\<close>

definition is_dir :: "fs \<Rightarrow> nat \<Rightarrow> bool" where
  "is_dir s n \<longleftrightarrow> S_ISDIR (st_mode (vstat (inode_at s n)))"

definition is_reg :: "fs \<Rightarrow> nat \<Rightarrow> bool" where
  "is_reg s n \<longleftrightarrow> S_ISREG (st_mode (vstat (inode_at s n)))"

fun resolve :: "fs \<Rightarrow> nat \<Rightarrow> cstr list \<Rightarrow> nat option" where
  "resolve s n [] = Some n"
| "resolve s n (t # ts) =
     (if is_dir s n
      then (case lookup s n t of
              Some m \<Rightarrow> if m < 1024 \<and> valid s m then resolve s m ts else None
            | None \<Rightarrow> None)
      else None)"

lemma resolve_valid: "resolve s n ts = Some m \<Longrightarrow> n < 1024 \<and> valid s n \<Longrightarrow> m < 1024 \<and> valid s m"
  by (induction ts arbitrary: n) (auto split: if_splits option.splits)

lemma resolve_append: "resolve s n (ts @ us) = (case resolve s n ts of Some m \<Rightarrow> resolve s m us | None \<Rightarrow> None)"
  by (induction ts arbitrary: n) (auto split: option.split)

text \<open>A state that keeps the entries, the types and the valid inodes of another resolves its paths.\<close>

lemma resolve_mono:
  assumes look: "\<And>m x k. m < 1024 \<Longrightarrow> valid s m \<Longrightarrow> is_dir s m \<Longrightarrow> 0 \<notin> set x \<Longrightarrow> lookup s m x = Some k \<Longrightarrow> lookup s' m x = Some k"
    and v: "\<And>m. m < 1024 \<Longrightarrow> valid s m \<Longrightarrow> valid s' m \<and> (is_dir s m \<longrightarrow> is_dir s' m)"
  shows "resolve s n ts = Some m \<Longrightarrow> n < 1024 \<Longrightarrow> valid s n \<Longrightarrow> \<forall>t \<in> set ts. 0 \<notin> set t \<Longrightarrow> resolve s' n ts = Some m"
proof (induction ts arbitrary: n)
  case Nil
  then show ?case by simp
next
  case (Cons t ts)
  then obtain k where k: "is_dir s n" "lookup s n t = Some k" "k < 1024" "valid s k" "resolve s k ts = Some m"
    by (auto split: if_splits option.splits)
  have "lookup s' n t = Some k" using look [OF Cons.prems(2,3) k(1) _ k(2)] Cons.prems(4) by simp
  moreover have "resolve s' k ts = Some m" using Cons.IH [OF k(5,3,4)] Cons.prems(4) by simp
  ultimately show ?case using v [OF Cons.prems(2,3)] v [OF k(3,4)] k(1,3) by simp
qed

lemma path_loop_spec:
  assumes inv: "fs_inv s" and n: "n < 1024" "valid s n"
  shows "path_loop s (inode_at s n) p = map_option (inode_at s) (resolve s n (tokens p))"
  using n
proof (induction "length p" arbitrary: n p rule: less_induct)
  case less
  have ino: "unat (i_ino (inode_at s n)) = n"
    by (rule node_okD(2) [OF fs_invD(2) [OF inv less.prems]])
  show ?case
  proof (cases "strtok p")
    case None
    then show ?thesis by (subst path_loop.simps, subst tokens.simps) simp
  next
    case (Some q)
    then obtain t rest where t: "strtok p = Some (t, rest)" by (cases q) auto
    have tok: "tokens p = t # tokens rest" by (subst tokens.simps) (simp add: t)
    have find: "case dir_find s (i_ino (inode_at s n)) t (length t) of
        (r, Some e) \<Rightarrow> r = 0 \<and> lookup s n t = Some (unat (d_ino e))
      | (r, None) \<Rightarrow> r < 0 \<and> lookup s n t = None"
      using dir_find_spec [OF inv, of "i_ino (inode_at s n)" t] less.prems(1) by (simp add: ino)
    obtain r dent where D: "dir_find s (i_ino (inode_at s n)) t (length t) = (r, dent)"
      by (cases "dir_find s (i_ino (inode_at s n)) t (length t)")
    show ?thesis
    proof (cases dent)
      case None
      then show ?thesis
        using find D tok t by (subst path_loop.simps) (simp add: is_dir_def)
    next
      case (Some e)
      have L: "r = 0" "lookup s n t = Some (unat (d_ino e))" using find D Some by simp_all
      have rd: "readi s (d_ino e) = (if unat (d_ino e) < 1024 \<and> valid s (unat (d_ino e))
          then (0, Some (inode_at s (unat (d_ino e))))
          else (- ENOENT, if unat (d_ino e) < 1024 then Some (inode_at s (unat (d_ino e))) else None))"
        using readi_spec [OF fs_invD(1) [OF inv], of "d_ino e"] readi_out_of_range [OF fs_invD(1) [OF inv], of "d_ino e"]
        by (simp add: valid_def)
      have "path_loop s (inode_at s (unat (d_ino e))) rest
          = map_option (inode_at s) (resolve s (unat (d_ino e)) (tokens rest))"
        if "unat (d_ino e) < 1024 \<and> valid s (unat (d_ino e))"
        using that strtok_shorter [OF t] by (intro less.hyps) simp_all
      then show ?thesis
        using D Some L tok t rd by (subst path_loop.simps) (auto simp: is_dir_def errno_defs)
    qed
  qed
qed

definition node_at_path :: "fs \<Rightarrow> cstr \<Rightarrow> nat option" where
  "node_at_path s path = (if valid s 0 then resolve s 0 (tokens path) else None)"

lemma get_node_by_path_spec:
  assumes inv: "fs_inv s" and short: "length path < PATH_MAX"
  shows "get_node_by_path s path 0 =
    (case node_at_path s path of Some m \<Rightarrow> (0, Some (inode_at s m)) | None \<Rightarrow> (- 1, None))"
proof (cases "valid s 0")
  case False
  then show ?thesis
    using readi_spec [OF fs_invD(1) [OF inv], of 0]
    by (simp add: get_node_by_path_def node_at_path_def valid_def errno_defs)
next
  case True
  have rd: "readi s 0 = (0, Some (inode_at s 0))"
    using readi_spec [OF fs_invD(1) [OF inv], of 0] True by (simp add: valid_def)
  have "take (PATH_MAX - 1) path = path" using short by simp
  moreover have "tokens (if path \<noteq> [] \<and> hd path = SLASH then tl path else path) = tokens path"
    by (cases path) auto
  moreover have "tokens [SLASH] = []" by simp
  ultimately show ?thesis
    using rd path_loop_spec [OF inv _ True, of "if path \<noteq> [] \<and> hd path = SLASH then tl path else path"] True
    by (auto simp: get_node_by_path_def node_at_path_def Let_def split: option.splits)
qed

lemma node_at_path_valid: "node_at_path s path = Some n \<Longrightarrow> n < 1024 \<and> valid s n"
  by (auto simp: node_at_path_def dest: resolve_valid split: if_splits)

text \<open>The calls that only look at the node.\<close>

lemma rufs_getattr_spec:
  assumes "fs_inv s" "length path < PATH_MAX"
  shows "rufs_getattr s path = (case node_at_path s path of
    Some m \<Rightarrow> (0, Some (vstat (inode_at s m))) | None \<Rightarrow> (- ENOENT, None))"
  by (simp add: rufs_getattr_def get_node_by_path_spec [OF assms] split: option.split)

lemma rufs_open_spec:
  assumes "fs_inv s" "length path < PATH_MAX"
  shows "rufs_open s path = (case node_at_path s path of
    Some m \<Rightarrow> if is_reg s m then 0 else - EISDIR | None \<Rightarrow> - ENOENT)"
  by (simp add: rufs_open_def get_node_by_path_spec [OF assms] is_reg_def split: option.split)

lemma rufs_opendir_spec:
  assumes "fs_inv s" "length path < PATH_MAX"
  shows "rufs_opendir s path = (case node_at_path s path of
    Some m \<Rightarrow> if is_dir s m then 0 else - 1 | None \<Rightarrow> - ENOENT)"
  by (simp add: rufs_opendir_def get_node_by_path_spec [OF assms] is_dir_def split: option.split)

end
