(* ===== verification/FS_Create.thy ===== *)
theory FS_Create
  imports FS_Path
begin

text \<open>
  \<open>rufs_create\<close> and \<open>rufs_mkdir\<close>: both reserve an inode number, add the entry to the parent and
  write the new inode. Their results on every path, and what the other inodes see of it.
\<close>

section \<open>A number and an entry\<close>

text \<open>\<open>get_avail_ino\<close> followed by \<open>dir_add\<close>: the name leads to the new number.\<close>

definition reserved :: "fs \<Rightarrow> fs \<Rightarrow> nat \<Rightarrow> cstr \<Rightarrow> nat \<Rightarrow> bool" where
  "reserved s s' n name i \<longleftrightarrow> fs_inv s' \<and> i < 1024 \<and> \<not> ino_used s i \<and> \<not> valid s i \<and> \<not> valid s' i \<and> i \<noteq> n \<and>
     nodes_same s s' n \<and> valid s' n \<and> st_mode (vstat (inode_at s' n)) = st_mode (vstat (inode_at s n)) \<and>
     (\<forall>m < 1024. \<forall>x. name_ok x \<longrightarrow> lookup s' m x = (if m = n \<and> x = name then Some i else lookup s m x)) \<and>
     (\<forall>j. ino_used s' j \<longleftrightarrow> j = i \<or> ino_used s j) \<and>
     (\<exists>j. \<forall>b. blk_used s' b \<longrightarrow> b = j \<or> blk_used s b) \<and> (\<forall>b. blk_used s b \<longrightarrow> blk_used s' b) \<and>
     fs_time s' = fs_time s \<and> fs_uid s' = fs_uid s \<and> fs_gid s' = fs_gid s"

lemma reservedD:
  assumes "reserved s s' n name i"
  shows "fs_inv s'" "i < 1024" "\<not> ino_used s i" "\<not> valid s i" "\<not> valid s' i" "i \<noteq> n" "nodes_same s s' n" "valid s' n"
    "st_mode (vstat (inode_at s' n)) = st_mode (vstat (inode_at s n))"
    "m < 1024 \<Longrightarrow> name_ok x \<Longrightarrow> lookup s' m x = (if m = n \<and> x = name then Some i else lookup s m x)"
    "ino_used s' j \<longleftrightarrow> j = i \<or> ino_used s j"
    "fs_time s' = fs_time s" "fs_uid s' = fs_uid s" "fs_gid s' = fs_gid s"
    "\<exists>j. \<forall>b. blk_used s' b \<longrightarrow> b = j \<or> blk_used s b" "blk_used s b \<Longrightarrow> blk_used s' b"
  using assms by (simp_all add: reserved_def)

text \<open>The number is taken, the tree is as before: what a failed call leaves.\<close>

definition leaked :: "fs \<Rightarrow> fs \<Rightarrow> nat \<Rightarrow> bool" where
  "leaked s s' i \<longleftrightarrow> fs_inv s' \<and> i < 1024 \<and> \<not> ino_used s i \<and> nodes_same s s' 1024 \<and>
     (\<forall>j. ino_used s' j \<longleftrightarrow> j = i \<or> ino_used s j)"

lemma unat_ino: "i < 1024 \<Longrightarrow> unat (word_of_int (int i) :: u16) = i"
  by (simp only: of_int_of_nat_eq) (simp add: unat_of_nat)

lemma reserve_spec:
  assumes inv: "fs_inv s" "n < 1024" "valid s n" and name: "0 \<notin> set name"
  obtains
    (no_inode) "get_avail_ino s = (- 1, s)" "\<And>i. i < 1024 \<Longrightarrow> ino_used s i"
  | (no_entry) i s1 s2 where "get_avail_ino s = (int i, s1)"
      "dir_add s1 (inode_at s n) (word_of_int (int i)) name (length name) = (- 1, s2)" "leaked s s2 i"
      "208 < length name \<or> lookup s n name \<noteq> None \<or> all_live s (inode_at s n)"
  | (entry) i s1 s2 where "get_avail_ino s = (int i, s1)"
      "dir_add s1 (inode_at s n) (word_of_int (int i)) name (length name) = (0, s2)"
      "reserved s s2 n name i" "name_ok name" "lookup s n name = None"
  using inv(1)
proof (cases rule: alloc_ino_inv)
  case full
  then show thesis by (rule no_inode)
next
  case (avail i s1)
  have d1: "inode_at s n = inode_at s1 n" using avail(7) by simp
  have same: "nodes_same s s1 k" for k by (rule nodes_sameI [OF inv(1)]) (simp_all add: avail(7,8))
  have v: "valid s1 m = valid s m" for m using avail(7) by (simp add: valid_def)
  have inv1: "fs_inv s1" "n < 1024" "valid s1 n" using avail(4) inv(2,3) v by simp_all
  have look: "lookup s1 m x = lookup s m x" if "m < 1024" for m x
    by (rule nodes_same_lookup [OF same [of 1024] that]) (use that in simp)
  have dents: "dents s1 (inode_at s n) = dents s (inode_at s n)"
    using nodes_same_dents [OF same [of 1024] inv(2) _ inv(3)] inv(2) by (simp add: avail(7))
  have leak: "leaked s s1 i" using avail same by (simp add: leaked_def)
  show thesis
  proof (cases "length name \<le> 208")
    case False
    then have "dir_add s1 (inode_at s n) (word_of_int (int i)) name (length name) = (- 1, s1)"
      by (simp add: dir_add_def)
    then show thesis using avail(1) leak False by (intro no_entry [of i s1 s1]) simp_all
  next
    case True
    then have ok: "name_ok name" using name by (simp add: name_ok_def)
    from inv1 ok show thesis
    proof (cases rule: dir_add_spec [where f_ino = "word_of_int (int i)"])
      case exists
      then show thesis using avail(1) leak look [OF inv(2)] d1 by (intro no_entry [of i s1 s1]) simp_all
    next
      case disk_full
      then show thesis
        using avail(1) leak d1 dents by (intro no_entry [of i s1 s1]) (simp_all add: all_live_def)
    next
      case (dir_full s2 j)
      note o = others_sameD(1,2) [OF dir_full(5)]
      have "leaked s s2 i"
        using avail dir_full(4) nodes_same_trans [OF same [of 1024] o(1)] o(2) by (simp add: leaked_def)
      then show thesis
        using avail(1) dir_full(2,3) d1 dents by (intro no_entry [of i s1 s2]) (simp_all add: all_live_def)
    next
      case (added s2)
      have o: "others_same s1 s2 n" "fs_inv s2" "valid s2 n"
        "st_mode (vstat (inode_at s2 n)) = st_mode (vstat (inode_at s1 n))"
        "\<exists>j. \<forall>b. blk_used s2 b \<longrightarrow> b = j \<or> blk_used s1 b"
        using added(3) by (simp_all add: entry_added_def)
      have ne: "i \<noteq> n" using avail(9) inv1(3) by auto
      have "\<not> valid s2 i" using nodes_sameD(1) [OF others_sameD(1) [OF o(1)] avail(2) ne] avail(9) by (simp add: valid_def)
      moreover have "lookup s2 m x = (if m = n \<and> x = name then Some i else lookup s m x)" if "m < 1024" "name_ok x" for m x
        using entry_added_lookup [OF added(3) inv1(2,3) added(1) ok that(2)] unat_ino [OF avail(2)] that(1)
          nodes_same_lookup [OF others_sameD(1) [OF o(1)] that(1)] look by (cases "m = n") simp_all
      ultimately have "reserved s s2 n name i"
        using avail o ne others_sameD(2-6) [OF o(1)] nodes_same_trans [OF same others_sameD(1) [OF o(1)]] v
        by (simp add: reserved_def)
      then show thesis using avail(1) added(1,2) d1 ok look [OF inv(2)] by (intro entry [of i s1 s2]) simp_all
    qed
  qed
qed

section \<open>The new inode\<close>

text \<open>\<open>name\<close> in directory \<open>n\<close> is inode \<open>i\<close>, which is \<open>node\<close>, without content; nothing else changed.\<close>

definition created :: "fs \<Rightarrow> fs \<Rightarrow> nat \<Rightarrow> cstr \<Rightarrow> nat \<Rightarrow> inode \<Rightarrow> bool" where
  "created s s' n name i node \<longleftrightarrow> fs_inv s' \<and> i < 1024 \<and> i \<noteq> n \<and> \<not> ino_used s i \<and> \<not> valid s i \<and>
     inode_at s' i = node \<and> valid s' i \<and> dents s' node = Map.empty \<and>
     valid s' n \<and> st_mode (vstat (inode_at s' n)) = st_mode (vstat (inode_at s n)) \<and>
     (\<forall>m < 1024. m \<noteq> n \<longrightarrow> m \<noteq> i \<longrightarrow> inode_at s' m = inode_at s m) \<and>
     (\<forall>m < 1024. m \<noteq> n \<longrightarrow> valid s m \<longrightarrow> (\<forall>x < MAX_FILE. fbyte s' (inode_at s' m) x = fbyte s (inode_at s m) x)) \<and>
     (\<forall>m < 1024. \<forall>x. name_ok x \<longrightarrow> lookup s' m x = (if m = n \<and> x = name then Some i else lookup s m x)) \<and>
     (\<forall>j. ino_used s' j \<longleftrightarrow> j = i \<or> ino_used s j)"

lemma createdD:
  assumes "created s s' n name i node"
  shows "fs_inv s'" "i < 1024" "i \<noteq> n" "\<not> ino_used s i" "\<not> valid s i" "inode_at s' i = node" "valid s' i"
    "dents s' node = Map.empty" "valid s' n" "st_mode (vstat (inode_at s' n)) = st_mode (vstat (inode_at s n))"
    "m < 1024 \<Longrightarrow> m \<noteq> n \<Longrightarrow> m \<noteq> i \<Longrightarrow> inode_at s' m = inode_at s m"
    "m < 1024 \<Longrightarrow> m \<noteq> n \<Longrightarrow> valid s m \<Longrightarrow> x < MAX_FILE \<Longrightarrow> fbyte s' (inode_at s' m) x = fbyte s (inode_at s m) x"
    "m < 1024 \<Longrightarrow> name_ok y \<Longrightarrow> lookup s' m y = (if m = n \<and> y = name then Some i else lookup s m y)"
    "ino_used s' j \<longleftrightarrow> j = i \<or> ino_used s j"
  using assms unfolding created_def by simp_all

lemma lookup_no_dents: "dents s (inode_at s i) = Map.empty \<Longrightarrow> lookup s i x = None"
proof -
  assume "dents s (inode_at s i) = Map.empty"
  then have "\<not> named_at s (inode_at s i) x k" for k by (simp add: named_at_def)
  then show ?thesis by (simp add: lookup_def lookup_dir_None)
qed

lemma write_new_inode:
  assumes r: "reserved s s2 n name i" and n: "n < 1024"
    and s3: "fs_inv s3" "\<And>m. inode_at s3 m = inode_at s2 m" "\<And>b. b \<noteq> 2 \<Longrightarrow> contents s3 b = contents s2 b"
      "\<And>j. ino_used s3 j = ino_used s2 j"
    and node: "node_ok s3 i node" "i_valid node \<noteq> 0" "dents s3 node = Map.empty"
  obtains s4 where "writei s3 (word_of_int (int i)) node = (0, s4)" "created s s4 n name i node"
    "\<And>b. blk_used s4 b = blk_used s3 b"
proof -
  note R = reservedD [OF r]
  obtain s4 where W: "writei s3 (word_of_int (int i)) node = (0, s4)" "fs_inv s4"
    "\<And>m. m < 1024 \<Longrightarrow> inode_at s4 m = (if m = i then node else inode_at s3 m)"
    "\<And>b. b < 3 \<or> 67 \<le> b \<Longrightarrow> contents s4 b = contents s3 b"
    "\<And>j. ino_used s4 j = ino_used s3 j" "\<And>j. blk_used s4 j = blk_used s3 j"
    "fs_time s4 = fs_time s3" "fs_uid s4 = fs_uid s3" "fs_gid s4 = fs_gid s3"
    by (rule write_inode_inv [OF s3(1) R(2) node(1) unat_ino [OF R(2)] node(2)], rule that) (assumption+)
  have same23: "nodes_same s2 s3 k" for k by (rule nodes_sameI [OF R(1)]) (simp_all add: s3(2,3))
  have same34: "nodes_same s3 s4 i" by (rule nodes_sameI [OF s3(1)]) (simp_all add: W(3,4))
  have same24: "nodes_same s2 s4 i" by (rule nodes_same_trans [OF same23 same34])
  have v2: "valid s2 m" "m \<noteq> i" if "m < 1024" "m \<noteq> n" "valid s m" for m
    using nodes_sameD(1) [OF R(7) that(1,2)] that(3) R(4) by (auto simp: valid_def)
  have at: "inode_at s4 m = inode_at s m" if "m < 1024" "m \<noteq> n" "m \<noteq> i" for m
    using nodes_sameD(1) [OF R(7) that(1,2)] nodes_sameD(1) [OF same24 that(1,3)] by simp
  have bytes: "fbyte s4 (inode_at s4 m) x = fbyte s (inode_at s m) x"
    if "m < 1024" "m \<noteq> n" "valid s m" "x < MAX_FILE" for m x
    using nodes_same_fbyte [OF R(7) that] nodes_same_fbyte [OF same24 that(1) v2(2,1) that(4)] that by simp
  have atn: "inode_at s4 n = inode_at s2 n" using nodes_sameD(1) [OF same24 n] R(6) by simp
  have i4: "inode_at s4 i = node" "valid s4 i" using W(3) [OF R(2)] node(2) by (simp_all add: valid_def)
  have "dents s4 node k = dents s3 node k" for k
  proof (cases "k < 304 \<and> bptr node (k div 19) \<noteq> 0")
    case True
    then have "data_block s3 (bptr node (k div 19))"
      by (intro node_okD(4) [OF node(1)]) (simp_all add: less_mult_imp_div_less)
    then show ?thesis using W(4) by (simp add: dents_def slot_def data_block_def)
  qed (auto simp: dents_def)
  then have d4: "dents s4 node = Map.empty" using node(3) by (simp add: fun_eq_iff)
  have look: "lookup s4 m x = (if m = n \<and> x = name then Some i else lookup s m x)" if "m < 1024" "name_ok x" for m x
  proof (cases "m = i")
    case True
    have "lookup s2 i x = None" using R(5) by (simp add: lookup_def)
    then show ?thesis
      using True R(6) R(10) [OF that] lookup_no_dents [of s4 i x] i4(1) d4 by simp
  next
    case False
    then show ?thesis using nodes_same_lookup [OF same24 that(1)] R(10) [OF that] by simp
  qed
  have "created s s4 n name i node"
    unfolding created_def
    using W(2) R(2-4,6) i4 d4 atn R(8,9,11) W(5) s3(4) at bytes look by (simp add: valid_def)
  then show thesis using W(1,6) that by blast
qed

lemma new_node_fields [simp]:
  "inode_wf (new_node s ino typ links mode)" "i_ino (new_node s ino typ links mode) = word_of_int ino"
  "i_valid (new_node s ino typ links mode) = 1" "k < 16 \<Longrightarrow> bptr (new_node s ino typ links mode) k = 0"
  "st_mode (vstat (new_node s ino typ links mode)) = typ OR mode" "i_size (new_node s ino typ links mode) = 0"
  by (simp_all add: new_node_def zero_inode_def inode_wf_def bptr_def)

lemma new_node_cong:
  "fs_time s' = fs_time s \<Longrightarrow> fs_uid s' = fs_uid s \<Longrightarrow> fs_gid s' = fs_gid s \<Longrightarrow>
     new_node s' ino typ links mode = new_node s ino typ links mode"
  by (simp add: new_node_def)

lemma new_node_ok:
  assumes "i < 1024" "ino_used s i"
  shows "node_ok s i (new_node s' (int i) typ links mode)"
  using assms unat_ino [OF assms(1)] by (simp add: node_ok_def)

section \<open>rufs\_create\<close>

lemma rufs_create_spec:
  assumes inv: "fs_inv s" and path: "length (dir_name path) < PATH_MAX" "0 \<notin> set (base_name path)"
  obtains
    (no_parent) "node_at_path s (dir_name path) = None" "rufs_create s path mode = (- ENOENT, s)"
  | (not_dir) n where "node_at_path s (dir_name path) = Some n" "\<not> is_dir s n"
      "rufs_create s path mode = (- ENOTDIR, s)"
  | (no_inode) n where "node_at_path s (dir_name path) = Some n" "is_dir s n" "\<And>i. i < 1024 \<Longrightarrow> ino_used s i"
      "rufs_create s path mode = (- ENOSPC, s)"
  | (no_entry) n i s2 where "node_at_path s (dir_name path) = Some n" "is_dir s n"
      "rufs_create s path mode = (- EIO, s2)" "leaked s s2 i"
      "208 < length (base_name path) \<or> lookup s n (base_name path) \<noteq> None \<or> all_live s (inode_at s n)"
  | (ok) n i s2 where "node_at_path s (dir_name path) = Some n" "is_dir s n"
      "rufs_create s path mode = (0, s2)" "lookup s n (base_name path) = None" "name_ok (base_name path)"
      "created s s2 n (base_name path) i (new_node s (int i) S_IFREG 1 mode)"
      "\<exists>j. \<forall>b. blk_used s2 b \<longrightarrow> b = j \<or> blk_used s b"
proof (cases "node_at_path s (dir_name path)")
  case None
  then show thesis
    using get_node_by_path_spec [OF inv path(1)] by (intro no_parent) (simp_all add: rufs_create_def)
next
  case (Some n)
  note n = node_at_path_valid [OF Some]
  have get: "get_node_by_path s (dir_name path) 0 = (0, Some (inode_at s n))"
    using get_node_by_path_spec [OF inv path(1)] Some by simp
  show thesis
  proof (cases "is_dir s n")
    case False
    then show thesis using get Some by (intro not_dir [of n]) (simp_all add: rufs_create_def is_dir_def)
  next
    case True
    note run = get True [unfolded is_dir_def]
    from inv conjunct1 [OF n] conjunct2 [OF n] path(2) show thesis
    proof (cases rule: reserve_spec)
      case full: no_inode
      then show thesis using run Some True by (intro no_inode [of n]) (simp_all add: rufs_create_def)
    next
      case fail: (no_entry i s1 s2)
      have "rufs_create s path mode = (- EIO, s2)"
        using run fail(1,2) by (simp add: rufs_create_def Let_def)
      then show thesis using Some True fail(3,4) by (intro no_entry [of n s2 i])
    next
      case (entry i s1 s2)
      note R = reservedD [OF entry(3)]
      let ?node = "new_node s (int i) S_IFREG 1 mode"
      have node: "node_ok s2 i ?node" using R(2,11) by (intro new_node_ok) simp_all
      have "dents s2 ?node = Map.empty" by (simp add: dents_def fun_eq_iff less_mult_imp_div_less)
      then obtain s3 where W: "writei s2 (word_of_int (int i)) ?node = (0, s3)"
        "created s s3 n (base_name path) i ?node" "\<And>b. blk_used s3 b = blk_used s2 b"
        using write_new_inode [OF entry(3) conjunct1 [OF n] R(1) refl refl refl node] by auto
      have "rufs_create s path mode = (0, s3)"
        using run entry(1,2) W(1) new_node_cong [OF R(12-14)] by (simp add: rufs_create_def Let_def)
      then show thesis using Some True entry(4,5) W(2,3) R(15) by (intro ok [of n s3 i]) simp_all
    qed
  qed
qed

section \<open>rufs\_mkdir\<close>

text \<open>
  When no block is left for the new directory, \<open>rufs_mkdir\<close> fails after it has added the entry:
  \<open>reserved\<close> describes what stays.
\<close>

lemma rufs_mkdir_spec:
  assumes inv: "fs_inv s" and path: "length (dir_name path) < PATH_MAX" "0 \<notin> set (base_name path)"
  obtains
    (no_parent) "node_at_path s (dir_name path) = None" "rufs_mkdir s path mode = (- ENOENT, s)"
  | (not_dir) n where "node_at_path s (dir_name path) = Some n" "\<not> is_dir s n" "rufs_mkdir s path mode = (- 1, s)"
  | (no_inode) n where "node_at_path s (dir_name path) = Some n" "is_dir s n" "\<And>i. i < 1024 \<Longrightarrow> ino_used s i"
      "rufs_mkdir s path mode = (- 1, s)"
  | (no_entry) n i s2 where "node_at_path s (dir_name path) = Some n" "is_dir s n"
      "rufs_mkdir s path mode = (- 1, s2)" "leaked s s2 i"
      "208 < length (base_name path) \<or> lookup s n (base_name path) \<noteq> None \<or> all_live s (inode_at s n)"
  | (no_block) n i s2 where "node_at_path s (dir_name path) = Some n" "is_dir s n"
      "rufs_mkdir s path mode = (- ENOSPC, s2)" "reserved s s2 n (base_name path) i"
      "lookup s n (base_name path) = None" "name_ok (base_name path)" "\<And>b. b < 16384 \<Longrightarrow> blk_used s2 b"
  | (ok) n i s2 node j where "node_at_path s (dir_name path) = Some n" "is_dir s n"
      "rufs_mkdir s path mode = (0, s2)" "lookup s n (base_name path) = None" "name_ok (base_name path)"
      "node = (new_node s (int i) S_IFDIR 2 mode)\<lparr>direct_ptr := (replicate 16 0)[0 := word_of_int (int (67 + j))]\<rparr>"
      "created s s2 n (base_name path) i node" "j < 16384" "blk_used s2 j" "\<not> blk_used s j"
proof (cases "node_at_path s (dir_name path)")
  case None
  then show thesis
    using get_node_by_path_spec [OF inv path(1)] by (intro no_parent) (simp_all add: rufs_mkdir_def)
next
  case (Some n)
  note n = node_at_path_valid [OF Some]
  have get: "get_node_by_path s (dir_name path) 0 = (0, Some (inode_at s n))"
    using get_node_by_path_spec [OF inv path(1)] Some by simp
  show thesis
  proof (cases "is_dir s n")
    case False
    then show thesis using get Some by (intro not_dir [of n]) (simp_all add: rufs_mkdir_def is_dir_def)
  next
    case True
    note run = get True [unfolded is_dir_def]
    from inv conjunct1 [OF n] conjunct2 [OF n] path(2) show thesis
    proof (cases rule: reserve_spec)
      case full: no_inode
      then show thesis using run Some True by (intro no_inode [of n]) (simp_all add: rufs_mkdir_def)
    next
      case fail: (no_entry i s1 s2)
      have "rufs_mkdir s path mode = (- 1, s2)"
        using run fail(1,2) by (simp add: rufs_mkdir_def Let_def)
      then show thesis using Some True fail(3,4) by (intro no_entry [of n s2 i])
    next
      case (entry i s1 s2)
      note R = reservedD [OF entry(3)]
      from R(1) show thesis
      proof (cases rule: alloc_blk_inv)
        case full
        have "rufs_mkdir s path mode = (- ENOSPC, s2)"
          using run entry(1,2) full(1) by (simp add: rufs_mkdir_def Let_def)
        then show thesis using Some True entry(3-5) full(2) by (intro no_block [of n s2 i])
      next
        case (avail j s3)
        define d where "d = new_node s (int i) S_IFDIR 2 mode"
        define node where "node = d\<lparr>direct_ptr := (direct_ptr d)[0 := word_of_int (int (67 + j))]\<rparr>"
        have d: "node_ok s2 i d" using R(2,11) unfolding d_def by (intro new_node_ok) simp_all
        have d0: "bptr d k = 0" if "k < 16" for k using that by (simp add: d_def)
        note N = node_ok_new_block [OF R(1,2) d zero_less_numeral d0 [OF zero_less_numeral] avail(2,3,7,5,6) node_def]
        have "contents s3 (67 + j) x = 0" if "x < 4096" for x
          using fs_invD(3) [OF R(1) avail(2,3) that] avail(8) [of "67 + j"] by simp
        then have zero: "entry_at (contents s3 (67 + j)) k = entry_at (\<lambda>_. 0) k" if "k < 19" for k
          using that unfolding entry_at_def sizeof_dirent_def by (intro dec_dirent_cong) auto
        have e: "dents s3 node = Map.empty"
          using zero entry_zero d0 by (auto simp: dents_def slot_def fun_eq_iff N(2) less_mult_imp_div_less)
        obtain s4 where W: "writei s3 (word_of_int (int i)) node = (0, s4)"
          "created s s4 n (base_name path) i node"
          using write_new_inode [OF entry(3) conjunct1 [OF n] avail(4,7,8,5) N(1) _ e] by (auto simp: node_def d_def)
        have "new_node s3 (int i) S_IFDIR 2 mode = d"
          unfolding d_def using R(12-14) avail(9-11) by (intro new_node_cong) simp_all
        then have "rufs_mkdir s path mode = (0, s4)"
          using run entry(1,2) avail(1) W(1) by (simp add: rufs_mkdir_def Let_def node_def)
        moreover have "direct_ptr d = replicate 16 0" by (simp add: d_def new_node_def zero_inode_def)
        moreover have "data_block s4 (bptr node 0)"
          using node_okD(4) [OF fs_invD(2) [OF createdD(1,2,7) [OF W(2)]], of 0] createdD(6) [OF W(2)] N(2) by simp
        then have "blk_used s4 j" by (simp add: data_block_def N(2))
        moreover have "\<not> blk_used s j" using avail(3) R(16) by blast
        ultimately show thesis
          using Some True entry(4,5) W(2) avail(2) by (intro ok [of n s4 node j i]) (simp_all add: node_def d_def)
      qed
    qed
  qed
qed

end
