(* ===== verification/FS_ReadWrite.thy ===== *)
theory FS_ReadWrite
  imports FS_Path
begin

text \<open>
  \<open>rufs_read\<close> and \<open>rufs_write\<close> on a path: what they return, which bytes of the file a write
  changes, and that nothing else of the file system changes.
\<close>

section \<open>Offsets\<close>

lemma start_blk_eq:
  assumes "offset < 4294967296"
  shows "start_blk offset = int (offset div 4096)"
proof -
  have "offset div 4096 < 1048576" using assms by (simp add: less_mult_imp_div_less)
  then show ?thesis
    unfolding start_blk_def BLOCK_SIZE_def by (simp only: signed_of_nat) (simp add: signed_take_bit_int_eq_self)
qed

lemma sint_u32_nat: "n < 2147483648 \<Longrightarrow> sint (of_nat n :: u32) = int n"
  by (simp only: signed_of_nat) (simp add: signed_take_bit_int_eq_self)

section \<open>rufs\_read\<close>

text \<open>The bytes returned are file bytes from \<open>offset\<close> on, up to the size, the first hole or the end of the table.\<close>

lemma read_loop_any:
  assumes "mounted s" "in_table node"
  shows "\<exists>m. read_loop s node (offset div 4096) (offset mod 4096) nbytes []
      = map (fbyte s node) [offset..<offset + m] \<and> read_prefix node offset nbytes m"
proof (cases "offset div 4096 \<le> 16")
  case True
  have "offset mod 4096 < 4096" by simp
  from read_loop_spec [OF assms this True, of "[]" nbytes] show ?thesis by simp
next
  case False
  then have "MAX_FILE \<le> offset" unfolding MAX_FILE_def by (simp add: not_le div_less_iff_less_mult)
  then have "read_prefix node offset nbytes 0" by (simp add: read_prefix_def)
  moreover have "read_loop s node (offset div 4096) (offset mod 4096) nbytes [] = []"
    using False by (subst read_loop.simps) simp
  ultimately show ?thesis by (intro exI [of _ 0]) simp
qed

lemma clipped_length:
  assumes "offset < unat sz" "nbytes < 2147483648"
  shows "(if (of_nat offset + of_nat nbytes :: u64) > ucast (sz :: u32) then unat sz - offset else nbytes)
    = min nbytes (unat sz - offset)"
proof -
  have "unat sz < 4294967296" using unsigned_less [of sz, where ?'a = nat] by simp
  then have "unat (of_nat (offset + nbytes) :: u64) = offset + nbytes"
    using assms by (simp add: unat_of_nat take_bit_nat_eq_self del: of_nat_add)
  then have "(of_nat offset + of_nat nbytes :: u64) > ucast sz \<longleftrightarrow> unat sz < offset + nbytes"
    by (simp add: word_less_nat_alt)
  then show ?thesis using assms(1) by (auto simp: min_def)
qed

lemma rufs_read_spec:
  assumes inv: "fs_inv s" and path: "length path < PATH_MAX" and n: "nbytes < 2147483648"
    and node: "node_at_path s path = Some n" "is_reg s n"
  obtains m where "rufs_read s path nbytes offset = (int m, map (fbyte s (inode_at s n)) [offset..<offset + m])"
    "read_prefix (inode_at s n) offset (min nbytes (unat (i_size (inode_at s n)) - offset)) m"
proof -
  let ?d = "inode_at s n" and ?size = "unat (i_size (inode_at s n))"
  have get: "get_node_by_path s path 0 = (0, Some ?d)"
    using get_node_by_path_spec [OF inv path] node(1) by simp
  show thesis
  proof (cases "?size \<le> offset")
    case True
    then have "rufs_read s path nbytes offset = (0, [])"
      using get node(2) by (simp add: rufs_read_def is_reg_def)
    then show thesis using True by (intro that [of 0]) (simp_all add: read_prefix_def)
  next
    case False
    have "?size < 4294967296" using unsigned_less [of "i_size ?d", where ?'a = nat] by simp
    then have start: "nat (start_blk offset) = offset div 4096" using start_blk_eq [of offset] False by simp
    let ?nb = "min nbytes (?size - offset)"
    obtain m where m: "read_loop s ?d (offset div 4096) (offset mod 4096) ?nb []
        = map (fbyte s ?d) [offset..<offset + m]" "read_prefix ?d offset ?nb m"
      using read_loop_any [OF fs_invD(1) [OF inv] inode_table [OF inv]] node_at_path_valid [OF node(1)] by blast
    have "m \<le> ?nb" using m(2) by (simp add: read_prefix_def)
    then have "m < 2147483648" using n by simp
    moreover have "rufs_read s path nbytes offset
        = (sint (of_nat m :: u32), map (fbyte s ?d) [offset..<offset + m])"
      using get node(2) False clipped_length [OF _ n, of offset "i_size ?d"] m(1)
      by (simp add: rufs_read_def is_reg_def start BLOCK_SIZE_def Let_def)
    ultimately show thesis using m(2) by (intro that [of m]) (simp_all only: sint_u32_nat)
  qed
qed

text \<open>The inode and its bytes determine what is read.\<close>

lemma read_prefix_unique:
  assumes "read_prefix node pos rem m" "read_prefix node pos rem m'"
  shows "m = m'"
proof (rule ccontr)
  assume "m \<noteq> m'"
  then have "m < m' \<or> m' < m" by arith
  then show False using assms unfolding read_prefix_def by (metis linorder_not_less order_less_le_trans)
qed

lemma rufs_read_cong:
  assumes inv: "fs_inv s" "fs_inv s'" and path: "length path < PATH_MAX" and n: "nbytes < 2147483648"
    and node: "node_at_path s path = Some n" "node_at_path s' path = Some n" "is_reg s n"
    and same: "inode_at s' n = inode_at s n" "\<And>x. x < MAX_FILE \<Longrightarrow> fbyte s' (inode_at s n) x = fbyte s (inode_at s n) x"
  shows "rufs_read s' path nbytes offset = rufs_read s path nbytes offset"
proof -
  have reg: "is_reg s' n" using node(3) same(1) by (simp add: is_reg_def)
  obtain m where m: "rufs_read s path nbytes offset = (int m, map (fbyte s (inode_at s n)) [offset..<offset + m])"
    "read_prefix (inode_at s n) offset (min nbytes (unat (i_size (inode_at s n)) - offset)) m"
    by (rule rufs_read_spec [OF inv(1) path n node(1,3)])
  obtain m' where m': "rufs_read s' path nbytes offset = (int m', map (fbyte s' (inode_at s' n)) [offset..<offset + m'])"
    "read_prefix (inode_at s' n) offset (min nbytes (unat (i_size (inode_at s' n)) - offset)) m'"
    by (rule rufs_read_spec [OF inv(2) path n node(2) reg])
  have "m' = m" using read_prefix_unique m(2) m'(2) same(1) by simp
  moreover have "x < MAX_FILE" if "offset \<le> x" "x < offset + m" for x
    using that m(2) unfolding read_prefix_def by (metis add_diff_inverse_nat less_diff_conv2 linorder_not_less add.commute)
  ultimately show ?thesis using m(1) m'(1) same by simp
qed

section \<open>rufs\_write\<close>

definition written :: "fs \<Rightarrow> fs \<Rightarrow> nat \<Rightarrow> u8 list \<Rightarrow> nat \<Rightarrow> bool" where
  "written s s' n bs offset \<longleftrightarrow> fs_inv s' \<and> others_same s s' n \<and> valid s' n \<and>
     st_mode (vstat (inode_at s' n)) = st_mode (vstat (inode_at s n)) \<and>
     st_mtime (vstat (inode_at s' n)) = fs_time s \<and>
     unat (i_size (inode_at s' n)) = max (unat (i_size (inode_at s n))) (offset + length bs) \<and>
     (\<forall>x < length bs. bptr (inode_at s' n) ((offset + x) div 4096) \<noteq> 0) \<and>
     (\<forall>x < MAX_FILE. fbyte s' (inode_at s' n) x =
        (if offset \<le> x \<and> x < offset + length bs then bs ! (x - offset) else fbyte s (inode_at s n) x))"

lemma writtenD:
  assumes "written s s' n bs offset"
  shows "fs_inv s'" "others_same s s' n" "valid s' n"
    "st_mode (vstat (inode_at s' n)) = st_mode (vstat (inode_at s n))" "st_mtime (vstat (inode_at s' n)) = fs_time s"
    "unat (i_size (inode_at s' n)) = max (unat (i_size (inode_at s n))) (offset + length bs)"
    "x < length bs \<Longrightarrow> bptr (inode_at s' n) ((offset + x) div 4096) \<noteq> 0"
    "x < MAX_FILE \<Longrightarrow> fbyte s' (inode_at s' n) x =
       (if offset \<le> x \<and> x < offset + length bs then bs ! (x - offset) else fbyte s (inode_at s n) x)"
  using assms unfolding written_def by simp_all

text \<open>The loop from any offset; from the end of the table on it does nothing.\<close>

lemma write_loop_any:
  assumes inv: "fs_inv s" "node_ok s n node" "n < 1024"
  obtains
    (full) s' where "write_loop s node (offset div 4096) 0 (offset mod 4096) buffer = (s', None)"
      "fs_inv s'" "file_frame s s' n" "\<And>b. b < 16384 \<Longrightarrow> blk_used s' b"
  | (ok) s' node' where
      "write_loop s node (offset div 4096) 0 (offset mod 4096) buffer = (s', Some (node', write_len offset (length buffer)))"
      "fs_inv s'" "file_frame s s' n" "node_ok s' n node'" "same_but_ptrs node node'"
      "\<And>x. x < write_len offset (length buffer) \<Longrightarrow> bptr node' ((offset + x) div 4096) \<noteq> 0"
      "\<And>x. x < MAX_FILE \<Longrightarrow> fbyte s' node' x =
         (if offset \<le> x \<and> x < offset + write_len offset (length buffer) then buffer ! (x - offset) else fbyte s node x)"
proof (cases "offset div 4096 \<le> 16")
  case True
  have lt: "offset mod 4096 < 4096" by simp
  obtain s' res where R: "write_loop s node (offset div 4096) 0 (offset mod 4096) buffer = (s', res)"
    "fs_inv s'" "file_frame s s' n" "case res of
       None \<Rightarrow> (\<forall>b < 16384. blk_used s' b)
     | Some (node', w') \<Rightarrow> node_ok s' n node' \<and> same_but_ptrs node node' \<and>
         backed node node' (offset div 4096) (if 0 < w' then offset + w' else 0) \<and>
         w' = write_len offset (length buffer) \<and>
         (\<forall>x < MAX_FILE. fbyte s' node' x =
            (if offset \<le> x \<and> x < offset + w' then buffer ! (x - offset) else fbyte s node x))"
    using write_loop_spec [OF inv lt True, of 0 buffer] unfolding div_mult_mod_eq add_0_left diff_zero by blast
  show thesis
  proof (cases res)
    case None
    then show thesis using R by (intro full [of s']) simp_all
  next
    case (Some p)
    obtain node' w' where p: "p = (node', w')" by (cases p)
    note X = R(4) [unfolded Some p option.case prod.case]
    have w': "w' = write_len offset (length buffer)" and B: "backed node node' (offset div 4096) (if 0 < w' then offset + w' else 0)"
      using X by blast+
    have "bptr node' ((offset + x) div 4096) \<noteq> 0" if "x < w'" for x
    proof (rule backedD [OF _ that])
      show "backed node node' (offset div 4096) (offset + w')" using B that by simp
      show "offset + x < MAX_FILE" using that w' by (auto simp: write_len_def)
    qed
    then show thesis using R(1-3) X w' Some p by (intro ok [of s' node']) simp_all
  qed
next
  case False
  then have "MAX_FILE \<le> offset" unfolding MAX_FILE_def by (simp add: not_le div_less_iff_less_mult)
  then have "write_len offset (length buffer) = 0" by (simp add: write_len_def)
  moreover have "write_loop s node (offset div 4096) 0 (offset mod 4096) buffer = (s, Some (node, 0))"
    using False by (subst write_loop.simps) simp
  ultimately show thesis using inv by (intro ok [of s node]) auto
qed

text \<open>The inode as it is written back: the size and the modification time are updated.\<close>

definition sized :: "inode \<Rightarrow> nat \<Rightarrow> u64 \<Rightarrow> inode" where
  "sized node end now =
     (let node2 = (if (of_nat end :: u64) > ucast (i_size node)
                   then node\<lparr>i_size := of_nat end, vstat := (vstat node)\<lparr>st_size := ucast (of_nat end :: u32)\<rparr>\<rparr>
                   else node)
      in node2\<lparr>vstat := (vstat node2)\<lparr>st_mtime := now\<rparr>\<rparr>)"

lemma sized_fields [simp]:
  "direct_ptr (sized node end now) = direct_ptr node" "i_ino (sized node end now) = i_ino node"
  "i_valid (sized node end now) = i_valid node" "inode_wf (sized node end now) = inode_wf node"
  "bptr (sized node end now) k = bptr node k" "st_mode (vstat (sized node end now)) = st_mode (vstat node)"
  "st_mtime (vstat (sized node end now)) = now" "fbyte s (sized node end now) x = fbyte s node x"
  by (simp_all add: sized_def inode_wf_def bptr_def fbyte_def Let_def)

lemma sized_size:
  assumes "end < 4294967296"
  shows "unat (i_size (sized node end now)) = max (unat (i_size node)) end"
proof -
  have "unat (of_nat end :: u64) = end" "unat (of_nat end :: u32) = end"
    using assms by (simp_all add: unat_of_nat take_bit_nat_eq_self)
  then show ?thesis by (simp add: sized_def Let_def word_less_nat_alt max_def)
qed

lemma same_but_ptrs_fields:
  "same_but_ptrs node node' \<Longrightarrow> i_size node' = i_size node \<and> i_valid node' = i_valid node \<and> vstat node' = vstat node"
  by (auto simp: same_but_ptrs_def)

lemma rufs_write_spec:
  assumes inv: "fs_inv s" and path: "length path < PATH_MAX" and off: "offset < 4294967296"
    and node: "node_at_path s path = Some n" "is_reg s n"
  obtains
    (no_space) s' where "rufs_write s path buffer offset = Some (- ENOSPC, s')" "fs_inv s'" "file_frame s s' n"
      "\<And>b. b < 16384 \<Longrightarrow> blk_used s' b"
      "snd (write_loop s (inode_at s n) (offset div 4096) 0 (offset mod 4096) buffer) = None"
  | (ok) s' where "rufs_write s path buffer offset = Some (int (write_len offset (length buffer)), s')"
      "written s s' n (take (write_len offset (length buffer)) buffer) offset"
proof -
  let ?d = "inode_at s n" and ?w = "write_len offset (length buffer)"
  note n = node_at_path_valid [OF node(1)]
  have get: "get_node_by_path s path 0 = (0, Some ?d)"
    using get_node_by_path_spec [OF inv path] node(1) by simp
  have start: "start_blk offset = int (offset div 4096)" by (rule start_blk_eq [OF off])
  have ok0: "node_ok s n ?d" using fs_invD(2) [OF inv] n by blast
  from inv ok0 conjunct1 [OF n] show thesis
  proof (cases rule: write_loop_any [where offset = offset and buffer = buffer])
    case (full s1)
    then show thesis
      using get node(2) start by (intro no_space [of s1]) (simp_all add: rufs_write_def is_reg_def BLOCK_SIZE_def)
  next
    case done': (ok s1 node1)
    have F: "i_size node1 = i_size ?d" "i_valid node1 = i_valid ?d" "vstat node1 = vstat ?d"
      using same_but_ptrs_fields [OF done'(5)] by simp_all
    let ?node = "sized node1 (offset + ?w) (fs_time s1)"
    have k: "node_ok s1 n ?node" using node_okD(1) [OF done'(4)] by (intro node_ok_ptrs [OF done'(4)]) simp_all
    obtain s2 where W: "writei s1 (i_ino ?node) ?node = (0, s2)" "fs_inv s2"
      "\<And>m. m < 1024 \<Longrightarrow> inode_at s2 m = (if m = n then ?node else inode_at s1 m)"
      "\<And>b. b < 3 \<or> 67 \<le> b \<Longrightarrow> contents s2 b = contents s1 b"
      "fs_time s2 = fs_time s1" "fs_uid s2 = fs_uid s1" "fs_gid s2 = fs_gid s1"
      by (rule write_inode_inv [OF done'(2) conjunct1 [OF n] k, of "i_ino ?node"])
        (use node_okD(2) [OF done'(4)] n F(2) in \<open>simp_all add: valid_def\<close>)
    have w: "?w \<le> 65536" "offset + ?w < 4294967296" "?w \<le> length buffer"
      using off by (auto simp: write_len_def MAX_FILE_def)
    have "rufs_write s path buffer offset = Some (sint (of_nat ?w :: u32), snd (writei s1 (i_ino ?node) ?node))"
      using get node(2) start done'(1)
      by (simp add: rufs_write_def is_reg_def BLOCK_SIZE_def sized_def Let_def)
    then have run: "rufs_write s path buffer offset = Some (int ?w, s2)"
      using W(1) w(1) sint_u32_nat [of ?w] by simp
    have at: "inode_at s2 n = ?node" using W(3) n by simp
    have time: "fs_time s1 = fs_time s" by (rule file_frameD(5) [OF done'(3)])
    have bytes: "fbyte s2 ?node x = fbyte s1 node1 x" if "x < MAX_FILE" for x
    proof (cases "bptr node1 (x div 4096) = 0")
      case True
      then show ?thesis by (simp add: fbyte_def)
    next
      case False
      have "x div 4096 < 16" using that by (simp add: MAX_FILE_def less_mult_imp_div_less)
      then have "data_block s1 (bptr node1 (x div 4096))" using False by (rule node_okD(4) [OF done'(4)])
      then show ?thesis using W(4) by (simp add: fbyte_def data_block_def)
    qed
    have others: "others_same s s2 n"
      by (rule others_same_trans [OF others_same_frame [OF done'(3)] others_same_inode [OF done'(2) W(3-7)]])
    have len: "length (take ?w buffer) = ?w" using w(3) by simp
    have nth: "take ?w buffer ! (x - offset) = buffer ! (x - offset)" if "offset \<le> x \<and> x < offset + ?w" for x
      using that by (intro nth_take) linarith
    have "written s s2 n (take ?w buffer) offset"
      unfolding written_def len at
      using W(2) others F n time sized_size [OF w(2)] done'(6,7) bytes by (simp add: valid_def at nth cong: if_cong)
    then show thesis using run by (intro ok [of s2])
  qed
qed

text \<open>A write within one block succeeds when a block is free.\<close>

lemma write_one_block:
  assumes inv: "fs_inv s" "node_ok s n node" "n < 1024"
    and fits: "offset mod 4096 + length buffer \<le> 4096" "offset < MAX_FILE" "buffer \<noteq> []"
    and b: "b < 16384" "\<not> blk_used s b"
  shows "snd (write_loop s node (offset div 4096) 0 (offset mod 4096) buffer) \<noteq> None"
proof -
  have i: "offset div 4096 < 16" using fits(2) by (simp add: MAX_FILE_def less_mult_imp_div_less)
  have w: "0 < length buffer" using fits(3) by simp
  have c: "chunk (offset mod 4096) (length buffer - 0) = length buffer"
    using fits(1) by (auto simp: chunk_def BLOCK_SIZE_def Let_def)
  from inv(1,3,2) i show ?thesis
  proof (cases rule: ensure_block)
    case full
    then show ?thesis using b by blast
  next
    case (ready blk s1 node1)
    obtain r s2 where W: "write_block s1 (sint (direct_ptr node1 ! (offset div 4096)))
        (store_bytes (snd (read_block s1 (sint (direct_ptr node1 ! (offset div 4096))))) (offset mod 4096)
          (take (chunk (offset mod 4096) (length buffer - 0)) (drop 0 buffer))) = (r, s2)"
      by (rule prod.exhaust)
    have "write_loop s node (offset div 4096) 0 (offset mod 4096) buffer
        = write_loop s2 node1 (Suc (offset div 4096)) (length buffer) 0 buffer"
      using write_loop_step [OF i w ready(1-3) refl W] unfolding c by simp
    also have "\<dots> = (s2, Some (node1, length buffer))" by (subst write_loop.simps) simp
    finally show ?thesis by simp
  qed
qed

lemma rufs_write_one_block:
  assumes inv: "fs_inv s" and path: "length path < PATH_MAX" and node: "node_at_path s path = Some n" "is_reg s n"
    and fits: "offset mod 4096 + length buffer \<le> 4096" "offset < MAX_FILE" "buffer \<noteq> []"
    and b: "b < 16384" "\<not> blk_used s b"
  obtains s' where "rufs_write s path buffer offset = Some (int (write_len offset (length buffer)), s')"
    "written s s' n (take (write_len offset (length buffer)) buffer) offset"
proof -
  note n = node_at_path_valid [OF node(1)]
  have one: "snd (write_loop s (inode_at s n) (offset div 4096) 0 (offset mod 4096) buffer) \<noteq> None"
    using n by (intro write_one_block [OF inv fs_invD(2) [OF inv] _ fits b]) simp_all
  have "offset < 4294967296" using fits(2) by (simp add: MAX_FILE_def)
  from inv path this node show thesis
    by (cases rule: rufs_write_spec [where buffer = buffer]) (use one that in simp_all)
qed

end
