(* ===== verification/FS_Calls.thy ===== *)
theory FS_Calls
  imports FS_Create FS_ReadWrite
begin

text \<open>
  The file-system calls together: which paths survive a call, the invariant on every state a
  sequence of calls reaches, the listing of a directory, and a concrete file system for the
  examples.
\<close>

section \<open>Paths after a call\<close>

lemma node_at_path_mono:
  assumes look: "\<And>m x k. m < 1024 \<Longrightarrow> valid s m \<Longrightarrow> is_dir s m \<Longrightarrow> 0 \<notin> set x \<Longrightarrow> lookup s m x = Some k \<Longrightarrow> lookup s' m x = Some k"
    and v: "\<And>m. m < 1024 \<Longrightarrow> valid s m \<Longrightarrow> valid s' m \<and> (is_dir s m \<longrightarrow> is_dir s' m)"
    and p: "node_at_path s p = Some m" "0 \<notin> set p"
  shows "node_at_path s' p = Some m"
proof -
  have r: "valid s 0" "resolve s 0 (tokens p) = Some m" using p(1) by (simp_all add: node_at_path_def split: if_splits)
  have "0 \<notin> set t" if "t \<in> set (tokens p)" for t using tokens_sound(2) [OF that] p(2) by auto
  then have "resolve s' 0 (tokens p) = Some m"
    using r by (intro resolve_mono [OF look v r(2)]) simp_all
  then show ?thesis using v [of 0] r(1) by (simp add: node_at_path_def)
qed

lemma name_ok_lookup: "lookup s m x = Some k \<Longrightarrow> 0 \<notin> set x \<Longrightarrow> name_ok x"
  by (simp add: lookup_def name_ok_def split: if_splits)

lemma created_paths:
  assumes c: "created s s' n name i node" and new: "lookup s n name = None" and n: "n < 1024"
    and p: "node_at_path s p = Some m" "0 \<notin> set p"
  shows "node_at_path s' p = Some m"
proof (rule node_at_path_mono [OF _ _ p])
  note C = createdD [OF c]
  show "lookup s' m x = Some k" if "m < 1024" "0 \<notin> set x" "lookup s m x = Some k" for m x k
    using C(13) [OF that(1) name_ok_lookup [OF that(3,2)]] that(3) new by auto
  show "valid s' m \<and> (is_dir s m \<longrightarrow> is_dir s' m)" if "m < 1024" "valid s m" for m
    using C(5,9,10) C(11) [OF that(1)] that by (cases "m = n"; cases "m = i") (auto simp: valid_def is_dir_def)
qed

lemma node_at_path_last:
  assumes "hd p = SLASH" "p \<noteq> []" "tokens p \<noteq> []" "node_at_path s (dir_name p) = Some n"
  shows "node_at_path s p = resolve s n [base_name p]"
proof -
  note S = split_last_name [OF assms(1-3)]
  have "tokens p = tokens (dir_name p) @ [base_name p]" using assms(3) by (simp add: S)
  then have "resolve s 0 (tokens p) = resolve s n [base_name p]"
    using assms(4) by (simp add: node_at_path_def resolve_append split: if_splits)
  moreover have "valid s 0" using assms(4) by (simp add: node_at_path_def split: if_splits)
  ultimately show ?thesis by (simp add: node_at_path_def)
qed

lemma created_new_path:
  assumes c: "created s s' n (base_name p) i node" and new: "lookup s n (base_name p) = None" "name_ok (base_name p)"
    and d: "node_at_path s (dir_name p) = Some n" "is_dir s n" "0 \<notin> set (dir_name p)"
    and p: "hd p = SLASH" "p \<noteq> []" "tokens p \<noteq> []"
  shows "node_at_path s' p = Some i"
proof -
  note C = createdD [OF c]
  have n: "n < 1024" using node_at_path_valid [OF d(1)] by simp
  have "node_at_path s' (dir_name p) = Some n" by (rule created_paths [OF c new(1) n d(1,3)])
  moreover have "is_dir s' n" using d(2) C(10) by (simp add: is_dir_def)
  ultimately show ?thesis
    using node_at_path_last [OF p] C(2,7) C(13) [OF n new(2)] by simp
qed

lemma set_strip: "set (strip_slashes p) \<subseteq> insert SLASH (set p)"
  by (auto simp: strip_slashes_def Let_def dest: set_dropWhileD)

lemma set_dir_name: "set (dir_name p) \<subseteq> {SLASH, DOT} \<union> set p"
proof -
  define q where "q = rev (dropWhile (\<lambda>c. c \<noteq> SLASH) (rev (strip_slashes p)))"
  have "set q \<subseteq> set (strip_slashes p)" unfolding q_def by (auto dest: set_dropWhileD)
  then have "set (strip_slashes q) \<subseteq> insert SLASH (set p)" using set_strip [of q] set_strip [of p] by blast
  then show ?thesis using set_strip [of p] by (auto simp: dir_name_def Let_def q_def [symmetric])
qed

lemma nul_free_dir_name: "0 \<notin> set p \<Longrightarrow> 0 \<notin> set (dir_name p)"
  using set_dir_name [of p] by (auto simp: SLASH_def DOT_def)

lemma set_base_name: "set (base_name p) \<subseteq> {SLASH, DOT} \<union> set p"
  using set_strip [of p] by (auto simp: base_name_def Let_def dest!: set_takeWhileD)

lemma nul_free_base_name: "0 \<notin> set p \<Longrightarrow> 0 \<notin> set (base_name p)"
  using set_base_name [of p] by (auto simp: SLASH_def DOT_def)

lemma length_strip: "length (strip_slashes p) \<le> max 1 (length p)"
  using length_dropWhile_le [of "\<lambda>c. c = SLASH" "rev p"] by (auto simp: strip_slashes_def Let_def)

lemma length_dir_name: "length (dir_name p) \<le> max 1 (length p)"
proof -
  have "length (strip_slashes (rev (dropWhile (\<lambda>c. c \<noteq> SLASH) (rev (strip_slashes p))))) \<le> max 1 (length p)"
    using length_strip [of "rev (dropWhile (\<lambda>c. c \<noteq> SLASH) (rev (strip_slashes p)))"] length_strip [of p]
      length_dropWhile_le [of "\<lambda>c. c \<noteq> SLASH" "rev (strip_slashes p)"] by auto
  then show ?thesis using length_strip [of p] by (auto simp: dir_name_def Let_def)
qed

text \<open>A path as the kernel passes it: absolute, without a zero byte, shorter than \<open>PATH_MAX\<close>.\<close>

definition path_ok :: "cstr \<Rightarrow> bool" where
  "path_ok p \<longleftrightarrow> p \<noteq> [] \<and> hd p = SLASH \<and> 0 \<notin> set p \<and> length p < PATH_MAX"

lemma path_okD:
  assumes "path_ok p"
  shows "p \<noteq> []" "hd p = SLASH" "0 \<notin> set p" "length p < PATH_MAX" "0 \<notin> set (dir_name p)"
    "0 \<notin> set (base_name p)" "length (dir_name p) < PATH_MAX"
  using assms nul_free_dir_name [of p] nul_free_base_name [of p] length_dir_name [of p]
  by (auto simp: path_ok_def PATH_MAX_def)

lemma dir_not_reg: "is_reg s n \<Longrightarrow> \<not> is_dir s n"
  by (auto simp: is_dir_def is_reg_def S_ISDIR_def S_ISREG_def S_IFDIR_def S_IFREG_def)

lemma written_paths:
  assumes w: "written s s' n bs offset" and reg: "is_reg s n" and p: "node_at_path s p = Some m" "0 \<notin> set p"
  shows "node_at_path s' p = Some m"
proof (rule node_at_path_mono [OF _ _ p])
  note W = writtenD [OF w] and S = others_sameD(1) [OF writtenD(2) [OF w]]
  show "lookup s' m x = Some k" if "m < 1024" "is_dir s m" "lookup s m x = Some k" for m x k
    using nodes_same_lookup [OF S that(1)] that dir_not_reg [OF reg] by (cases "m = n") auto
  show "valid s' m \<and> (is_dir s m \<longrightarrow> is_dir s' m)" if "m < 1024" "valid s m" for m
    using W(3,4) nodes_sameD(1) [OF S that(1)] that by (cases "m = n") (auto simp: valid_def is_dir_def)
qed

section \<open>rufs\_readdir\<close>

definition dirent_name :: "dirent \<Rightarrow> cstr" where
  "dirent_name e = takeWhile (\<lambda>c. c \<noteq> 0) (take (unat (d_len e)) (d_name e))"

text \<open>The live entries from slot \<open>k\<close> on, in slot order.\<close>

definition live_from :: "fs \<Rightarrow> inode \<Rightarrow> nat \<Rightarrow> dirent list" where
  "live_from s d k = map (slot s d) (filter (\<lambda>j. dents s d j \<noteq> None) [k..<304])"

definition names_of :: "dirent list \<Rightarrow> cstr list option" where
  "names_of es = (if \<forall>e \<in> set es. unat (d_len e) \<le> 208 then Some (map dirent_name es) else None)"

lemma names_of_append: "names_of (xs @ ys) = do { a \<leftarrow> names_of xs; b \<leftarrow> names_of ys; Some (a @ b) }"
  by (auto simp: names_of_def)

lemma block_names_eq:
  "block_names buf n = names_of (filter (\<lambda>e. d_valid e \<noteq> 0) (map (entry_at buf) [0..<n]))"
proof (induction n)
  case 0
  then show ?case by (simp add: names_of_def)
next
  case (Suc n)
  show ?case
    by (simp add: Suc names_of_append Let_def) (simp add: names_of_def dirent_name_def split: option.split)
qed

lemma live_from_block:
  assumes "i < 16" "bptr d i \<noteq> 0"
  shows "live_from s d (i * 19)
    = filter (\<lambda>e. d_valid e \<noteq> 0) (map (entry_at (contents s (bptr d i))) [0..<19]) @ live_from s d (Suc i * 19)"
proof -
  let ?P = "\<lambda>j. dents s d j \<noteq> None"
  have "i * 19 + 19 \<le> 304" using assms(1) by simp
  then have "[i * 19..<304] = [i * 19..<i * 19 + 19] @ [Suc i * 19..<304]"
    using upt_add_eq_append [of "i * 19" "i * 19 + 19" "304 - (i * 19 + 19)"] by (simp add: add.commute)
  moreover have "[i * 19..<i * 19 + 19] = map ((+) (i * 19)) [0..<19]"
    by (rule nth_equalityI) simp_all
  moreover have "?P (i * 19 + j) \<longleftrightarrow> d_valid (entry_at (contents s (bptr d i)) j) \<noteq> 0"
    and "slot s d (i * 19 + j) = entry_at (contents s (bptr d i)) j" if "j < 19" for j
    using that assms by (simp_all add: dents_def slot_def)
  then have "map (slot s d) (filter ?P (map ((+) (i * 19)) [0..<19]))
      = filter (\<lambda>e. d_valid e \<noteq> 0) (map (entry_at (contents s (bptr d i))) [0..<19])"
    unfolding filter_map comp_def map_map by (intro map_cong filter_cong) auto
  ultimately show ?thesis unfolding live_from_def by simp
qed

lemma live_from_hole:
  assumes "i < 16" "bptr d i = 0"
  shows "live_from s d (i * 19) = live_from s d (Suc i * 19)"
proof -
  have "i * 19 + 19 \<le> 304" using assms(1) by simp
  then have "[i * 19..<304] = [i * 19..<i * 19 + 19] @ [Suc i * 19..<304]"
    using upt_add_eq_append [of "i * 19" "i * 19 + 19" "304 - (i * 19 + 19)"] by (simp add: add.commute)
  moreover have "dents s d j = None" if "i * 19 \<le> j" "j < i * 19 + 19" for j
  proof -
    have "j div 19 = i" using that by (intro div_nat_eqI) simp_all
    then show ?thesis using assms(2) by (simp add: dents_def)
  qed
  then have "filter (\<lambda>j. dents s d j \<noteq> None) [i * 19..<i * 19 + 19] = []"
    by (auto simp: filter_empty_conv)
  ultimately show ?thesis unfolding live_from_def by simp
qed

lemma readdir_loop_spec:
  assumes "mounted s" "in_table d" "i \<le> 16"
  shows "readdir_loop s d i names
    = map_option (\<lambda>more. (0, names @ more)) (names_of (live_from s d (i * 19)))"
  using assms(3)
proof (induction "16 - i" arbitrary: i names)
  case 0
  then show ?case by (subst readdir_loop.simps) (simp add: live_from_def names_of_def)
next
  case (Suc x)
  then have i: "i < 16" by simp
  have IH: "readdir_loop s d (Suc i) ns
      = map_option (\<lambda>more. (0, ns @ more)) (names_of (live_from s d (Suc i * 19)))" for ns
    using Suc.hyps(2) i by (intro Suc.hyps(1)) simp_all
  show ?case
  proof (cases "direct_ptr d ! i = 0")
    case True
    then show ?thesis
      using i IH live_from_hole [OF i] by (subst readdir_loop.simps) (simp add: bptr_eq_0_iff)
  next
    case False
    have p: "bptr d i \<noteq> 0" "bptr d i < 16451" using False assms(2) i by (auto simp: bptr_eq_0_iff in_table_def)
    obtain r where R: "read_block s (int (bptr d i)) = (r, contents s (bptr d i))" "0 \<le> r"
      by (rule read_blockE [OF assms(1), of "bptr d i"]) (use p(2) in simp_all)
    have "readdir_loop s d i names = do { more \<leftarrow> block_names (contents s (bptr d i)) 19;
        readdir_loop s d (Suc i) (names @ more) }"
      using False i R sint_bptr [OF p(2)] by (subst readdir_loop.simps) (simp add: ents_per_blk_eq)
    then show ?thesis
      unfolding IH live_from_block [OF i p(1)] names_of_append block_names_eq
      by (simp split: Option.bind_split)
  qed
qed

lemma rufs_readdir_spec:
  assumes inv: "fs_inv s" and path: "length path < PATH_MAX" and n: "node_at_path s path = Some n" "is_dir s n"
  shows "rufs_readdir s path
    = map_option (\<lambda>names. (0, [DOT] # [DOT, DOT] # names)) (names_of (live_from s (inode_at s n) 0))"
  using get_node_by_path_spec [OF inv path] n node_at_path_valid [OF n(1)]
    readdir_loop_spec [OF fs_invD(1) [OF inv] inode_table [OF inv], of n 0]
  by (simp add: rufs_readdir_def is_dir_def)

section \<open>States the calls reach\<close>

text \<open>The clock moves between calls; a later process may open the disk again.\<close>

inductive fs_reach :: "fs \<Rightarrow> bool" where
  by_init: "fresh_disk (dev s) \<Longrightarrow> rufs_init s = Some (0, s') \<Longrightarrow> fs_reach s'"
| by_tick: "fs_reach s \<Longrightarrow> fs_reach (s\<lparr>fs_time := t\<rparr>)"
| by_create: "fs_reach s \<Longrightarrow> path_ok p \<Longrightarrow> rufs_create s p mode = (r, s') \<Longrightarrow> fs_reach s'"
| by_mkdir: "fs_reach s \<Longrightarrow> path_ok p \<Longrightarrow> rufs_mkdir s p mode = (r, s') \<Longrightarrow> fs_reach s'"
| by_write: "fs_reach s \<Longrightarrow> path_ok p \<Longrightarrow> offset < 4294967296 \<Longrightarrow> rufs_write s p buffer offset = Some (r, s') \<Longrightarrow> fs_reach s'"
| by_remount: "fs_reach s \<Longrightarrow> host_exists (dev s) \<Longrightarrow> host_opens (dev s) \<Longrightarrow> rufs_init (restart s junk) = Some (0, s') \<Longrightarrow> fs_reach s'"

lemma rufs_create_inv:
  assumes "fs_inv s" "path_ok p" "rufs_create s p mode = (r, s')"
  shows "fs_inv s'"
  using assms(1) path_okD(7,6) [OF assms(2)]
proof (cases rule: rufs_create_spec [where mode = mode])
  case (no_entry n i s2)
  then show ?thesis using assms(3) by (simp add: leaked_def)
next
  case (ok n i s2)
  then show ?thesis using assms(3) createdD(1) [OF ok(6)] by simp
qed (use assms in auto)

lemma rufs_mkdir_inv:
  assumes "fs_inv s" "path_ok p" "rufs_mkdir s p mode = (r, s')"
  shows "fs_inv s'"
  using assms(1) path_okD(7,6) [OF assms(2)]
proof (cases rule: rufs_mkdir_spec [where mode = mode])
  case (no_entry n i s2)
  then show ?thesis using assms(3) by (simp add: leaked_def)
next
  case (no_block n i s2)
  then show ?thesis using assms(3) reservedD(1) by simp
next
  case (ok n i s2 node j)
  then show ?thesis using assms(3) createdD(1) [OF ok(7)] by simp
qed (use assms in auto)

lemma rufs_write_inv:
  assumes "fs_inv s" "path_ok p" "offset < 4294967296" "rufs_write s p buffer offset = Some (r, s')"
  shows "fs_inv s'"
proof (cases "node_at_path s p")
  case None
  then show ?thesis
    using assms get_node_by_path_spec [OF assms(1) path_okD(4) [OF assms(2)]] by (simp add: rufs_write_def)
next
  case (Some n)
  show ?thesis
  proof (cases "is_reg s n")
    case False
    then show ?thesis
      using assms Some get_node_by_path_spec [OF assms(1) path_okD(4) [OF assms(2)]]
      by (simp add: rufs_write_def is_reg_def)
  next
    case True
    from assms(1) path_okD(4) [OF assms(2)] assms(3) Some True show ?thesis
    proof (cases rule: rufs_write_spec [where buffer = buffer])
      case (no_space s1)
      then show ?thesis using assms(4) by simp
    next
      case (ok s1)
      then show ?thesis using assms(4) writtenD(1) by simp
    qed
  qed
qed

lemma fs_inv_tick: "fs_inv s \<Longrightarrow> fs_inv (s\<lparr>fs_time := t\<rparr>)"
  by (rule fs_inv_cong) (auto dest: fs_invD(1) simp: mounted_def contents_def)

lemma fs_reach_inv: "fs_reach s \<Longrightarrow> fs_inv s"
proof (induction rule: fs_reach.induct)
  case (by_init s s')
  show ?case
    by (rule rufs_init_fresh [OF by_init(1)]) (use by_init in \<open>simp add: formatted_def\<close>)
next
  case (by_remount s junk s')
  show ?case
    by (rule rufs_init_restart [OF by_remount(5,2,3), of junk]) (use by_remount in simp)
qed (auto intro: fs_inv_tick rufs_create_inv rufs_mkdir_inv rufs_write_inv)

end
