(* ===== verification/FS_Demo.thy ===== *)
theory FS_Demo
  imports FS_Calls
begin

text \<open>
  Concrete file systems for the examples: a new disk, the disk after \<open>rufs_init\<close>, and with an
  empty file \<open>/f\<close>.
\<close>

definition new_fs :: fs where
  "new_fs = \<lparr>dev = \<lparr>dev_open_flag = False, dev_live = False, host_exists = False, host_opens = True,
                    dev_bad = (\<lambda>_. False), dev_len = 0, dev_data = (\<lambda>_ _. 0)\<rparr>,
             sb = std_sb, fs_time = 1700000000, fs_uid = 1000, fs_gid = 1000\<rparr>"

definition FILE_F :: cstr where "FILE_F = [47, 102]"

lemma file_f [simp]:
  "path_ok FILE_F" "tokens FILE_F = [[102]]" "dir_name FILE_F = [SLASH]" "base_name FILE_F = [102]"
proof -
  show "path_ok FILE_F" by (simp add: path_ok_def FILE_F_def SLASH_def PATH_MAX_def)
  have f: "FILE_F = SLASH # [102]" by (simp add: FILE_F_def SLASH_def)
  show "tokens FILE_F = [[102]]" unfolding f tokens_slash by (rule tokens_name(2)) (simp_all add: SLASH_def)
  show "dir_name FILE_F = [SLASH]" "base_name FILE_F = [102]"
    by (simp_all add: FILE_F_def dir_name_def base_name_def strip_slashes_def SLASH_def)
qed

lemma name_f [simp]: "name_ok [102]"
  by (simp add: name_ok_def)

lemma new_fs_fresh [simp]: "fresh_disk (dev new_fs)"
  by (simp add: fresh_disk_def new_fs_def)

section \<open>A formatted disk\<close>

lemma node_at_root: "valid s 0 \<Longrightarrow> node_at_path s [SLASH] = Some 0"
  by (simp add: node_at_path_def)

lemma formatted_root:
  assumes "formatted s"
  shows "valid s 0" "is_dir s 0" "dents s (inode_at s 0) = Map.empty" "lookup s 0 x = None"
    "\<not> all_live s (inode_at s 0)" "node_at_path s [SLASH] = Some 0"
proof -
  have inv: "fs_inv s" and root: "inode_at s 0 = root_inode s" and z: "contents s 67 = (\<lambda>_. 0)"
    using assms by (simp_all add: formatted_def)
  have ptr: "bptr (inode_at s 0) k = (if k = 0 then 67 else 0)" if "k < 16" for k
    using root_inode_fields(4,5) [where s = s] that fs_invD(1) [OF inv] by (simp add: root)
  show v: "valid s 0" by (simp add: valid_def root root_inode_fields)
  have "st_mode (vstat (root_inode s)) = S_IFDIR OR 0x1ED" by (simp add: root_inode_def)
  then show "is_dir s 0" using S_IFDIR_mode by (simp only: is_dir_def root)
  show d: "dents s (inode_at s 0) = Map.empty"
    using ptr by (auto simp: dents_def slot_def fun_eq_iff less_mult_imp_div_less z entry_zero)
  then show "lookup s 0 x = None" by (rule lookup_no_dents)
  have "bptr (inode_at s 0) (0 div 19) \<noteq> 0" using ptr [of 0] by simp
  then show "\<not> all_live s (inode_at s 0)"
    using d unfolding all_live_def by (metis zero_less_numeral)
  show "node_at_path s [SLASH] = Some 0" by (rule node_at_root [OF v])
qed

lemma demo_root:
  obtains s where "rufs_init new_fs = Some (0, s)" "formatted s" "fs_reach s" "host_ready (dev s)"
proof -
  obtain s where s: "rufs_init new_fs = Some (0, s)" "formatted s" "host_ready (dev s)"
    by (rule rufs_init_fresh [OF new_fs_fresh])
  then show thesis using fs_reach.by_init [OF new_fs_fresh s(1)] by (intro that)
qed

section \<open>A file in the root directory\<close>

text \<open>\<open>rufs_create\<close> succeeds on \<open>/f\<close> in a formatted disk.\<close>

lemma create_f:
  assumes "formatted s"
  obtains i s' where "rufs_create s FILE_F mode = (0, s')" "i \<noteq> 0"
    "created s s' 0 [102] i (new_node s (int i) S_IFREG 1 mode)" "\<exists>b. b < 16384 \<and> \<not> blk_used s' b"
proof -
  note F = formatted_root [OF assms]
  have inv: "fs_inv s" and free: "\<not> ino_used s 1" and bu: "\<And>b. blk_used s b \<longleftrightarrow> b = 0"
    using assms by (simp_all add: formatted_def)
  from inv path_okD(7,6) [OF file_f(1)] show thesis
  proof (cases rule: rufs_create_spec [where mode = mode])
    case no_parent
    then show thesis using F(6) by simp
  next
    case (not_dir n)
    then show thesis using F(2,6) by simp
  next
    case (no_inode n)
    then show thesis using free by simp
  next
    case (no_entry n i s2)
    then show thesis using F(4-6) by simp
  next
    case (ok n i s2)
    obtain j where "\<forall>b. blk_used s2 b \<longrightarrow> b = j \<or> b = 0" using ok(7) bu by auto
    then have "\<not> blk_used s2 (if j = 1 then 2 else 1)" by auto
    then have "\<exists>b. b < 16384 \<and> \<not> blk_used s2 b" by (intro exI [of _ "if j = 1 then 2 else 1"]) simp
    then show thesis using ok F(6) createdD(3) [OF ok(6)] by (intro that [of s2 i]) simp_all
  qed
qed

lemma reg_mode: "S_ISREG (S_IFREG OR 0x1A4)"
  by (simp add: S_ISREG_def S_IFREG_def S_IFMT_def)

lemma demo_file:
  obtains s i where "fs_reach s" "node_at_path s FILE_F = Some i" "is_reg s i" "i_size (inode_at s i) = 0"
    "\<And>j. ino_used s j \<longleftrightarrow> j = i \<or> j = 0" "i \<noteq> 0" "node_at_path s [SLASH] = Some 0" "is_dir s 0"
    "lookup s 0 [102] = Some i" "\<exists>b. b < 16384 \<and> \<not> blk_used s b"
proof -
  obtain s0 where s0: "formatted s0" "fs_reach s0" by (rule demo_root)
  note F = formatted_root [OF s0(1)]
  obtain i s where C: "rufs_create s0 FILE_F 0x1A4 = (0, s)" "i \<noteq> 0"
    "created s0 s 0 [102] i (new_node s0 (int i) S_IFREG 1 0x1A4)" "\<exists>b. b < 16384 \<and> \<not> blk_used s b"
    by (rule create_f [OF s0(1)])
  note D = createdD [OF C(3)]
  have "fs_reach s" by (rule fs_reach.by_create [OF s0(2) file_f(1) C(1)])
  moreover have "node_at_path s FILE_F = Some i"
    using created_new_path [of s0 s 0 FILE_F i] C(3) F(2,4,6) path_okD(1-3,5) [OF file_f(1)] by simp
  moreover have "is_reg s i" using D(6) reg_mode by (simp add: is_reg_def)
  moreover have "i_size (inode_at s i) = 0" using D(6) by simp
  moreover have "ino_used s j \<longleftrightarrow> j = i \<or> j = 0" for j using D(14) s0(1) by (simp add: formatted_def)
  moreover have "node_at_path s [SLASH] = Some 0"
    using created_paths [OF C(3) F(4) _ F(6)] by (simp add: SLASH_def)
  moreover have "is_dir s 0" using F(2) D(10) by (simp add: is_dir_def)
  moreover have "lookup s 0 [102] = Some i" using D(13) by simp
  ultimately show thesis using C(2,4) by (intro that)
qed

end
