(* ===== verification/FS_Properties.thy ===== *)
theory FS_Properties
  imports FS_Demo
begin

text \<open>
  The properties of the file system, each over the whole calls of \<open>rufs.c\<close>, with the examples that
  discharge their hypotheses.
\<close>

section \<open>Safety of every reachable state\<close>

text \<open>C4: In every state that mounting a new disk and any sequence of \<open>create\<close>, \<open>mkdir\<close>, \<open>write\<close>
  and remounts reach, the block pointers of the valid inodes are allocated data blocks, no block
  belongs to two pointers (of one inode or of two), every valid inode has its bit in the inode
  bitmap and its own number, and a data block that is not allocated holds zeros.\<close>

theorem fs_reach_safe:
  assumes "fs_reach s"
  shows "(\<forall>n < 1024. \<forall>k < 16. valid s n \<and> bptr (inode_at s n) k \<noteq> 0 \<longrightarrow>
           67 \<le> bptr (inode_at s n) k \<and> bptr (inode_at s n) k < 16451 \<and> blk_used s (bptr (inode_at s n) k - 67)) \<and>
    (\<forall>n < 1024. \<forall>m < 1024. \<forall>k < 16. \<forall>l < 16. valid s n \<and> valid s m \<and> bptr (inode_at s n) k \<noteq> 0 \<and>
       bptr (inode_at s n) k = bptr (inode_at s m) l \<longrightarrow> n = m \<and> k = l) \<and>
    (\<forall>n < 1024. valid s n \<longrightarrow> ino_used s n \<and> unat (i_ino (inode_at s n)) = n) \<and>
    (\<forall>b < 16384. \<forall>x < 4096. \<not> blk_used s b \<longrightarrow> contents s (67 + b) x = 0)"
proof -
  have inv: "fs_inv s" by (rule fs_reach_inv [OF assms])
  note ok = node_okD [OF fs_invD(2) [OF inv]]
  have "n = m \<and> k = l"
    if "n < 1024" "m < 1024" "k < 16" "l < 16" "valid s n" "valid s m" "bptr (inode_at s n) k \<noteq> 0"
      "bptr (inode_at s n) k = bptr (inode_at s m) l" for n m k l
    using ok(5) [OF that(1,5,3,4,7)] ok(6) [OF that(1,5,2,3,4) _ that(6,7)] that(8) by metis
  then show ?thesis
    using ok(2,3,4) fs_invD(3) [OF inv] unfolding data_block_def by blast
qed

theorem fs_reach_safe_witness:
  "\<exists>s i. fs_reach s \<and> node_at_path s FILE_F = Some i \<and> ino_used s i \<and> unat (i_ino (inode_at s i)) = i"
proof -
  obtain s i where s: "fs_reach s" "node_at_path s FILE_F = Some i" by (rule demo_file)
  then show ?thesis using fs_reach_safe [OF s(1)] node_at_path_valid [OF s(2)] by blast
qed

section \<open>Reading and writing\<close>

text \<open>C5: What \<open>rufs_write\<close> stores \<open>rufs_read\<close> gives back: after a write of \<open>bs\<close> at \<open>offset\<close>
  within the 16 direct blocks that does not fail, the path still names the file, the call has
  returned the length of \<open>bs\<close>, and reading that range returns exactly \<open>bs\<close>, across block borders
  and over blocks that were holes before.\<close>

theorem write_read_roundtrip:
  assumes "fs_reach s" "path_ok p" "node_at_path s p = Some n" "is_reg s n" "offset + length bs \<le> MAX_FILE"
    and "rufs_write s p bs offset = Some (r, s')" "0 \<le> r"
  shows "r = int (length bs) \<and> rufs_read s' p (length bs) offset = (int (length bs), bs)"
proof -
  have inv: "fs_inv s" by (rule fs_reach_inv [OF assms(1)])
  have off: "offset < 4294967296" using assms(5) by (simp add: MAX_FILE_def)
  from inv path_okD(4) [OF assms(2)] off assms(3,4) show ?thesis
  proof (cases rule: rufs_write_spec [where buffer = bs])
    case (no_space s1)
    then show ?thesis using assms(6,7) by (simp add: errno_defs)
  next
    case (ok s1)
    have w: "write_len offset (length bs) = length bs" using assms(5) by (simp add: write_len_def)
    have s1: "s1 = s'" "r = int (length bs)" and W: "written s s' n bs offset"
      using ok assms(6) by (simp_all add: w)
    note D = writtenD [OF W]
    have node: "node_at_path s' p = Some n" "is_reg s' n"
      using written_paths [OF W assms(4,3) path_okD(3) [OF assms(2)]] D(4) assms(4) by (simp_all add: is_reg_def)
    have len: "length bs < 2147483648" using assms(5) by (simp add: MAX_FILE_def)
    obtain m where m: "rufs_read s' p (length bs) offset
        = (int m, map (fbyte s' (inode_at s' n)) [offset..<offset + m])"
      "read_prefix (inode_at s' n) offset (min (length bs) (unat (i_size (inode_at s' n)) - offset)) m"
      by (rule rufs_read_spec [OF D(1) path_okD(4) [OF assms(2)] len node])
    have "min (length bs) (unat (i_size (inode_at s' n)) - offset) = length bs" using D(6) by simp
    then have "m = length bs" using read_prefix_full [OF _ assms(5)] m(2) D(7) by simp
    moreover have "map (fbyte s' (inode_at s' n)) [offset..<offset + length bs] = bs"
      using assms(5) by (intro nth_equalityI) (simp_all add: D(8))
    ultimately show ?thesis using m(1) s1(2) by simp
  qed
qed

text \<open>Five bytes written to the file of the example.\<close>

definition HELLO :: "u8 list" where "HELLO = [104, 101, 108, 108, 111]"

lemma demo_write:
  obtains s i s' where "fs_reach s" "node_at_path s FILE_F = Some i" "is_reg s i" "fs_reach s'"
    "rufs_write s FILE_F HELLO 0 = Some (5, s')" "written s s' i HELLO 0" "i \<noteq> 0"
    "node_at_path s [SLASH] = Some 0"
proof -
  obtain s i b where S: "fs_reach s" "node_at_path s FILE_F = Some i" "is_reg s i" "i \<noteq> 0"
    "node_at_path s [SLASH] = Some 0" "b < 16384" "\<not> blk_used s b"
    by (rule demo_file) blast
  have len: "write_len 0 (length HELLO) = 5" "take 5 HELLO = HELLO"
    by (simp_all add: write_len_def HELLO_def MAX_FILE_def)
  have fits: "0 mod 4096 + length HELLO \<le> 4096" "(0 :: nat) < MAX_FILE" "HELLO \<noteq> []"
    by (simp_all add: HELLO_def MAX_FILE_def)
  obtain s' where W: "rufs_write s FILE_F HELLO 0 = Some (int (write_len 0 (length HELLO)), s')"
    "written s s' i (take (write_len 0 (length HELLO)) HELLO) 0"
    by (rule rufs_write_one_block [OF fs_reach_inv [OF S(1)] path_okD(4) [OF file_f(1)] S(2,3) fits S(6,7)])
  have "rufs_write s FILE_F HELLO 0 = Some (5, s')" "written s s' i HELLO 0" using W by (simp_all add: len)
  moreover from this have "fs_reach s'" by (intro fs_reach.by_write [OF S(1) file_f(1)]) simp_all
  ultimately show thesis using S by (intro that)
qed

theorem write_read_roundtrip_witness:
  "\<exists>s s'. rufs_write s FILE_F HELLO 0 = Some (5, s') \<and> rufs_read s' FILE_F 5 0 = (5, HELLO)"
proof -
  obtain s i s' where S: "fs_reach s" "node_at_path s FILE_F = Some i" "is_reg s i"
    "rufs_write s FILE_F HELLO 0 = Some (5, s')" by (rule demo_write)
  have len: "length HELLO = 5" "0 + length HELLO \<le> MAX_FILE" by (simp_all add: HELLO_def MAX_FILE_def)
  have "rufs_read s' FILE_F (length HELLO) 0 = (int (length HELLO), HELLO)"
    by (rule conjunct2 [OF write_read_roundtrip [OF S(1) file_f(1) S(2,3) len(2) S(4)]]) simp
  then have "rufs_read s' FILE_F 5 0 = (5, HELLO)" by (simp only: len(1) of_nat_numeral)
  then show ?thesis using S(4) by blast
qed

text \<open>C32: A write changes one file: whatever it returns, every path resolves to the same inode as
  before, and the attributes and every byte that \<open>rufs_read\<close> returns for a path to another inode
  are the same after it, also when it fails half way for lack of space.\<close>

theorem write_touches_one_file:
  assumes "fs_reach s" "path_ok p" "node_at_path s p = Some n" "is_reg s n" "offset < 4294967296"
    and "rufs_write s p bs offset = Some (r, s')"
    and "path_ok q" "node_at_path s q = Some m"
  shows "node_at_path s' q = Some m \<and>
    (m \<noteq> n \<longrightarrow> rufs_getattr s' q = rufs_getattr s q \<and>
       (is_reg s m \<longrightarrow> k < 2147483648 \<longrightarrow> rufs_read s' q k j = rufs_read s q k j))"
proof -
  have inv: "fs_inv s" by (rule fs_reach_inv [OF assms(1)])
  have same: "fs_inv s' \<and> nodes_same s s' n \<and> node_at_path s' q = Some m"
    using inv path_okD(4) [OF assms(2)] assms(5,3,4)
  proof (cases rule: rufs_write_spec [where buffer = bs])
    case (no_space s1)
    have s1: "s1 = s'" using no_space(1) assms(6) by simp
    note D = file_frameD(1) [OF no_space(3)]
    have "node_at_path s1 q = Some m"
    proof (rule node_at_path_mono [OF _ _ assms(8) path_okD(3) [OF assms(7)]])
      show "lookup s1 m x = Some k" if "m < 1024" "is_dir s m" "lookup s m x = Some k" for m x k
        using nodes_same_lookup [OF others_sameD(1) [OF others_same_frame [OF no_space(3)]] that(1)] that dir_not_reg [OF assms(4)]
        by (cases "m = n") auto
    qed (simp add: D valid_def is_dir_def)
    then show ?thesis using no_space(2) others_sameD(1) [OF others_same_frame [OF no_space(3)]] s1 by simp
  next
    case (ok s1)
    then have W: "written s s' n (take (write_len offset (length bs)) bs) offset" using assms(6) by simp
    show ?thesis
      using writtenD(1) [OF W] others_sameD(1) [OF writtenD(2) [OF W]]
        written_paths [OF W assms(4,8) path_okD(3) [OF assms(7)]] by simp
  qed
  then have S: "fs_inv s'" "nodes_same s s' n" "node_at_path s' q = Some m" by simp_all
  note m = node_at_path_valid [OF assms(8)]
  have "rufs_getattr s' q = rufs_getattr s q" if "m \<noteq> n"
    using rufs_getattr_spec [OF S(1) path_okD(4) [OF assms(7)]] rufs_getattr_spec [OF inv path_okD(4) [OF assms(7)]]
      S(3) assms(8) nodes_sameD(1) [OF S(2)] m that by simp
  moreover have "rufs_read s' q k j = rufs_read s q k j" if "m \<noteq> n" "is_reg s m" "k < 2147483648"
    by (rule rufs_read_cong [OF inv S(1) path_okD(4) [OF assms(7)] that(3) assms(8) S(3) that(2)])
      (use m nodes_sameD(1) [OF S(2) _ that(1)] nodes_same_fbyte [OF S(2) _ that(1)] in simp_all)
  ultimately show ?thesis using S(3) by blast
qed

theorem write_touches_one_file_witness:
  "\<exists>s s'. rufs_write s FILE_F HELLO 0 = Some (5, s') \<and> node_at_path s' [SLASH] = Some 0 \<and>
     rufs_getattr s' [SLASH] = rufs_getattr s [SLASH]"
proof -
  obtain s i s' where S: "fs_reach s" "node_at_path s FILE_F = Some i" "is_reg s i"
    "rufs_write s FILE_F HELLO 0 = Some (5, s')" "i \<noteq> 0" "node_at_path s [SLASH] = Some 0" by (rule demo_write)
  have "path_ok [SLASH]" by (simp add: path_ok_def SLASH_def PATH_MAX_def)
  then show ?thesis
    using write_touches_one_file [OF S(1) file_f(1) S(2,3) _ S(4) _ S(6)] S(4,5) by auto
qed

text \<open>C38: A read returns at most what was asked for, never past the size of the file, and its
  result is the number of bytes; each byte is the byte of the file at that offset. Reading stops
  early at a hole: when no block is allocated at \<open>offset\<close>, nothing is returned although the offset
  lies inside the file.\<close>

theorem read_within_bounds:
  assumes "fs_reach s" "path_ok p" "node_at_path s p = Some n" "is_reg s n" "k < 2147483648"
    and "rufs_read s p k offset = (r, bs)"
  shows "r = int (length bs) \<and> length bs \<le> k \<and> (bs = [] \<or> offset + length bs \<le> unat (i_size (inode_at s n))) \<and>
    (\<forall>i. bs \<noteq> [] \<and> i < length bs \<longrightarrow> bs ! i = fbyte s (inode_at s n) (offset + i)) \<and>
    (bptr (inode_at s n) (offset div 4096) = 0 \<longrightarrow> bs = [])"
proof -
  obtain m where m: "rufs_read s p k offset = (int m, map (fbyte s (inode_at s n)) [offset..<offset + m])"
    "read_prefix (inode_at s n) offset (min k (unat (i_size (inode_at s n)) - offset)) m"
    by (rule rufs_read_spec [OF fs_reach_inv [OF assms(1)] path_okD(4) [OF assms(2)] assms(5,3,4)])
  have "m = 0" if "bptr (inode_at s n) (offset div 4096) = 0"
    using m(2) that unfolding read_prefix_def by (metis add_0_right gr0I)
  then show ?thesis using m assms(6) by (auto simp: read_prefix_def)
qed

theorem read_within_bounds_witness:
  "\<exists>s i. node_at_path s FILE_F = Some i \<and> rufs_read s FILE_F 100 0 = (0, [])"
proof -
  obtain s i where S: "fs_reach s" "node_at_path s FILE_F = Some i" "is_reg s i" "i_size (inode_at s i) = 0"
    by (rule demo_file)
  obtain r bs where R: "rufs_read s FILE_F 100 0 = (r, bs)" by (rule prod.exhaust)
  have "r = int (length bs) \<and> bs = []"
    using read_within_bounds [OF S(1) file_f(1) S(2,3) _ R] S(4) by simp
  then show ?thesis using S(2) R by auto
qed

text \<open>C37: A write that starts at or past 64 KB stores nothing and returns 0, but the file grows:
  its size becomes the offset of the write, so later reads see a file longer than what was ever
  stored. No byte of the file changes.\<close>

theorem write_past_table:
  assumes "fs_reach s" "path_ok p" "node_at_path s p = Some n" "is_reg s n"
    and "MAX_FILE \<le> offset" "offset < 4294967296"
  shows "\<exists>s'. rufs_write s p bs offset = Some (0, s') \<and>
    unat (i_size (inode_at s' n)) = max (unat (i_size (inode_at s n))) offset \<and>
    (\<forall>x < MAX_FILE. fbyte s' (inode_at s' n) x = fbyte s (inode_at s n) x)"
  using fs_reach_inv [OF assms(1)] path_okD(4) [OF assms(2)] assms(6,3,4)
proof (cases rule: rufs_write_spec [where buffer = bs])
  case (no_space s1)
  have "16 \<le> offset div 4096" using assms(5) unfolding MAX_FILE_def by (simp add: less_eq_div_iff_mult_less_eq)
  then have "snd (write_loop s (inode_at s n) (offset div 4096) 0 (offset mod 4096) bs) \<noteq> None"
    by (subst write_loop.simps) simp
  then show ?thesis using no_space(5) by simp
next
  case (ok s1)
  have w: "write_len offset (length bs) = 0" using assms(5) by (simp add: write_len_def)
  note W = ok(2) [unfolded w take_0]
  have "fbyte s1 (inode_at s1 n) x = fbyte s (inode_at s n) x" if "x < MAX_FILE" for x
    using writtenD(8) [OF W that] by auto
  then show ?thesis
    using ok(1) writtenD(6) [OF W] by (intro exI [of _ s1]) (simp add: w)
qed

theorem write_past_table_witness:
  "\<exists>s s' i. rufs_write s FILE_F HELLO 70000 = Some (0, s') \<and> unat (i_size (inode_at s' i)) = 70000"
proof -
  obtain s i where S: "fs_reach s" "node_at_path s FILE_F = Some i" "is_reg s i" "i_size (inode_at s i) = 0"
    by (rule demo_file)
  have b: "MAX_FILE \<le> 70000" "(70000 :: nat) < 4294967296" by (simp_all add: MAX_FILE_def)
  show ?thesis
    using write_past_table [OF S(1) file_f(1) S(2,3) b, of HELLO] S(4) by auto
qed

section \<open>Creating files and directories\<close>

lemma new_file_stat: "vstat (new_node s i S_IFREG 1 mode) =
    \<lparr>st_nlink = 1, st_mode = S_IFREG OR mode, st_uid = fs_uid s, st_gid = fs_gid s, st_size = 0,
     st_atime = fs_time s, st_mtime = fs_time s\<rparr>"
  by (simp add: new_node_def zero_stat_def)

text \<open>What a new name leaves alone: paths, and the attributes of all but the parent.\<close>

lemma created_others:
  assumes inv: "fs_inv s" and c: "created s s' n name i node" "lookup s n name = None" "n < 1024"
    and q: "path_ok q" "node_at_path s q = Some m"
  shows "node_at_path s' q = Some m \<and> (m \<noteq> n \<longrightarrow> rufs_getattr s' q = rufs_getattr s q)"
proof -
  have p: "node_at_path s' q = Some m" by (rule created_paths [OF c q(2) path_okD(3) [OF q(1)]])
  note m = node_at_path_valid [OF q(2)]
  have "inode_at s' m = inode_at s m" if "m \<noteq> n"
    using createdD(5) [OF c(1)] createdD(11) [OF c(1) _ that] m by metis
  then show ?thesis
    using p q(2) rufs_getattr_spec [OF inv path_okD(4) [OF q(1)]]
      rufs_getattr_spec [OF createdD(1) [OF c(1)] path_okD(4) [OF q(1)]] by simp
qed

text \<open>\<open>rufs_create\<close> makes the file: when the parent is a directory without that name, the name
  fits, an inode number is free and a slot of the directory's blocks is free, the call returns 0;
  then the path has the attributes of a new regular file of the calling user, every path that named
  an inode before still names it, and the attributes of all of them but the parent are the same.\<close>

theorem create_makes_file:
  assumes "fs_reach s" "path_ok p" "tokens p \<noteq> []" "node_at_path s (dir_name p) = Some n" "is_dir s n"
    and "lookup s n (base_name p) = None" "length (base_name p) \<le> 208" "i < 1024" "\<not> ino_used s i"
    and "\<not> all_live s (inode_at s n)"
  shows "\<exists>s'. rufs_create s p mode = (0, s') \<and>
    rufs_getattr s' p = (0, Some \<lparr>st_nlink = 1, st_mode = S_IFREG OR mode, st_uid = fs_uid s, st_gid = fs_gid s,
      st_size = 0, st_atime = fs_time s, st_mtime = fs_time s\<rparr>) \<and>
    (\<forall>q m. path_ok q \<and> node_at_path s q = Some m \<longrightarrow>
       node_at_path s' q = Some m \<and> (m \<noteq> n \<longrightarrow> rufs_getattr s' q = rufs_getattr s q))"
proof -
  note inv = fs_reach_inv [OF assms(1)] and P = path_okD [OF assms(2)]
  note n = node_at_path_valid [OF assms(4)]
  from inv P(7,6) show ?thesis
  proof (cases rule: rufs_create_spec [where mode = mode])
    case (ok k j s')
    then have [simp]: "k = n" using assms(4) by simp
    note C = ok(6) [simplified]
    have path: "node_at_path s' p = Some j"
      by (rule created_new_path [OF C assms(6) ok(5) assms(4,5) P(5,2,1) assms(3)])
    have "rufs_getattr s' p = (0, Some (vstat (new_node s (int j) S_IFREG 1 mode)))"
      using rufs_getattr_spec [OF createdD(1) [OF C] P(4)] path createdD(6) [OF C] by simp
    then show ?thesis
      unfolding new_file_stat using ok(3) created_others [OF inv C assms(6) conjunct1 [OF n]] by blast
  qed (use assms in auto)
qed

theorem create_makes_file_witness:
  "\<exists>s s'. fs_reach s \<and> rufs_create s FILE_F 0x1A4 = (0, s') \<and> fst (rufs_getattr s' FILE_F) = 0"
proof -
  obtain s where s: "formatted s" "fs_reach s" by (rule demo_root)
  note F = formatted_root [OF s(1)]
  have "\<not> ino_used s 1" using s(1) by (simp add: formatted_def)
  then show ?thesis
    using create_makes_file [OF s(2) file_f(1), of 0 1 "0x1A4"] F s(2) by force
qed

text \<open>C8: On the tree of names the file system implements, \<open>rufs_create\<close> and \<open>rufs_mkdir\<close> are one
  map update: the name leads to a number that was free, in the directory the path names, and every
  other name in every directory leads where it led before.\<close>

definition tree :: "fs \<Rightarrow> nat \<Rightarrow> cstr \<Rightarrow> nat option" where
  "tree s n name = (if n < 1024 \<and> name_ok name then lookup s n name else None)"

lemma created_tree:
  assumes "created s s' n name i node" "n < 1024" "name_ok name"
  shows "tree s' = (tree s)(n := (tree s n)(name \<mapsto> i))"
  using createdD(13) [OF assms(1)] assms(2,3) by (auto simp: tree_def fun_eq_iff)

theorem create_refines_insert:
  assumes "fs_reach s" "path_ok p"
    and "rufs_create s p mode = (0, s') \<or> rufs_mkdir s p mode = (0, s')"
  shows "\<exists>n i. node_at_path s (dir_name p) = Some n \<and> is_dir s n \<and> tree s n (base_name p) = None \<and>
    \<not> ino_used s i \<and> ino_used s' i \<and> tree s' = (tree s)(n := (tree s n)(base_name p \<mapsto> i))"
proof -
  note inv = fs_reach_inv [OF assms(1)] and P = path_okD [OF assms(2)]
  have "\<exists>n i node. node_at_path s (dir_name p) = Some n \<and> is_dir s n \<and> lookup s n (base_name p) = None \<and>
      name_ok (base_name p) \<and> created s s' n (base_name p) i node"
    using assms(3)
  proof
    assume r: "rufs_create s p mode = (0, s')"
    from inv P(7,6) show ?thesis
      by (cases rule: rufs_create_spec [where mode = mode]) (use r in \<open>auto simp: errno_defs\<close>)
  next
    assume r: "rufs_mkdir s p mode = (0, s')"
    from inv P(7,6) show ?thesis
      by (cases rule: rufs_mkdir_spec [where mode = mode]) (use r in \<open>auto simp: errno_defs\<close>)
  qed
  then obtain n i node where C: "node_at_path s (dir_name p) = Some n" "is_dir s n" "lookup s n (base_name p) = None"
    "name_ok (base_name p)" "created s s' n (base_name p) i node" by blast
  have "n < 1024" using node_at_path_valid [OF C(1)] by simp
  then show ?thesis
    using C createdD(4,14) [OF C(5)] created_tree [OF C(5) _ C(4)]
    by (intro exI [of _ n] exI [of _ i]) (simp add: tree_def)
qed

theorem create_refines_insert_witness:
  "\<exists>s s' i. rufs_create s FILE_F 0x1A4 = (0, s') \<and> tree s 0 [102] = None \<and> tree s' = (tree s)(0 := (tree s 0)([102] \<mapsto> i))"
proof -
  obtain s where s: "formatted s" "fs_reach s" by (rule demo_root)
  obtain i s' where C: "rufs_create s FILE_F 0x1A4 = (0, s')" by (rule create_f [OF s(1)])
  obtain n i where N: "node_at_path s (dir_name FILE_F) = Some n" "tree s n (base_name FILE_F) = None"
    "tree s' = (tree s)(n := (tree s n)(base_name FILE_F \<mapsto> i))"
    using create_refines_insert [OF s(2) file_f(1) disjI1 [OF C]] by blast
  have "n = 0" using N(1) formatted_root(6) [OF s(1)] by simp
  then show ?thesis using C N(2,3) by auto
qed

text \<open>C34: A directory that \<open>rufs_mkdir\<close> has made is an empty directory: it opens, lists only
  \<open>.\<close> and \<open>..\<close>, no name resolves in it, and its attributes are those of a new directory of the
  calling user. Every path that named an inode before still names it.\<close>

theorem mkdir_makes_empty_directory:
  assumes "fs_reach s" "path_ok p" "tokens p \<noteq> []" "mode AND S_IFMT = 0" "rufs_mkdir s p mode = (0, s')"
  shows "rufs_opendir s' p = 0 \<and> rufs_readdir s' p = Some (0, [[DOT], [DOT, DOT]]) \<and>
    rufs_getattr s' p = (0, Some \<lparr>st_nlink = 2, st_mode = S_IFDIR OR mode, st_uid = fs_uid s, st_gid = fs_gid s,
      st_size = 0, st_atime = fs_time s, st_mtime = fs_time s\<rparr>) \<and>
    (\<exists>i. node_at_path s' p = Some i \<and> (\<forall>name. lookup s' i name = None)) \<and>
    (\<forall>q m. path_ok q \<and> node_at_path s q = Some m \<longrightarrow> node_at_path s' q = Some m)"
proof -
  note inv = fs_reach_inv [OF assms(1)] and P = path_okD [OF assms(2)]
  from inv P(7,6) show ?thesis
  proof (cases rule: rufs_mkdir_spec [where mode = mode])
    case (ok n i s2 node j)
    have C: "created s s' n (base_name p) i node" using ok(3,7) assms(5) by simp
    note D = createdD [OF C]
    have path: "node_at_path s' p = Some i"
      by (rule created_new_path [OF C ok(4,5,1,2) P(5,2,1) assms(3)])
    have "S_IFDIR AND S_IFMT = S_IFDIR" by (simp add: S_IFDIR_def S_IFMT_def)
    then have "(S_IFDIR OR mode) AND S_IFMT = S_IFDIR" by (simp add: bit.conj_disj_distrib2 assms(4))
    then have dir: "is_dir s' i" by (simp add: is_dir_def D(6) ok(6) S_ISDIR_def)
    have stat: "vstat node = \<lparr>st_nlink = 2, st_mode = S_IFDIR OR mode, st_uid = fs_uid s, st_gid = fs_gid s,
        st_size = 0, st_atime = fs_time s, st_mtime = fs_time s\<rparr>"
      by (simp add: ok(6) new_node_def zero_stat_def)
    have empty: "dents s' (inode_at s' i) = Map.empty" by (simp add: D(6,8))
    then have "live_from s' (inode_at s' i) 0 = []" by (simp add: live_from_def)
    then have "rufs_readdir s' p = Some (0, [[DOT], [DOT, DOT]])"
      using rufs_readdir_spec [OF D(1) P(4) path dir] by (simp add: names_of_def)
    moreover have "rufs_opendir s' p = 0" using rufs_opendir_spec [OF D(1) P(4)] path dir by simp
    moreover have "rufs_getattr s' p = (0, Some (vstat node))"
      using rufs_getattr_spec [OF D(1) P(4)] path D(6) by simp
    moreover have "node_at_path s q = Some m \<Longrightarrow> path_ok q \<Longrightarrow> node_at_path s' q = Some m" for q m
      using created_paths [OF C ok(4)] node_at_path_valid [OF ok(1)] path_okD(3) by blast
    ultimately show ?thesis using path lookup_no_dents [OF empty] unfolding stat by blast
  qed (use assms(5) in \<open>auto simp: errno_defs\<close>)
qed

lemma mkdir_f:
  assumes "formatted s"
  obtains s' where "rufs_mkdir s FILE_F 0x1ED = (0, s')"
proof -
  note F = formatted_root [OF assms]
  have inv: "fs_inv s" and free: "\<not> ino_used s 1" and bu: "\<And>b. blk_used s b \<longleftrightarrow> b = 0"
    using assms by (simp_all add: formatted_def)
  from inv path_okD(7,6) [OF file_f(1)] show thesis
  proof (cases rule: rufs_mkdir_spec [where mode = "0x1ED"])
    case (no_block n i s2)
    obtain j where "\<forall>b. blk_used s2 b \<longrightarrow> b = j \<or> b = 0" using reservedD(15) [OF no_block(4)] bu by auto
    then have "\<not> blk_used s2 (if j = 1 then 2 else 1)" "(if j = 1 then 2 else 1) < (16384 :: nat)" by auto
    then show thesis using no_block(7) by blast
  qed (use F free that in \<open>auto\<close>)
qed

theorem mkdir_makes_empty_directory_witness:
  "\<exists>s s'. rufs_mkdir s FILE_F 0x1ED = (0, s') \<and> rufs_readdir s' FILE_F = Some (0, [[DOT], [DOT, DOT]])"
proof -
  obtain s where s: "formatted s" "fs_reach s" by (rule demo_root)
  obtain s' where M: "rufs_mkdir s FILE_F 0x1ED = (0, s')" by (rule mkdir_f [OF s(1)])
  have "(0x1ED :: u32) AND S_IFMT = 0" by (simp add: S_IFMT_def)
  then show ?thesis using mkdir_makes_empty_directory [OF s(2) file_f(1) _ _ M] M by auto
qed

text \<open>Creating a file under a name that exists fails with \<open>-EIO\<close> and leaves the tree as it was,
  but the inode number reserved before the name was checked is never given back: the count of used
  inodes grows by one with every such call.\<close>

theorem create_existing_leaks:
  assumes "fs_reach s" "path_ok p" "node_at_path s (dir_name p) = Some n" "is_dir s n"
    and "lookup s n (base_name p) = Some m" "i < 1024" "\<not> ino_used s i"
  shows "\<exists>s'. rufs_create s p mode = (- EIO, s') \<and> count_used_inodes s' = count_used_inodes s + 1 \<and>
    (\<forall>k < 1024. inode_at s' k = inode_at s k) \<and> (\<forall>k < 1024. \<forall>x. lookup s' k x = lookup s k x)"
proof -
  note inv = fs_reach_inv [OF assms(1)] and P = path_okD [OF assms(2)]
  from inv P(7,6) show ?thesis
  proof (cases rule: rufs_create_spec [where mode = mode])
    case (no_entry k j s2)
    have L: "fs_inv s2" "j < 1024" "\<not> ino_used s j" "nodes_same s s2 1024" "\<And>i. ino_used s2 i \<longleftrightarrow> i = j \<or> ino_used s i"
      using no_entry(4) by (simp_all add: leaked_def)
    have "{i. i < 1024 \<and> ino_used s2 i} = insert j {i. i < 1024 \<and> ino_used s i}" using L(2,5) by auto
    then have "card {i. i < 1024 \<and> ino_used s2 i} = Suc (card {i. i < 1024 \<and> ino_used s i})" using L(3) by simp
    then have "count_used_inodes s2 = count_used_inodes s + 1"
      using count_used_spec(1) [OF fs_invD(1) [OF inv]] count_used_spec(1) [OF fs_invD(1) [OF L(1)]] by simp
    moreover have "inode_at s2 k = inode_at s k" "lookup s2 k x = lookup s k x" if "k < 1024" for k x
      using nodes_sameD(1) [OF L(4) that] nodes_same_lookup [OF L(4) that] that by simp_all
    ultimately show ?thesis using no_entry(3) by blast
  qed (use assms in auto)
qed

theorem create_existing_leaks_witness:
  "\<exists>s s'. rufs_create s FILE_F 0x1A4 = (- EIO, s') \<and> count_used_inodes s' = count_used_inodes s + 1"
proof -
  obtain s i where S: "fs_reach s" "node_at_path s [SLASH] = Some 0" "is_dir s 0" "lookup s 0 [102] = Some i"
    "\<And>j. ino_used s j \<longleftrightarrow> j = i \<or> j = 0" by (rule demo_file, rule that) (assumption+)
  have "\<not> ino_used s (if i = 1 then 2 else 1)" "(if i = 1 then 2 else 1) < (1024 :: nat)" by (simp_all add: S(5))
  then show ?thesis
    using create_existing_leaks [OF S(1) file_f(1) _ S(3), of i "if i = 1 then 2 else 1" "0x1A4"] S(2,4)
    unfolding file_f by blast
qed

section \<open>Names and paths\<close>

text \<open>C33: \<open>get_node_by_path\<close> implements the resolution of a path on the tree of names: it answers
  the inode the path leads to, and fails exactly when the path leads nowhere; and a path leads where
  its last name (\<open>basename\<close>) leads in the directory that the rest (\<open>dirname\<close>) leads to.\<close>

theorem path_resolution:
  assumes "fs_reach s" "path_ok p"
  shows "get_node_by_path s p 0 =
      (case node_at_path s p of Some m \<Rightarrow> (0, Some (inode_at s m)) | None \<Rightarrow> (- 1, None)) \<and>
    (tokens p \<noteq> [] \<longrightarrow> node_at_path s p =
      (case node_at_path s (dir_name p) of
         None \<Rightarrow> None
       | Some n \<Rightarrow> if \<not> is_dir s n then None
                   else case lookup s n (base_name p) of
                          None \<Rightarrow> None
                        | Some m \<Rightarrow> if m < 1024 \<and> valid s m then Some m else None))"
proof -
  note P = path_okD [OF assms(2)]
  have "node_at_path s p = None" if "tokens p \<noteq> []" "node_at_path s (dir_name p) = None"
  proof -
    have "tokens p = tokens (dir_name p) @ [base_name p]"
      using split_last_name [OF P(2,1) that(1)] that(1) by simp
    then show ?thesis using that(2) by (simp add: node_at_path_def resolve_append split: if_splits)
  qed
  then show ?thesis
    using get_node_by_path_spec [OF fs_reach_inv [OF assms(1)] P(4)] node_at_path_last [OF P(2,1)]
    by (auto split: option.split)
qed

theorem path_resolution_witness:
  "\<exists>s i. fs_reach s \<and> lookup s 0 [102] = Some i \<and> get_node_by_path s FILE_F 0 = (0, Some (inode_at s i))"
proof -
  obtain s i where S: "fs_reach s" "node_at_path s FILE_F = Some i" "lookup s 0 [102] = Some i" by (rule demo_file)
  then show ?thesis using path_resolution [OF S(1) file_f(1)] by auto
qed

section \<open>Mounting\<close>

text \<open>C35: \<open>rufs_init\<close> on a disk that does not exist yet makes an empty file system: the root is a
  directory of the calling user that lists only \<open>.\<close> and \<open>..\<close>, no other path resolves, and one inode
  and one data block are in use, which is what \<open>rufs_destroy\<close> reports.\<close>

theorem rufs_init_formats:
  assumes "fresh_disk (dev s)"
  shows "\<exists>s'. rufs_init s = Some (0, s') \<and> fs_reach s' \<and>
    rufs_readdir s' [SLASH] = Some (0, [[DOT], [DOT, DOT]]) \<and>
    rufs_getattr s' [SLASH] = (0, Some \<lparr>st_nlink = 2, st_mode = S_IFDIR OR 0x1ED, st_uid = fs_uid s, st_gid = fs_gid s,
      st_size = 0, st_atime = fs_time s, st_mtime = fs_time s\<rparr>) \<and>
    (\<forall>p. path_ok p \<and> tokens p \<noteq> [] \<longrightarrow> node_at_path s' p = None) \<and>
    fst (rufs_destroy s') = 1 \<and> fst (snd (rufs_destroy s')) = 1"
proof -
  obtain s' where I: "rufs_init s = Some (0, s')" "formatted s'"
    "fs_time s' = fs_time s" "fs_uid s' = fs_uid s" "fs_gid s' = fs_gid s"
    by (rule rufs_init_fresh [OF assms])
  note F = formatted_root [OF I(2)]
  have inv: "fs_inv s'" and root: "inode_at s' 0 = root_inode s'" and io: "\<And>i. ino_used s' i \<longleftrightarrow> i = 0"
    and bu: "\<And>i. blk_used s' i \<longleftrightarrow> i = 0" using I(2) by (simp_all add: formatted_def)
  have short: "length [SLASH] < PATH_MAX" by (simp add: PATH_MAX_def)
  have "live_from s' (inode_at s' 0) 0 = []" using F(3) by (simp add: live_from_def)
  then have "rufs_readdir s' [SLASH] = Some (0, [[DOT], [DOT, DOT]])"
    using rufs_readdir_spec [OF inv short F(6,2)] by (simp add: names_of_def)
  moreover have "rufs_getattr s' [SLASH] = (0, Some (vstat (root_inode s')))"
    using rufs_getattr_spec [OF inv short] F(6) root by simp
  moreover have "vstat (root_inode s') = \<lparr>st_nlink = 2, st_mode = S_IFDIR OR 0x1ED, st_uid = fs_uid s,
      st_gid = fs_gid s, st_size = 0, st_atime = fs_time s, st_mtime = fs_time s\<rparr>"
    by (simp add: root_inode_def zero_stat_def I)
  moreover have "node_at_path s' p = None" if "path_ok p" "tokens p \<noteq> []" for p
    using F(1,2,4) that(2) by (cases "tokens p") (simp_all add: node_at_path_def)
  moreover have "{i. i < (16384 :: nat) \<and> i = 0} = {0}" "{i. i < (1024 :: nat) \<and> i = 0} = {0}" by auto
  then have "count_used_dblocks s' = 1" "count_used_inodes s' = 1"
    using count_used_spec [OF fs_invD(1) [OF inv]] by (simp_all add: io bu)
  then have "fst (rufs_destroy s') = 1" "fst (snd (rufs_destroy s')) = 1" by (simp_all add: rufs_destroy_def)
  ultimately show ?thesis using I(1) fs_reach.by_init [OF assms I(1)] by auto
qed

theorem rufs_init_formats_witness:
  "\<exists>s'. rufs_init new_fs = Some (0, s') \<and> fs_reach s' \<and> rufs_readdir s' [SLASH] = Some (0, [[DOT], [DOT, DOT]])"
  using rufs_init_formats [OF new_fs_fresh] by blast

text \<open>C36: The disk keeps the file system: a new process that opens the same disk file, whatever its
  superblock variable held, mounts it with the contents of every block, so every path has the
  attributes it had and every read of a regular file returns the bytes it returned.\<close>

theorem remount_keeps:
  assumes "fs_reach s" "host_exists (dev s)" "host_opens (dev s)"
  shows "\<exists>s'. rufs_init (restart s junk) = Some (0, s') \<and> fs_reach s' \<and> contents s' = contents s \<and>
    (\<forall>p. path_ok p \<longrightarrow> rufs_getattr s' p = rufs_getattr s p) \<and>
    (\<forall>p n k j. path_ok p \<and> node_at_path s p = Some n \<and> is_reg s n \<and> k < 2147483648 \<longrightarrow>
       rufs_read s' p k j = rufs_read s p k j)"
proof -
  have inv: "fs_inv s" by (rule fs_reach_inv [OF assms(1)])
  obtain s' where R: "rufs_init (restart s junk) = Some (0, s')" "fs_inv s'" "contents s' = contents s"
    by (rule rufs_init_restart [OF inv assms(2,3), of junk])
  have tab: "inode_at s' n = inode_at s n" for n by (simp add: inode_at_def R(3))
  have v: "valid s' n = valid s n" "is_dir s' n = is_dir s n" for n by (simp_all add: valid_def is_dir_def tab)
  have "dents s' d = dents s d" for d by (rule ext) (simp add: dents_def slot_def R(3))
  then have "lookup s' n x = lookup s n x" for n x
    using v lookup_dir_cong [of s' _ s] by (simp add: lookup_def tab)
  then have "resolve s' n ts = resolve s n ts" for n ts
    by (induction ts arbitrary: n) (simp_all add: v split: option.split)
  then have path: "node_at_path s' p = node_at_path s p" for p by (simp add: node_at_path_def v)
  have "rufs_getattr s' p = rufs_getattr s p" if "path_ok p" for p
    using rufs_getattr_spec [OF inv path_okD(4) [OF that]] rufs_getattr_spec [OF R(2) path_okD(4) [OF that]]
    by (simp add: path tab split: option.split)
  moreover have "rufs_read s' p k j = rufs_read s p k j"
    if "path_ok p" "node_at_path s p = Some n" "is_reg s n" "k < 2147483648" for p n k j
    by (rule rufs_read_cong [OF inv R(2) path_okD(4) [OF that(1)] that(4,2) _ that(3)])
      (use that in \<open>simp_all add: path tab fbyte_def R(3)\<close>)
  ultimately show ?thesis using R fs_reach.by_remount [OF assms R(1)] by blast
qed

theorem remount_keeps_witness:
  "\<exists>s s'. fs_reach s \<and> rufs_init (restart s std_sb) = Some (0, s') \<and> contents s' = contents s"
proof -
  obtain s where s: "fs_reach s" "host_ready (dev s)" by (rule demo_root)
  then show ?thesis using remount_keeps [OF s(1), of std_sb] unfolding host_ready_def by blast
qed

section \<open>Allocation and the inode table\<close>

text \<open>The allocators take the lowest free number: \<open>get_avail_ino\<close> and \<open>get_avail_blkno\<close> answer
  the first number whose bit is clear (the block as a disk block, counted from block 67), mark
  exactly that one, and answer -1 and change nothing when every bit is set.\<close>

theorem allocators_first_fit:
  assumes "fs_reach s"
  shows "(case get_avail_ino s of (r, s') \<Rightarrow>
      if \<exists>i < 1024. \<not> ino_used s i
      then \<exists>i < 1024. r = int i \<and> \<not> ino_used s i \<and> (\<forall>j < i. ino_used s j) \<and>
             (\<forall>j. ino_used s' j \<longleftrightarrow> j = i \<or> ino_used s j) \<and> (\<forall>b. b \<noteq> 1 \<longrightarrow> contents s' b = contents s b)
      else r = - 1 \<and> s' = s) \<and>
    (case get_avail_blkno s of (r, s') \<Rightarrow>
      if \<exists>i < 16384. \<not> blk_used s i
      then \<exists>i < 16384. r = int (67 + i) \<and> \<not> blk_used s i \<and> (\<forall>j < i. blk_used s j) \<and>
             (\<forall>j. blk_used s' j \<longleftrightarrow> j = i \<or> blk_used s j) \<and> (\<forall>b. b \<noteq> 2 \<longrightarrow> contents s' b = contents s b)
      else r = - 1 \<and> s' = s)"
proof
  have m: "mounted s" by (rule fs_invD(1) [OF fs_reach_inv [OF assms]])
  from m show "case get_avail_ino s of (r, s') \<Rightarrow>
      if \<exists>i < 1024. \<not> ino_used s i
      then \<exists>i < 1024. r = int i \<and> \<not> ino_used s i \<and> (\<forall>j < i. ino_used s j) \<and>
             (\<forall>j. ino_used s' j \<longleftrightarrow> j = i \<or> ino_used s j) \<and> (\<forall>b. b \<noteq> 1 \<longrightarrow> contents s' b = contents s b)
      else r = - 1 \<and> s' = s"
  proof (cases rule: get_avail_ino_spec)
    case (avail i s')
    have "ino_used s' j \<longleftrightarrow> j = i \<or> ino_used s j" for j by (simp add: ino_used_def avail(6) bitmap_simps)
    then show ?thesis using avail by auto
  qed simp
  from m show "case get_avail_blkno s of (r, s') \<Rightarrow>
      if \<exists>i < 16384. \<not> blk_used s i
      then \<exists>i < 16384. r = int (67 + i) \<and> \<not> blk_used s i \<and> (\<forall>j < i. blk_used s j) \<and>
             (\<forall>j. blk_used s' j \<longleftrightarrow> j = i \<or> blk_used s j) \<and> (\<forall>b. b \<noteq> 2 \<longrightarrow> contents s' b = contents s b)
      else r = - 1 \<and> s' = s"
  proof (cases rule: get_avail_blkno_spec)
    case (avail i s')
    have "blk_used s' j \<longleftrightarrow> j = i \<or> blk_used s j" for j by (simp add: blk_used_def avail(6) bitmap_simps)
    then show ?thesis using avail by auto
  qed simp
qed

theorem allocators_first_fit_witness:
  "\<exists>s s'. formatted s \<and> get_avail_ino s = (1, s') \<and> ino_used s' 1"
proof -
  obtain s where s: "formatted s" "fs_reach s" by (rule demo_root)
  have io: "ino_used s i \<longleftrightarrow> i = 0" for i using s(1) by (simp add: formatted_def)
  obtain r s' where G: "get_avail_ino s = (r, s')" by (rule prod.exhaust)
  have "\<exists>i < 1024. \<not> ino_used s i" by (intro exI [of _ 1]) (simp add: io)
  then obtain i where i: "r = int i" "i \<noteq> 0" "\<forall>j < i. j = 0" "ino_used s' i"
    using allocators_first_fit [OF s(2)] G by (auto simp: io)
  then have "i = 1" by (metis One_nat_def less_one linorder_neqE_nat zero_neq_one)
  then show ?thesis using i s(1) G by auto
qed

text \<open>The inode table stores inodes: after \<open>writei\<close> of an inode with its 16 and 8 pointers,
  \<open>readi\<close> of that number answers exactly that inode, and of any other number what it answered
  before; \<open>writei\<close> and \<open>readi\<close> refuse the numbers past the table.\<close>

theorem inode_table_roundtrip:
  assumes "fs_reach s" "inode_wf node"
  shows "(if unat ino < 1024
     then \<exists>s'. writei s ino node = (0, s') \<and>
            readi s' ino = (if i_valid node = 0 then - ENOENT else 0, Some node) \<and>
            (\<forall>j. j \<noteq> ino \<longrightarrow> readi s' j = readi s j)
     else writei s ino node = (- 1, s) \<and> readi s ino = (- ENOENT, None))"
proof (cases "unat ino < 1024")
  case True
  have m: "mounted s" by (rule fs_invD(1) [OF fs_reach_inv [OF assms(1)]])
  obtain s' where W: "writei s ino node = (0, s')" "mounted s'"
    "\<And>n. inode_at s' n = (if n = unat ino then node else inode_at s n)"
    by (rule writei_spec [OF m True assms(2)], rule that) (assumption+)
  have "readi s' j = readi s j" if "j \<noteq> ino" for j
  proof (cases "unat j < 1024")
    case True
    have "unat j \<noteq> unat ino" using that by (metis unsigned_word_eqI)
    then show ?thesis using readi_spec [OF W(2) True] readi_spec [OF m True] W(3) by simp
  next
    case False
    then show ?thesis using readi_out_of_range m W(2) by simp
  qed
  then show ?thesis using True W(1,3) readi_spec [OF W(2) True] by auto
next
  case False
  have m: "mounted s" by (rule fs_invD(1) [OF fs_reach_inv [OF assms(1)]])
  have "writei s ino node = (- 1, s)" using False m by (simp add: writei_def ino_bound)
  then show ?thesis using False readi_out_of_range [OF m False] by simp
qed

theorem inode_table_roundtrip_witness:
  "\<exists>s s'. fs_reach s \<and> writei s 5 zero_inode = (0, s') \<and> readi s' 5 = (- ENOENT, Some zero_inode)"
proof -
  obtain s where s: "fs_reach s" by (rule demo_root)
  have "inode_wf zero_inode" "unat (5 :: u16) < 1024" "i_valid zero_inode = 0"
    by (simp_all add: inode_wf_def zero_inode_def)
  then show ?thesis using inode_table_roundtrip [OF s, of zero_inode 5] s by auto
qed

end
