(* ===== verification/TH_Queue.thy ===== *)
theory TH_Queue
  imports Prelude
begin

text \<open>
  The FIFO queue of \<open>project2-release/datastructures.c\<close>: a singly linked list with a head and a
  tail pointer, on a store of nodes that \<open>malloc\<close> and \<open>free\<close> change. Address 0 is \<open>NULL\<close>; a
  \<open>Queue_t *\<close> that is \<open>NULL\<close> is \<open>None\<close>. The outer option is \<open>None\<close> where C leaves the behaviour
  undefined: a \<open>malloc\<close> that fails (its result is not checked) or a dangling pointer. The queue
  implements a list: the laws of the interface \<open>fifo\<close>.
\<close>

section \<open>Store\<close>

record 'a node =
  n_data :: 'a
  n_next :: nat

text \<open>\<open>brk\<close> is the next address \<open>malloc\<close> hands out, \<open>oom\<close> whether it fails.\<close>

record 'a store =
  cells :: "nat \<rightharpoonup> 'a node"
  brk :: nat
  oom :: bool

record queue =
  q_head :: nat
  q_tail :: nat

section \<open>Operations\<close>

definition init_queue :: "queue option \<Rightarrow> queue option" where
  "init_queue queue = (case queue of None \<Rightarrow> None | Some q \<Rightarrow> Some \<lparr>q_head = 0, q_tail = 0\<rparr>)"

definition enqueue :: "'a store \<Rightarrow> queue option \<Rightarrow> 'a \<Rightarrow> ('a store \<times> queue option) option" where
  "enqueue st queue data =
     (case queue of
        None \<Rightarrow> Some (st, None)
      | Some q \<Rightarrow>
          if oom st then None
          else let node = brk st;
                   c1 = (cells st)(node \<mapsto> \<lparr>n_data = data, n_next = 0\<rparr>);
                   q1 = (if q_tail q \<noteq> 0 then q else q\<lparr>q_head := node\<rparr>)
               in do { c2 \<leftarrow> (if q_tail q \<noteq> 0
                              then do { t \<leftarrow> c1 (q_tail q); Some (c1(q_tail q \<mapsto> t\<lparr>n_next := node\<rparr>)) }
                              else Some c1);
                       Some (st\<lparr>cells := c2, brk := node + 1\<rparr>, Some (q1\<lparr>q_tail := node\<rparr>)) })"

definition dequeue :: "'a store \<Rightarrow> queue option \<Rightarrow> ('a option \<times> 'a store \<times> queue option) option" where
  "dequeue st queue =
     (case queue of
        None \<Rightarrow> Some (None, st, None)
      | Some q \<Rightarrow>
          if q_head q = 0 then Some (None, st, queue)
          else do { n \<leftarrow> cells st (q_head q);
                    let q1 = q\<lparr>q_head := n_next n\<rparr>;
                    let q2 = (if q_head q1 = 0 then q1\<lparr>q_tail := 0\<rparr> else q1);
                    Some (Some (n_data n), st\<lparr>cells := (cells st)(q_head q := None)\<rparr>, Some q2) })"

definition is_empty_queue :: "queue option \<Rightarrow> bool" where
  "is_empty_queue queue = (case queue of None \<Rightarrow> True | Some q \<Rightarrow> q_head q = 0)"

section \<open>The list a queue holds\<close>

text \<open>The nodes \<open>as\<close> lead from \<open>p\<close> to \<open>NULL\<close> and carry \<open>xs\<close>.\<close>

fun path :: "(nat \<rightharpoonup> 'a node) \<Rightarrow> nat \<Rightarrow> nat list \<Rightarrow> 'a list \<Rightarrow> bool" where
  "path c p [] [] \<longleftrightarrow> p = 0"
| "path c p (a # as) (x # xs) \<longleftrightarrow>
     p = a \<and> a \<noteq> 0 \<and> (\<exists>n. c a = Some n \<and> n_data n = x \<and> path c (n_next n) as xs)"
| "path c p _ _ \<longleftrightarrow> False"

text \<open>\<open>A\<close> is the set of nodes of the queue.\<close>

definition queue_rep :: "'a store \<Rightarrow> queue \<Rightarrow> nat set \<Rightarrow> 'a list \<Rightarrow> bool" where
  "queue_rep st q A xs \<longleftrightarrow> 0 < brk st \<and> (\<exists>as. path (cells st) (q_head q) as xs \<and> distinct as \<and> set as = A \<and>
     (\<forall>a \<in> A. a < brk st) \<and> q_tail q = (if as = [] then 0 else last as))"

lemma path_Nil_iff [simp]: "path c p [] xs \<longleftrightarrow> p = 0 \<and> xs = []"
  by (cases xs) auto

lemma path_list_Nil [simp]: "path c p as [] \<longleftrightarrow> p = 0 \<and> as = []"
  by (cases as) auto

lemma path_0 [simp]: "path c 0 as xs \<longleftrightarrow> as = [] \<and> xs = []"
  by (cases "(c, 0 :: nat, as, xs)" rule: path.cases) auto

lemma path_nonzero: "path c p as xs \<Longrightarrow> 0 \<notin> set as"
  by (induction c p as xs rule: path.induct) auto

lemma path_cong: "path c p as xs \<Longrightarrow> (\<And>a. a \<in> set as \<Longrightarrow> c' a = c a) \<Longrightarrow> path c' p as xs"
  by (induction c p as xs rule: path.induct) auto

lemma path_snoc:
  assumes "path c p as xs" "as \<noteq> []" "new \<notin> set as" "new \<noteq> 0" "distinct as"
  shows "\<exists>t. c (last as) = Some t \<and>
    path (c(new \<mapsto> \<lparr>n_data = x, n_next = 0\<rparr>, last as \<mapsto> t\<lparr>n_next := new\<rparr>)) p (as @ [new]) (xs @ [x])"
  using assms
proof (induction c p as xs rule: path.induct)
  case (2 c p a as y xs)
  then obtain n where n: "p = a" "a \<noteq> 0" "c a = Some n" "n_data n = y" "path c (n_next n) as xs" by auto
  show ?case
  proof (cases as)
    case Nil
    then show ?thesis using 2 n by auto
  next
    case (Cons b bs)
    then have "as \<noteq> []" "new \<notin> set as" "distinct as" using "2.prems" by auto
    then obtain t where t: "c (last as) = Some t"
      "path (c(new \<mapsto> \<lparr>n_data = x, n_next = 0\<rparr>, last as \<mapsto> t\<lparr>n_next := new\<rparr>)) (n_next n) (as @ [new]) (xs @ [x])"
      using "2.IH" [OF n(5)] "2.prems"(4) by blast
    have "a \<noteq> last as" using \<open>as \<noteq> []\<close> "2.prems"(5) last_in_set by fastforce
    then have a: "(c(new \<mapsto> \<lparr>n_data = x, n_next = 0\<rparr>, last as \<mapsto> t\<lparr>n_next := new\<rparr>)) a = Some n"
      using n(3) "2.prems"(3) by simp
    have l: "last (a # as) = last as" using \<open>as \<noteq> []\<close> by simp
    show ?thesis
      unfolding l append_Cons path.simps using t a n(1,2,4) by blast
  qed
qed auto

lemma queue_rep_init: "0 < brk st \<Longrightarrow> queue_rep st (the (init_queue (Some q))) {} []"
  by (simp add: queue_rep_def init_queue_def)

lemma queue_rep_enqueue:
  assumes rep: "queue_rep st q A xs" and mem: "\<not> oom st"
  obtains st' q' where "enqueue st (Some q) x = Some (st', Some q')" "queue_rep st' q' (insert (brk st) A) (xs @ [x])"
    "oom st' = oom st" "brk st' = Suc (brk st)" "\<And>a. a \<notin> A \<Longrightarrow> a \<noteq> brk st \<Longrightarrow> cells st' a = cells st a"
proof -
  obtain as where as: "0 < brk st" "path (cells st) (q_head q) as xs" "distinct as" "set as = A"
    "\<forall>a \<in> A. a < brk st" "q_tail q = (if as = [] then 0 else last as)"
    using rep unfolding queue_rep_def by blast
  have fresh: "brk st \<notin> set as" using as(4,5) by auto
  show thesis
  proof (cases "as = []")
    case True
    then show thesis
      using as mem
      by (intro that [of "st\<lparr>cells := (cells st)(brk st \<mapsto> \<lparr>n_data = x, n_next = 0\<rparr>), brk := brk st + 1\<rparr>"
            "\<lparr>q_head = brk st, q_tail = brk st\<rparr>"])
        (auto simp: enqueue_def queue_rep_def Let_def intro!: exI [of _ "[brk st]"])
  next
    case False
    let ?c = "(cells st)(brk st \<mapsto> \<lparr>n_data = x, n_next = 0\<rparr>)"
    obtain t where t: "cells st (last as) = Some t"
      "path (?c(last as \<mapsto> t\<lparr>n_next := brk st\<rparr>)) (q_head q) (as @ [brk st]) (xs @ [x])"
      using path_snoc [OF as(2) False fresh _ as(3), of x] as(1) by auto
    have last: "last as \<in> A" "last as \<noteq> 0" "last as \<noteq> brk st"
      using False as(4) path_nonzero [OF as(2)] fresh last_in_set [OF False] by metis+
    show thesis
      using False as mem t last fresh
      by (intro that [of "st\<lparr>cells := ?c(last as \<mapsto> t\<lparr>n_next := brk st\<rparr>), brk := brk st + 1\<rparr>" "q\<lparr>q_tail := brk st\<rparr>"])
        (auto simp: enqueue_def queue_rep_def Let_def intro!: exI [of _ "as @ [brk st]"])
  qed
qed

lemma queue_rep_dequeue:
  assumes rep: "queue_rep st q A (x # xs)"
  obtains st' q' B where "dequeue st (Some q) = Some (Some x, st', Some q')" "queue_rep st' q' B xs" "B \<subseteq> A"
    "oom st' = oom st" "brk st' = brk st" "\<And>a. a \<notin> A \<Longrightarrow> cells st' a = cells st a"
proof -
  obtain as where as: "0 < brk st" "path (cells st) (q_head q) as (x # xs)" "distinct as" "set as = A"
    "\<forall>a \<in> A. a < brk st" "q_tail q = (if as = [] then 0 else last as)"
    using rep unfolding queue_rep_def by blast
  obtain b bs where b: "as = b # bs" using as(2) by (cases as) auto
  obtain n where n: "q_head q = b" "b \<noteq> 0" "cells st b = Some n" "n_data n = x" "path (cells st) (n_next n) bs xs"
    using as(2) by (auto simp: b)
  have rest: "path ((cells st)(b := None)) (n_next n) bs xs"
    using as(3) by (intro path_cong [OF n(5)]) (auto simp: b)
  have ne: "bs = [] \<longleftrightarrow> n_next n = 0" using n(5) by (cases bs) (auto, cases xs, auto)
  show thesis
    using as n rest ne
    by (intro that [of "st\<lparr>cells := (cells st)(b := None)\<rparr>" "\<lparr>q_head = n_next n, q_tail = if bs = [] then 0 else last bs\<rparr>" "set bs"])
      (auto simp: dequeue_def queue_rep_def b intro!: exI [of _ bs])
qed

lemma path_frame:
  assumes "queue_rep st q B ys" "\<And>a. a \<in> B \<Longrightarrow> cells st' a = cells st a" "brk st \<le> brk st'"
  shows "queue_rep st' q B ys"
proof -
  obtain as where as: "0 < brk st" "path (cells st) (q_head q) as ys" "distinct as" "set as = B"
    "\<forall>a \<in> B. a < brk st" "q_tail q = (if as = [] then 0 else last as)"
    using assms(1) unfolding queue_rep_def by blast
  have "path (cells st') (q_head q) as ys"
    by (rule path_cong [OF as(2)]) (simp add: assms(2) as(4))
  moreover have "\<forall>a \<in> B. a < brk st'" using as(5) assms(3) by auto
  moreover have "0 < brk st'" using as(1) assms(3) by simp
  ultimately show ?thesis unfolding queue_rep_def using as(3,4,6) by blast
qed

lemma is_empty_queue_rep:
  assumes "queue_rep st q A xs"
  shows "is_empty_queue (Some q) \<longleftrightarrow> xs = []"
proof -
  obtain as where "path (cells st) (q_head q) as xs" using assms unfolding queue_rep_def by blast
  then have "q_head q = 0 \<longleftrightarrow> xs = []" by (cases as; cases xs) simp_all
  then show ?thesis by (simp add: is_empty_queue_def)
qed

lemma dequeue_empty: "queue_rep st q A [] \<Longrightarrow> dequeue st (Some q) = Some (None, st, Some q)"
  by (auto simp: queue_rep_def dequeue_def)

section \<open>The contract of a queue\<close>

text \<open>Several queues live in one store; \<open>A\<close> and \<open>B\<close> are the nodes they own.\<close>

fun enq_all :: "('s \<Rightarrow> 'q \<Rightarrow> 'a \<Rightarrow> ('s \<times> 'q) option) \<Rightarrow> 's \<Rightarrow> 'q \<Rightarrow> 'a list \<Rightarrow> ('s \<times> 'q) option" where
  "enq_all enq s q [] = Some (s, q)"
| "enq_all enq s q (x # xs) = do { (s', q') \<leftarrow> enq s q x; enq_all enq s' q' xs }"

fun deq_all :: "('s \<Rightarrow> 'q \<Rightarrow> ('a option \<times> 's \<times> 'q) option) \<Rightarrow> 's \<Rightarrow> 'q \<Rightarrow> nat \<Rightarrow> ('a option list \<times> 's \<times> 'q) option" where
  "deq_all deq s q 0 = Some ([], s, q)"
| "deq_all deq s q (Suc n) = do { (x, s', q') \<leftarrow> deq s q; (xs, r) \<leftarrow> deq_all deq s' q' n; Some (x # xs, r) }"

locale fifo =
  fixes rep :: "'s \<Rightarrow> 'q \<Rightarrow> 'm set \<Rightarrow> 'a list \<Rightarrow> bool"
    and mem :: "'s \<Rightarrow> bool"
    and enq :: "'s \<Rightarrow> 'q \<Rightarrow> 'a \<Rightarrow> ('s \<times> 'q) option"
    and deq :: "'s \<Rightarrow> 'q \<Rightarrow> ('a option \<times> 's \<times> 'q) option"
  assumes enq_law: "rep s q A xs \<Longrightarrow> mem s \<Longrightarrow> rep s p B ys \<Longrightarrow> A \<inter> B = {} \<Longrightarrow>
      \<exists>s' q' A'. enq s q x = Some (s', q') \<and> rep s' q' A' (xs @ [x]) \<and> mem s' \<and> rep s' p B ys \<and> A' \<inter> B = {}"
    and deq_law: "rep s q A (x # xs) \<Longrightarrow> rep s p B ys \<Longrightarrow> A \<inter> B = {} \<Longrightarrow>
      \<exists>s' q' A'. deq s q = Some (Some x, s', q') \<and> rep s' q' A' xs \<and> rep s' p B ys \<and> A' \<inter> B = {}"
    and deq_empty: "rep s q A [] \<Longrightarrow> deq s q = Some (None, s, q)"
begin

lemma enq_all_law:
  "rep s q A xs \<Longrightarrow> mem s \<Longrightarrow> rep s p B ys \<Longrightarrow> A \<inter> B = {} \<Longrightarrow>
     \<exists>s' q' A'. enq_all enq s q zs = Some (s', q') \<and> rep s' q' A' (xs @ zs) \<and> rep s' p B ys \<and> A' \<inter> B = {}"
proof (induction zs arbitrary: s q A xs)
  case Nil
  then show ?case by auto
next
  case (Cons z zs)
  obtain s1 q1 A1 where 1: "enq s q z = Some (s1, q1)" "rep s1 q1 A1 (xs @ [z])" "mem s1" "rep s1 p B ys" "A1 \<inter> B = {}"
    using enq_law [OF Cons.prems] by blast
  then show ?case using Cons.IH [OF 1(2-5)] by simp
qed

lemma deq_all_law:
  "rep s q A xs \<Longrightarrow> rep s p B ys \<Longrightarrow> A \<inter> B = {} \<Longrightarrow>
     \<exists>s' q' A'. deq_all deq s q (length xs) = Some (map Some xs, s', q') \<and> rep s' q' A' [] \<and> rep s' p B ys"
proof (induction xs arbitrary: s q A)
  case Nil
  then show ?case by auto
next
  case (Cons x xs)
  obtain s1 q1 A1 where 1: "deq s q = Some (Some x, s1, q1)" "rep s1 q1 A1 xs" "rep s1 p B ys" "A1 \<inter> B = {}"
    using deq_law [OF Cons.prems] by blast
  obtain s2 q2 A2 where "deq_all deq s1 q1 (length xs) = Some (map Some xs, s2, q2)" "rep s2 q2 A2 []" "rep s2 p B ys"
    using Cons.IH [OF 1(2-4)] by blast
  then show ?case using 1(1) by auto
qed

text \<open>First in, first out, with the other queues of the store left alone.\<close>

lemma fifo_order:
  assumes "rep s q A xs" "mem s" "rep s p B ys" "A \<inter> B = {}"
  shows "\<exists>s1 q1 s2 q2. enq_all enq s q zs = Some (s1, q1) \<and>
    deq_all deq s1 q1 (length xs + length zs) = Some (map Some (xs @ zs), s2, q2) \<and>
    deq s2 q2 = Some (None, s2, q2) \<and> rep s2 p B ys"
proof -
  obtain s1 q1 A1 where 1: "enq_all enq s q zs = Some (s1, q1)" "rep s1 q1 A1 (xs @ zs)" "rep s1 p B ys" "A1 \<inter> B = {}"
    using enq_all_law [OF assms] by blast
  obtain s2 q2 A2 where "deq_all deq s1 q1 (length (xs @ zs)) = Some (map Some (xs @ zs), s2, q2)"
    "rep s2 q2 A2 []" "rep s2 p B ys"
    using deq_all_law [OF 1(2-4)] by blast
  moreover from this(2) have "deq s2 q2 = Some (None, s2, q2)" by (rule deq_empty)
  ultimately show ?thesis using 1(1) by auto
qed

end

definition opt_rep :: "'a store \<Rightarrow> queue option \<Rightarrow> nat set \<Rightarrow> 'a list \<Rightarrow> bool" where
  "opt_rep st queue A xs \<longleftrightarrow> (\<exists>q. queue = Some q \<and> queue_rep st q A xs)"

interpretation linked: fifo opt_rep "\<lambda>st. \<not> oom st" enqueue dequeue
proof unfold_locales
  fix s :: "'a store" and q p :: "queue option" and A B xs ys x
  assume a: "opt_rep s q A xs" "\<not> oom s" "opt_rep s p B ys" "A \<inter> B = {}"
  obtain q0 p0 where r: "q = Some q0" "queue_rep s q0 A xs" "p = Some p0" "queue_rep s p0 B ys"
    using a(1,3) by (auto simp: opt_rep_def)
  obtain st' q' where E: "enqueue s (Some q0) x = Some (st', Some q')" "queue_rep st' q' (insert (brk s) A) (xs @ [x])"
    "oom st' = oom s" "brk st' = Suc (brk s)" "\<And>a. a \<notin> A \<Longrightarrow> a \<noteq> brk s \<Longrightarrow> cells st' a = cells s a"
    by (rule queue_rep_enqueue [OF r(2) a(2), of x], rule that) (assumption+)
  have B: "\<forall>a \<in> B. a < brk s" using r(4) by (auto simp: queue_rep_def)
  have "queue_rep st' p0 B ys"
    using a(4) B E(4,5) by (intro path_frame [OF r(4)]) auto
  then show "\<exists>s' q' A'. enqueue s q x = Some (s', q') \<and> opt_rep s' q' A' (xs @ [x]) \<and> \<not> oom s' \<and>
      opt_rep s' p B ys \<and> A' \<inter> B = {}"
    using E(1-3) a(2,4) B r(1,3)
    by (intro exI [of _ st'] exI [of _ "Some q'"] exI [of _ "insert (brk s) A"]) (auto simp: opt_rep_def)
next
  fix s :: "'a store" and q p :: "queue option" and A B x xs ys
  assume a: "opt_rep s q A (x # xs)" "opt_rep s p B ys" "A \<inter> B = {}"
  obtain q0 p0 where r: "q = Some q0" "queue_rep s q0 A (x # xs)" "p = Some p0" "queue_rep s p0 B ys"
    using a(1,2) by (auto simp: opt_rep_def)
  obtain st' q' C where E: "dequeue s (Some q0) = Some (Some x, st', Some q')" "queue_rep st' q' C xs" "C \<subseteq> A"
    "oom st' = oom s" "brk st' = brk s" "\<And>a. a \<notin> A \<Longrightarrow> cells st' a = cells s a"
    by (rule queue_rep_dequeue [OF r(2)], rule that) (assumption+)
  have "queue_rep st' p0 B ys"
    using a(3) E(5,6) by (intro path_frame [OF r(4)]) auto
  moreover have "C \<inter> B = {}" using E(3) a(3) by blast
  ultimately show "\<exists>s' q' A'. dequeue s q = Some (Some x, s', q') \<and> opt_rep s' q' A' xs \<and> opt_rep s' p B ys \<and> A' \<inter> B = {}"
    using E(1,2) r(1,3) unfolding opt_rep_def by blast
next
  fix s :: "'a store" and q :: "queue option" and A
  assume "opt_rep s q A []"
  then show "dequeue s q = Some (None, s, q)" using dequeue_empty by (auto simp: opt_rep_def)
qed

text \<open>
  A list with the two operations on its ends satisfies the same contract; the scheduler is modelled
  on it, that is on a linked queue whose \<open>malloc\<close> succeeds.
\<close>

definition put_last :: "'a list \<Rightarrow> 'a \<Rightarrow> 'a list" where
  "put_last q x = q @ [x]"

fun take_first :: "'a list \<Rightarrow> 'a option \<times> 'a list" where
  "take_first [] = (None, [])"
| "take_first (x # xs) = (Some x, xs)"

interpretation contents: fifo "\<lambda>_ q _ xs. q = xs" "\<lambda>_. True" "\<lambda>s q x. Some (s, put_last q x)"
    "\<lambda>s q. Some (case take_first q of (r, q') \<Rightarrow> (r, s, q'))"
  by unfold_locales (auto simp: put_last_def)

end
