(* ===== verification/TH_Heap.thy ===== *)
theory TH_Heap
  imports Prelude "HOL-Library.Multiset"
begin

text \<open>
  The array heap of \<open>project2-release/datastructures.c\<close>: 128 slots of \<open>tcb_t *\<close> (\<open>None\<close> is
  \<open>NULL\<close>), a size and a comparison. \<open>None\<close> as a result is a run C leaves undefined: an access
  outside the array or a comparison of a \<open>NULL\<close> pointer. For a comparison that agrees with a linear
  order, a push and a pop keep the heap order, change the multiset of elements by the element pushed
  or popped, and a pop returns a least element.
\<close>

section \<open>State and operations\<close>

definition MAX_THREADS :: nat where "MAX_THREADS = 128"

record 'a minheap =
  h_threads :: "'a option list"
  h_size :: int

definition init_heap :: "'a minheap option \<Rightarrow> 'a minheap option" where
  "init_heap heap = (case heap of None \<Rightarrow> None
     | Some h \<Rightarrow> Some \<lparr>h_threads = replicate MAX_THREADS None, h_size = 0\<rparr>)"

text \<open>
  \<open>cmp(threads[a], threads[b]) < 0\<close>. The comparison reads the two thread blocks: its result is
  \<open>None\<close> where one of them has been freed.
\<close>

definition less_at :: "('a \<Rightarrow> 'a \<Rightarrow> int option) \<Rightarrow> 'a option list \<Rightarrow> nat \<Rightarrow> nat \<Rightarrow> bool option" where
  "less_at cmp xs a b = do { x \<leftarrow> xs ! a; y \<leftarrow> xs ! b; c \<leftarrow> cmp x y; Some (c < 0) }"

definition swap :: "'a list \<Rightarrow> nat \<Rightarrow> nat \<Rightarrow> 'a list" where
  "swap xs a b = xs[a := xs ! b, b := xs ! a]"

function sift_up :: "('a \<Rightarrow> 'a \<Rightarrow> int option) \<Rightarrow> 'a option list \<Rightarrow> nat \<Rightarrow> 'a option list option" where
  "sift_up cmp xs i =
     (if 0 < i
      then let parent = (i - 1) div 2
           in case less_at cmp xs i parent of
                None \<Rightarrow> None
              | Some l \<Rightarrow> if l then sift_up cmp (swap xs i parent) parent else Some xs
      else Some xs)"
  by pat_completeness auto
termination
  by (relation "measure (\<lambda>(cmp, xs, i). i)") auto

declare sift_up.simps [simp del]

definition heap_push :: "('a \<Rightarrow> 'a \<Rightarrow> int option) \<Rightarrow> 'a minheap \<Rightarrow> 'a \<Rightarrow> 'a minheap option" where
  "heap_push cmp heap thread =
     (let i = h_size heap
      in if i < 0 \<or> i \<ge> int MAX_THREADS then None
         else do { xs \<leftarrow> sift_up cmp ((h_threads heap)[nat i := Some thread]) (nat i);
                   Some \<lparr>h_threads = xs, h_size = i + 1\<rparr> })"

definition smallest :: "('a \<Rightarrow> 'a \<Rightarrow> int option) \<Rightarrow> 'a option list \<Rightarrow> nat \<Rightarrow> nat \<Rightarrow> nat option" where
  "smallest cmp xs n i =
     (let left = 2 * i + 1; right = 2 * i + 2
      in do { l \<leftarrow> (if left < n then less_at cmp xs left i else Some False);
              let s = (if l then left else i);
              r \<leftarrow> (if right < n then less_at cmp xs right s else Some False);
              Some (if r then right else s) })"

lemma smallest_cases: "smallest cmp xs n i = Some s \<Longrightarrow> s = i \<or> (i < s \<and> s < n)"
  by (auto simp: smallest_def Let_def split: Option.bind_splits if_splits)

function sift_down :: "('a \<Rightarrow> 'a \<Rightarrow> int option) \<Rightarrow> 'a option list \<Rightarrow> nat \<Rightarrow> nat \<Rightarrow> 'a option list option" where
  "sift_down cmp xs n i =
     (case smallest cmp xs n i of
        None \<Rightarrow> None
      | Some s \<Rightarrow> if s = i then Some xs else sift_down cmp (swap xs i s) n s)"
  by pat_completeness auto
termination
  by (relation "measure (\<lambda>(cmp, xs, n, i). n - i)") (auto dest: smallest_cases)

declare sift_down.simps [simp del]

definition heap_pop :: "('a \<Rightarrow> 'a \<Rightarrow> int option) \<Rightarrow> 'a minheap \<Rightarrow> ('a option \<times> 'a minheap) option" where
  "heap_pop cmp heap =
     (let min = h_threads heap ! 0;
          size = h_size heap - 1
      in if size < 0 \<or> size \<ge> int MAX_THREADS then None
         else do { xs \<leftarrow> sift_down cmp ((h_threads heap)[0 := h_threads heap ! nat size]) (nat size) 0;
                   Some (min, \<lparr>h_threads = xs, h_size = size\<rparr>) })"

definition is_empty_heap :: "'a minheap option \<Rightarrow> bool" where
  "is_empty_heap heap = (case heap of None \<Rightarrow> True | Some h \<Rightarrow> h_size h = 0)"

section \<open>The elements\<close>

text \<open>The array starts with the elements \<open>ys\<close>.\<close>

definition holds :: "'a option list \<Rightarrow> 'a list \<Rightarrow> bool" where
  "holds xs ys \<longleftrightarrow> length ys \<le> length xs \<and> (\<forall>k < length ys. xs ! k = Some (ys ! k))"

definition heap_rep :: "'a minheap \<Rightarrow> 'a list \<Rightarrow> bool" where
  "heap_rep h ys \<longleftrightarrow> length (h_threads h) = MAX_THREADS \<and> h_size h = int (length ys) \<and> holds (h_threads h) ys"

lemma length_swap [simp]: "length (swap xs a b) = length xs"
  by (simp add: swap_def)

lemma nth_swap: "a < length xs \<Longrightarrow> b < length xs \<Longrightarrow> k < length xs \<Longrightarrow>
    swap xs a b ! k = (if k = b then xs ! a else if k = a then xs ! b else xs ! k)"
  by (simp add: swap_def nth_list_update)

lemma mset_swap' [simp]: "a < length xs \<Longrightarrow> b < length xs \<Longrightarrow> mset (swap xs a b) = mset xs"
  unfolding swap_def by (rule mset_swap)

lemma holds_swap:
  assumes "holds xs ys" "a < length ys" "b < length ys"
  shows "holds (swap xs a b) (swap ys a b)"
  using assms by (auto simp: holds_def nth_swap)

lemma less_at_holds: "holds xs ys \<Longrightarrow> a < length ys \<Longrightarrow> b < length ys \<Longrightarrow>
    less_at cmp xs a b = map_option (\<lambda>c. c < 0) (cmp (ys ! a) (ys ! b))"
  by (cases "cmp (ys ! a) (ys ! b)") (simp_all add: holds_def less_at_def)

text \<open>Whatever the comparison, sifting only permutes the elements.\<close>

lemma sift_up_perm:
  assumes "sift_up cmp xs i = Some xs'" "holds xs ys" "i < length ys"
  shows "length xs' = length xs \<and> (\<exists>ys'. holds xs' ys' \<and> mset ys' = mset ys)"
  using assms
proof (induction cmp xs i arbitrary: ys rule: sift_up.induct)
  case (1 cmp xs i)
  let ?p = "(i - 1) div 2"
  show ?case
  proof (cases "0 < i \<and> less_at cmp xs i ?p = Some True")
    case True
    have p: "?p < length ys" using "1.prems"(3) by simp
    have "sift_up cmp (swap xs i ?p) ?p = Some xs'"
      using "1.prems"(1) True by (subst (asm) sift_up.simps) (simp add: Let_def)
    moreover have "holds (swap xs i ?p) (swap ys i ?p)" using holds_swap [OF "1.prems"(2,3) p] .
    ultimately have "length xs' = length (swap xs i ?p) \<and> (\<exists>ys'. holds xs' ys' \<and> mset ys' = mset (swap ys i ?p))"
      using True p by (intro "1.IH" [OF _ refl _ TrueI]) simp_all
    then show ?thesis using "1.prems"(3) p by simp
  next
    case False
    then have "xs' = xs"
      using "1.prems"(1) by (subst (asm) sift_up.simps) (auto simp: Let_def split: if_splits option.splits bool.splits)
    then show ?thesis using "1.prems"(2) by blast
  qed
qed

lemma sift_down_perm:
  assumes "sift_down cmp xs n i = Some xs'" "holds xs ys" "i < length ys \<or> n = 0" "n = length ys"
  shows "length xs' = length xs \<and> (\<exists>ys'. holds xs' ys' \<and> mset ys' = mset ys)"
  using assms
proof (induction cmp xs n i arbitrary: ys rule: sift_down.induct)
  case (1 cmp xs n i)
  obtain s where s: "smallest cmp xs n i = Some s"
    using "1.prems"(1) by (subst (asm) sift_down.simps) (auto split: option.splits)
  show ?case
  proof (cases "s = i")
    case True
    then have "xs' = xs" using "1.prems"(1) s by (subst (asm) sift_down.simps) simp
    then show ?thesis using "1.prems"(2) by blast
  next
    case False
    then have lt: "s < length ys" "i < length ys" using smallest_cases [OF s] "1.prems"(4) by auto
    have "sift_down cmp (swap xs i s) n s = Some xs'"
      using "1.prems"(1) s False by (subst (asm) sift_down.simps) simp
    moreover have "holds (swap xs i s) (swap ys i s)" using holds_swap [OF "1.prems"(2) lt(2,1)] .
    ultimately have "length xs' = length (swap xs i s) \<and> (\<exists>ys'. holds xs' ys' \<and> mset ys' = mset (swap ys i s))"
      using s False lt "1.prems"(4) by (intro "1.IH") simp_all
    then show ?thesis using lt by simp
  qed
qed

text \<open>What is left when the root is taken out: the last element moves to the root.\<close>

definition cut :: "'a list \<Rightarrow> 'a list" where
  "cut ys = butlast (ys[0 := last ys])"

lemma length_cut [simp]: "length (cut ys) = length ys - 1"
  by (simp add: cut_def)

lemma nth_cut: "k < length ys - 1 \<Longrightarrow> cut ys ! k = (if k = 0 then last ys else ys ! k)"
  by (cases ys) (auto simp: cut_def nth_butlast nth_list_update)

lemma mset_cut: "ys \<noteq> [] \<Longrightarrow> mset ys = add_mset (ys ! 0) (mset (cut ys))"
proof (cases ys rule: rev_cases)
  case (snoc zs z)
  then show ?thesis by (cases zs) (simp_all add: cut_def butlast_append)
qed simp

lemma holds_cut:
  assumes "holds xs ys" "ys \<noteq> []" "xs \<noteq> []"
  shows "holds (xs[0 := xs ! (length ys - 1)]) (cut ys)"
proof -
  have lst: "xs ! (length ys - 1) = Some (last ys)" using assms by (simp add: holds_def last_conv_nth)
  have "xs[0 := xs ! (length ys - 1)] ! k = Some (cut ys ! k)" if "k < length (cut ys)" for k
    using assms(1,3) lst that by (cases k) (auto simp: holds_def nth_cut)
  then show ?thesis using assms(1) by (auto simp: holds_def)
qed

lemma holds_snoc:
  assumes "holds xs ys" "length ys < length xs"
  shows "holds (xs[length ys := Some x]) (ys @ [x])"
  using assms by (auto simp: holds_def nth_append nth_list_update less_Suc_eq)

lemma heap_push_elems:
  assumes "heap_push cmp h x = Some h'" "heap_rep h ys"
  shows "\<exists>ys'. heap_rep h' ys' \<and> mset ys' = add_mset x (mset ys)"
proof -
  have rep: "length (h_threads h) = MAX_THREADS" "h_size h = int (length ys)" "holds (h_threads h) ys"
    using assms(2) by (auto simp: heap_rep_def)
  obtain xs where X: "length ys < MAX_THREADS" "sift_up cmp ((h_threads h)[length ys := Some x]) (length ys) = Some xs"
    "h' = \<lparr>h_threads = xs, h_size = int (length ys) + 1\<rparr>"
    using assms(1) rep(2) by (auto simp: heap_push_def Let_def split: Option.bind_splits if_splits)
  have hold: "holds ((h_threads h)[length ys := Some x]) (ys @ [x])"
    using rep X(1) by (intro holds_snoc) simp_all
  obtain ys' where Y: "holds xs ys'" "mset ys' = mset (ys @ [x])" "length xs = MAX_THREADS"
    using sift_up_perm [OF X(2) hold] rep(1) by auto
  then have "length ys' = Suc (length ys)" by (metis length_append_singleton size_mset)
  then show ?thesis using X(3) Y by (intro exI [of _ ys']) (simp add: heap_rep_def)
qed

lemma heap_pop_elems:
  assumes "heap_pop cmp h = Some (r, h')" "heap_rep h ys"
  shows "\<exists>y ys'. r = Some y \<and> heap_rep h' ys' \<and> mset ys = add_mset y (mset ys')"
proof -
  have rep: "length (h_threads h) = MAX_THREADS" "h_size h = int (length ys)" "holds (h_threads h) ys"
    using assms(2) by (auto simp: heap_rep_def)
  have ne: "ys \<noteq> []" using assms(1) rep(2) by (auto simp: heap_pop_def Let_def)
  then have sz: "h_size h - 1 = int (length ys - 1)" using rep(2) by (cases ys) simp_all
  obtain xs where X: "sift_down cmp ((h_threads h)[0 := h_threads h ! (length ys - 1)]) (length ys - 1) 0 = Some xs"
    "r = h_threads h ! 0" "h' = \<lparr>h_threads = xs, h_size = int (length ys - 1)\<rparr>"
    using assms(1) unfolding heap_pop_def Let_def sz by (auto split: Option.bind_splits if_splits)
  have hold: "holds ((h_threads h)[0 := h_threads h ! (length ys - 1)]) (cut ys)"
    using rep ne by (intro holds_cut) (auto simp: MAX_THREADS_def)
  obtain ys' where Y: "holds xs ys'" "mset ys' = mset (cut ys)" "length xs = MAX_THREADS"
    using sift_down_perm [OF X(1) hold] rep(1) le_less_linear [of "length ys" "Suc 0"] by auto
  then have "length ys' = length ys - 1" by (metis length_cut size_mset)
  moreover have "r = Some (ys ! 0)" using X(2) rep(3) ne by (simp add: holds_def)
  ultimately show ?thesis
    using X(3) Y mset_cut [OF ne] by (intro exI [of _ "ys ! 0"] exI [of _ ys']) (simp add: heap_rep_def)
qed

section \<open>Heap order\<close>

text \<open>
  A comparison of elements that satisfy \<open>ok\<close> is the order of their keys. While an element moves,
  \<open>up_ok ys i\<close> and \<open>down_ok ys i\<close> say that only its edges to the parent, or to the children, may be
  out of order.
\<close>

definition parent :: "nat \<Rightarrow> nat" where "parent i = (i - 1) div 2"

definition heap_ord :: "('a \<Rightarrow> 'k::linorder) \<Rightarrow> 'a list \<Rightarrow> bool" where
  "heap_ord key ys \<longleftrightarrow> (\<forall>j < length ys. 0 < j \<longrightarrow> key (ys ! parent j) \<le> key (ys ! j))"

definition up_ok :: "('a \<Rightarrow> 'k::linorder) \<Rightarrow> 'a list \<Rightarrow> nat \<Rightarrow> bool" where
  "up_ok key ys i \<longleftrightarrow> (\<forall>j < length ys. 0 < j \<longrightarrow> j \<noteq> i \<longrightarrow> key (ys ! parent j) \<le> key (ys ! j)) \<and>
     (\<forall>j < length ys. 0 < j \<longrightarrow> parent j = i \<longrightarrow> 0 < i \<longrightarrow> key (ys ! parent i) \<le> key (ys ! j))"

definition down_ok :: "('a \<Rightarrow> 'k::linorder) \<Rightarrow> 'a list \<Rightarrow> nat \<Rightarrow> bool" where
  "down_ok key ys i \<longleftrightarrow> (\<forall>j < length ys. 0 < j \<longrightarrow> parent j \<noteq> i \<longrightarrow> key (ys ! parent j) \<le> key (ys ! j)) \<and>
     (\<forall>j < length ys. 0 < j \<longrightarrow> parent j = i \<longrightarrow> 0 < i \<longrightarrow> key (ys ! parent i) \<le> key (ys ! j))"

lemma parent_less: "0 < j \<Longrightarrow> parent j < j"
  by (simp add: parent_def)

lemma parent_children: "0 < j \<and> parent j = i \<longleftrightarrow> j = 2 * i + 1 \<or> j = 2 * i + 2"
  unfolding parent_def by arith

lemma heap_ord_root: "heap_ord key ys \<Longrightarrow> k < length ys \<Longrightarrow> key (ys ! 0) \<le> key (ys ! k)"
proof (induction k rule: less_induct)
  case (less k)
  show ?case
  proof (cases "k = 0")
    case False
    then have "key (ys ! parent k) \<le> key (ys ! k)" using less.prems by (simp add: heap_ord_def)
    moreover have "key (ys ! 0) \<le> key (ys ! parent k)"
      using False less parent_less [of k] by simp
    ultimately show ?thesis by (rule order_trans [rotated])
  qed simp
qed

lemma up_ok_swap:
  assumes ok: "up_ok key ys i" and i: "0 < i" "i < length ys" and l: "key (ys ! i) < key (ys ! parent i)"
  shows "up_ok key (swap ys i (parent i)) (parent i)"
proof -
  have p: "parent i < i" "parent i < length ys" using i parent_less [of i] by simp_all
  have nth: "swap ys i (parent i) ! k = (if k = parent i then ys ! i else if k = i then ys ! parent i else ys ! k)"
    if "k < length ys" for k
    using nth_swap [OF i(2) p(2) that] .
  have ord: "key (ys ! parent j) \<le> key (ys ! j)" if "j < length ys" "0 < j" "j \<noteq> i" for j
    using ok that by (simp add: up_ok_def)
  have grand: "key (ys ! parent i) \<le> key (ys ! j)" if "j < length ys" "0 < j" "parent j = i" for j
    using ok that i(1) by (simp add: up_ok_def)
  have one: "key (swap ys i (parent i) ! parent j) \<le> key (swap ys i (parent i) ! j)"
    if j: "j < length ys" "0 < j" "j \<noteq> parent i" for j
  proof -
    have pj: "parent j < length ys" using parent_less [OF j(2)] j(1) by simp
    show ?thesis
      using j ord [OF j(1,2)] grand [OF j(1,2)] l p(1)
      by (auto simp: nth [OF j(1)] nth [OF pj])
  qed
  have two: "key (swap ys i (parent i) ! parent (parent i)) \<le> key (swap ys i (parent i) ! j)"
    if j: "j < length ys" "0 < j" "parent j = parent i" "0 < parent i" for j
  proof -
    have pp: "parent (parent i) < parent i" using parent_less [OF j(4)] .
    have up: "key (ys ! parent (parent i)) \<le> key (ys ! parent i)" using ord [OF p(2) j(4)] p(1) by simp
    have "key (ys ! parent i) \<le> key (ys ! j)" if "j \<noteq> i" using ord [OF j(1,2) that] j(3) by simp
    then show ?thesis
      using j up pp p parent_less [OF j(2)]
      by (cases "j = i") (auto simp: nth dest: order_trans)
  qed
  show ?thesis unfolding up_ok_def using one two by simp
qed

lemma up_ok_snoc:
  assumes "heap_ord key ys"
  shows "up_ok key (ys @ [x]) (length ys)"
proof -
  have pj: "parent j < length ys" "j < length ys" if "j < length (ys @ [x])" "0 < j" "j \<noteq> length ys" for j
    using parent_less [OF that(2)] that by simp_all
  have "parent j \<noteq> length ys" if "j < length (ys @ [x])" "0 < j" for j
    using parent_less [OF that(2)] that by simp
  then show ?thesis using assms pj by (simp add: up_ok_def heap_ord_def nth_append)
qed

lemma up_ok_done:
  assumes "up_ok key ys i" "0 < i \<longrightarrow> key (ys ! parent i) \<le> key (ys ! i)"
  shows "heap_ord key ys"
  using assms unfolding up_ok_def heap_ord_def by metis

lemma down_ok_swap:
  assumes ok: "down_ok key ys i" and i: "i < length ys" and s: "s < length ys" "0 < s" "parent s = i"
    and l: "key (ys ! s) < key (ys ! i)" and m: "\<And>j. j < length ys \<Longrightarrow> 0 < j \<Longrightarrow> parent j = i \<Longrightarrow> key (ys ! s) \<le> key (ys ! j)"
  shows "down_ok key (swap ys i s) s"
proof -
  have lt: "i < s" using s parent_less [of s] by simp
  have nth: "swap ys i s ! k = (if k = s then ys ! i else if k = i then ys ! s else ys ! k)" if "k < length ys" for k
    using nth_swap [OF i s(1) that] .
  have ord: "key (ys ! parent j) \<le> key (ys ! j)" if "j < length ys" "0 < j" "parent j \<noteq> i" for j
    using ok that by (simp add: down_ok_def)
  have grand: "key (ys ! parent i) \<le> key (ys ! j)" if "j < length ys" "0 < j" "parent j = i" "0 < i" for j
    using ok that by (simp add: down_ok_def)
  have one: "key (swap ys i s ! parent j) \<le> key (swap ys i s ! j)"
    if j: "j < length ys" "0 < j" "parent j \<noteq> s" for j
  proof -
    have pj: "parent j < length ys" using parent_less [OF j(2)] j(1) by simp
    show ?thesis
    proof (cases "parent j = i")
      case True
      then show ?thesis using j m [OF j(1,2)] l lt parent_less [OF j(2)] nth [OF j(1)] nth [OF i] by (cases "j = s") auto
    next
      case False
      then have "j \<noteq> s" using s(3) by auto
      then show ?thesis
        using False j ord [OF j(1,2) False] grand [OF s(1,2,3)] by (auto simp: nth [OF j(1)] nth [OF pj])
    qed
  qed
  have two: "key (swap ys i s ! parent s) \<le> key (swap ys i s ! j)" if j: "j < length ys" "0 < j" "parent j = s" for j
  proof -
    have "s < j" using parent_less [OF j(2)] j(3) by simp
    then show ?thesis using ord [OF j(1,2)] j s lt i by (simp add: nth)
  qed
  show ?thesis unfolding down_ok_def using one two by simp
qed

lemma down_ok_done:
  assumes "down_ok key ys i" "\<And>j. j < length ys \<Longrightarrow> 0 < j \<Longrightarrow> parent j = i \<Longrightarrow> key (ys ! i) \<le> key (ys ! j)"
  shows "heap_ord key ys"
  using assms unfolding down_ok_def heap_ord_def by metis

lemma down_ok_cut: "heap_ord key ys \<Longrightarrow> down_ok key (cut ys) 0"
proof -
  assume ord: "heap_ord key ys"
  have "key (cut ys ! parent j) \<le> key (cut ys ! j)" if "j < length ys - 1" "0 < j" "parent j \<noteq> 0" for j
    using ord that parent_less [OF that(2)] by (simp add: nth_cut heap_ord_def)
  then show ?thesis by (simp add: down_ok_def)
qed

text \<open>Pushing a list of elements, and popping a number of them.\<close>

fun push_all :: "('a \<Rightarrow> 'a \<Rightarrow> int option) \<Rightarrow> 'a minheap \<Rightarrow> 'a list \<Rightarrow> 'a minheap option" where
  "push_all cmp h [] = Some h"
| "push_all cmp h (x # xs) = do { h' \<leftarrow> heap_push cmp h x; push_all cmp h' xs }"

fun pop_all :: "('a \<Rightarrow> 'a \<Rightarrow> int option) \<Rightarrow> 'a minheap \<Rightarrow> nat \<Rightarrow> ('a option list \<times> 'a minheap) option" where
  "pop_all cmp h 0 = Some ([], h)"
| "pop_all cmp h (Suc n) = do { (r, h') \<leftarrow> heap_pop cmp h; (rs, h'') \<leftarrow> pop_all cmp h' n; Some (r # rs, h'') }"

section \<open>The contract of a comparison\<close>

locale heap_order =
  fixes cmp :: "'a \<Rightarrow> 'a \<Rightarrow> int option" and key :: "'a \<Rightarrow> 'k::linorder" and ok :: "'a \<Rightarrow> bool"
  assumes cmp_less: "ok a \<Longrightarrow> ok b \<Longrightarrow> \<exists>c. cmp a b = Some c \<and> (c < 0 \<longleftrightarrow> key a < key b)"
begin

lemma cmp_at: "list_all ok ys \<Longrightarrow> a < length ys \<Longrightarrow> b < length ys \<Longrightarrow> holds xs ys \<Longrightarrow>
    less_at cmp xs a b = Some (key (ys ! a) < key (ys ! b))"
  using less_at_holds [of xs ys a b cmp] cmp_less [of "ys ! a" "ys ! b"] by (auto simp: list_all_length)

lemma sift_up_spec:
  assumes "holds xs ys" "list_all ok ys" "i < length ys" "up_ok key ys i"
  shows "\<exists>xs' ys'. sift_up cmp xs i = Some xs' \<and> length xs' = length xs \<and> holds xs' ys' \<and> mset ys' = mset ys \<and> heap_ord key ys'"
  using assms
proof (induction i arbitrary: xs ys rule: less_induct)
  case (less i)
  show ?case
  proof (cases "0 < i \<and> key (ys ! i) < key (ys ! parent i)")
    case True
    then have p: "parent i < i" "parent i < length ys" using parent_less [of i] less.prems(3) by simp_all
    have up: "up_ok key (swap ys i (parent i)) (parent i)" using up_ok_swap [OF less.prems(4)] True less.prems(3) by simp
    have all: "list_all ok (swap ys i (parent i))"
      using less.prems(2,3) p by (simp add: list_all_length nth_swap)
    have run: "sift_up cmp xs i = sift_up cmp (swap xs i (parent i)) (parent i)"
      using True cmp_at [OF less.prems(2,3) p(2) less.prems(1)]
      by (subst sift_up.simps) (simp add: parent_def Let_def)
    have "\<exists>xs' ys'. sift_up cmp (swap xs i (parent i)) (parent i) = Some xs' \<and> length xs' = length (swap xs i (parent i)) \<and>
        holds xs' ys' \<and> mset ys' = mset (swap ys i (parent i)) \<and> heap_ord key ys'"
      using p less.prems(3)
      by (intro less.IH [OF p(1) holds_swap [OF less.prems(1)] all _ up]) simp_all
    then show ?thesis using run less.prems(3) p(2) by simp
  next
    case False
    have "sift_up cmp xs i = Some xs"
    proof (cases "0 < i")
      case True
      then have "parent i < length ys" using parent_less [of i] less.prems(3) by simp
      then show ?thesis
        using False True cmp_at [OF less.prems(2,3) _ less.prems(1), of "parent i"]
        by (subst sift_up.simps) (simp add: parent_def Let_def)
    qed (subst sift_up.simps, simp)
    moreover have "heap_ord key ys" using False by (intro up_ok_done [OF less.prems(4)]) (auto simp: not_less)
    ultimately show ?thesis using less.prems(1) by blast
  qed
qed

lemma smallest_spec:
  assumes "holds xs ys" "list_all ok ys" "i < length ys"
  obtains s where "smallest cmp xs (length ys) i = Some s" "s < length ys"
    "\<And>j. j < length ys \<Longrightarrow> 0 < j \<Longrightarrow> parent j = i \<Longrightarrow> key (ys ! s) \<le> key (ys ! j)"
    "s = i \<or> (0 < s \<and> parent s = i \<and> key (ys ! s) < key (ys ! i))"
proof -
  note at = cmp_at [OF assms(2) _ _ assms(1)]
  have pl: "parent (2 * i + 1) = i" "parent (2 * i + 2) = i" by (simp_all add: parent_def)
  define s where "s = (if 2 * i + 1 < length ys \<and> key (ys ! (2 * i + 1)) < key (ys ! i) then 2 * i + 1 else i)"
  have s: "s < length ys" "s = i \<or> s = 2 * i + 1 \<and> key (ys ! s) < key (ys ! i)" using assms(3) by (auto simp: s_def)
  define r where "r = (if 2 * i + 2 < length ys \<and> key (ys ! (2 * i + 2)) < key (ys ! s) then 2 * i + 2 else s)"
  have R1: "smallest cmp xs (length ys) i = Some r"
  proof -
    have l: "(if 2 * i + 1 < length ys then less_at cmp xs (2 * i + 1) i else Some False) =
        Some (2 * i + 1 < length ys \<and> key (ys ! (2 * i + 1)) < key (ys ! i))"
      using at [OF _ assms(3)] by simp
    have r: "(if 2 * i + 2 < length ys then less_at cmp xs (2 * i + 2) s else Some False) =
        Some (2 * i + 2 < length ys \<and> key (ys ! (2 * i + 2)) < key (ys ! s))"
      using at [OF _ s(1)] by simp
    show ?thesis
      unfolding smallest_def Let_def l Option.bind.simps s_def [symmetric] r r_def [symmetric] ..
  qed
  have R2: "r < length ys" using s(1) by (simp add: r_def)
  have R3: "key (ys ! r) \<le> key (ys ! s)" by (auto simp: r_def)
  have R4: "2 * i + 1 < length ys \<Longrightarrow> key (ys ! s) \<le> key (ys ! (2 * i + 1))" by (auto simp: s_def not_less)
  have R5: "2 * i + 2 < length ys \<Longrightarrow> key (ys ! r) \<le> key (ys ! (2 * i + 2))" by (auto simp: r_def not_less)
  have R6: "r = i \<or> (0 < r \<and> parent r = i \<and> key (ys ! r) < key (ys ! i))"
  proof (cases "r = s")
    case True
    then show ?thesis using s(2) pl by auto
  next
    case False
    then have "r = 2 * i + 2" "key (ys ! r) < key (ys ! s)" by (auto simp: r_def split: if_splits)
    moreover have "key (ys ! s) \<le> key (ys ! i)" using s(2) by auto
    ultimately show ?thesis using pl(2) less_le_trans by fastforce
  qed
  have least: "key (ys ! r) \<le> key (ys ! j)" if j: "j < length ys" "0 < j" "parent j = i" for j
  proof -
    have "j = 2 * i + 1 \<or> j = 2 * i + 2" using parent_children [of j i] j(2,3) by simp
    then show ?thesis
    proof
      assume "j = 2 * i + 1"
      then show ?thesis using order_trans [OF R3 R4] j(1) by simp
    next
      assume "j = 2 * i + 2"
      then show ?thesis using R5 j(1) by simp
    qed
  qed
  show thesis by (rule that [of r]) (fact R1 R2 R6 | erule (2) least)+
qed

lemma sift_down_spec:
  assumes "holds xs ys" "list_all ok ys" "down_ok key ys i" "i < length ys \<or> ys = []"
  shows "\<exists>xs' ys'. sift_down cmp xs (length ys) i = Some xs' \<and> length xs' = length xs \<and> holds xs' ys' \<and>
    mset ys' = mset ys \<and> heap_ord key ys'"
  using assms
proof (induction "length ys - i" arbitrary: xs ys i rule: less_induct)
  case less
  show ?case
  proof (cases "ys = []")
    case True
    then show ?thesis
      by (intro exI [of _ xs] exI [of _ "[]"]) (subst sift_down.simps, auto simp: smallest_def holds_def heap_ord_def)
  next
    case False
    then have i: "i < length ys" using less.prems(4) by simp
    obtain s where S: "smallest cmp xs (length ys) i = Some s" "s < length ys"
      "\<And>j. j < length ys \<Longrightarrow> 0 < j \<Longrightarrow> parent j = i \<Longrightarrow> key (ys ! s) \<le> key (ys ! j)"
      "s = i \<or> (0 < s \<and> parent s = i \<and> key (ys ! s) < key (ys ! i))"
      by (rule smallest_spec [OF less.prems(1,2) i], rule that) (assumption+)
    show ?thesis
    proof (cases "s = i")
      case True
      then have "heap_ord key ys" using S(3) by (intro down_ok_done [OF less.prems(3)]) simp
      moreover have "sift_down cmp xs (length ys) i = Some xs" using S(1) True by (subst sift_down.simps) simp
      ultimately show ?thesis using less.prems(1) by blast
    next
      case ne: False
      then have s: "0 < s" "parent s = i" "key (ys ! s) < key (ys ! i)" using S(4) by auto
      have "i < s" using parent_less [OF s(1)] s(2) by simp
      have dn: "down_ok key (swap ys i s) s" by (rule down_ok_swap [OF less.prems(3) i S(2) s]) (rule S(3))
      have all: "list_all ok (swap ys i s)" using less.prems(2) i S(2) by (simp add: list_all_length nth_swap)
      have h: "holds (swap xs i s) (swap ys i s)" by (rule holds_swap [OF less.prems(1) i S(2)])
      have run: "sift_down cmp xs (length ys) i = sift_down cmp (swap xs i s) (length (swap ys i s)) s"
        using S(1) ne by (subst sift_down.simps) simp
      have "\<exists>xs' ys'. sift_down cmp (swap xs i s) (length (swap ys i s)) s = Some xs' \<and> length xs' = length (swap xs i s) \<and>
          holds xs' ys' \<and> mset ys' = mset (swap ys i s) \<and> heap_ord key ys'"
        using \<open>i < s\<close> S(2) by (intro less.hyps [OF _ h all dn]) auto
      then show ?thesis using run i S(2) by simp
    qed
  qed
qed

lemma heap_push_spec:
  assumes h: "heap_rep h ys" "heap_ord key ys" "list_all ok (x # ys)" and room: "length ys < MAX_THREADS"
  obtains h' ys' where "heap_push cmp h x = Some h'" "heap_rep h' ys'" "heap_ord key ys'"
    "mset ys' = add_mset x (mset ys)"
proof -
  let ?xs = "(h_threads h)[length ys := Some x]" and ?ys = "ys @ [x]"
  have rep: "length (h_threads h) = MAX_THREADS" "h_size h = int (length ys)" "holds (h_threads h) ys"
    using h(1) by (auto simp: heap_rep_def)
  have hold: "holds ?xs ?ys" using rep room by (intro holds_snoc) simp_all
  have up: "up_ok key ?ys (length ys)"
    by (rule up_ok_snoc [OF h(2)])
  have "\<exists>xs' ys'. sift_up cmp ?xs (length ys) = Some xs' \<and> length xs' = length ?xs \<and> holds xs' ys' \<and>
      mset ys' = mset ?ys \<and> heap_ord key ys'"
    using h(3) by (intro sift_up_spec [OF hold _ _ up]) simp_all
  then obtain xs' ys' where S: "sift_up cmp ?xs (length ys) = Some xs'" "length xs' = length ?xs" "holds xs' ys'"
      "mset ys' = mset ?ys" "heap_ord key ys'" by blast
  have len: "length ys' = Suc (length ys)" using arg_cong [OF S(4), of size] by simp
  show thesis
  proof (rule that)
    show "heap_push cmp h x = Some \<lparr>h_threads = xs', h_size = int (length ys) + 1\<rparr>"
      using S(1) room rep(2) by (simp add: heap_push_def Let_def)
    show "heap_rep \<lparr>h_threads = xs', h_size = int (length ys) + 1\<rparr> ys'"
      using S(2,3) rep(1) len by (simp add: heap_rep_def)
  qed (use S(4,5) in simp_all)
qed

lemma heap_pop_spec:
  assumes h: "heap_rep h ys" "heap_ord key ys" "list_all ok ys" and ne: "ys \<noteq> []"
  obtains h' ys' where "heap_pop cmp h = Some (Some (ys ! 0), h')" "heap_rep h' ys'" "heap_ord key ys'"
    "mset ys = add_mset (ys ! 0) (mset ys')" "\<And>y. y \<in> set ys \<Longrightarrow> key (ys ! 0) \<le> key y"
proof -
  let ?n = "length ys - 1"
  let ?xs = "(h_threads h)[0 := h_threads h ! ?n]"
  have rep: "length (h_threads h) = MAX_THREADS" "h_size h = int (length ys)" "holds (h_threads h) ys"
    using h(1) by (auto simp: heap_rep_def)
  have le: "length ys \<le> MAX_THREADS" using rep by (simp add: holds_def)
  have hold: "holds ?xs (cut ys)"
    using rep ne by (intro holds_cut) (auto simp: MAX_THREADS_def)
  have all: "list_all ok (cut ys)"
    using h(3) ne by (auto simp: list_all_length nth_cut last_conv_nth)
  have "\<exists>xs' ys'. sift_down cmp ?xs (length (cut ys)) 0 = Some xs' \<and> length xs' = length ?xs \<and> holds xs' ys' \<and>
      mset ys' = mset (cut ys) \<and> heap_ord key ys'"
    by (intro sift_down_spec [OF hold all down_ok_cut [OF h(2)]]) blast
  then obtain xs' ys' where S: "sift_down cmp ?xs (length (cut ys)) 0 = Some xs'" "length xs' = length ?xs" "holds xs' ys'"
      "mset ys' = mset (cut ys)" "heap_ord key ys'" by blast
  have len: "length ys' = ?n" using arg_cong [OF S(4), of size] by simp
  have sz: "h_size h - 1 = int ?n" using rep(2) ne by (cases ys) simp_all
  show thesis
  proof (rule that)
    show "heap_pop cmp h = Some (Some (ys ! 0), \<lparr>h_threads = xs', h_size = int ?n\<rparr>)"
      using S(1) le ne rep(3) unfolding heap_pop_def sz Let_def by (cases ys) (auto simp: holds_def)
    show "heap_rep \<lparr>h_threads = xs', h_size = int ?n\<rparr> ys'"
      using S(2,3) rep(1) len by (simp add: heap_rep_def)
    show "key (ys ! 0) \<le> key y" if "y \<in> set ys" for y
      using that heap_ord_root [OF h(2)] by (metis in_set_conv_nth)
  qed (use S(4,5) mset_cut [OF ne] in simp_all)
qed

lemma push_all_spec:
  assumes "heap_rep h ys" "heap_ord key ys" "list_all ok (ys @ xs)" "length (ys @ xs) \<le> MAX_THREADS"
  obtains h' ys' where "push_all cmp h xs = Some h'" "heap_rep h' ys'" "heap_ord key ys'" "mset ys' = mset (ys @ xs)"
  using assms
proof (induction xs arbitrary: h ys thesis)
  case Nil
  then show ?case by simp
next
  case (Cons x xs)
  obtain h1 ys1 where 1: "heap_push cmp h x = Some h1" "heap_rep h1 ys1" "heap_ord key ys1" "mset ys1 = add_mset x (mset ys)"
    by (rule heap_push_spec [OF Cons.prems(2,3), of x]) (use Cons.prems in auto)
  have "set ys1 = insert x (set ys)" using arg_cong [OF 1(4), of set_mset] by simp
  then have "list_all ok (ys1 @ xs)" using Cons.prems(4) by (auto simp: list_all_iff)
  moreover have "length (ys1 @ xs) \<le> MAX_THREADS" using arg_cong [OF 1(4), of size] Cons.prems(5) by simp
  ultimately show ?case
    by (rule Cons.IH [OF _ 1(2,3), rotated]) (use 1(1,4) in \<open>auto intro!: Cons.prems(1)\<close>)
qed

lemma pop_all_spec:
  assumes "heap_rep h ys" "heap_ord key ys" "list_all ok ys"
  obtains h' zs where "pop_all cmp h (length ys) = Some (map Some zs, h')" "heap_rep h' []" "mset zs = mset ys"
    "sorted (map key zs)"
  using assms
proof (induction "length ys" arbitrary: h ys thesis)
  case 0
  then show ?case by simp
next
  case (Suc n)
  then have ne: "ys \<noteq> []" by auto
  obtain h1 ys1 where 1: "heap_pop cmp h = Some (Some (ys ! 0), h1)" "heap_rep h1 ys1" "heap_ord key ys1"
    "mset ys = add_mset (ys ! 0) (mset ys1)" "\<And>y. y \<in> set ys \<Longrightarrow> key (ys ! 0) \<le> key y"
    by (rule heap_pop_spec [OF Suc.prems(2-4) ne], rule that) (assumption+)
  have n: "n = length ys1" using arg_cong [OF 1(4), of size] Suc.hyps(2) by simp
  have sub: "set ys = insert (ys ! 0) (set ys1)" using arg_cong [OF 1(4), of set_mset] by simp
  then have "list_all ok ys1" using Suc.prems(4) by (auto simp: list_all_iff)
  then obtain h2 zs where 2: "pop_all cmp h1 (length ys1) = Some (map Some zs, h2)" "heap_rep h2 []" "mset zs = mset ys1"
    "sorted (map key zs)" by (rule Suc.hyps(1) [OF n _ 1(2,3), rotated])
  have "set zs = set ys1" using arg_cong [OF 2(3), of set_mset] by simp
  then have "sorted (map key (ys ! 0 # zs))" using 2(4) 1(5) sub by auto
  moreover have "pop_all cmp h (length ys) = Some (map Some (ys ! 0 # zs), h2)"
    using 1(1) 2(1) n by (simp add: Suc.hyps(2) [symmetric])
  moreover have "mset (ys ! 0 # zs) = mset ys" using 1(4) 2(3) by simp
  ultimately show ?case using 2(2) by (intro Suc.prems(1))
qed

text \<open>The heap sorts: what is pushed comes out once, in the order of the keys.\<close>

lemma heap_sorts:
  assumes "list_all ok xs" "length xs \<le> MAX_THREADS" "heap_rep h []"
  shows "\<exists>h1 h2 zs. push_all cmp h xs = Some h1 \<and> pop_all cmp h1 (length xs) = Some (map Some zs, h2) \<and>
    mset zs = mset xs \<and> sorted (map key zs) \<and> heap_rep h2 []"
proof -
  obtain h1 ys where 1: "push_all cmp h xs = Some h1" "heap_rep h1 ys" "heap_ord key ys" "mset ys = mset ([] @ xs)"
    by (rule push_all_spec [OF assms(3), of xs]) (use assms in \<open>auto simp: heap_ord_def\<close>)
  have all: "list_all ok ys" and len: "length ys = length xs"
    using mset_eq_setD [OF 1(4)] mset_eq_length [OF 1(4)] assms(1) by (auto simp: list_all_iff)
  obtain h2 zs where "pop_all cmp h1 (length ys) = Some (map Some zs, h2)" "heap_rep h2 []" "mset zs = mset ys"
    "sorted (map key zs)" by (rule pop_all_spec [OF 1(2,3) all])
  then show ?thesis using 1(1,4) len by auto
qed

end

lemma heap_push_full: "heap_rep h ys \<Longrightarrow> length ys = MAX_THREADS \<Longrightarrow> heap_push cmp h x = None"
  by (simp add: heap_push_def heap_rep_def Let_def)

lemma heap_pop_empty: "heap_rep h [] \<Longrightarrow> heap_pop cmp h = None"
  by (simp add: heap_pop_def heap_rep_def Let_def)

end
