(* ===== verification/TH_State.thy ===== *)
theory TH_State
  imports TH_Queue TH_Heap "HOL-Library.Signed_Division" "HOL-Library.Product_Lexorder"
begin

text \<open>
  The state of the thread library (\<open>project2-release/thread-worker.h\<close> and the globals of
  \<open>thread-worker.c\<close>) and its thread table. A thread control block lives at an address; \<open>tcbs\<close> holds
  the blocks that are allocated, so that an access to a block that was freed, or through \<open>NULL\<close>, is
  the result \<open>None\<close>. The saved processor contexts are not part of a block: which code a thread goes on
  with is the matter of the theory of the calls.
\<close>

section \<open>Data\<close>

definition MAX_MLFQ_LEVELS :: nat where "MAX_MLFQ_LEVELS = 4"
definition S_PERIOD :: int where "S_PERIOD = 100"
definition QUANTUM :: int where "QUANTUM = 10"
definition TARGET_LATENCY :: int where "TARGET_LATENCY = 20"
definition MIN_SCHED_GRN :: int where "MIN_SCHED_GRN = 1"

text \<open>The policy the library is compiled for; \<open>NoPolicy\<close> is the \<open>#else\<close> branch.\<close>

datatype policy = PSJF | MLFQ | CFS | RR | NoPolicy

datatype thread_state = READY | RUNNING | BLOCKED | TERMINATED

record timespec =
  tv_sec :: int
  tv_nsec :: int

record tcb =
  t_id :: u32
  t_stack :: "nat option"
  t_retval :: nat
  t_state :: thread_state
  arrival_time :: timespec
  start_time :: timespec
  finish_time :: timespec
  has_started :: bool
  elapsed_quanta :: int
  priority :: int
  time_slice :: int
  time_used :: int
  vruntime :: int
  last_start :: timespec
  cfs_timeslice :: int
  waiting_thread :: "nat option"
  joined :: bool

text \<open>
  \<open>clk\<close> is the sequence of values \<open>clock_gettime\<close> returns and \<open>reads\<close> the number of calls so far;
  \<open>next_addr\<close> is the next address \<open>malloc\<close> returns; \<open>timer_us\<close> is the interval of \<open>ITIMER_PROF\<close>.
\<close>

record lib =
  scheduler_initialized :: bool
  tcbs :: "nat \<rightharpoonup> tcb"
  stacks :: "nat set"
  next_addr :: nat
  main_tcb :: "nat option"
  running_tcb :: "nat option"
  thread_table :: "nat option list"
  thread_count :: int
  next_thread_id :: int
  rr_queue :: "nat list"
  psjf_heap :: "nat minheap"
  mlfq_levels :: "nat list list"
  cfs_heap :: "nat minheap"
  global_ticks :: int
  timer_us :: int
  tot_cntx_switches :: int
  completed_threads :: int
  total_turnaround_time :: int
  total_response_time :: int
  clk :: "nat \<Rightarrow> timespec"
  reads :: nat

text \<open>The static storage a program starts with.\<close>

definition boot :: "(nat \<Rightarrow> timespec) \<Rightarrow> lib" where
  "boot c = \<lparr>scheduler_initialized = False, tcbs = Map.empty, stacks = {}, next_addr = 1, main_tcb = None, running_tcb = None,
     thread_table = replicate MAX_THREADS None, thread_count = 0, next_thread_id = 1, rr_queue = [],
     psjf_heap = \<lparr>h_threads = replicate MAX_THREADS None, h_size = 0\<rparr>,
     mlfq_levels = replicate MAX_MLFQ_LEVELS [],
     cfs_heap = \<lparr>h_threads = replicate MAX_THREADS None, h_size = 0\<rparr>,
     global_ticks = 0, timer_us = 0, tot_cntx_switches = 0, completed_threads = 0,
     total_turnaround_time = 0, total_response_time = 0, clk = c, reads = 0\<rparr>"

definition clock_gettime :: "lib \<Rightarrow> timespec \<times> lib" where
  "clock_gettime l = (clk l (reads l), l\<lparr>reads := reads l + 1\<rparr>)"

text \<open>A write to the block at \<open>p\<close>.\<close>

definition upd_tcb :: "nat \<Rightarrow> (tcb \<Rightarrow> tcb) \<Rightarrow> lib \<Rightarrow> lib option" where
  "upd_tcb p f l = do { t \<leftarrow> tcbs l p; Some (l\<lparr>tcbs := (tcbs l)(p \<mapsto> f t)\<rparr>) }"

text \<open>\<open>free\<close> of a stack; freeing what is not allocated is undefined.\<close>

definition free_stack :: "nat option \<Rightarrow> lib \<Rightarrow> lib option" where
  "free_stack s l = (case s of None \<Rightarrow> Some l
     | Some a \<Rightarrow> if a \<in> stacks l then Some (l\<lparr>stacks := stacks l - {a}\<rparr>) else None)"

section \<open>Thread table\<close>

text \<open>The index of the first entry whose thread has the id.\<close>

fun locate :: "(nat \<rightharpoonup> tcb) \<Rightarrow> u32 \<Rightarrow> nat option list \<Rightarrow> nat option option" where
  "locate ts tid [] = Some None"
| "locate ts tid (None # es) = map_option (map_option Suc) (locate ts tid es)"
| "locate ts tid (Some p # es) =
     do { t \<leftarrow> ts p;
          if t_id t = tid then Some (Some 0) else map_option (map_option Suc) (locate ts tid es) }"

definition find_tcb_by_id :: "u32 \<Rightarrow> lib \<Rightarrow> nat option option" where
  "find_tcb_by_id tid l = do { r \<leftarrow> locate (tcbs l) tid (thread_table l);
     Some (case r of None \<Rightarrow> None | Some i \<Rightarrow> thread_table l ! i) }"

fun first_free :: "'a option list \<Rightarrow> nat option" where
  "first_free [] = None"
| "first_free (None # es) = Some 0"
| "first_free (Some x # es) = map_option Suc (first_free es)"

definition add_thread_to_table :: "nat \<Rightarrow> lib \<Rightarrow> int \<times> lib" where
  "add_thread_to_table thread l = (case first_free (thread_table l) of
     None \<Rightarrow> (-1, l)
   | Some i \<Rightarrow> (int i, l\<lparr>thread_table := (thread_table l)[i := Some thread], thread_count := thread_count l + 1\<rparr>))"

definition remove_thread_from_table :: "u32 \<Rightarrow> lib \<Rightarrow> lib option" where
  "remove_thread_from_table tid l = do { r \<leftarrow> locate (tcbs l) tid (thread_table l);
     Some (case r of None \<Rightarrow> l
       | Some i \<Rightarrow> l\<lparr>thread_table := (thread_table l)[i := None], thread_count := thread_count l - 1\<rparr>) }"

fun any_blocked :: "(nat \<rightharpoonup> tcb) \<Rightarrow> nat option list \<Rightarrow> bool option" where
  "any_blocked ts [] = Some False"
| "any_blocked ts (None # es) = any_blocked ts es"
| "any_blocked ts (Some p # es) =
     do { t \<leftarrow> ts p; if t_state t = BLOCKED then Some True else any_blocked ts es }"

definition has_blocked_threads :: "lib \<Rightarrow> bool option" where
  "has_blocked_threads l = any_blocked (tcbs l) (thread_table l)"

definition cleanup_thread :: "nat \<Rightarrow> lib \<Rightarrow> lib option" where
  "cleanup_thread thread l =
     do { t \<leftarrow> tcbs l thread;
          l \<leftarrow> remove_thread_from_table (t_id t) l;
          l \<leftarrow> free_stack (t_stack t) l;
          Some (l\<lparr>tcbs := (tcbs l)(thread := None)\<rparr>) }"

section \<open>Time and comparisons\<close>

definition time_diff_microseconds :: "timespec \<Rightarrow> timespec \<Rightarrow> int" where
  "time_diff_microseconds start fin =
     (tv_sec fin - tv_sec start) * 1000000 + (tv_nsec fin - tv_nsec start) sdiv 1000"

text \<open>The conversion of a \<open>long\<close> to the \<open>int\<close> a comparison returns keeps the low 32 bits.\<close>

definition to_int :: "int \<Rightarrow> int" where
  "to_int x = sint (word_of_int x :: u32)"

definition psjf_cmp :: "tcb \<Rightarrow> tcb \<Rightarrow> int" where
  "psjf_cmp a b = (if elapsed_quanta a \<noteq> elapsed_quanta b then to_int (elapsed_quanta a - elapsed_quanta b)
     else sint (t_id a - t_id b))"

definition cfs_cmp :: "tcb \<Rightarrow> tcb \<Rightarrow> int" where
  "cfs_cmp a b = (if vruntime a \<noteq> vruntime b then to_int (vruntime a - vruntime b)
     else sint (t_id a - t_id b))"

text \<open>A comparison through two pointers.\<close>

definition on_tcbs :: "(tcb \<Rightarrow> tcb \<Rightarrow> int) \<Rightarrow> lib \<Rightarrow> nat \<Rightarrow> nat \<Rightarrow> int option" where
  "on_tcbs cmp l p q = do { a \<leftarrow> tcbs l p; b \<leftarrow> tcbs l q; Some (cmp a b) }"

end
