(* ===== verification/TH_Sched.thy ===== *)
theory TH_Sched
  imports TH_State
begin

text \<open>
  The schedulers of \<open>project2-release/thread-worker.c\<close>. The library is compiled for one policy, which
  is a parameter here. A scheduler ends by resuming a thread (\<open>Run\<close>) or the main program (\<open>ToMain\<close>),
  or reaches a run C leaves undefined (\<open>Undefined\<close>); \<open>Exits\<close> is the return from the scheduler's
  context, which ends the process. Its loops may go on for ever: they are partial functions whose
  value is \<open>None\<close> then. The timer signal is blocked while a scheduler runs.
\<close>

datatype outcome = Run nat lib | ToMain lib | Exits | Undefined

section \<open>Ready threads\<close>

definition add_to_scheduler :: "policy \<Rightarrow> nat \<Rightarrow> lib \<Rightarrow> lib option" where
  "add_to_scheduler pol thread l = (case pol of
     PSJF \<Rightarrow> do { h \<leftarrow> heap_push (on_tcbs psjf_cmp l) (psjf_heap l) thread; Some (l\<lparr>psjf_heap := h\<rparr>) }
   | MLFQ \<Rightarrow> do { t \<leftarrow> tcbs l thread;
                  let i = nat (priority t);
                  if priority t < 0 \<or> i \<ge> MAX_MLFQ_LEVELS then None
                  else Some (l\<lparr>mlfq_levels := (mlfq_levels l)[i := put_last (mlfq_levels l ! i) thread]\<rparr>) }
   | CFS \<Rightarrow> do { h \<leftarrow> heap_push (on_tcbs cfs_cmp l) (cfs_heap l) thread; Some (l\<lparr>cfs_heap := h\<rparr>) }
   | RR \<Rightarrow> Some (l\<lparr>rr_queue := put_last (rr_queue l) thread\<rparr>)
   | NoPolicy \<Rightarrow> Some l)"

text \<open>The thread gets the processor: it is \<open>RUNNING\<close>, and its start time is set the first time.\<close>

definition begin_run :: "nat \<Rightarrow> lib \<Rightarrow> lib option" where
  "begin_run next l =
     do { l \<leftarrow> upd_tcb next (\<lambda>t. t\<lparr>t_state := RUNNING\<rparr>) l;
          t \<leftarrow> tcbs l next;
          if has_started t then Some l
          else case clock_gettime l of
            (now, l) \<Rightarrow> upd_tcb next (\<lambda>t. t\<lparr>start_time := now, has_started := True\<rparr>) l }"

definition count_switch :: "lib \<Rightarrow> lib" where
  "count_switch l = l\<lparr>tot_cntx_switches := tot_cntx_switches l + 1\<rparr>"

text \<open>\<open>setcontext\<close> to a thread, with the state a step left, and to the main program.\<close>

definition resume :: "nat \<Rightarrow> lib option \<Rightarrow> outcome" where
  "resume next r = (case r of None \<Rightarrow> Undefined | Some l \<Rightarrow> Run next (l\<lparr>running_tcb := Some next\<rparr>))"

definition to_main :: "lib \<Rightarrow> outcome" where
  "to_main l = (if Option.bind (main_tcb l) (tcbs l) = None then Undefined else ToMain l)"

section \<open>The policies\<close>

partial_function (option) sched_psjf :: "lib \<Rightarrow> outcome option" where
  "sched_psjf l =
     (case heap_pop (on_tcbs psjf_cmp l) (psjf_heap l) of
        None \<Rightarrow> Some Undefined
      | Some (next, h) \<Rightarrow>
          (let l = l\<lparr>psjf_heap := h\<rparr>
           in case next of
                Some p \<Rightarrow> Some (resume p (map_option count_switch (begin_run p l)))
              | None \<Rightarrow>
                  if thread_count l \<le> 1 then Some (to_main l)
                  else case has_blocked_threads l of
                         None \<Rightarrow> Some Undefined
                       | Some b \<Rightarrow> if \<not> b then Some (to_main l) else sched_psjf l))"

partial_function (option) sched_rr :: "lib \<Rightarrow> outcome option" where
  "sched_rr l =
     (case take_first (rr_queue l) of
        (next, q) \<Rightarrow>
          (let l = l\<lparr>rr_queue := q\<rparr>
           in case next of
                Some p \<Rightarrow> Some (resume p (begin_run p l))
              | None \<Rightarrow>
                  if thread_count l \<le> 1 then Some (to_main l)
                  else case has_blocked_threads l of
                         None \<Rightarrow> Some Undefined
                       | Some b \<Rightarrow> if b then Some (to_main l) else sched_rr l))"

text \<open>The \<open>while\<close> loop of \<open>promote_all_threads\<close> on one level.\<close>

partial_function (option) promote_level :: "nat list \<Rightarrow> nat list option" where
  "promote_level q = (case q of [] \<Rightarrow> Some [] | t # ts \<Rightarrow> promote_level (put_last ts t))"

fun promote_levels :: "nat list list \<Rightarrow> nat list list option" where
  "promote_levels [] = Some []"
| "promote_levels (q # qs) = do { q' \<leftarrow> promote_level q; qs' \<leftarrow> promote_levels qs; Some (q' # qs') }"

definition promote_all_threads :: "lib \<Rightarrow> lib option" where
  "promote_all_threads l =
     do { qs \<leftarrow> promote_levels (tl (mlfq_levels l)); Some (l\<lparr>mlfq_levels := hd (mlfq_levels l) # qs\<rparr>) }"

text \<open>The first non-empty level gives the next thread.\<close>

fun first_ready :: "nat list list \<Rightarrow> nat option \<times> nat list list" where
  "first_ready [] = (None, [])"
| "first_ready ((t # ts) # qs) = (Some t, ts # qs)"
| "first_ready ([] # qs) = (case first_ready qs of (r, qs') \<Rightarrow> (r, [] # qs'))"

partial_function (option) mlfq_loop :: "lib \<Rightarrow> outcome option" where
  "mlfq_loop l =
     (case first_ready (mlfq_levels l) of
        (next, qs) \<Rightarrow>
          (let l = l\<lparr>mlfq_levels := qs\<rparr>
           in case next of
                Some p \<Rightarrow> Some (resume p (map_option count_switch (begin_run p l)))
              | None \<Rightarrow>
                  if thread_count l \<le> 1 then Some (to_main (count_switch l))
                  else case has_blocked_threads l of
                         None \<Rightarrow> Some Undefined
                       | Some b \<Rightarrow> if \<not> b then Some (to_main l) else mlfq_loop l))"

text \<open>
  Lines 626 to 648, before the loop: \<open>Inl\<close> when the running thread is resumed at once or the run is
  undefined.
\<close>

definition mlfq_account :: "lib \<Rightarrow> outcome + lib" where
  "mlfq_account l = (case running_tcb l of
     None \<Rightarrow> Inr l
   | Some p \<Rightarrow> (case tcbs l p of
       None \<Rightarrow> Inl Undefined
     | Some t \<Rightarrow> (case t_state t of
         RUNNING \<Rightarrow>
           if time_used t \<ge> time_slice t
           then let pr = (if priority t < int MAX_MLFQ_LEVELS - 1 then priority t + 1 else priority t)
                in (case do { l \<leftarrow> upd_tcb p (\<lambda>t. t\<lparr>priority := pr, time_slice := 2 ^ nat pr, time_used := 0,
                                                   t_state := READY\<rparr>) l;
                             add_to_scheduler MLFQ p l } of
                      None \<Rightarrow> Inl Undefined | Some l \<Rightarrow> Inr l)
           else Inl (Run p l)
       | READY \<Rightarrow> (case add_to_scheduler MLFQ p l of None \<Rightarrow> Inl Undefined | Some l \<Rightarrow> Inr l)
       | TERMINATED \<Rightarrow> Inr (l\<lparr>running_tcb := None\<rparr>)
       | BLOCKED \<Rightarrow> Inr l)))"

definition sched_mlfq :: "lib \<Rightarrow> outcome option" where
  "sched_mlfq l = (case mlfq_account l of Inl r \<Rightarrow> Some r | Inr l \<Rightarrow> mlfq_loop l)"

definition update_vruntime :: "nat \<Rightarrow> lib \<Rightarrow> lib option" where
  "update_vruntime thread l = (case clock_gettime l of
     (now, l) \<Rightarrow> upd_tcb thread (\<lambda>t. t\<lparr>vruntime := vruntime t + time_diff_microseconds (last_start t) now\<rparr>) l)"

definition calculate_timeslice_cfs :: "nat option \<Rightarrow> lib \<Rightarrow> (int \<times> lib) option" where
  "calculate_timeslice_cfs thread l =
     (let num_threads = h_size (cfs_heap l) + 1;
          us = (if num_threads \<le> 0 then MIN_SCHED_GRN * 1000
                   else max (TARGET_LATENCY * 1000 sdiv num_threads) (MIN_SCHED_GRN * 1000))
      in do { p \<leftarrow> thread; l \<leftarrow> upd_tcb p (\<lambda>t. t\<lparr>cfs_timeslice := us\<rparr>) l; Some (us, l) })"

text \<open>\<open>setitimer\<close> succeeds.\<close>

definition set_timer :: "int \<Rightarrow> lib \<Rightarrow> lib" where
  "set_timer us l = l\<lparr>timer_us := us\<rparr>"

definition cfs_run :: "nat \<Rightarrow> int \<Rightarrow> lib \<Rightarrow> lib option" where
  "cfs_run next us l =
     do { l \<leftarrow> begin_run next l;
          case clock_gettime l of
            (now, l) \<Rightarrow> do { l \<leftarrow> upd_tcb next (\<lambda>t. t\<lparr>last_start := now\<rparr>) l;
                            Some (count_switch (set_timer us l)) } }"

partial_function (option) sched_cfs :: "lib \<Rightarrow> outcome option" where
  "sched_cfs l =
     (case calculate_timeslice_cfs (running_tcb l) l of
        None \<Rightarrow> Some Undefined
      | Some (us, l) \<Rightarrow>
          (case heap_pop (on_tcbs cfs_cmp l) (cfs_heap l) of
             None \<Rightarrow> Some Undefined
           | Some (next, h) \<Rightarrow>
               (let l = l\<lparr>cfs_heap := h\<rparr>
                in case next of
                     Some p \<Rightarrow> Some (resume p (cfs_run p us l))
                   | None \<Rightarrow>
                       if thread_count l \<le> 1 then Some (to_main l)
                       else case has_blocked_threads l of
                              None \<Rightarrow> Some Undefined
                            | Some b \<Rightarrow> if \<not> b then Some (to_main l) else sched_cfs l)))"

section \<open>The scheduler\<close>

text \<open>
  The \<open>switch\<close> on the state of the running thread. The outer \<open>None\<close> is a promotion that never ends,
  the inner one an undefined access.
\<close>

definition preempted :: "policy \<Rightarrow> nat \<Rightarrow> lib \<Rightarrow> lib option option" where
  "preempted pol p l = (case pol of
     PSJF \<Rightarrow> Some (do { l \<leftarrow> upd_tcb p (\<lambda>t. t\<lparr>elapsed_quanta := elapsed_quanta t + 1\<rparr>) l; add_to_scheduler pol p l })
   | MLFQ \<Rightarrow> (case upd_tcb p (\<lambda>t. t\<lparr>time_used := time_used t + 1\<rparr>) (l\<lparr>global_ticks := global_ticks l + 1\<rparr>) of
                None \<Rightarrow> Some None
              | Some l \<Rightarrow> if global_ticks l mod S_PERIOD = 0
                          then map_option Some (promote_all_threads l) else Some (Some l))
   | CFS \<Rightarrow> Some (do { l \<leftarrow> update_vruntime p l; add_to_scheduler pol p l })
   | RR \<Rightarrow> Some (do { l \<leftarrow> upd_tcb p (\<lambda>t. t\<lparr>elapsed_quanta := elapsed_quanta t + 1\<rparr>) l; add_to_scheduler pol p l })
   | NoPolicy \<Rightarrow> Some (add_to_scheduler pol p l))"

definition account :: "policy \<Rightarrow> lib \<Rightarrow> lib option option" where
  "account pol l = (case running_tcb l of
     None \<Rightarrow> Some (Some l)
   | Some p \<Rightarrow> (case tcbs l p of
       None \<Rightarrow> Some None
     | Some t \<Rightarrow> (case t_state t of
         RUNNING \<Rightarrow> (case upd_tcb p (\<lambda>t. t\<lparr>t_state := READY\<rparr>) l of None \<Rightarrow> Some None | Some l \<Rightarrow> preempted pol p l)
       | READY \<Rightarrow> Some (do { l \<leftarrow> upd_tcb p (\<lambda>t. t\<lparr>time_used := 0\<rparr>) l; add_to_scheduler pol p l })
       | BLOCKED \<Rightarrow> Some (Some l)
       | TERMINATED \<Rightarrow> Some (Some (l\<lparr>running_tcb := None\<rparr>)))))"

definition sched :: "policy \<Rightarrow> lib \<Rightarrow> outcome option" where
  "sched pol l = (case pol of PSJF \<Rightarrow> sched_psjf l | MLFQ \<Rightarrow> sched_mlfq l | CFS \<Rightarrow> sched_cfs l | RR \<Rightarrow> sched_rr l
     | NoPolicy \<Rightarrow> Some Exits)"

definition schedule :: "policy \<Rightarrow> lib \<Rightarrow> outcome option" where
  "schedule pol l = (case account pol l of
     None \<Rightarrow> None
   | Some None \<Rightarrow> Some Undefined
   | Some (Some l) \<Rightarrow> sched pol (count_switch l))"

text \<open>The signal handler: without a running thread the interrupted code goes on.\<close>

definition timer_handler :: "policy \<Rightarrow> lib \<Rightarrow> outcome option option" where
  "timer_handler pol l = (if running_tcb l = None then None else Some (schedule pol l))"

end
