(* ===== verification/TH_Calls.thy ===== *)
theory TH_Calls
  imports TH_Sched
begin

text \<open>
  The calls of the thread library (\<open>project2-release/thread-worker.c\<close>). A call runs to its return or
  to its \<open>swapcontext\<close> into the scheduler; what it does when it is resumed is an operation of its own.
  Preemption is a step between calls: the timer signal inside a call is not modelled.
\<close>

text \<open>
  \<open>Return\<close> gives the \<open>int\<close> and the value written through the out parameter, \<open>Switch\<close> enters the
  scheduler, \<open>Exit\<close> is \<open>exit(1)\<close>, \<open>Crash\<close> an undefined run.
\<close>

datatype 'o reply = Return int "'o option" lib | Switch lib | Exit | Crash

text \<open>
  What the system calls answer during \<open>worker_create\<close>: whether each succeeds, and the contents of
  the blocks \<open>malloc\<close> returns.
\<close>

record env =
  e_sched_context :: bool
  e_sched_stack :: bool
  e_timer :: bool
  e_main :: bool
  e_main_context :: bool
  e_main_junk :: tcb
  e_tcb :: bool
  e_stack :: bool
  e_context :: bool
  e_junk :: tcb

section \<open>Start\<close>

definition alloc_stack :: "lib \<Rightarrow> nat \<times> lib" where
  "alloc_stack l = (next_addr l, l\<lparr>stacks := insert (next_addr l) (stacks l), next_addr := next_addr l + 1\<rparr>)"

text \<open>\<open>None\<close> is \<open>exit(1)\<close>.\<close>

definition init_scheduler :: "env \<Rightarrow> lib \<Rightarrow> lib option" where
  "init_scheduler e l =
     (if scheduler_initialized l then Some l
      else let l = l\<lparr>scheduler_initialized := True, rr_queue := [],
                     psjf_heap := the (init_heap (Some (psjf_heap l))),
                     cfs_heap := the (init_heap (Some (cfs_heap l))),
                     mlfq_levels := replicate MAX_MLFQ_LEVELS []\<rparr>
           in if \<not> e_sched_context e then None
              else if \<not> e_sched_stack e then None
              else Some (snd (alloc_stack l)))"

definition init_timer :: "env \<Rightarrow> lib \<Rightarrow> lib option" where
  "init_timer e l = (if e_timer e then Some (l\<lparr>timer_us := QUANTUM * 1000\<rparr>) else None)"

definition init_thread_table :: "lib \<Rightarrow> lib" where
  "init_thread_table l = l\<lparr>thread_table := replicate MAX_THREADS None, thread_count := 0\<rparr>"

definition init_main_thread :: "env \<Rightarrow> lib \<Rightarrow> lib option" where
  "init_main_thread e l =
     (if main_tcb l \<noteq> None then Some l
      else do { l \<leftarrow> init_scheduler e l;
                l \<leftarrow> init_timer e l;
                let l = init_thread_table l;
                if \<not> e_main e then None
                else if \<not> e_main_context e then None
                else let p = next_addr l;
                         t = (e_main_junk e)\<lparr>t_id := 0, t_state := RUNNING, t_stack := None, t_retval := 0,
                                             has_started := True\<rparr>
                     in Some (l\<lparr>tcbs := (tcbs l)(p \<mapsto> t), next_addr := p + 1,
                                main_tcb := Some p, running_tcb := Some p\<rparr>) })"

section \<open>Threads\<close>

definition new_tcb :: "env \<Rightarrow> int \<Rightarrow> timespec \<Rightarrow> nat \<Rightarrow> tcb" where
  "new_tcb e n now s = (e_junk e)\<lparr>t_id := word_of_int n, arrival_time := now, has_started := False, t_stack := Some s,
     t_state := READY, t_retval := 0, joined := False, elapsed_quanta := 0, priority := 0, time_slice := 1,
     time_used := 0, vruntime := 0\<rparr>"

text \<open>Lines 270 to 327, with the main thread set up; \<open>next_thread_id++\<close> must not overflow.\<close>

definition create_thread :: "policy \<Rightarrow> env \<Rightarrow> lib \<Rightarrow> u32 reply" where
  "create_thread pol e l =
     (if \<not> e_tcb e then Return (-1) None l
      else if next_thread_id l \<ge> 2 ^ 31 - 1 then Crash
      else let p = next_addr l;
               n = next_thread_id l;
               l = l\<lparr>next_addr := p + 1, next_thread_id := n + 1, thread_count := thread_count l + 1\<rparr>;
               (now, l) = clock_gettime l
           in if \<not> e_stack e then Return (-1) None l
              else let (s, l) = alloc_stack l
                   in if \<not> e_context e then Return (-1) None l
                      else let l = l\<lparr>tcbs := (tcbs l)(p \<mapsto> new_tcb e n now s)\<rparr>;
                               l = snd (add_thread_to_table p l)
                           in case add_to_scheduler pol p l of
                                None \<Rightarrow> Crash
                              | Some l \<Rightarrow> Return 0 (Some (word_of_int n)) l)"

definition worker_create :: "policy \<Rightarrow> env \<Rightarrow> lib \<Rightarrow> u32 reply" where
  "worker_create pol e l =
     (case (if main_tcb l = None then init_main_thread e l else Some l) of
        None \<Rightarrow> Exit
      | Some l \<Rightarrow> create_thread pol e l)"

definition worker_yield :: "lib \<Rightarrow> unit reply" where
  "worker_yield l = (case running_tcb l of
     None \<Rightarrow> Return (-1) None l
   | Some p \<Rightarrow> (case upd_tcb p (\<lambda>t. t\<lparr>t_state := READY\<rparr>) l of None \<Rightarrow> Crash | Some l \<Rightarrow> Switch l))"

text \<open>Lines 389 to 395: the thread that waits for the running thread \<open>p\<close> becomes ready.\<close>

definition wake_waiting :: "policy \<Rightarrow> nat \<Rightarrow> lib \<Rightarrow> lib option" where
  "wake_waiting pol p l =
     do { t \<leftarrow> tcbs l p;
          case waiting_thread t of
            None \<Rightarrow> Some l
          | Some w \<Rightarrow> do { l \<leftarrow> upd_tcb w (\<lambda>t. t\<lparr>t_state := READY\<rparr>) l;
                           l \<leftarrow> add_to_scheduler pol w l;
                           upd_tcb p (\<lambda>t. t\<lparr>waiting_thread := None\<rparr>) l } }"

text \<open>The averages (floating point) are left out.\<close>

definition worker_exit :: "policy \<Rightarrow> nat \<Rightarrow> lib \<Rightarrow> unit reply" where
  "worker_exit pol value_ptr l = (case running_tcb l of
     None \<Rightarrow> Exit
   | Some p \<Rightarrow>
       (case do { let (now, l) = clock_gettime l;
                  l \<leftarrow> upd_tcb p (\<lambda>t. t\<lparr>t_state := TERMINATED, t_retval := value_ptr, finish_time := now\<rparr>) l;
                  t \<leftarrow> tcbs l p;
                  wake_waiting pol p
                    (l\<lparr>thread_count := thread_count l - 1, completed_threads := completed_threads l + 1,
                       total_turnaround_time := total_turnaround_time l + time_diff_microseconds (arrival_time t) now,
                       total_response_time :=
                         total_response_time l + time_diff_microseconds (arrival_time t) (start_time t)\<rparr>) } of
          None \<Rightarrow> Crash
        | Some l \<Rightarrow> Switch l))"

text \<open>\<open>value_ptr\<close> is whether the out parameter is given.\<close>

definition finish_join :: "nat \<Rightarrow> bool \<Rightarrow> lib \<Rightarrow> nat reply" where
  "finish_join target value_ptr l =
     (case do { t \<leftarrow> tcbs l target;
                l \<leftarrow> cleanup_thread target l;
                Some (if value_ptr then Some (t_retval t) else None, l) } of
        None \<Rightarrow> Crash
      | Some (v, l) \<Rightarrow> Return 0 v l)"

definition worker_join :: "u32 \<Rightarrow> bool \<Rightarrow> lib \<Rightarrow> nat reply" where
  "worker_join thread value_ptr l = (case find_tcb_by_id thread l of
     None \<Rightarrow> Crash
   | Some None \<Rightarrow> Return (-1) None l
   | Some (Some target) \<Rightarrow> (case running_tcb l of
       None \<Rightarrow> Crash
     | Some p \<Rightarrow> (case (tcbs l p, tcbs l target) of
         (Some r, Some t) \<Rightarrow>
           if t_id r = thread then Return (-1) None l
           else if joined t then Return (-1) None l
           else (case upd_tcb target (\<lambda>t. t\<lparr>joined := True\<rparr>) l of
               None \<Rightarrow> Crash
             | Some l \<Rightarrow>
                 if t_state t = TERMINATED then finish_join target value_ptr l
                 else (case do { l \<leftarrow> upd_tcb p (\<lambda>t. t\<lparr>t_state := BLOCKED\<rparr>) l;
                                 upd_tcb target (\<lambda>t. t\<lparr>waiting_thread := Some p\<rparr>) l } of
                         None \<Rightarrow> Crash
                       | Some l \<Rightarrow> Switch l))
       | _ \<Rightarrow> Crash)))"

section \<open>Mutexes\<close>

record mutex =
  m_locked :: bool
  owner_tcb :: "nat option"
  wait_queue :: "nat list"

definition worker_mutex_init :: "mutex option \<Rightarrow> int \<times> mutex option" where
  "worker_mutex_init mutex = (case mutex of
     None \<Rightarrow> (-1, None)
   | Some m \<Rightarrow> (0, Some (m\<lparr>m_locked := False, owner_tcb := None, wait_queue := []\<rparr>)))"

text \<open>
  The lock loop up to its next \<open>swapcontext\<close>; a thread that is resumed inside it tests the flag
  again, so it runs this operation again.
\<close>

definition worker_mutex_lock :: "mutex option \<Rightarrow> lib \<Rightarrow> mutex option \<times> unit reply" where
  "worker_mutex_lock mutex l = (case mutex of
     None \<Rightarrow> (None, Return (-1) None l)
   | Some m \<Rightarrow>
       if m_locked m
       then (case do { p \<leftarrow> running_tcb l; t \<leftarrow> tcbs l p; Some (p, t) } of
               None \<Rightarrow> (mutex, Crash)
             | Some (p, t) \<Rightarrow>
                 if t_state t \<noteq> BLOCKED
                 then (Some (m\<lparr>wait_queue := put_last (wait_queue m) p\<rparr>),
                       case upd_tcb p (\<lambda>t. t\<lparr>t_state := BLOCKED\<rparr>) l of None \<Rightarrow> Crash | Some l \<Rightarrow> Switch l)
                 else (mutex, Switch l))
       else (Some (m\<lparr>m_locked := True, owner_tcb := running_tcb l\<rparr>), Return 0 None l))"

definition worker_mutex_unlock :: "policy \<Rightarrow> mutex option \<Rightarrow> lib \<Rightarrow> mutex option \<times> unit reply" where
  "worker_mutex_unlock pol mutex l = (case mutex of
     None \<Rightarrow> (None, Return (-1) None l)
   | Some m \<Rightarrow>
       if owner_tcb m \<noteq> running_tcb l then (mutex, Return (-1) None l)
       else let m = m\<lparr>owner_tcb := None, m_locked := False\<rparr>
            in (case take_first (wait_queue m) of
                  (None, _) \<Rightarrow> (Some m, Return 0 None l)
                | (Some w, ws) \<Rightarrow>
                    (Some (m\<lparr>wait_queue := ws\<rparr>),
                     case do { l \<leftarrow> upd_tcb w (\<lambda>t. t\<lparr>t_state := READY\<rparr>) l; add_to_scheduler pol w l } of
                       None \<Rightarrow> Crash
                     | Some l \<Rightarrow> Return 0 None l)))"

definition worker_mutex_destroy :: "mutex option \<Rightarrow> int \<times> mutex option" where
  "worker_mutex_destroy mutex = (case mutex of
     None \<Rightarrow> (-1, None)
   | Some m \<Rightarrow>
       if m_locked m then (-1, Some m)
       else (if wait_queue m \<noteq> [] then -1 else 0, Some (m\<lparr>m_locked := False\<rparr>)))"

end
