(* ===== verification/TH_Ready.thy ===== *)
theory TH_Ready
  imports TH_Calls
begin

text \<open>
  What the calls rely on in a scheduler: it keeps the ready threads as a multiset, adds a thread, and
  takes one out to run it. The round-robin queue and the two heaps satisfy this contract
  (interpretations of the locale \<open>run_queue\<close>).
\<close>

section \<open>The part of the state the calls work on\<close>

record core =
  c_id :: u32
  c_stack :: "nat option"
  c_state :: thread_state
  c_wait :: "nat option"
  c_joined :: bool

definition core :: "tcb \<Rightarrow> core" where
  "core t = \<lparr>c_id = t_id t, c_stack = t_stack t, c_state = t_state t, c_wait = waiting_thread t, c_joined = joined t\<rparr>"

definition cores :: "lib \<Rightarrow> nat \<Rightarrow> core option" where
  "cores l p = map_option core (tcbs l p)"

definition same_env :: "lib \<Rightarrow> lib \<Rightarrow> bool" where
  "same_env l l' \<longleftrightarrow> thread_table l' = thread_table l \<and> stacks l' = stacks l \<and> next_addr l' = next_addr l \<and>
     next_thread_id l' = next_thread_id l \<and> main_tcb l' = main_tcb l"

definition same_queues :: "lib \<Rightarrow> lib \<Rightarrow> bool" where
  "same_queues l l' \<longleftrightarrow> rr_queue l' = rr_queue l \<and> psjf_heap l' = psjf_heap l \<and>
     mlfq_levels l' = mlfq_levels l \<and> cfs_heap l' = cfs_heap l"

text \<open>\<open>same_but p f\<close>: only the block at \<open>p\<close> changed, its core by \<open>f\<close>.\<close>

definition same_but :: "nat \<Rightarrow> (core \<Rightarrow> core) \<Rightarrow> lib \<Rightarrow> lib \<Rightarrow> bool" where
  "same_but p f l l' \<longleftrightarrow> (\<exists>c. cores l p = Some c \<and> cores l' = (cores l)(p \<mapsto> f c)) \<and> same_env l l' \<and>
     same_queues l l' \<and> running_tcb l' = running_tcb l"

lemma same_env_refl [simp, intro]: "same_env l l"
  by (simp add: same_env_def)

lemma same_env_trans: "same_env l l' \<Longrightarrow> same_env l' l'' \<Longrightarrow> same_env l l''"
  by (simp add: same_env_def)

lemma same_queues_refl [simp, intro]: "same_queues l l"
  by (simp add: same_queues_def)

lemma same_queues_trans: "same_queues l l' \<Longrightarrow> same_queues l' l'' \<Longrightarrow> same_queues l l''"
  by (simp add: same_queues_def)

lemma upd_tcb_SomeE:
  assumes "upd_tcb p f l = Some l'"
  obtains t where "tcbs l p = Some t" "l' = l\<lparr>tcbs := (tcbs l)(p \<mapsto> f t)\<rparr>"
  using assms by (auto simp: upd_tcb_def split: Option.bind_splits)

lemma upd_tcb_same_but:
  assumes "upd_tcb p f l = Some l'" "\<And>t. core (f t) = g (core t)"
  shows "same_but p g l l'"
  using assms by (auto simp: upd_tcb_def same_but_def cores_def same_env_def same_queues_def fun_eq_iff
      split: Option.bind_splits)

lemma upd_tcb_core:
  assumes "upd_tcb p f l = Some l'" "\<And>t. core (f t) = core t"
  shows "cores l' = cores l \<and> same_env l l' \<and> same_queues l l' \<and> running_tcb l' = running_tcb l"
  using assms by (auto simp: upd_tcb_def cores_def same_env_def same_queues_def fun_eq_iff split: Option.bind_splits)

lemma core_simps [simp]:
  "core (t\<lparr>t_state := st\<rparr>) = (core t)\<lparr>c_state := st\<rparr>"
  "core (t\<lparr>joined := b\<rparr>) = (core t)\<lparr>c_joined := b\<rparr>"
  "core (t\<lparr>waiting_thread := w\<rparr>) = (core t)\<lparr>c_wait := w\<rparr>"
  "core (t\<lparr>t_retval := v\<rparr>) = core t"
  "core (t\<lparr>finish_time := now\<rparr>) = core t"
  "core (t\<lparr>start_time := now\<rparr>) = core t"
  "core (t\<lparr>has_started := b\<rparr>) = core t"
  "core (t\<lparr>elapsed_quanta := n\<rparr>) = core t"
  "core (t\<lparr>time_used := n\<rparr>) = core t"
  "core (t\<lparr>time_slice := n\<rparr>) = core t"
  "core (t\<lparr>priority := n\<rparr>) = core t"
  "core (t\<lparr>vruntime := n\<rparr>) = core t"
  "core (t\<lparr>last_start := now\<rparr>) = core t"
  "core (t\<lparr>cfs_timeslice := n\<rparr>) = core t"
  by (simp_all add: core_def)

lemma cores_eq [simp]: "tcbs l p = Some t \<Longrightarrow> cores l p = Some (core t)"
  by (simp add: cores_def)

lemma cores_SomeD: "cores l p = Some c \<Longrightarrow> \<exists>t. tcbs l p = Some t \<and> core t = c"
  by (auto simp: cores_def)

lemma core_sel [simp]:
  "c_id (core t) = t_id t" "c_stack (core t) = t_stack t" "c_state (core t) = t_state t"
  "c_wait (core t) = waiting_thread t" "c_joined (core t) = joined t"
  by (simp_all add: core_def)

section \<open>The ready threads\<close>

fun ready_rep :: "policy \<Rightarrow> lib \<Rightarrow> nat multiset \<Rightarrow> bool" where
  "ready_rep PSJF l M \<longleftrightarrow> (\<exists>ys. heap_rep (psjf_heap l) ys \<and> mset ys = M)"
| "ready_rep MLFQ l M \<longleftrightarrow> mset (concat (mlfq_levels l)) = M"
| "ready_rep CFS l M \<longleftrightarrow> (\<exists>ys. heap_rep (cfs_heap l) ys \<and> mset ys = M)"
| "ready_rep RR l M \<longleftrightarrow> mset (rr_queue l) = M"
| "ready_rep NoPolicy l M \<longleftrightarrow> M = {#}"

lemma ready_rep_cong: "same_queues l l' \<Longrightarrow> ready_rep pol l' M = ready_rep pol l M"
  by (cases pol) (simp_all add: same_queues_def)

locale run_queue =
  fixes pol :: policy
  assumes add_law: "ready_rep pol l M \<Longrightarrow> add_to_scheduler pol p l = Some l' \<Longrightarrow>
      ready_rep pol l' (add_mset p M) \<and> tcbs l' = tcbs l \<and> same_env l l' \<and> running_tcb l' = running_tcb l"
    and preempt_law: "ready_rep pol l M \<Longrightarrow> preempted pol p l = Some (Some l') \<Longrightarrow>
      ready_rep pol l' (add_mset p M) \<and> cores l' = cores l \<and> same_env l l' \<and> running_tcb l' = running_tcb l"
    and sched_law: "ready_rep pol l M \<Longrightarrow> sched pol l = Some (Run q l') \<Longrightarrow>
      \<exists>M' c. M = add_mset q M' \<and> ready_rep pol l' M' \<and> cores l q = Some c \<and>
        cores l' = (cores l)(q \<mapsto> c\<lparr>c_state := RUNNING\<rparr>) \<and> running_tcb l' = Some q \<and> same_env l l'"
begin

lemma schedule_law:
  assumes rep: "ready_rep pol l M" and run: "running_tcb l = Some p" and sch: "schedule pol l = Some (Run q l')"
  obtains c M1 cs M' d where "cores l p = Some c"
    "M1 = (if c_state c = RUNNING \<or> c_state c = READY then add_mset p M else M)"
    "cs = (if c_state c = RUNNING then (cores l)(p \<mapsto> c\<lparr>c_state := READY\<rparr>) else cores l)"
    "M1 = add_mset q M'" "ready_rep pol l' M'" "cs q = Some d" "cores l' = cs(q \<mapsto> d\<lparr>c_state := RUNNING\<rparr>)"
    "running_tcb l' = Some q" "same_env l l'"
proof -
  obtain l1 where acc: "account pol l = Some (Some l1)" and sd: "sched pol (count_switch l1) = Some (Run q l')"
    using sch by (auto simp: schedule_def split: option.splits)
  obtain t where t: "tcbs l p = Some t" using acc run by (auto simp: account_def split: option.splits)
  define M1 where "M1 = (if t_state t = RUNNING \<or> t_state t = READY then add_mset p M else M)"
  define cs where "cs = (if t_state t = RUNNING then (cores l)(p \<mapsto> (core t)\<lparr>c_state := READY\<rparr>) else cores l)"
  have l1: "ready_rep pol l1 M1 \<and> cores l1 = cs \<and> same_env l l1"
  proof (cases "t_state t")
    case RUNNING
    obtain l2 where l2: "upd_tcb p (\<lambda>t. t\<lparr>t_state := READY\<rparr>) l = Some l2" "preempted pol p l2 = Some (Some l1)"
      using acc run t RUNNING by (auto simp: account_def split: option.splits)
    have sb: "same_but p (\<lambda>c. c\<lparr>c_state := READY\<rparr>) l l2" by (rule upd_tcb_same_but [OF l2(1)]) simp
    then have "ready_rep pol l2 M" using rep ready_rep_cong [of l l2] by (simp add: same_but_def)
    from preempt_law [OF this l2(2)] show ?thesis
      using sb t RUNNING by (auto simp: same_but_def M1_def cs_def dest: same_env_trans)
  next
    case READY
    obtain l2 where l2: "upd_tcb p (\<lambda>t. t\<lparr>time_used := 0\<rparr>) l = Some l2" "add_to_scheduler pol p l2 = Some l1"
      using acc run t READY by (auto simp: account_def split: Option.bind_splits)
    have sc: "cores l2 = cores l \<and> same_env l l2 \<and> same_queues l l2 \<and> running_tcb l2 = running_tcb l"
      by (rule upd_tcb_core [OF l2(1)]) simp
    then have "ready_rep pol l2 M" using rep ready_rep_cong [of l l2] by simp
    from add_law [OF this l2(2)] show ?thesis
      using sc READY by (auto simp: M1_def cs_def cores_def fun_eq_iff dest: same_env_trans)
  next
    case BLOCKED
    then show ?thesis using acc run t rep by (auto simp: account_def M1_def cs_def)
  next
    case TERMINATED
    then have "l1 = l\<lparr>running_tcb := None\<rparr>" using acc run t by (simp add: account_def)
    then show ?thesis
      using TERMINATED rep ready_rep_cong [of l l1 pol M]
      by (simp add: M1_def cs_def cores_def fun_eq_iff same_env_def same_queues_def)
  qed
  have cs1: "ready_rep pol (count_switch l1) M1" "cores (count_switch l1) = cores l1" "same_env l1 (count_switch l1)"
    using l1 ready_rep_cong [of l1 "count_switch l1" pol M1]
    by (simp_all add: count_switch_def cores_def fun_eq_iff same_env_def same_queues_def)
  obtain M' d where S: "M1 = add_mset q M'" "ready_rep pol l' M'" "cores l1 q = Some d"
    "cores l' = (cores l1)(q \<mapsto> d\<lparr>c_state := RUNNING\<rparr>)" "running_tcb l' = Some q" "same_env (count_switch l1) l'"
    using sched_law [OF cs1(1) sd] unfolding cs1(2) by blast
  show thesis
  proof (rule that)
    show "cores l p = Some (core t)" using t by simp
    show "M1 = (if c_state (core t) = RUNNING \<or> c_state (core t) = READY then add_mset p M else M)" by (simp add: M1_def)
    show "cs = (if c_state (core t) = RUNNING then (cores l)(p \<mapsto> (core t)\<lparr>c_state := READY\<rparr>) else cores l)"
      by (simp add: cs_def)
    show "cs q = Some d" "cores l' = cs(q \<mapsto> d\<lparr>c_state := RUNNING\<rparr>)" using S(3,4) l1 by simp_all
    show "same_env l l'" using l1 cs1(3) S(6) same_env_trans by blast
  qed (use S in simp_all)
qed

end

section \<open>Round robin and the heaps\<close>

lemma begin_run_same_but:
  assumes "begin_run p l = Some l'"
  shows "same_but p (\<lambda>c. c\<lparr>c_state := RUNNING\<rparr>) l l'"
proof -
  obtain l1 t where l1: "upd_tcb p (\<lambda>t. t\<lparr>t_state := RUNNING\<rparr>) l = Some l1" "tcbs l1 p = Some t"
    and l': "(if has_started t then Some l1 else case clock_gettime l1 of
        (now, l) \<Rightarrow> upd_tcb p (\<lambda>t. t\<lparr>start_time := now, has_started := True\<rparr>) l) = Some l'"
    using assms unfolding begin_run_def by (auto split: Option.bind_splits)
  have sb: "same_but p (\<lambda>c. c\<lparr>c_state := RUNNING\<rparr>) l l1" by (rule upd_tcb_same_but [OF l1(1)]) simp
  show ?thesis
  proof (cases "has_started t")
    case True
    then show ?thesis using sb l' by simp
  next
    case False
    have "cores l' = cores l1 \<and> same_env l1 l' \<and> same_queues l1 l' \<and> running_tcb l' = running_tcb l1"
      using l' False by (auto simp: clock_gettime_def upd_tcb_def cores_def fun_eq_iff same_env_def same_queues_def split: Option.bind_splits)
    then show ?thesis using sb by (auto simp: same_but_def dest: same_env_trans same_queues_trans)
  qed
qed

text \<open>What a scheduler does once it has taken the thread \<open>p\<close> out of its queue.\<close>

definition dispatched :: "policy \<Rightarrow> lib \<Rightarrow> nat multiset \<Rightarrow> nat \<Rightarrow> lib \<Rightarrow> bool" where
  "dispatched pol l M q l' \<longleftrightarrow> (\<exists>M' c. M = add_mset q M' \<and> ready_rep pol l' M' \<and> cores l q = Some c \<and>
     cores l' = (cores l)(q \<mapsto> c\<lparr>c_state := RUNNING\<rparr>) \<and> running_tcb l' = Some q \<and> same_env l l')"

lemma dispatchedI:
  assumes taken: "ready_rep pol l1 M'" "cores l1 = cores l" "same_env l l1"
    and run: "same_but p (\<lambda>c. c\<lparr>c_state := RUNNING\<rparr>) l1 l2"
  shows "dispatched pol l (add_mset p M') p (l2\<lparr>running_tcb := Some p\<rparr>)"
proof -
  have "ready_rep pol (l2\<lparr>running_tcb := Some p\<rparr>) M'"
    using taken(1) run ready_rep_cong [of l1 "l2\<lparr>running_tcb := Some p\<rparr>" pol M']
    by (simp add: same_but_def same_queues_def)
  moreover have "cores (l2\<lparr>running_tcb := Some p\<rparr>) = cores l2" by (simp add: cores_def fun_eq_iff)
  moreover have "same_env l (l2\<lparr>running_tcb := Some p\<rparr>)"
    using taken(3) run by (simp add: same_but_def same_env_def)
  ultimately show ?thesis using run taken(2) by (auto simp: dispatched_def same_but_def)
qed

lemma resume_SomeD: "resume p r = Run q l' \<Longrightarrow> \<exists>l. q = p \<and> r = Some l \<and> l' = l\<lparr>running_tcb := Some p\<rparr>"
  by (auto simp: resume_def split: option.splits)

lemma to_main_not_Run [simp]: "to_main l \<noteq> Run q l'"
  by (simp add: to_main_def)

lemma count_switch_same_but: "same_but p f l l1 \<Longrightarrow> same_but p f l (count_switch l1)"
  by (auto simp: same_but_def count_switch_def cores_def fun_eq_iff same_env_def same_queues_def)

lemma sched_rr_law:
  assumes "sched_rr l = Some r"
  shows "r = Run q l' \<longrightarrow> mset (rr_queue l) = M \<longrightarrow> dispatched RR l M q l'"
proof (rule sched_rr.raw_induct [OF _ assms, where P = "\<lambda>l r. r = Run q l' \<longrightarrow> mset (rr_queue l) = M \<longrightarrow> dispatched RR l M q l'"],
    goal_cases)
  case (1 f l r)
  show ?case
  proof (intro impI)
    assume r: "r = Run q l'" and M: "mset (rr_queue l) = M"
    show "dispatched RR l M q l'"
    proof (cases "rr_queue l")
      case Nil
      have "f (l\<lparr>rr_queue := []\<rparr>) = Some r" using 1(2) Nil r by (auto simp: Let_def split: if_splits option.splits)
      moreover have "l\<lparr>rr_queue := []\<rparr> = l" using Nil by (cases l) simp
      ultimately have "f l = Some r" by (simp only:)
      then show ?thesis using 1(1) r M by blast
    next
      case (Cons p q')
      obtain l2 where l2: "q = p" "begin_run p (l\<lparr>rr_queue := q'\<rparr>) = Some l2" "l' = l2\<lparr>running_tcb := Some p\<rparr>"
        using 1(2) Cons r by (auto simp: Let_def dest!: resume_SomeD)
      have "dispatched RR l (add_mset p (mset q')) p l'"
        unfolding l2(3)
        by (rule dispatchedI [OF _ _ _ begin_run_same_but [OF l2(2)]])
          (simp_all add: cores_def fun_eq_iff same_env_def)
      then show ?thesis using M Cons l2(1) by simp
    qed
  qed
qed

interpretation rr: run_queue RR
proof
  fix l M p l'
  assume "ready_rep RR l M" "add_to_scheduler RR p l = Some l'"
  then show "ready_rep RR l' (add_mset p M) \<and> tcbs l' = tcbs l \<and> same_env l l' \<and> running_tcb l' = running_tcb l"
    by (auto simp: add_to_scheduler_def put_last_def same_env_def)
next
  fix l M p l'
  assume rep: "ready_rep RR l M" and pre: "preempted RR p l = Some (Some l')"
  obtain l1 where l1: "upd_tcb p (\<lambda>t. t\<lparr>elapsed_quanta := elapsed_quanta t + 1\<rparr>) l = Some l1"
    "l' = l1\<lparr>rr_queue := put_last (rr_queue l1) p\<rparr>"
    using pre by (auto simp: preempted_def add_to_scheduler_def split: Option.bind_splits)
  have "cores l1 = cores l \<and> same_env l l1 \<and> same_queues l l1 \<and> running_tcb l1 = running_tcb l"
    by (rule upd_tcb_core [OF l1(1)]) simp
  then show "ready_rep RR l' (add_mset p M) \<and> cores l' = cores l \<and> same_env l l' \<and> running_tcb l' = running_tcb l"
    using rep by (auto simp: l1(2) put_last_def same_env_def same_queues_def cores_def fun_eq_iff)
next
  fix l M q l'
  assume "ready_rep RR l M" "sched RR l = Some (Run q l')"
  then show "\<exists>M' c. M = add_mset q M' \<and> ready_rep RR l' M' \<and> cores l q = Some c \<and>
      cores l' = (cores l)(q \<mapsto> c\<lparr>c_state := RUNNING\<rparr>) \<and> running_tcb l' = Some q \<and> same_env l l'"
    using sched_rr_law by (auto simp: sched_def dispatched_def)
qed

text \<open>The two heap policies.\<close>

lemma heap_push_ready:
  assumes "heap_push cmp h p = Some h'" "\<exists>ys. heap_rep h ys \<and> mset ys = M"
  shows "\<exists>ys. heap_rep h' ys \<and> mset ys = add_mset p M"
  using assms(2) heap_push_elems [OF assms(1)] by blast

lemma heap_pop_ready:
  assumes "heap_pop cmp h = Some (r, h')" "\<exists>ys. heap_rep h ys \<and> mset ys = M"
  obtains p M' where "r = Some p" "\<exists>ys. heap_rep h' ys \<and> mset ys = M'" "M = add_mset p M'"
  using assms(2) heap_pop_elems [OF assms(1)] by blast

interpretation psjf: run_queue PSJF
proof
  fix l M p l'
  assume "ready_rep PSJF l M" "add_to_scheduler PSJF p l = Some l'"
  then show "ready_rep PSJF l' (add_mset p M) \<and> tcbs l' = tcbs l \<and> same_env l l' \<and> running_tcb l' = running_tcb l"
    using heap_push_ready [of _ _ p _ M] by (auto simp: add_to_scheduler_def same_env_def split: Option.bind_splits; blast)
next
  fix l M p l'
  assume rep: "ready_rep PSJF l M" and pre: "preempted PSJF p l = Some (Some l')"
  obtain l1 h where l1: "upd_tcb p (\<lambda>t. t\<lparr>elapsed_quanta := elapsed_quanta t + 1\<rparr>) l = Some l1"
    "heap_push (on_tcbs psjf_cmp l1) (psjf_heap l1) p = Some h" "l' = l1\<lparr>psjf_heap := h\<rparr>"
    using pre by (auto simp: preempted_def add_to_scheduler_def split: Option.bind_splits)
  have "cores l1 = cores l \<and> same_env l l1 \<and> same_queues l l1 \<and> running_tcb l1 = running_tcb l"
    by (rule upd_tcb_core [OF l1(1)]) simp
  then show "ready_rep PSJF l' (add_mset p M) \<and> cores l' = cores l \<and> same_env l l' \<and> running_tcb l' = running_tcb l"
    using rep heap_push_ready [OF l1(2)] by (auto simp: l1(3) same_env_def same_queues_def cores_def fun_eq_iff)
next
  fix l M q l'
  assume rep: "ready_rep PSJF l M" and "sched PSJF l = Some (Run q l')"
  then have run: "sched_psjf l = Some (Run q l')" by (simp add: sched_def)
  obtain r h where pop: "heap_pop (on_tcbs psjf_cmp l) (psjf_heap l) = Some (r, h)"
    using run by (subst (asm) sched_psjf.simps) (auto split: option.splits)
  have "\<exists>ys. heap_rep (psjf_heap l) ys \<and> mset ys = M" using rep by simp
  then obtain p M' where p: "r = Some p" "\<exists>ys. heap_rep h ys \<and> mset ys = M'" "M = add_mset p M'"
    by (rule heap_pop_ready [OF pop])
  obtain l2 where l2: "q = p" "begin_run p (l\<lparr>psjf_heap := h\<rparr>) = Some l2" "l' = count_switch l2\<lparr>running_tcb := Some p\<rparr>"
    using run pop p(1) by (subst (asm) sched_psjf.simps) (auto simp: Let_def dest!: resume_SomeD)
  have "dispatched PSJF l (add_mset p M') p l'"
    unfolding l2(3)
    by (rule dispatchedI [OF _ _ _ count_switch_same_but [OF begin_run_same_but [OF l2(2)]]])
      (use p(2) in \<open>simp_all add: cores_def fun_eq_iff same_env_def\<close>)
  then show "\<exists>M' c. M = add_mset q M' \<and> ready_rep PSJF l' M' \<and> cores l q = Some c \<and>
      cores l' = (cores l)(q \<mapsto> c\<lparr>c_state := RUNNING\<rparr>) \<and> running_tcb l' = Some q \<and> same_env l l'"
    by (simp add: dispatched_def l2(1) p(3))
qed

lemma cfs_run_same_but:
  assumes "cfs_run p us l = Some l'"
  shows "same_but p (\<lambda>c. c\<lparr>c_state := RUNNING\<rparr>) l l'"
proof -
  obtain l1 l2 where l1: "begin_run p l = Some l1"
    "upd_tcb p (\<lambda>t. t\<lparr>last_start := clk l1 (reads l1)\<rparr>) (l1\<lparr>reads := reads l1 + 1\<rparr>) = Some l2"
    "l' = count_switch (set_timer us l2)"
    using assms by (auto simp: cfs_run_def clock_gettime_def split: Option.bind_splits)
  have "cores l' = cores l1 \<and> same_env l1 l' \<and> same_queues l1 l' \<and> running_tcb l' = running_tcb l1"
    using l1(2) by (auto simp: l1(3) count_switch_def set_timer_def upd_tcb_def cores_def fun_eq_iff same_env_def same_queues_def
        split: Option.bind_splits)
  then show ?thesis
    using begin_run_same_but [OF l1(1)] by (auto simp: same_but_def dest: same_env_trans same_queues_trans)
qed

interpretation cfs: run_queue CFS
proof
  fix l M p l'
  assume "ready_rep CFS l M" "add_to_scheduler CFS p l = Some l'"
  then show "ready_rep CFS l' (add_mset p M) \<and> tcbs l' = tcbs l \<and> same_env l l' \<and> running_tcb l' = running_tcb l"
    using heap_push_ready [of _ _ p _ M] by (auto simp: add_to_scheduler_def same_env_def split: Option.bind_splits; blast)
next
  fix l M p l'
  assume rep: "ready_rep CFS l M" and pre: "preempted CFS p l = Some (Some l')"
  obtain l1 h where l1: "update_vruntime p l = Some l1"
    "heap_push (on_tcbs cfs_cmp l1) (cfs_heap l1) p = Some h" "l' = l1\<lparr>cfs_heap := h\<rparr>"
    using pre by (auto simp: preempted_def add_to_scheduler_def split: Option.bind_splits)
  have "cores l1 = cores l \<and> same_env l l1 \<and> same_queues l l1 \<and> running_tcb l1 = running_tcb l"
    using l1(1) by (auto simp: update_vruntime_def clock_gettime_def upd_tcb_def cores_def fun_eq_iff same_env_def
        same_queues_def split: Option.bind_splits)
  then show "ready_rep CFS l' (add_mset p M) \<and> cores l' = cores l \<and> same_env l l' \<and> running_tcb l' = running_tcb l"
    using rep heap_push_ready [OF l1(2)] by (auto simp: l1(3) same_env_def same_queues_def cores_def fun_eq_iff)
next
  fix l M q l'
  assume rep: "ready_rep CFS l M" and "sched CFS l = Some (Run q l')"
  then have run: "sched_cfs l = Some (Run q l')" by (simp add: sched_def)
  obtain us l1 where l1: "calculate_timeslice_cfs (running_tcb l) l = Some (us, l1)"
    using run by (subst (asm) sched_cfs.simps) (auto split: option.splits)
  have same: "cores l1 = cores l \<and> same_env l l1 \<and> same_queues l l1 \<and> running_tcb l1 = running_tcb l"
    using l1 by (auto simp: calculate_timeslice_cfs_def Let_def upd_tcb_def cores_def fun_eq_iff same_env_def
        same_queues_def split: Option.bind_splits)
  obtain r h where pop: "heap_pop (on_tcbs cfs_cmp l1) (cfs_heap l1) = Some (r, h)"
    using run l1 by (subst (asm) sched_cfs.simps) (auto split: option.splits)
  have "\<exists>ys. heap_rep (cfs_heap l1) ys \<and> mset ys = M" using rep same by (simp add: same_queues_def)
  then obtain p M' where p: "r = Some p" "\<exists>ys. heap_rep h ys \<and> mset ys = M'" "M = add_mset p M'"
    by (rule heap_pop_ready [OF pop])
  obtain l2 where l2: "q = p" "cfs_run p us (l1\<lparr>cfs_heap := h\<rparr>) = Some l2" "l' = l2\<lparr>running_tcb := Some p\<rparr>"
    using run l1 pop p(1) by (subst (asm) sched_cfs.simps) (auto simp: Let_def dest!: resume_SomeD)
  have "cores (l1\<lparr>cfs_heap := h\<rparr>) = cores l" using same by (simp add: cores_def fun_eq_iff)
  moreover have "same_env l (l1\<lparr>cfs_heap := h\<rparr>)" using same by (simp add: same_env_def)
  ultimately have "dispatched CFS l (add_mset p M') p l'"
    unfolding l2(3)
    by (intro dispatchedI [OF _ _ _ cfs_run_same_but [OF l2(2)]]) (use p(2) in simp_all)
  then show "\<exists>M' c. M = add_mset q M' \<and> ready_rep CFS l' M' \<and> cores l q = Some c \<and>
      cores l' = (cores l)(q \<mapsto> c\<lparr>c_state := RUNNING\<rparr>) \<and> running_tcb l' = Some q \<and> same_env l l'"
    by (simp add: dispatched_def l2(1) p(3))
qed

end
