(* ===== verification/TH_Inv.thy ===== *)
theory TH_Inv
  imports TH_Ready
begin

text \<open>
  The invariant of the thread library, over the cores of the thread blocks, the multiset of ready
  threads, the wait queues of the mutexes and what each thread goes on with when it is resumed; with a
  lemma for each change a call makes.
\<close>

text \<open>
  What a thread does when it is resumed: its own code, the rest of a \<open>worker_join\<close> of the thread at an
  address (and whether it asked for the value), or the lock loop of a mutex.
\<close>

datatype pending = Idle | Joining nat bool | Locking nat

type_synonym core_map = "nat \<Rightarrow> core option"

definition has_state :: "core_map \<Rightarrow> nat \<Rightarrow> thread_state \<Rightarrow> bool" where
  "has_state cs p st \<longleftrightarrow> (\<exists>c. cs p = Some c \<and> c_state c = st)"

definition waiter :: "core_map \<Rightarrow> nat \<Rightarrow> nat option" where
  "waiter cs t = (case cs t of None \<Rightarrow> None | Some c \<Rightarrow> c_wait c)"

definition is_joined :: "core_map \<Rightarrow> nat \<Rightarrow> bool" where
  "is_joined cs t \<longleftrightarrow> (\<exists>c. cs t = Some c \<and> c_joined c)"

definition alive :: "core_map \<Rightarrow> nat \<Rightarrow> bool" where
  "alive cs p \<longleftrightarrow> cs p \<noteq> None"

section \<open>Blocked threads\<close>

text \<open>
  Every blocked thread is where a later call finds it: in the wait queue of the mutex it locks, or as
  the waiting thread of the thread it joins. A thread that is back from a \<open>worker_join\<close> has a
  terminated target, which only it will free.
\<close>

definition waits_ok :: "core_map \<Rightarrow> (nat \<Rightarrow> nat list) \<Rightarrow> (nat \<Rightarrow> pending) \<Rightarrow> bool" where
  "waits_ok cs W pd \<longleftrightarrow>
     (\<forall>t w. waiter cs t = Some w \<longrightarrow> \<not> has_state cs t TERMINATED \<and> has_state cs w BLOCKED \<and> (\<exists>vp. pd w = Joining t vp)) \<and>
     (\<forall>p. has_state cs p BLOCKED \<longrightarrow>
        (\<exists>t vp. pd p = Joining t vp \<and> waiter cs t = Some p) \<or> (\<exists>m. pd p = Locking m \<and> p \<in> set (W m))) \<and>
     (\<forall>m p. p \<in> set (W m) \<longrightarrow> pd p = Locking m \<and> has_state cs p BLOCKED) \<and>
     (\<forall>m. distinct (W m)) \<and>
     (\<forall>p t vp. pd p = Joining t vp \<longrightarrow> is_joined cs t \<and> (has_state cs p BLOCKED \<or> has_state cs t TERMINATED)) \<and>
     (\<forall>p q t vp vq. pd p = Joining t vp \<longrightarrow> pd q = Joining t vq \<longrightarrow> p = q) \<and>
     (\<forall>p. pd p \<noteq> Idle \<longrightarrow> alive cs p \<and> \<not> has_state cs p TERMINATED)"

lemma waits_okD:
  assumes "waits_ok cs W pd"
  shows "waiter cs t = Some w \<Longrightarrow> \<not> has_state cs t TERMINATED" "waiter cs t = Some w \<Longrightarrow> has_state cs w BLOCKED"
    "waiter cs t = Some w \<Longrightarrow> \<exists>vp. pd w = Joining t vp"
    "has_state cs p BLOCKED \<Longrightarrow> (\<exists>t vp. pd p = Joining t vp \<and> waiter cs t = Some p) \<or> (\<exists>m. pd p = Locking m \<and> p \<in> set (W m))"
    "p \<in> set (W m) \<Longrightarrow> pd p = Locking m" "p \<in> set (W m) \<Longrightarrow> has_state cs p BLOCKED" "distinct (W m)"
    "pd p = Joining t vp \<Longrightarrow> is_joined cs t" "pd p = Joining t vp \<Longrightarrow> has_state cs p BLOCKED \<or> has_state cs t TERMINATED"
    "pd p = Joining t vp \<Longrightarrow> pd q = Joining t vq \<Longrightarrow> p = q"
    "pd p \<noteq> Idle \<Longrightarrow> alive cs p" "pd p \<noteq> Idle \<Longrightarrow> \<not> has_state cs p TERMINATED"
  using assms unfolding waits_ok_def by blast+

lemma has_state_fun: "has_state cs p a \<Longrightarrow> has_state cs p b \<Longrightarrow> a = b"
  by (auto simp: has_state_def)

text \<open>Running and ready are the same to the waits.\<close>

lemma waits_ok_cong:
  assumes "waits_ok cs W pd"
    and "\<And>p. waiter cs' p = waiter cs p" "\<And>p. is_joined cs p \<Longrightarrow> is_joined cs' p" "\<And>p. alive cs p \<Longrightarrow> alive cs' p"
    "\<And>p. has_state cs' p BLOCKED = has_state cs p BLOCKED" "\<And>p. has_state cs' p TERMINATED = has_state cs p TERMINATED"
  shows "waits_ok cs' W pd"
  using assms unfolding waits_ok_def by simp

lemma view_upd [simp]:
  "cs p = Some c \<Longrightarrow> waiter (cs(p \<mapsto> c\<lparr>c_state := st\<rparr>)) = waiter cs"
  "cs p = Some c \<Longrightarrow> is_joined (cs(p \<mapsto> c\<lparr>c_state := st\<rparr>)) = is_joined cs"
  "alive (cs(p \<mapsto> d)) q \<longleftrightarrow> q = p \<or> alive cs q"
  "has_state (cs(p \<mapsto> d)) q st \<longleftrightarrow> (if q = p then c_state d = st else has_state cs q st)"
  "waiter (cs(p \<mapsto> d)) q = (if q = p then c_wait d else waiter cs q)"
  "is_joined (cs(p \<mapsto> d)) q \<longleftrightarrow> (if q = p then c_joined d else is_joined cs q)"
  by (auto simp: waiter_def is_joined_def alive_def has_state_def fun_eq_iff)

lemma view_at:
  assumes "cs p = Some c"
  shows "waiter cs p = c_wait c" "is_joined cs p = c_joined c" "alive cs p" "has_state cs p st \<longleftrightarrow> c_state c = st"
  using assms by (auto simp: waiter_def is_joined_def alive_def has_state_def)

section \<open>Threads\<close>

text \<open>
  On the way into the scheduler the thread \<open>p\<close> was running: it is not in the queue yet. In between, a
  thread that is \<open>READY\<close> is in the queue once, and only such a thread.
\<close>

definition entering :: "core_map \<Rightarrow> nat \<Rightarrow> nat multiset \<Rightarrow> (nat \<Rightarrow> nat list) \<Rightarrow> (nat \<Rightarrow> pending) \<Rightarrow> bool" where
  "entering cs p M W pd \<longleftrightarrow> alive cs p \<and> (\<forall>q. has_state cs q RUNNING \<longrightarrow> q = p) \<and>
     (\<forall>q. count M q = (if q \<noteq> p \<and> has_state cs q READY then 1 else 0)) \<and> waits_ok cs W pd"

lemma enteringD:
  assumes "entering cs p M W pd"
  shows "alive cs p" "has_state cs q RUNNING \<Longrightarrow> q = p" "count M q = (if q \<noteq> p \<and> has_state cs q READY then 1 else 0)"
    "waits_ok cs W pd"
  using assms unfolding entering_def by blast+

definition threads_ok :: "core_map \<Rightarrow> nat option \<Rightarrow> nat multiset \<Rightarrow> (nat \<Rightarrow> nat list) \<Rightarrow> (nat \<Rightarrow> pending) \<Rightarrow> bool" where
  "threads_ok cs run M W pd \<longleftrightarrow> (\<exists>p. run = Some p \<and> has_state cs p RUNNING \<and> entering cs p M W pd)"

lemma threads_ok_dispatch:
  assumes ent: "entering cs p M W pd" and c: "cs p = Some c"
    and M1: "M1 = (if c_state c = RUNNING \<or> c_state c = READY then add_mset p M else M)"
    and cs1: "cs1 = (if c_state c = RUNNING then cs(p \<mapsto> c\<lparr>c_state := READY\<rparr>) else cs)"
    and q: "M1 = add_mset q M'" "cs1 q = Some d"
  shows "threads_ok (cs1(q \<mapsto> d\<lparr>c_state := RUNNING\<rparr>)) (Some q) M' W pd"
proof -
  let ?cs = "cs1(q \<mapsto> d\<lparr>c_state := RUNNING\<rparr>)"
  have E: "\<And>q. has_state cs q RUNNING \<Longrightarrow> q = p" "\<And>q. count M q = (if q \<noteq> p \<and> has_state cs q READY then 1 else 0)"
    "waits_ok cs W pd" using ent by (auto simp: entering_def)
  have pst: "has_state cs p st \<longleftrightarrow> c_state c = st" for st using c by (simp add: has_state_def)
  have norun: "\<not> has_state cs1 r RUNNING" for r using E(1) [of r] pst by (auto simp: cs1)
  have cnt: "count M1 r = (if has_state cs1 r READY then 1 else 0)" for r
    using E(2) [of r] pst by (cases "c_state c"; cases "r = p") (auto simp: M1 cs1)
  have "has_state cs1 q READY" using cnt [of q] q(1) by (simp split: if_splits)
  then have d: "c_state d = READY" using q(2) by (simp add: has_state_def)
  have same: "waiter cs1 r = waiter cs r" "is_joined cs1 r = is_joined cs r" "alive cs1 r = alive cs r"
    "has_state cs1 r BLOCKED = has_state cs r BLOCKED" "has_state cs1 r TERMINATED = has_state cs r TERMINATED" for r
    using c by (auto simp: cs1 has_state_def alive_def)
  have "waits_ok ?cs W pd"
    by (rule waits_ok_cong [OF E(3)]) (auto simp: same [symmetric] d view_at [of cs1 q, OF q(2)])
  moreover have "count M' r = (if r \<noteq> q \<and> has_state ?cs r READY then 1 else 0)" for r
    using cnt [of r] q(1) by (auto split: if_splits)
  ultimately show ?thesis using norun by (auto simp: threads_ok_def entering_def)
qed

lemma threads_okE:
  assumes "threads_ok cs run M W pd"
  obtains p c where "run = Some p" "cs p = Some c" "c_state c = RUNNING" "entering cs p M W pd"
  using assms by (auto simp: threads_ok_def has_state_def)

text \<open>The changes of the calls.\<close>

lemma entering_tick:
  "threads_ok cs (Some p) M W pd \<Longrightarrow> entering cs p M W pd"
  by (auto simp: threads_ok_def)

lemma entering_yield:
  assumes "threads_ok cs (Some p) M W pd" and c: "cs p = Some c"
  shows "entering (cs(p \<mapsto> c\<lparr>c_state := READY\<rparr>)) p M W pd"
proof -
  have ent: "entering cs p M W pd" and r: "c_state c = RUNNING"
    using assms by (auto simp: threads_ok_def has_state_def)
  have "waits_ok (cs(p \<mapsto> c\<lparr>c_state := READY\<rparr>)) W pd"
    by (rule waits_ok_cong [of cs]) (use ent in \<open>simp_all add: entering_def r c view_at [of cs p, OF c]\<close>)
  then show ?thesis using ent by (auto simp: entering_def)
qed

lemma entering_lock:
  assumes "threads_ok cs (Some p) M W pd" and c: "cs p = Some c" and pd: "pd p = Idle \<or> pd p = Locking m"
  shows "entering (cs(p \<mapsto> c\<lparr>c_state := BLOCKED\<rparr>)) p M (W(m := W m @ [p])) (pd(p := Locking m))"
proof -
  have ent: "entering cs p M W pd" and r: "c_state c = RUNNING"
    using assms by (auto simp: threads_ok_def has_state_def)
  have w: "waits_ok cs W pd" using ent by (simp add: entering_def)
  note D = waits_okD [OF w]
  let ?cs = "cs(p \<mapsto> c\<lparr>c_state := BLOCKED\<rparr>)" and ?W = "W(m := W m @ [p])" and ?pd = "pd(p := Locking m)"
  have nw: "waiter cs t \<noteq> Some p" for t using D(2) [of t p] r view_at [of cs p, OF c] by auto
  have nin: "p \<notin> set (W k)" for k using D(6) [of p k] r view_at [of cs p, OF c] by auto
  have "waits_ok ?cs ?W ?pd"
    unfolding waits_ok_def
  proof (intro conjI allI impI)
    fix t w' assume "waiter ?cs t = Some w'"
    then have t: "waiter cs t = Some w'" using view_at [of cs p, OF c] by (auto split: if_splits)
    then have "w' \<noteq> p" using nw by auto
    then show "has_state ?cs w' BLOCKED" "\<exists>vp. ?pd w' = Joining t vp" using D(2,3) [OF t] by auto
    show "\<not> has_state ?cs t TERMINATED" using D(1) [OF t] by auto
  next
    fix q assume "has_state ?cs q BLOCKED"
    then show "(\<exists>t vp. ?pd q = Joining t vp \<and> waiter ?cs t = Some q) \<or> (\<exists>k. ?pd q = Locking k \<and> q \<in> set (?W k))"
      using D(4) [of q] view_at [of cs p, OF c] by (cases "q = p") auto
  next
    fix k q assume "q \<in> set (?W k)"
    then show "?pd q = Locking k" "has_state ?cs q BLOCKED" using D(5,6) [of q k] nin [of k] by (auto split: if_splits)
  next
    fix k show "distinct (?W k)" using D(7) [of k] D(7) [of m] nin by auto
  next
    fix q t vp assume "?pd q = Joining t vp"
    then have q: "pd q = Joining t vp" "q \<noteq> p" by (auto split: if_splits)
    have "t \<noteq> p \<or> \<not> has_state cs t TERMINATED" using r view_at [of cs p, OF c] by auto
    then show "is_joined ?cs t" "has_state ?cs q BLOCKED \<or> has_state ?cs t TERMINATED"
      using D(8,9) [OF q(1)] q(2) view_at [of cs p, OF c] by auto
  next
    fix q q' t vp vq assume "?pd q = Joining t vp" "?pd q' = Joining t vq"
    then show "q = q'" using D(10) by (auto split: if_splits)
  next
    fix q assume "?pd q \<noteq> Idle"
    then show "alive ?cs q" "\<not> has_state ?cs q TERMINATED" using D(11,12) [of q] by (auto split: if_splits)
  qed
  then show ?thesis using ent by (auto simp: entering_def)
qed

lemma entering_join:
  assumes "threads_ok cs (Some p) M W pd" and c: "cs p = Some c" and pd: "pd p = Idle"
    and d: "cs t = Some d" "t \<noteq> p" "\<not> c_joined d" "c_state d \<noteq> TERMINATED"
  shows "entering (cs(p \<mapsto> c\<lparr>c_state := BLOCKED\<rparr>, t \<mapsto> d\<lparr>c_joined := True, c_wait := Some p\<rparr>)) p M W (pd(p := Joining t vp))"
proof -
  have ent: "entering cs p M W pd" and r: "c_state c = RUNNING"
    using assms by (auto simp: threads_ok_def has_state_def)
  have w: "waits_ok cs W pd" using ent by (simp add: entering_def)
  note D = waits_okD [OF w]
  let ?cs = "cs(p \<mapsto> c\<lparr>c_state := BLOCKED\<rparr>, t \<mapsto> d\<lparr>c_joined := True, c_wait := Some p\<rparr>)" and ?pd = "pd(p := Joining t vp)"
  have nw: "waiter cs k \<noteq> Some p" for k using D(2) [of k p] r view_at [of cs p, OF c] by auto
  have nin: "p \<notin> set (W k)" for k using D(6) [of p k] r view_at [of cs p, OF c] by auto
  have nj: "pd q \<noteq> Joining t v" for q v using D(8) [of q t v] d(3) view_at [of cs t, OF d(1)] by auto
  have st: "has_state ?cs q s = (if q = p then s = BLOCKED else has_state cs q s)" for q s
    using d(2) view_at [of cs t, OF d(1)] by auto
  have wt: "waiter ?cs k = (if k = t then Some p else waiter cs k)" for k
    using d(2) view_at [of cs p, OF c] by auto
  have jn: "is_joined ?cs k = (k = t \<or> is_joined cs k)" for k using d(2) view_at [of cs p, OF c] by auto
  have waits: "waiter cs t = None" using D(3) [of t] nj by (cases "waiter cs t") auto
  have "waits_ok ?cs W ?pd"
    unfolding waits_ok_def
  proof (intro conjI allI impI)
    fix k w' assume k: "waiter ?cs k = Some w'"
    show "\<not> has_state ?cs k TERMINATED" "has_state ?cs w' BLOCKED" "\<exists>vp. ?pd w' = Joining k vp"
      using k D(1-3) [of k w'] nw [of k] d(4) view_at [of cs t, OF d(1)] unfolding st wt by (auto split: if_splits)
  next
    fix q assume "has_state ?cs q BLOCKED"
    then show "(\<exists>k v. ?pd q = Joining k v \<and> waiter ?cs k = Some q) \<or> (\<exists>k. ?pd q = Locking k \<and> q \<in> set (W k))"
      using D(4) [of q] waits unfolding st wt by (cases "q = p") (fastforce split: if_splits)+
  next
    fix k q assume "q \<in> set (W k)"
    then show "?pd q = Locking k" "has_state ?cs q BLOCKED" using D(5,6) [of q k] nin unfolding st by auto
  next
    fix k show "distinct (W k)" using D(7) [of k] .
  next
    fix q k v assume "?pd q = Joining k v"
    then show "is_joined ?cs k" "has_state ?cs q BLOCKED \<or> has_state ?cs k TERMINATED"
      using D(8,9) [of q k v] r view_at [of cs p, OF c] unfolding st jn by (auto split: if_splits)
  next
    fix q q' k v v' assume "?pd q = Joining k v" "?pd q' = Joining k v'"
    then show "q = q'" using D(10) [of q k v q' v'] nj by (auto split: if_splits)
  next
    fix q assume "?pd q \<noteq> Idle"
    then show "alive ?cs q" "\<not> has_state ?cs q TERMINATED"
      using D(11,12) [of q] c unfolding st by (auto split: if_splits)
  qed
  moreover have "q = p" if "has_state ?cs q RUNNING" for q
  proof -
    have "has_state cs q RUNNING \<or> q = p" using that unfolding st by (simp split: if_splits)
    then show ?thesis using enteringD(2) [OF ent] by blast
  qed
  moreover have "count M q = (if q \<noteq> p \<and> has_state ?cs q READY then 1 else 0)" for q
    using enteringD(3) [OF ent, of q] unfolding st by simp
  moreover have "alive ?cs p" using c by simp
  ultimately show ?thesis unfolding entering_def by blast
qed

lemma entering_exit:
  assumes "threads_ok cs (Some p) M W pd" and c: "cs p = Some c" "c_wait c = None" and pd: "pd p = Idle"
  shows "entering (cs(p \<mapsto> c\<lparr>c_state := TERMINATED\<rparr>)) p M W pd"
proof -
  have ent: "entering cs p M W pd" and r: "c_state c = RUNNING"
    using assms by (auto simp: threads_ok_def has_state_def)
  note D = waits_okD [OF enteringD(4) [OF ent]]
  note at = view_at [of cs p, OF c(1)]
  let ?cs = "cs(p \<mapsto> c\<lparr>c_state := TERMINATED\<rparr>)"
  have st: "has_state ?cs q s = (if q = p then s = TERMINATED else has_state cs q s)" for q s by auto
  have wt: "waiter ?cs k = waiter cs k" "is_joined ?cs k = is_joined cs k" "alive ?cs k = alive cs k" for k using at by auto
  have np: "waiter cs p = None" "\<not> has_state cs p BLOCKED" using c r at by simp_all
  have nw: "waiter cs k \<noteq> Some p" for k using D(2) [of k p] np(2) by auto
  have nin: "p \<notin> set (W k)" for k using D(6) [of p k] np(2) by auto
  have "waits_ok ?cs W pd"
    unfolding waits_ok_def st wt
  proof (intro conjI allI impI)
    fix k w' assume k: "waiter cs k = Some w'"
    then have "k \<noteq> p" "w' \<noteq> p" using np(1) nw [of k] by auto
    then show "\<not> (if k = p then TERMINATED = TERMINATED else has_state cs k TERMINATED)"
      "if w' = p then BLOCKED = TERMINATED else has_state cs w' BLOCKED" "\<exists>vp. pd w' = Joining k vp"
      using D(1-3) [OF k] by simp_all
  next
    fix q assume "if q = p then BLOCKED = TERMINATED else has_state cs q BLOCKED"
    then show "(\<exists>k v. pd q = Joining k v \<and> waiter cs k = Some q) \<or> (\<exists>k. pd q = Locking k \<and> q \<in> set (W k))"
      using D(4) [of q] by (simp split: if_splits)
  next
    fix k q assume q: "q \<in> set (W k)"
    then have "q \<noteq> p" using nin by auto
    then show "pd q = Locking k" "if q = p then BLOCKED = TERMINATED else has_state cs q BLOCKED"
      using D(5,6) [OF q] by simp_all
  next
    fix k show "distinct (W k)" using D(7) [of k] .
  next
    fix q k v assume q: "pd q = Joining k v"
    then have "q \<noteq> p" using pd by auto
    then show "is_joined cs k" "(if q = p then BLOCKED = TERMINATED else has_state cs q BLOCKED) \<or>
        (if k = p then TERMINATED = TERMINATED else has_state cs k TERMINATED)"
      using D(8,9) [OF q] by auto
  next
    fix q q' k v v' assume "pd q = Joining k v" "pd q' = Joining k v'"
    then show "q = q'" using D(10) by blast
  next
    fix q assume q: "pd q \<noteq> Idle"
    then have "q \<noteq> p" using pd by auto
    then show "alive cs q" "\<not> (if q = p then TERMINATED = TERMINATED else has_state cs q TERMINATED)"
      using D(11,12) [OF q] by simp_all
  qed
  moreover have "q = p" if "has_state ?cs q RUNNING" for q
  proof -
    have "has_state cs q RUNNING \<or> q = p" using that unfolding st by (simp split: if_splits)
    then show ?thesis using enteringD(2) [OF ent] by blast
  qed
  moreover have "count M q = (if q \<noteq> p \<and> has_state ?cs q READY then 1 else 0)" for q
    using enteringD(3) [OF ent, of q] unfolding st by simp
  moreover have "alive ?cs p" by simp
  ultimately show ?thesis unfolding entering_def by blast
qed

text \<open>
  A blocked thread \<open>w\<close> is woken: it is ready and in the queue, and the one place it waited in forgets
  it.
\<close>

lemma entering_wake_join:
  assumes "threads_ok cs (Some p) M W pd" and c: "cs p = Some c" "c_wait c = Some w" and pd: "pd p = Idle"
    and d: "cs w = Some d"
  shows "w \<noteq> p" "entering (cs(p \<mapsto> c\<lparr>c_state := TERMINATED, c_wait := None\<rparr>, w \<mapsto> d\<lparr>c_state := READY\<rparr>)) p (add_mset w M) W pd"
proof -
  have ent: "entering cs p M W pd" and r: "c_state c = RUNNING"
    using assms by (auto simp: threads_ok_def has_state_def)
  note D = waits_okD [OF enteringD(4) [OF ent]]
  note at = view_at [of cs p, OF c(1)]
  have np: "waiter cs p = Some w" "\<not> has_state cs p BLOCKED" using c r at by simp_all
  have bw: "has_state cs w BLOCKED" "\<exists>v. pd w = Joining p v" using D(2,3) [OF np(1)] by auto
  show wp: "w \<noteq> p" using bw(1) np(2) by auto
  let ?cs = "cs(p \<mapsto> c\<lparr>c_state := TERMINATED, c_wait := None\<rparr>, w \<mapsto> d\<lparr>c_state := READY\<rparr>)"
  have st: "has_state ?cs q s = (if q = w then s = READY else if q = p then s = TERMINATED else has_state cs q s)" for q s by auto
  have wt: "waiter ?cs k = (if k = p then None else waiter cs k)" "is_joined ?cs k = is_joined cs k" "alive ?cs k = alive cs k" for k
    using at wp view_at [of cs w, OF d] by auto
  have nw: "waiter cs k \<noteq> Some p" for k using D(2) [of k p] np(2) by auto
  have only: "k = p" if "waiter cs k = Some w" for k using D(3) [OF that] bw(2) by auto
  have nin: "p \<notin> set (W k)" "w \<notin> set (W k)" for k using D(6) [of p k] np(2) D(5) [of w k] bw(2) by auto
  have "waits_ok ?cs W pd"
    unfolding waits_ok_def st wt
  proof (intro conjI allI impI)
    fix k w' assume k': "(if k = p then None else waiter cs k) = Some w'"
    then have k: "waiter cs k = Some w'" "k \<noteq> p" by (auto split: if_splits)
    then have n: "w' \<noteq> p" "w' \<noteq> w" using nw [of k] only by auto
    show "\<not> (if k = w then TERMINATED = READY else if k = p then TERMINATED = TERMINATED else has_state cs k TERMINATED)"
      "if w' = w then BLOCKED = READY else if w' = p then BLOCKED = TERMINATED else has_state cs w' BLOCKED"
      "\<exists>vp. pd w' = Joining k vp"
      using D(1-3) [OF k(1)] k(2) n by simp_all
  next
    fix q assume "if q = w then BLOCKED = READY else if q = p then BLOCKED = TERMINATED else has_state cs q BLOCKED"
    then have q: "q \<noteq> w" "q \<noteq> p" "has_state cs q BLOCKED" by (auto split: if_splits)
    then show "(\<exists>k v. pd q = Joining k v \<and> (if k = p then None else waiter cs k) = Some q) \<or>
        (\<exists>k. pd q = Locking k \<and> q \<in> set (W k))"
    proof -
      have "(if k = p then None else waiter cs k) = Some q \<longleftrightarrow> waiter cs k = Some q" for k using np(1) q(1) by auto
      then show ?thesis using D(4) [OF q(3)] by simp
    qed
  next
    fix k q assume q: "q \<in> set (W k)"
    then have "q \<noteq> p" "q \<noteq> w" using nin by auto
    then show "pd q = Locking k"
      "if q = w then BLOCKED = READY else if q = p then BLOCKED = TERMINATED else has_state cs q BLOCKED"
      using D(5,6) [OF q] by simp_all
  next
    fix k show "distinct (W k)" using D(7) [of k] .
  next
    fix q k v assume q: "pd q = Joining k v"
    have "k = p" if "q = w" using q bw(2) that by auto
    moreover have "q \<noteq> p" using q pd by auto
    moreover have "k \<noteq> w \<or> q = w \<or> has_state cs q BLOCKED" using D(9) [OF q] bw(1) has_state_fun by blast
    ultimately show "is_joined cs k"
      "(if q = w then BLOCKED = READY else if q = p then BLOCKED = TERMINATED else has_state cs q BLOCKED) \<or>
       (if k = w then TERMINATED = READY else if k = p then TERMINATED = TERMINATED else has_state cs k TERMINATED)"
      using D(8,9) [OF q] wp by auto
  next
    fix q q' k v v' assume "pd q = Joining k v" "pd q' = Joining k v'"
    then show "q = q'" using D(10) by blast
  next
    fix q assume q: "pd q \<noteq> Idle"
    then have "q \<noteq> p" using pd by auto
    then show "alive cs q"
      "\<not> (if q = w then TERMINATED = READY else if q = p then TERMINATED = TERMINATED else has_state cs q TERMINATED)"
      using D(11,12) [OF q] by simp_all
  qed
  moreover have "q = p" if "has_state ?cs q RUNNING" for q
  proof -
    have "has_state cs q RUNNING \<or> q = p" using that unfolding st by (simp split: if_splits)
    then show ?thesis using enteringD(2) [OF ent] by blast
  qed
  moreover have "count (add_mset w M) q = (if q \<noteq> p \<and> has_state ?cs q READY then 1 else 0)" for q
    using enteringD(3) [OF ent, of q] wp has_state_fun [OF bw(1), of READY] unfolding st by auto
  moreover have "alive ?cs p" by simp
  ultimately show "entering ?cs p (add_mset w M) W pd" unfolding entering_def by blast
qed

lemma threads_ok_unlock:
  assumes ok: "threads_ok cs (Some p) M W pd" and w: "W m = w # ws" and d: "cs w = Some d"
  shows "threads_ok (cs(w \<mapsto> d\<lparr>c_state := READY\<rparr>)) (Some p) (add_mset w M) (W(m := ws)) pd"
proof -
  have ent: "entering cs p M W pd" and r: "has_state cs p RUNNING"
    using ok by (auto simp: threads_ok_def)
  note D = waits_okD [OF enteringD(4) [OF ent]]
  note at = view_at [of cs w, OF d]
  let ?cs = "cs(w \<mapsto> d\<lparr>c_state := READY\<rparr>)" and ?W = "W(m := ws)"
  have bw: "has_state cs w BLOCKED" "pd w = Locking m" using D(5,6) [of w m] w by auto
  then have wp: "w \<noteq> p" using r has_state_fun by blast
  have st: "has_state ?cs q s = (if q = w then s = READY else has_state cs q s)" for q s by auto
  have wt: "waiter ?cs k = waiter cs k" "is_joined ?cs k = is_joined cs k" "alive ?cs k = alive cs k" for k
    using at by auto
  have "w \<notin> set (W k)" if "k \<noteq> m" for k using D(5) [of w k] bw(2) that by auto
  moreover have "w \<notin> set ws" using D(7) [of m] w by simp
  ultimately have sub: "set (?W k) = set (W k) - {w}" for k
    using w by (cases "k = m") simp_all
  have nw: "waiter cs k \<noteq> Some w" for k using D(3) [of k w] bw(2) by auto
  have "waits_ok ?cs ?W pd"
    unfolding waits_ok_def st wt sub
  proof (intro conjI allI impI)
    fix k w' assume k: "waiter cs k = Some w'"
    then have "w' \<noteq> w" using nw [of k] by auto
    then show "\<not> (if k = w then TERMINATED = READY else has_state cs k TERMINATED)"
      "if w' = w then BLOCKED = READY else has_state cs w' BLOCKED" "\<exists>vp. pd w' = Joining k vp"
      using D(1-3) [OF k] by simp_all
  next
    fix q assume "if q = w then BLOCKED = READY else has_state cs q BLOCKED"
    then have "q \<noteq> w" "has_state cs q BLOCKED" by (auto split: if_splits)
    then show "(\<exists>k v. pd q = Joining k v \<and> waiter cs k = Some q) \<or> (\<exists>k. pd q = Locking k \<and> q \<in> set (W k) - {w})"
      using D(4) [of q] by simp
  next
    fix k q assume q: "q \<in> set (W k) - {w}"
    then show "pd q = Locking k" "if q = w then BLOCKED = READY else has_state cs q BLOCKED"
      using D(5,6) [of q k] by simp_all
  next
    fix k
    have "distinct ws" using D(7) [of m] w by simp
    then show "distinct (?W k)" using D(7) [of k] by simp
  next
    fix q k v assume q: "pd q = Joining k v"
    then have n: "q \<noteq> w" using bw(2) by auto
    have "k \<noteq> w \<or> \<not> has_state cs k TERMINATED" using bw(1) has_state_fun by blast
    then show "is_joined cs k" "(if q = w then BLOCKED = READY else has_state cs q BLOCKED) \<or>
        (if k = w then TERMINATED = READY else has_state cs k TERMINATED)"
      using D(8,9) [OF q] n by auto
  next
    fix q q' k v v' assume "pd q = Joining k v" "pd q' = Joining k v'"
    then show "q = q'" using D(10) by blast
  next
    fix q assume q: "pd q \<noteq> Idle"
    then show "alive cs q" "\<not> (if q = w then TERMINATED = READY else has_state cs q TERMINATED)"
      using D(11,12) [OF q] by simp_all
  qed
  moreover have "q = p" if "has_state ?cs q RUNNING" for q
  proof -
    have "has_state cs q RUNNING \<or> q = p" using that unfolding st by (simp split: if_splits)
    then show ?thesis using enteringD(2) [OF ent] by blast
  qed
  moreover have "count (add_mset w M) q = (if q \<noteq> p \<and> has_state ?cs q READY then 1 else 0)" for q
    using enteringD(3) [OF ent, of q] wp has_state_fun [OF bw(1), of READY] unfolding st by auto
  moreover have "alive ?cs p" using enteringD(1) [OF ent] by simp
  ultimately have "entering ?cs p (add_mset w M) ?W pd" unfolding entering_def by blast
  then show ?thesis using r wp by (simp add: threads_ok_def)
qed

lemma threads_ok_create:
  assumes ok: "threads_ok cs (Some p) M W pd" and n: "cs n = None"
    and c: "c_state c = READY" "c_wait c = None"
  shows "threads_ok (cs(n \<mapsto> c)) (Some p) (add_mset n M) W pd"
proof -
  have ent: "entering cs p M W pd" and r: "has_state cs p RUNNING"
    using ok by (auto simp: threads_ok_def)
  note D = waits_okD [OF enteringD(4) [OF ent]]
  let ?cs = "cs(n \<mapsto> c)"
  have np: "n \<noteq> p" using r n by (auto simp: has_state_def)
  have none: "\<not> has_state cs n s" "waiter cs n = None" "\<not> is_joined cs n" "\<not> alive cs n" for s
    using n by (auto simp: has_state_def waiter_def is_joined_def alive_def)
  have pn: "pd n = Idle" using D(11) [of n] none(4) by auto
  have wt: "waiter ?cs k = waiter cs k" for k using c none by auto
  have "waits_ok ?cs W pd"
    unfolding waits_ok_def wt
  proof (intro conjI allI impI)
    fix k w' assume k: "waiter cs k = Some w'"
    then show "\<not> has_state ?cs k TERMINATED" "has_state ?cs w' BLOCKED" "\<exists>vp. pd w' = Joining k vp"
      using D(1-3) [OF k] none by auto
  next
    fix q assume "has_state ?cs q BLOCKED"
    then show "(\<exists>k v. pd q = Joining k v \<and> waiter cs k = Some q) \<or> (\<exists>k. pd q = Locking k \<and> q \<in> set (W k))"
      using D(4) [of q] c by (auto split: if_splits)
  next
    fix k q assume q: "q \<in> set (W k)"
    then show "pd q = Locking k" "has_state ?cs q BLOCKED" using D(5,6) [OF q] none by auto
  next
    fix k show "distinct (W k)" using D(7) [of k] .
  next
    fix q k v assume q: "pd q = Joining k v"
    then show "is_joined ?cs k" "has_state ?cs q BLOCKED \<or> has_state ?cs k TERMINATED"
      using D(8,9) [OF q] none by auto
  next
    fix q q' k v v' assume "pd q = Joining k v" "pd q' = Joining k v'"
    then show "q = q'" using D(10) by blast
  next
    fix q assume q: "pd q \<noteq> Idle"
    then show "alive ?cs q" "\<not> has_state ?cs q TERMINATED"
      using D(11,12) [OF q] c by auto
  qed
  moreover have "q = p" if "has_state ?cs q RUNNING" for q
  proof -
    have "has_state cs q RUNNING" using that c by (simp split: if_splits)
    then show ?thesis using enteringD(2) [OF ent] by blast
  qed
  moreover have "count (add_mset n M) q = (if q \<noteq> p \<and> has_state ?cs q READY then 1 else 0)" for q
    using enteringD(3) [OF ent, of q] np none c by auto
  moreover have "alive ?cs p" using enteringD(1) [OF ent] by simp
  ultimately have "entering ?cs p (add_mset n M) W pd" unfolding entering_def by blast
  then show ?thesis using r np by (simp add: threads_ok_def)
qed

text \<open>The target of a join is freed; the thread that joined it goes on with its own code.\<close>

lemma threads_ok_free:
  assumes ok: "threads_ok cs (Some p) M W pd" and t: "has_state cs t TERMINATED"
    and j: "pd p = Idle \<and> \<not> is_joined cs t \<or> (\<exists>v. pd p = Joining t v)"
  shows "threads_ok (cs(t := None)) (Some p) M W (pd(p := Idle))"
proof -
  have ent: "entering cs p M W pd" and r: "has_state cs p RUNNING"
    using ok by (auto simp: threads_ok_def)
  note D = waits_okD [OF enteringD(4) [OF ent]]
  let ?cs = "cs(t := None)" and ?pd = "pd(p := Idle)"
  have tp: "t \<noteq> p" using t r has_state_fun by blast
  have nb: "\<not> has_state cs t BLOCKED" "\<not> has_state cs t READY" "\<not> has_state cs t RUNNING"
    using t has_state_fun [OF t] by blast+
  have np: "\<not> has_state cs p BLOCKED" using r has_state_fun by blast
  have st: "has_state ?cs q s = (q \<noteq> t \<and> has_state cs q s)" for q s by (simp add: has_state_def)
  have wt: "waiter ?cs k = waiter cs k" for k using D(1) [of t] t by (cases "waiter cs t") (auto simp: waiter_def)
  have jn: "is_joined ?cs k = (k \<noteq> t \<and> is_joined cs k)" for k by (simp add: is_joined_def)
  have only: "q = p" if "pd q = Joining t v" for q v using j D(8,10) [OF that] by auto
  have pt: "pd t = Idle" using D(12) [of t] t by auto
  have "waits_ok ?cs W ?pd"
    unfolding waits_ok_def st wt jn
  proof (intro conjI allI impI)
    fix k w' assume k: "waiter cs k = Some w'"
    have "w' \<noteq> p" "w' \<noteq> t" using D(2) [OF k] np nb by auto
    then show "\<not> (k \<noteq> t \<and> has_state cs k TERMINATED)" "w' \<noteq> t" "has_state cs w' BLOCKED" "\<exists>vp. ?pd w' = Joining k vp"
      using D(1-3) [OF k] by auto
  next
    fix q assume q: "q \<noteq> t \<and> has_state cs q BLOCKED"
    then have "q \<noteq> p" using np by auto
    then show "(\<exists>k v. ?pd q = Joining k v \<and> waiter cs k = Some q) \<or> (\<exists>k. ?pd q = Locking k \<and> q \<in> set (W k))"
      using D(4) [of q] q by simp
  next
    fix k q assume q: "q \<in> set (W k)"
    have "q \<noteq> p" "q \<noteq> t" using D(6) [OF q] np nb by auto
    then show "?pd q = Locking k" "q \<noteq> t" "has_state cs q BLOCKED" using D(5,6) [OF q] by auto
  next
    fix k show "distinct (W k)" using D(7) [of k] .
  next
    fix q k v assume "?pd q = Joining k v"
    then have q: "pd q = Joining k v" "q \<noteq> p" by (auto split: if_splits)
    then have "k \<noteq> t" "q \<noteq> t" using only pt by auto
    then show "k \<noteq> t" "is_joined cs k" "q \<noteq> t \<and> has_state cs q BLOCKED \<or> k \<noteq> t \<and> has_state cs k TERMINATED"
      using D(8,9) [OF q(1)] by auto
  next
    fix q q' k v v' assume "?pd q = Joining k v" "?pd q' = Joining k v'"
    then show "q = q'" using D(10) by (auto split: if_splits)
  next
    fix q assume "?pd q \<noteq> Idle"
    then have q: "pd q \<noteq> Idle" "q \<noteq> p" by (auto split: if_splits)
    then have "q \<noteq> t" using pt by auto
    then show "alive ?cs q" "\<not> (q \<noteq> t \<and> has_state cs q TERMINATED)"
      using D(11,12) [OF q(1)] by (simp_all add: alive_def)
  qed
  moreover have "q = p" if "has_state ?cs q RUNNING" for q
    using that enteringD(2) [OF ent] unfolding st by blast
  moreover have "count M q = (if q \<noteq> p \<and> has_state ?cs q READY then 1 else 0)" for q
    using enteringD(3) [OF ent, of q] nb unfolding st by auto
  moreover have "alive ?cs p" using enteringD(1) [OF ent] tp by (simp add: alive_def)
  ultimately have "entering ?cs p M W ?pd" unfolding entering_def by blast
  then show ?thesis using r tp by (simp add: threads_ok_def st)
qed

lemma threads_ok_pd_idle:
  assumes ok: "threads_ok cs (Some p) M W pd" and l: "pd p = Idle \<or> pd p = Locking m"
  shows "threads_ok cs (Some p) M W (pd(p := Idle))"
proof -
  have ent: "entering cs p M W pd" and r: "has_state cs p RUNNING"
    using ok by (auto simp: threads_ok_def)
  note D = waits_okD [OF enteringD(4) [OF ent]]
  have nb: "\<not> has_state cs p BLOCKED" using r has_state_fun by blast
  have nin: "p \<notin> set (W k)" for k using D(6) [of p k] nb by auto
  have nw: "waiter cs k \<noteq> Some p" for k using D(2) [of k p] nb by auto
  have "waits_ok cs W (pd(p := Idle))"
    unfolding waits_ok_def
  proof (intro conjI allI impI)
    fix k w' assume k: "waiter cs k = Some w'"
    then have "w' \<noteq> p" using nw [of k] by auto
    then show "\<not> has_state cs k TERMINATED" "has_state cs w' BLOCKED" "\<exists>vp. (pd(p := Idle)) w' = Joining k vp"
      using D(1-3) [OF k] by auto
  next
    fix q assume q: "has_state cs q BLOCKED"
    then have "q \<noteq> p" using nb by auto
    then show "(\<exists>k v. (pd(p := Idle)) q = Joining k v \<and> waiter cs k = Some q) \<or>
        (\<exists>k. (pd(p := Idle)) q = Locking k \<and> q \<in> set (W k))"
      using D(4) [OF q] by simp
  next
    fix k q assume q: "q \<in> set (W k)"
    then have "q \<noteq> p" using nin by auto
    then show "(pd(p := Idle)) q = Locking k" "has_state cs q BLOCKED" using D(5,6) [OF q] by simp_all
  qed (use D(7-12) in \<open>auto split: if_splits\<close>)
  then have "entering cs p M W (pd(p := Idle))"
    using enteringD(1-3) [OF ent] unfolding entering_def by blast
  then show ?thesis using r by (simp add: threads_ok_def)
qed

end
