(* ===== verification/TH_System.thy ===== *)
theory TH_System
  imports TH_Inv
begin

text \<open>
  A program that uses the thread library, as a step relation: a step is a call of the running thread,
  up to its return or to the thread the scheduler resumes instead, or a preemption between calls.
  \<open>step\<close> and \<open>reach\<close> are the runs in which the scheduler has always found a ready thread; \<open>program\<close> has
  besides the scheduler's other way out, its return to the main program. The invariant of the states
  before such a return is proved inside the locale \<open>run_queue\<close>, so for every policy that satisfies its
  contract.
\<close>

section \<open>Memory\<close>

definition static :: "core_map \<Rightarrow> nat \<Rightarrow> (u32 \<times> nat option) option" where
  "static cs p = map_option (\<lambda>c. (c_id c, c_stack c)) (cs p)"

text \<open>
  Ids and stacks are not shared, every table entry is an allocated block that occurs once, and what
  was handed out by \<open>malloc\<close> or used as an id is below the next one.
\<close>

definition mem_ok :: "(nat \<Rightarrow> (u32 \<times> nat option) option) \<Rightarrow> nat option list \<Rightarrow> nat set \<Rightarrow> nat \<Rightarrow> int \<Rightarrow> bool" where
  "mem_ok f tab stk nxt nid \<longleftrightarrow>
     (\<forall>p i st. f p = Some (i, st) \<longrightarrow> p < nxt \<and> uint i < nid \<and> (\<forall>a. st = Some a \<longrightarrow> a \<in> stk)) \<and>
     (\<forall>p q i j sp sq. f p = Some (i, sp) \<longrightarrow> f q = Some (j, sq) \<longrightarrow> p \<noteq> q \<longrightarrow> i \<noteq> j \<and> (sp \<noteq> None \<longrightarrow> sp \<noteq> sq)) \<and>
     (\<forall>a \<in> stk. a < nxt) \<and> length tab = MAX_THREADS \<and> (\<forall>p. Some p \<in> set tab \<longrightarrow> f p \<noteq> None) \<and>
     (\<forall>i j p. i < length tab \<longrightarrow> j < length tab \<longrightarrow> tab ! i = Some p \<longrightarrow> tab ! j = Some p \<longrightarrow> i = j) \<and>
     0 < nid \<and> nid < 2 ^ 31"

lemma mem_okD:
  assumes "mem_ok f tab stk nxt nid"
  shows "f p = Some (i, st) \<Longrightarrow> p < nxt" "f p = Some (i, st) \<Longrightarrow> uint i < nid" "f p = Some (i, Some a) \<Longrightarrow> a \<in> stk"
    "f p = Some (i, sp) \<Longrightarrow> f q = Some (j, sq) \<Longrightarrow> p \<noteq> q \<Longrightarrow> i \<noteq> j"
    "f p = Some (i, Some a) \<Longrightarrow> f q = Some (j, Some a) \<Longrightarrow> p = q"
    "a \<in> stk \<Longrightarrow> a < nxt" "length tab = MAX_THREADS" "Some p \<in> set tab \<Longrightarrow> f p \<noteq> None"
    "k < length tab \<Longrightarrow> l < length tab \<Longrightarrow> tab ! k = Some p \<Longrightarrow> tab ! l = Some p \<Longrightarrow> k = l" "0 < nid" "nid < 2 ^ 31"
  using assms unfolding mem_ok_def by (blast | metis option.distinct(1))+

lemma mem_ok_bump:
  assumes "mem_ok f tab stk nxt nid" "nxt \<le> nxt'" "nid \<le> nid'" "nid' < 2 ^ 31"
  shows "mem_ok f tab stk nxt' nid'"
  using assms unfolding mem_ok_def by (fastforce dest: order_less_le_trans)

lemma mem_ok_stack:
  assumes "mem_ok f tab stk nxt nid"
  shows "mem_ok f tab (insert nxt stk) (nxt + 1) nid"
  using assms unfolding mem_ok_def by fastforce

lemma mem_ok_new:
  assumes ok: "mem_ok f tab stk nxt nid" and b: "nid < 2 ^ 31 - 1"
  shows "mem_ok (f(nxt \<mapsto> (word_of_int nid, Some (nxt + 1)))) tab (insert (nxt + 1) stk) (nxt + 2) (nid + 1)"
proof -
  note D = mem_okD [OF ok]
  have u: "uint (word_of_int nid :: u32) = nid" using D(10) b by (simp add: uint_word_of_int)
  have fr: "p \<noteq> nxt" "i \<noteq> word_of_int nid" "st \<noteq> Some (nxt + 1)" if "f p = Some (i, st)" for p i st
    using D(1,2) [OF that] D(3) [of p i "nxt + 1"] D(6) [of "nxt + 1"] that u by auto
  show ?thesis
    unfolding mem_ok_def
  proof (intro conjI allI impI ballI)
    fix p i st assume p: "(f(nxt \<mapsto> (word_of_int nid, Some (nxt + 1)))) p = Some (i, st)"
    show "p < nxt + 2" "uint i < nid + 1" using p D(1,2) [of p i st] u by (auto split: if_splits)
    fix a assume "st = Some a" then show "a \<in> insert (nxt + 1) stk" using p D(3) [of p i a] by (auto split: if_splits)
  next
    fix p q i j sp sq
    assume "(f(nxt \<mapsto> (word_of_int nid, Some (nxt + 1)))) p = Some (i, sp)"
      "(f(nxt \<mapsto> (word_of_int nid, Some (nxt + 1)))) q = Some (j, sq)" "p \<noteq> q"
    moreover from this have "i \<noteq> j" "sp \<noteq> None \<longrightarrow> sp \<noteq> sq"
      using fr(2,3) [of p i sp] fr(2,3) [of q j sq] D(4) [of p i sp q j sq] D(5) [of p i _ q j]
      by (cases "p = nxt"; cases "q = nxt"; auto)+
    ultimately show "i \<noteq> j" "sp \<noteq> None \<Longrightarrow> sp \<noteq> sq" by simp_all
  next
    fix a assume "a \<in> insert (nxt + 1) stk" then show "a < nxt + 2" using D(6) [of a] by auto
  next
    fix p assume "Some p \<in> set tab" then show "(f(nxt \<mapsto> (word_of_int nid, Some (nxt + 1)))) p \<noteq> None" using D(8) by simp
  qed (use D(7,9,10,11) b in auto)
qed

lemma first_free_SomeD: "first_free es = Some i \<Longrightarrow> i < length es \<and> es ! i = None"
  by (induction es arbitrary: i rule: first_free.induct) auto

lemma mem_ok_enter:
  assumes ok: "mem_ok f tab stk nxt nid" and i: "i < length tab" and p: "f p \<noteq> None" "Some p \<notin> set tab"
  shows "mem_ok f (tab[i := Some p]) stk nxt nid"
proof -
  have new: "k = i" if "k < length tab" "tab[i := Some p] ! k = Some p" for k
    using that p(2) nth_mem [OF that(1)] by (cases "k = i") auto
  have old: "tab ! k = Some q" if "tab[i := Some p] ! k = Some q" "q \<noteq> p" for k q
    using that i by (cases "k = i") auto
  have "k = l" if k: "k < length tab" "l < length tab" "tab[i := Some p] ! k = Some q" "tab[i := Some p] ! l = Some q" for k l q
  proof (cases "q = p")
    case True
    then show ?thesis using new [of k] new [of l] k by simp
  next
    case False
    show ?thesis by (rule mem_okD(9) [OF ok k(1,2) old [OF k(3) False] old [OF k(4) False]])
  qed
  moreover have "f q \<noteq> None" if "Some q \<in> set (tab[i := Some p])" for q
    using that p(1) mem_okD(8) [OF ok] by (auto dest!: subsetD [OF set_update_subset_insert])
  ultimately show ?thesis using ok by (simp add: mem_ok_def)
qed

lemma mem_ok_free:
  assumes ok: "mem_ok f tab stk nxt nid" and t: "f t = Some (i, st)"
    and tab: "tab' = (if Some t \<in> set tab then tab[k := None] else tab)" "Some t \<in> set tab \<longrightarrow> k < length tab \<and> tab ! k = Some t"
    and stk: "stk' = (case st of None \<Rightarrow> stk | Some a \<Rightarrow> stk - {a})"
  shows "mem_ok (f(t := None)) tab' stk' nxt nid"
proof -
  note D = mem_okD [OF ok]
  have out: "Some t \<notin> set tab'"
  proof (cases "Some t \<in> set tab")
    case True
    then have k: "k < length tab" "tab ! k = Some t" using tab(2) by auto
    have "tab' ! j \<noteq> Some t" if "j < length tab" for j
      using that D(9) [OF that k(1) _ k(2)] True by (cases "j = k") (auto simp: tab(1) k(1))
    moreover have "length tab' = length tab" by (simp add: tab(1))
    ultimately show ?thesis by (metis in_set_conv_nth)
  qed (simp add: tab(1))
  have sub: "Some p \<in> set tab" if "Some p \<in> set tab'" for p
    using that by (auto simp: tab(1) split: if_splits dest!: subsetD [OF set_update_subset_insert])
  have nth: "tab ! j = Some p" "j < length tab" if "j < length tab'" "tab' ! j = Some p" for j p
    using that by (cases "j = k"; auto simp: tab(1) split: if_splits)+
  show ?thesis
    unfolding mem_ok_def
  proof (intro conjI allI impI ballI)
    fix p j sp assume "(f(t := None)) p = Some (j, sp)"
    then have p: "p \<noteq> t" "f p = Some (j, sp)" by (auto split: if_splits)
    show "p < nxt" "uint j < nid" using D(1,2) [OF p(2)] by auto
    fix a assume "sp = Some a"
    then show "a \<in> stk'" using D(3) [of p j a] D(5) [of p j a t i] p t by (auto simp: stk split: option.splits)
  next
    fix p q j j' sp sq assume "(f(t := None)) p = Some (j, sp)" "(f(t := None)) q = Some (j', sq)" "p \<noteq> q"
    then have p: "f p = Some (j, sp)" "f q = Some (j', sq)" "p \<noteq> q" by (auto split: if_splits)
    show "j \<noteq> j'" using D(4) [OF p] .
    show "sp \<noteq> sq" if "sp \<noteq> None" using D(5) [of p j _ q j'] p that by auto
  next
    fix a assume "a \<in> stk'" then show "a < nxt" using D(6) [of a] by (auto simp: stk split: option.splits)
  next
    show "length tab' = MAX_THREADS" using D(7) by (simp add: tab(1))
  next
    fix p assume p: "Some p \<in> set tab'"
    then show "(f(t := None)) p \<noteq> None" using D(8) [OF sub [OF p]] out by auto
  next
    fix a b p assume "a < length tab'" "b < length tab'" "tab' ! a = Some p" "tab' ! b = Some p"
    then show "a = b" using D(9) nth by blast
  qed (use D(10,11) in auto)
qed

text \<open>With every entry allocated and ids not shared, the search finds the thread with the id.\<close>

lemma locate_total:
  assumes "\<And>p. Some p \<in> set es \<Longrightarrow> ts p \<noteq> None"
  shows "\<exists>r. locate ts tid es = Some r \<and> (case r of
       None \<Rightarrow> (\<forall>p t. Some p \<in> set es \<longrightarrow> ts p = Some t \<longrightarrow> t_id t \<noteq> tid)
     | Some i \<Rightarrow> i < length es \<and> (\<exists>p t. es ! i = Some p \<and> ts p = Some t \<and> t_id t = tid) \<and>
         (\<forall>j < i. \<forall>p t. es ! j = Some p \<longrightarrow> ts p = Some t \<longrightarrow> t_id t \<noteq> tid))"
  using assms
proof (induction ts tid es rule: locate.induct)
  case (2 ts tid es)
  then obtain r where r: "locate ts tid es = Some r" "case r of
       None \<Rightarrow> (\<forall>p t. Some p \<in> set es \<longrightarrow> ts p = Some t \<longrightarrow> t_id t \<noteq> tid)
     | Some i \<Rightarrow> i < length es \<and> (\<exists>p t. es ! i = Some p \<and> ts p = Some t \<and> t_id t = tid) \<and>
         (\<forall>j < i. \<forall>p t. es ! j = Some p \<longrightarrow> ts p = Some t \<longrightarrow> t_id t \<noteq> tid)" by auto
  then show ?case by (cases r) (auto simp: nth_Cons' less_Suc_eq_0_disj)
next
  case (3 ts tid p es)
  obtain t where t: "ts p = Some t" using "3.prems" by fastforce
  show ?case
  proof (cases "t_id t = tid")
    case True
    then show ?thesis using t by auto
  next
    case False
    obtain r where r: "locate ts tid es = Some r" "case r of
         None \<Rightarrow> (\<forall>p t. Some p \<in> set es \<longrightarrow> ts p = Some t \<longrightarrow> t_id t \<noteq> tid)
       | Some i \<Rightarrow> i < length es \<and> (\<exists>p t. es ! i = Some p \<and> ts p = Some t \<and> t_id t = tid) \<and>
           (\<forall>j < i. \<forall>p t. es ! j = Some p \<longrightarrow> ts p = Some t \<longrightarrow> t_id t \<noteq> tid)"
      using "3.IH" [OF t False] "3.prems" by auto
    then show ?thesis using False t by (cases r) (auto simp: nth_Cons' less_Suc_eq_0_disj)
  qed
qed simp

section \<open>Steps\<close>

record sys =
  lib_of :: lib
  mutexes :: "nat \<Rightarrow> mutex"
  pend :: "nat \<Rightarrow> pending"

text \<open>The memory \<open>malloc\<close> returns has \<open>NULL\<close> where \<open>worker_create\<close> leaves \<open>waiting_thread\<close> unset.\<close>

definition clean :: "env \<Rightarrow> bool" where
  "clean e \<longleftrightarrow> waiting_thread (e_junk e) = None \<and> waiting_thread (e_main_junk e) = None"

text \<open>The scheduler, entered by \<open>swapcontext\<close>, resumes a thread.\<close>

definition resumes :: "policy \<Rightarrow> lib \<Rightarrow> lib \<Rightarrow> bool" where
  "resumes pol l l' \<longleftrightarrow> (\<exists>q. schedule pol l = Some (Run q l'))"

text \<open>A call that returns, of the thread whose block is \<open>p\<close>.\<close>

inductive calls :: "policy \<Rightarrow> nat \<Rightarrow> sys \<Rightarrow> sys \<Rightarrow> bool" for pol p where
  create: "pend s p = Idle \<Longrightarrow> clean e \<Longrightarrow> worker_create pol e (lib_of s) = Return r v l \<Longrightarrow> calls pol p s (s\<lparr>lib_of := l\<rparr>)"
| join: "pend s p = Idle \<Longrightarrow> worker_join tid vp (lib_of s) = Return r v l \<Longrightarrow> calls pol p s (s\<lparr>lib_of := l\<rparr>)"
| join_end: "pend s p = Joining t vp \<Longrightarrow> finish_join t vp (lib_of s) = Return r v l \<Longrightarrow>
    calls pol p s (s\<lparr>lib_of := l, pend := (pend s)(p := Idle)\<rparr>)"
| lock: "pend s p = Idle \<or> pend s p = Locking m \<Longrightarrow>
    worker_mutex_lock (Some (mutexes s m)) (lib_of s) = (Some mx, Return r v l) \<Longrightarrow>
    calls pol p s (s\<lparr>lib_of := l, mutexes := (mutexes s)(m := mx), pend := (pend s)(p := Idle)\<rparr>)"
| unlock: "pend s p = Idle \<Longrightarrow> worker_mutex_unlock pol (Some (mutexes s m)) (lib_of s) = (Some mx, Return r v l) \<Longrightarrow>
    calls pol p s (s\<lparr>lib_of := l, mutexes := (mutexes s)(m := mx)\<rparr>)"
| destroy: "pend s p = Idle \<Longrightarrow> worker_mutex_destroy (Some (mutexes s m)) = (r, Some mx) \<Longrightarrow>
    calls pol p s (s\<lparr>mutexes := (mutexes s)(m := mx)\<rparr>)"

text \<open>
  The running thread \<open>p\<close> enters the scheduler: the timer signal arrives between two calls, or a call
  does \<open>swapcontext\<close>. Its context is saved in its own block.
\<close>

inductive leaves :: "policy \<Rightarrow> nat \<Rightarrow> sys \<Rightarrow> sys \<Rightarrow> bool" for pol p where
  tick: "running_tcb (lib_of s) = Some p \<Longrightarrow> pend s p = Idle \<Longrightarrow> leaves pol p s s"
| yield: "running_tcb (lib_of s) = Some p \<Longrightarrow> pend s p = Idle \<Longrightarrow> worker_yield (lib_of s) = Switch l \<Longrightarrow>
    leaves pol p s (s\<lparr>lib_of := l\<rparr>)"
| exit: "running_tcb (lib_of s) = Some p \<Longrightarrow> pend s p = Idle \<Longrightarrow> worker_exit pol v (lib_of s) = Switch l \<Longrightarrow>
    leaves pol p s (s\<lparr>lib_of := l\<rparr>)"
| join_wait: "running_tcb (lib_of s) = Some p \<Longrightarrow> pend s p = Idle \<Longrightarrow> worker_join tid vp (lib_of s) = Switch l \<Longrightarrow>
    find_tcb_by_id tid (lib_of s) = Some (Some t) \<Longrightarrow>
    leaves pol p s (s\<lparr>lib_of := l, pend := (pend s)(p := Joining t vp)\<rparr>)"
| lock_wait: "running_tcb (lib_of s) = Some p \<Longrightarrow> pend s p = Idle \<or> pend s p = Locking m \<Longrightarrow>
    worker_mutex_lock (Some (mutexes s m)) (lib_of s) = (Some mx, Switch l) \<Longrightarrow>
    leaves pol p s (s\<lparr>lib_of := l, mutexes := (mutexes s)(m := mx), pend := (pend s)(p := Locking m)\<rparr>)"

text \<open>The step of a state in which the scheduler finds a thread to resume.\<close>

inductive step :: "policy \<Rightarrow> sys \<Rightarrow> sys \<Rightarrow> bool" for pol where
  call: "running_tcb (lib_of s) = Some p \<Longrightarrow> calls pol p s s' \<Longrightarrow> step pol s s'"
| switch: "leaves pol p s s1 \<Longrightarrow> resumes pol (lib_of s1) l \<Longrightarrow> step pol s (s1\<lparr>lib_of := l\<rparr>)"

text \<open>The steps by call.\<close>

lemma step_cases [consumes 1, case_names create tick yield exit join join_wait join_end lock lock_wait unlock destroy]:
  assumes "step pol s s'"
  obtains p e r v l where "s' = s\<lparr>lib_of := l\<rparr>" "running_tcb (lib_of s) = Some p" "pend s p = Idle" "clean e"
      "worker_create pol e (lib_of s) = Return r v l"
  | p l where "s' = s\<lparr>lib_of := l\<rparr>" "running_tcb (lib_of s) = Some p" "pend s p = Idle" "resumes pol (lib_of s) l"
  | p l l' where "s' = s\<lparr>lib_of := l'\<rparr>" "running_tcb (lib_of s) = Some p" "pend s p = Idle" "worker_yield (lib_of s) = Switch l"
      "resumes pol l l'"
  | p v l l' where "s' = s\<lparr>lib_of := l'\<rparr>" "running_tcb (lib_of s) = Some p" "pend s p = Idle" "worker_exit pol v (lib_of s) = Switch l"
      "resumes pol l l'"
  | p tid vp r v l where "s' = s\<lparr>lib_of := l\<rparr>" "running_tcb (lib_of s) = Some p" "pend s p = Idle"
      "worker_join tid vp (lib_of s) = Return r v l"
  | p tid vp l t l' where "s' = s\<lparr>lib_of := l', pend := (pend s)(p := Joining t vp)\<rparr>" "running_tcb (lib_of s) = Some p"
      "pend s p = Idle" "worker_join tid vp (lib_of s) = Switch l" "find_tcb_by_id tid (lib_of s) = Some (Some t)" "resumes pol l l'"
  | p t vp r v l where "s' = s\<lparr>lib_of := l, pend := (pend s)(p := Idle)\<rparr>" "running_tcb (lib_of s) = Some p"
      "pend s p = Joining t vp" "finish_join t vp (lib_of s) = Return r v l"
  | p m mx r v l where "s' = s\<lparr>lib_of := l, mutexes := (mutexes s)(m := mx), pend := (pend s)(p := Idle)\<rparr>"
      "running_tcb (lib_of s) = Some p" "pend s p = Idle \<or> pend s p = Locking m"
      "worker_mutex_lock (Some (mutexes s m)) (lib_of s) = (Some mx, Return r v l)"
  | p m mx l l' where "s' = s\<lparr>lib_of := l', mutexes := (mutexes s)(m := mx), pend := (pend s)(p := Locking m)\<rparr>"
      "running_tcb (lib_of s) = Some p" "pend s p = Idle \<or> pend s p = Locking m"
      "worker_mutex_lock (Some (mutexes s m)) (lib_of s) = (Some mx, Switch l)" "resumes pol l l'"
  | p m mx r v l where "s' = s\<lparr>lib_of := l, mutexes := (mutexes s)(m := mx)\<rparr>" "running_tcb (lib_of s) = Some p" "pend s p = Idle"
      "worker_mutex_unlock pol (Some (mutexes s m)) (lib_of s) = (Some mx, Return r v l)"
  | p m r mx where "s' = s\<lparr>mutexes := (mutexes s)(m := mx)\<rparr>" "running_tcb (lib_of s) = Some p" "pend s p = Idle"
      "worker_mutex_destroy (Some (mutexes s m)) = (r, Some mx)"
  using assms
proof cases
  case (call p)
  from call(2) show ?thesis
  proof cases
    case create
    show ?thesis by (rule that(1) [OF create(1) call(1) create(2-4)])
  next
    case join
    show ?thesis by (rule that(5) [OF join(1) call(1) join(2,3)])
  next
    case join_end
    show ?thesis by (rule that(7) [OF join_end(1) call(1) join_end(2,3)])
  next
    case lock
    show ?thesis by (rule that(8) [OF lock(1) call(1) lock(2,3)])
  next
    case unlock
    show ?thesis by (rule that(10) [OF unlock(1) call(1) unlock(2,3)])
  next
    case destroy
    show ?thesis by (rule that(11) [OF destroy(1) call(1) destroy(2,3)])
  qed
next
  case (switch p s1 l)
  from switch(2) show ?thesis
  proof cases
    case tick
    show ?thesis by (rule that(2) [where l = l and p = p]) (use switch tick in simp_all)
  next
    case (yield l0)
    show ?thesis by (rule that(3) [where l = l0 and l' = l and p = p]) (use switch yield in simp_all)
  next
    case (exit v l0)
    show ?thesis by (rule that(4) [where l = l0 and l' = l and p = p and v = v]) (use switch exit in simp_all)
  next
    case (join_wait tid vp l0 t)
    show ?thesis by (rule that(6) [where l = l0 and l' = l and p = p and tid = tid and vp = vp and t = t]) (use switch join_wait in simp_all)
  next
    case (lock_wait m mx l0)
    show ?thesis by (rule that(9) [where l = l0 and l' = l and p = p and m = m and mx = mx]) (use switch lock_wait in simp_all)
  qed
qed

text \<open>
  A run starts with the first \<open>worker_create\<close> of the main program, which makes the main thread; its
  mutexes have been initialised before.
\<close>

definition fresh_mutex :: mutex where
  "fresh_mutex = \<lparr>m_locked = False, owner_tcb = None, wait_queue = []\<rparr>"

inductive reach :: "policy \<Rightarrow> sys \<Rightarrow> bool" for pol where
  start: "clean e \<Longrightarrow> worker_create pol e (boot c) = Return r v l \<Longrightarrow>
    reach pol \<lparr>lib_of = l, mutexes = \<lambda>_. fresh_mutex, pend = \<lambda>_. Idle\<rparr>"
| step: "reach pol s \<Longrightarrow> step pol s s' \<Longrightarrow> reach pol s'"

text \<open>
  The whole program: \<open>cpu\<close> is the thread whose code executes. When the scheduler finds no ready thread
  it may return to the main program (\<open>ToMain\<close>). The code of the main thread goes on then, where it left
  the processor, but \<open>running_tcb\<close> stays what it was, so the two differ; \<open>fell_back\<close> records that
  this has happened. From then on the calls that return are followed, and entries of the scheduler
  while \<open>running_tcb\<close> is the executing thread; otherwise \<open>swapcontext\<close> would save the main program's
  context in the block of another thread.
\<close>

record machine =
  sys_of :: sys
  cpu :: nat
  fell_back :: bool

inductive machine_step :: "policy \<Rightarrow> machine \<Rightarrow> machine \<Rightarrow> bool" for pol where
  call: "calls pol (cpu c) (sys_of c) s' \<Longrightarrow> machine_step pol c (c\<lparr>sys_of := s'\<rparr>)"
| switch: "leaves pol (cpu c) (sys_of c) s1 \<Longrightarrow> schedule pol (lib_of s1) = Some (Run q l) \<Longrightarrow>
    machine_step pol c (c\<lparr>sys_of := s1\<lparr>lib_of := l\<rparr>, cpu := q\<rparr>)"
| to_main: "leaves pol (cpu c) (sys_of c) s1 \<Longrightarrow> schedule pol (lib_of s1) = Some (ToMain l) \<Longrightarrow> main_tcb l = Some q \<Longrightarrow>
    machine_step pol c (c\<lparr>sys_of := s1\<lparr>lib_of := l\<rparr>, cpu := q, fell_back := True\<rparr>)"

inductive program :: "policy \<Rightarrow> machine \<Rightarrow> bool" for pol where
  start: "clean e \<Longrightarrow> worker_create pol e (boot k) = Return r v l \<Longrightarrow> main_tcb l = Some p \<Longrightarrow>
    program pol \<lparr>sys_of = \<lparr>lib_of = l, mutexes = \<lambda>_. fresh_mutex, pend = \<lambda>_. Idle\<rparr>, cpu = p, fell_back = False\<rparr>"
| step: "program pol c \<Longrightarrow> machine_step pol c c' \<Longrightarrow> program pol c'"

text \<open>A mutex is locked exactly when it has an owner.\<close>

definition mutex_ok :: "mutex \<Rightarrow> bool" where
  "mutex_ok m \<longleftrightarrow> (m_locked m \<longleftrightarrow> owner_tcb m \<noteq> None)"

definition lib_mem :: "lib \<Rightarrow> bool" where
  "lib_mem l \<longleftrightarrow> mem_ok (static (cores l)) (thread_table l) (stacks l) (next_addr l) (next_thread_id l) \<and> main_tcb l \<noteq> None"

definition sys_inv :: "policy \<Rightarrow> sys \<Rightarrow> bool" where
  "sys_inv pol s \<longleftrightarrow> (\<exists>M. ready_rep pol (lib_of s) M \<and>
     threads_ok (cores (lib_of s)) (running_tcb (lib_of s)) M (\<lambda>m. wait_queue (mutexes s m)) (pend s)) \<and>
     lib_mem (lib_of s) \<and> (\<forall>m. mutex_ok (mutexes s m))"

lemma static_upd [simp]:
  "cs p = Some c \<Longrightarrow> static (cs(p \<mapsto> c\<lparr>c_state := st\<rparr>)) = static cs"
  "cs p = Some c \<Longrightarrow> static (cs(p \<mapsto> c\<lparr>c_joined := b\<rparr>)) = static cs"
  "cs p = Some c \<Longrightarrow> static (cs(p \<mapsto> c\<lparr>c_wait := w\<rparr>)) = static cs"
  by (auto simp: static_def fun_eq_iff)

lemma lib_mem_cong: "lib_mem l \<Longrightarrow> same_env l l' \<Longrightarrow> static (cores l') = static (cores l) \<Longrightarrow> lib_mem l'"
  by (simp add: lib_mem_def same_env_def)

text \<open>Freeing a thread block does not touch memory that is not allocated.\<close>

lemma find_total:
  assumes mem: "lib_mem l"
  obtains r where "find_tcb_by_id tid l = Some r" "\<And>t. r = Some t \<Longrightarrow> \<exists>d. tcbs l t = Some d \<and> t_id d = tid"
proof -
  have alive: "tcbs l p \<noteq> None" if "Some p \<in> set (thread_table l)" for p
    using mem that by (auto simp: lib_mem_def mem_ok_def static_def cores_def)
  obtain r where r: "locate (tcbs l) tid (thread_table l) = Some r" "case r of
       None \<Rightarrow> (\<forall>p t. Some p \<in> set (thread_table l) \<longrightarrow> tcbs l p = Some t \<longrightarrow> t_id t \<noteq> tid)
     | Some i \<Rightarrow> i < length (thread_table l) \<and> (\<exists>p t. thread_table l ! i = Some p \<and> tcbs l p = Some t \<and> t_id t = tid) \<and>
         (\<forall>j < i. \<forall>p t. thread_table l ! j = Some p \<longrightarrow> tcbs l p = Some t \<longrightarrow> t_id t \<noteq> tid)"
    using locate_total [of "thread_table l" "tcbs l" tid] alive by blast
  show thesis
  proof (rule that)
    show "find_tcb_by_id tid l = Some (case r of None \<Rightarrow> None | Some i \<Rightarrow> thread_table l ! i)"
      using r(1) by (simp add: find_tcb_by_id_def)
  qed (use r(2) in \<open>auto split: option.splits\<close>)
qed

lemma cleanup_thread_spec:
  assumes mem: "lib_mem l" and t: "tcbs l t = Some d"
  obtains l' where "cleanup_thread t l = Some l'" "cores l' = (cores l)(t := None)" "lib_mem l'"
    "same_queues l l'" "running_tcb l' = running_tcb l"
proof -
  have ok: "mem_ok (static (cores l)) (thread_table l) (stacks l) (next_addr l) (next_thread_id l)" and mn: "main_tcb l \<noteq> None"
    using mem by (auto simp: lib_mem_def)
  note D = mem_okD [OF ok]
  have st: "static (cores l) p = map_option (\<lambda>t. (t_id t, t_stack t)) (tcbs l p)" for p
    by (cases "tcbs l p") (simp_all add: static_def cores_def)
  have alive: "tcbs l p \<noteq> None" if "Some p \<in> set (thread_table l)" for p
    using D(8) [OF that] by (simp add: st)
  have only: "p = t" if "tcbs l p = Some e" "t_id e = t_id d" for p e
    using D(4) [of p "t_id d" "t_stack e" t "t_id d" "t_stack d"] that t by (auto simp: st)
  obtain r where r: "locate (tcbs l) (t_id d) (thread_table l) = Some r" "case r of
       None \<Rightarrow> (\<forall>p e. Some p \<in> set (thread_table l) \<longrightarrow> tcbs l p = Some e \<longrightarrow> t_id e \<noteq> t_id d)
     | Some i \<Rightarrow> i < length (thread_table l) \<and> (\<exists>p e. thread_table l ! i = Some p \<and> tcbs l p = Some e \<and> t_id e = t_id d) \<and>
         (\<forall>j < i. \<forall>p e. thread_table l ! j = Some p \<longrightarrow> tcbs l p = Some e \<longrightarrow> t_id e \<noteq> t_id d)"
    using locate_total [of "thread_table l" "tcbs l" "t_id d"] alive by blast
  define tab where "tab = (case r of None \<Rightarrow> thread_table l | Some i \<Rightarrow> (thread_table l)[i := None])"
  define n where "n = (case r of None \<Rightarrow> thread_count l | Some i \<Rightarrow> thread_count l - 1)"
  define stk where "stk = (case t_stack d of None \<Rightarrow> stacks l | Some a \<Rightarrow> stacks l - {a})"
  have rem: "remove_thread_from_table (t_id d) l = Some (l\<lparr>thread_table := tab, thread_count := n\<rparr>)"
    using r(1) by (simp add: remove_thread_from_table_def tab_def n_def split: option.split)
  have "t_stack d = Some a \<Longrightarrow> a \<in> stacks l" for a using D(3) [of t "t_id d" a] t by (simp add: st)
  then have free: "free_stack (t_stack d) (l\<lparr>thread_table := tab, thread_count := n\<rparr>) =
      Some (l\<lparr>thread_table := tab, thread_count := n, stacks := stk\<rparr>)"
    by (auto simp: free_stack_def stk_def split: option.split)
  define i where "i = (case r of None \<Rightarrow> 0 | Some i \<Rightarrow> i)"
  have tb: "tab = (if Some t \<in> set (thread_table l) then (thread_table l)[i := None] else thread_table l) \<and>
      (Some t \<in> set (thread_table l) \<longrightarrow> i < length (thread_table l) \<and> thread_table l ! i = Some t)"
  proof (cases r)
    case None
    then show ?thesis using r(2) t by (auto simp: tab_def)
  next
    case (Some k)
    then have "k < length (thread_table l)" "thread_table l ! k = Some t" using r(2) only by auto
    then show ?thesis using Some nth_mem by (fastforce simp: tab_def i_def)
  qed
  let ?l = "l\<lparr>thread_table := tab, thread_count := n, stacks := stk, tcbs := (tcbs l)(t := None)\<rparr>"
  have "mem_ok ((static (cores l))(t := None)) tab stk (next_addr l) (next_thread_id l)"
    using tb by (intro mem_ok_free [OF ok, of t "t_id d" "t_stack d" _ i]) (simp_all add: st t stk_def)
  moreover have "static (cores ?l) = (static (cores l))(t := None)" by (auto simp: static_def cores_def fun_eq_iff)
  ultimately have "lib_mem ?l" using mn by (simp add: lib_mem_def)
  moreover have "cleanup_thread t l = Some ?l" using t rem free by (simp add: cleanup_thread_def)
  moreover have "cores ?l = (cores l)(t := None)" by (auto simp: cores_def fun_eq_iff)
  ultimately show thesis by (intro that [of ?l]) (simp_all add: same_queues_def)
qed

lemma finish_join_spec:
  assumes mem: "lib_mem l" and t: "tcbs l t = Some d"
  obtains l' where "finish_join t vp l = Return 0 (if vp then Some (t_retval d) else None) l'"
    "cores l' = (cores l)(t := None)" "lib_mem l'" "same_queues l l'" "running_tcb l' = running_tcb l"
proof -
  obtain l' where "cleanup_thread t l = Some l'" "cores l' = (cores l)(t := None)" "lib_mem l'"
    "same_queues l l'" "running_tcb l' = running_tcb l"
    by (rule cleanup_thread_spec [OF mem t])
  then show thesis using t by (intro that [of l']) (simp_all add: finish_join_def)
qed

text \<open>The main thread that the first \<open>worker_create\<close> makes.\<close>

lemma init_main_boot:
  assumes "init_main_thread e (boot c) = Some l"
  shows "cores l = (\<lambda>_. None)(2 \<mapsto> core ((e_main_junk e)\<lparr>t_id := 0, t_state := RUNNING, t_stack := None,
      t_retval := 0, has_started := True\<rparr>))"
    "main_tcb l = Some 2" "running_tcb l = Some 2" "stacks l = {1}" "next_addr l = 3" "next_thread_id l = 1"
    "thread_table l = replicate MAX_THREADS None" "rr_queue l = []"
    "psjf_heap l = \<lparr>h_threads = replicate MAX_THREADS None, h_size = 0\<rparr>"
    "cfs_heap l = \<lparr>h_threads = replicate MAX_THREADS None, h_size = 0\<rparr>"
    "mlfq_levels l = replicate MAX_MLFQ_LEVELS []" "thread_count l = 0" "timer_us l = QUANTUM * 1000"
proof -
  have l: "l = (boot c)\<lparr>scheduler_initialized := True, stacks := {1}, next_addr := 3, timer_us := QUANTUM * 1000,
      tcbs := Map.empty(2 \<mapsto> (e_main_junk e)\<lparr>t_id := 0, t_state := RUNNING, t_stack := None,
        t_retval := 0, has_started := True\<rparr>), main_tcb := Some 2, running_tcb := Some 2\<rparr>"
    using assms unfolding init_main_thread_def init_scheduler_def init_timer_def init_thread_table_def alloc_stack_def
    by (simp add: boot_def init_heap_def Let_def numeral_2_eq_2 numeral_3_eq_3 split: if_splits Option.bind_splits)
  show "cores l = (\<lambda>_. None)(2 \<mapsto> core ((e_main_junk e)\<lparr>t_id := 0, t_state := RUNNING, t_stack := None,
      t_retval := 0, has_started := True\<rparr>))" by (simp add: l cores_def fun_eq_iff)
  show "main_tcb l = Some 2" "running_tcb l = Some 2" "stacks l = {1}" "next_addr l = 3" "next_thread_id l = 1"
    "thread_table l = replicate MAX_THREADS None" "rr_queue l = []"
    "psjf_heap l = \<lparr>h_threads = replicate MAX_THREADS None, h_size = 0\<rparr>"
    "cfs_heap l = \<lparr>h_threads = replicate MAX_THREADS None, h_size = 0\<rparr>"
    "mlfq_levels l = replicate MAX_MLFQ_LEVELS []" "thread_count l = 0" "timer_us l = QUANTUM * 1000"
    by (simp_all add: l boot_def)
qed

lemma heap_rep_empty: "heap_rep \<lparr>h_threads = replicate MAX_THREADS None, h_size = 0\<rparr> []"
  by (simp add: heap_rep_def holds_def)

lemma init_main_ready: "init_main_thread e (boot c) = Some l \<Longrightarrow> ready_rep pol l {#}"
  using init_main_boot(8-11) [of e c l] heap_rep_empty by (cases pol) auto

lemma init_main_inv:
  assumes init: "init_main_thread e (boot c) = Some l" and clean: "clean e"
  shows "threads_ok (cores l) (Some 2) {#} (\<lambda>m. []) (\<lambda>_. Idle)" "lib_mem l"
proof -
  note B = init_main_boot [OF init]
  have v: "waiter (cores l) p = None" "has_state (cores l) p st \<longleftrightarrow> p = 2 \<and> st = RUNNING" "alive (cores l) p \<longleftrightarrow> p = 2" for p st
    using clean by (auto simp: B(1) waiter_def has_state_def alive_def clean_def)
  show "threads_ok (cores l) (Some 2) {#} (\<lambda>m. []) (\<lambda>_. Idle)"
    by (simp add: threads_ok_def entering_def waits_ok_def v)
  have "static (cores l) p = (if p = 2 then Some (0, None) else None)" for p
    by (simp add: B(1) static_def)
  then show "lib_mem l" using B(2-7) by (auto simp: lib_mem_def mem_ok_def MAX_THREADS_def split: if_splits)
qed

lemma has_state_tcb: "tcbs l q = Some t \<Longrightarrow> has_state (cores l) q st \<longleftrightarrow> t_state t = st"
  by (simp add: has_state_def cores_def core_def)

text \<open>No call that returns changes the running thread.\<close>

lemma create_keeps:
  assumes "create_thread pol e l = Return r v l'"
  shows "running_tcb l' = running_tcb l" "main_tcb l' = main_tcb l"
proof -
  have add: "running_tcb l2 = running_tcb l1 \<and> main_tcb l2 = main_tcb l1" if "add_to_scheduler pol p l1 = Some l2" for p l1 l2
    using that by (cases pol) (auto simp: add_to_scheduler_def Let_def split: Option.bind_splits if_splits)
  have tab: "running_tcb (snd (add_thread_to_table p l1)) = running_tcb l1" "main_tcb (snd (add_thread_to_table p l1)) = main_tcb l1" for p l1
    by (simp_all add: add_thread_to_table_def split: option.split)
  show "running_tcb l' = running_tcb l" "main_tcb l' = main_tcb l"
    using assms by (auto simp: create_thread_def Let_def clock_gettime_def alloc_stack_def tab dest!: add split: if_splits option.splits)
qed

lemma upd_tcb_running: "upd_tcb p f l = Some l' \<Longrightarrow> running_tcb l' = running_tcb l"
  by (auto simp: upd_tcb_def split: Option.bind_splits option.splits)

lemma add_running: "add_to_scheduler pol p l = Some l' \<Longrightarrow> running_tcb l' = running_tcb l"
  by (cases pol) (auto simp: add_to_scheduler_def Let_def split: Option.bind_splits if_splits)

lemma cleanup_running: "cleanup_thread t l = Some l' \<Longrightarrow> running_tcb l' = running_tcb l"
  by (auto simp: cleanup_thread_def remove_thread_from_table_def free_stack_def split: Option.bind_splits option.splits if_splits)

lemma finish_running: "finish_join t vp l = Return r v l' \<Longrightarrow> running_tcb l' = running_tcb l"
  by (auto simp: finish_join_def dest: cleanup_running split: option.splits Option.bind_splits)

lemma calls_running:
  assumes "calls pol p s s'" "main_tcb (lib_of s) \<noteq> None"
  shows "running_tcb (lib_of s') = running_tcb (lib_of s)"
  using assms(1)
proof cases
  case (create e r v l)
  then show ?thesis using create_keeps(1) [of pol e "lib_of s" r v l] assms(2) by (simp add: worker_create_def split: option.splits)
next
  case (join tid vp r v l)
  then show ?thesis
    by (auto simp: worker_join_def dest!: upd_tcb_running finish_running split: option.splits if_splits Option.bind_splits)
next
  case (lock m mx r v l)
  then show ?thesis by (auto simp: worker_mutex_lock_def dest: upd_tcb_running split: option.splits if_splits Option.bind_splits)
next
  case (unlock m mx r v l)
  then show ?thesis
    by (auto simp: worker_mutex_unlock_def Let_def dest!: upd_tcb_running add_running split: option.splits if_splits Option.bind_splits prod.splits)
qed (use finish_running in simp_all)

text \<open>Entering the scheduler leaves every mutex with its owner.\<close>

lemma leaves_mutex:
  assumes "leaves pol p s s1"
  shows "owner_tcb (mutexes s1 m) = owner_tcb (mutexes s m)" "m_locked (mutexes s1 m) = m_locked (mutexes s m)"
  using assms
  by (cases; auto simp: worker_mutex_lock_def split: if_splits option.splits)+

text \<open>A call changes the owner of a mutex only from or to the running thread.\<close>

lemma calls_owner:
  assumes "calls pol p s s'" "running_tcb (lib_of s) = Some p" "\<And>k. mutex_ok (mutexes s k)"
  shows "mutex_ok (mutexes s' m) \<and>
    (owner_tcb (mutexes s' m) = owner_tcb (mutexes s m) \<or>
     owner_tcb (mutexes s m) = None \<and> owner_tcb (mutexes s' m) = Some p \<or>
     owner_tcb (mutexes s m) = Some p \<and> owner_tcb (mutexes s' m) = None)"
  using assms(1)
proof cases
  case (lock k mx r v l)
  have "mx = mutexes s k\<lparr>m_locked := True, owner_tcb := Some p\<rparr>" "\<not> m_locked (mutexes s k)"
    using lock(3) assms(2) by (auto simp: worker_mutex_lock_def split: option.splits if_splits)
  then show ?thesis using lock(1) assms(3) [of k] assms(3) [of m] by (auto simp: mutex_ok_def)
next
  case (unlock k mx r v l)
  have "mx = mutexes s k \<or> owner_tcb (mutexes s k) = Some p \<and> owner_tcb mx = None \<and> \<not> m_locked mx"
    using unlock(3) assms(2) by (auto simp: worker_mutex_unlock_def Let_def split: if_splits option.splits prod.splits)
  then show ?thesis using unlock(1) assms(3) [of k] assms(3) [of m] by (auto simp: mutex_ok_def)
next
  case (destroy k r mx)
  have "mx = mutexes s k" using destroy(3) by (auto simp: worker_mutex_destroy_def split: if_splits)
  then show ?thesis using destroy(1) assms(3) by simp
qed (use assms(3) in simp_all)

context run_queue begin

text \<open>Through the scheduler.\<close>

lemma resumes_inv:
  assumes res: "resumes pol l l'" and rep: "ready_rep pol l M" and run: "running_tcb l = Some p"
    and ent: "entering (cores l) p M W pd" and mem: "lib_mem l"
  shows "\<exists>M'. ready_rep pol l' M' \<and> threads_ok (cores l') (running_tcb l') M' W pd" "lib_mem l'"
    "\<exists>q. schedule pol l = Some (Run q l') \<and> running_tcb l' = Some q"
proof -
  obtain q where sch: "schedule pol l = Some (Run q l')" using res by (auto simp: resumes_def)
  obtain c M1 cs M' d where S: "cores l p = Some c"
    "M1 = (if c_state c = RUNNING \<or> c_state c = READY then add_mset p M else M)"
    "cs = (if c_state c = RUNNING then (cores l)(p \<mapsto> c\<lparr>c_state := READY\<rparr>) else cores l)"
    "M1 = add_mset q M'" "ready_rep pol l' M'" "cs q = Some d" "cores l' = cs(q \<mapsto> d\<lparr>c_state := RUNNING\<rparr>)"
    "running_tcb l' = Some q" "same_env l l'"
    by (rule schedule_law [OF rep run sch])
  show "\<exists>M'. ready_rep pol l' M' \<and> threads_ok (cores l') (running_tcb l') M' W pd"
    using threads_ok_dispatch [OF ent S(1-4,6)] S(5,7,8) by auto
  have "static (cores l') = static (cores l)" using S(1,3,6,7) by (auto split: if_splits)
  then show "lib_mem l'" by (rule lib_mem_cong [OF mem S(9)])
  show "\<exists>q. schedule pol l = Some (Run q l') \<and> running_tcb l' = Some q" using sch S(8) by blast
qed

lemma reply_cases:
  "(if \<not> a then Return x n l1 else if b then Crash else if \<not> c then Return x n l2 else if \<not> d then Return x n l3
    else case f of None \<Rightarrow> Crash | Some l \<Rightarrow> Return y w l) = Return r v l' \<Longrightarrow>
   l' = l1 \<or> \<not> b \<and> l' = l2 \<or> \<not> b \<and> l' = l3 \<or> \<not> b \<and> f = Some l'"
  by (auto split: if_splits option.splits)

lemma create_thread_inv:
  assumes call: "create_thread pol e l = Return r v l'" and clean: "waiting_thread (e_junk e) = None"
    and rep: "ready_rep pol l M" and run: "running_tcb l = Some p"
    and ok: "threads_ok (cores l) (Some p) M W pd" and mem: "lib_mem l"
  shows "\<exists>M'. ready_rep pol l' M' \<and> threads_ok (cores l') (running_tcb l') M' W pd" "lib_mem l'"
proof -
  have mok: "mem_ok (static (cores l)) (thread_table l) (stacks l) (next_addr l) (next_thread_id l)" and mn: "main_tcb l \<noteq> None"
    using mem by (auto simp: lib_mem_def)
  let ?n = "next_thread_id l" and ?p = "next_addr l" and ?now = "clk l (reads l)"
  let ?l1 = "l\<lparr>next_addr := ?p + 1, next_thread_id := ?n + 1, thread_count := thread_count l + 1, reads := reads l + 1\<rparr>"
  let ?l2 = "?l1\<lparr>stacks := insert (?p + 1) (stacks l), next_addr := ?p + 2\<rparr>"
  let ?t = "new_tcb e ?n ?now (?p + 1)"
  let ?l3 = "?l2\<lparr>tcbs := (tcbs l)(?p \<mapsto> ?t)\<rparr>"
  let ?l4 = "snd (add_thread_to_table ?p ?l3)"
  have eq: "create_thread pol e l =
      (if \<not> e_tcb e then Return (-1) None l
       else if ?n \<ge> 2 ^ 31 - 1 then Crash
       else if \<not> e_stack e then Return (-1) None ?l1
       else if \<not> e_context e then Return (-1) None ?l2
       else case add_to_scheduler pol ?p ?l4 of None \<Rightarrow> Crash | Some l \<Rightarrow> Return 0 (Some (word_of_int ?n)) l)"
    by (simp add: create_thread_def Let_def clock_gettime_def alloc_stack_def)
  have "l' = l \<or> \<not> ?n \<ge> 2 ^ 31 - 1 \<and> l' = ?l1 \<or> \<not> ?n \<ge> 2 ^ 31 - 1 \<and> l' = ?l2 \<or>
      \<not> ?n \<ge> 2 ^ 31 - 1 \<and> add_to_scheduler pol ?p ?l4 = Some l'"
    by (rule reply_cases [OF call [unfolded eq]])
  then consider (tcb) "l' = l" | (stack) "?n < 2 ^ 31 - 1" "l' = ?l1" | (ctx) "?n < 2 ^ 31 - 1" "l' = ?l2"
    | (fin) "?n < 2 ^ 31 - 1" "add_to_scheduler pol ?p ?l4 = Some l'"
    unfolding not_le by blast
  then have "(\<exists>M'. ready_rep pol l' M' \<and> threads_ok (cores l') (running_tcb l') M' W pd) \<and> lib_mem l'"
  proof cases
    case tcb
    then show ?thesis
      using rep ok run mem by auto
  next
    case stack
    have "cores l' = cores l" by (simp add: stack(2) cores_def fun_eq_iff)
    moreover have "ready_rep pol l' M" using rep ready_rep_cong [of l l' pol M] by (simp add: stack(2) same_queues_def)
    moreover have "lib_mem l'" using mem_ok_bump [OF mok, of "?p + 1" "?n + 1"] stack(1) mn calculation(1)
      by (simp add: lib_mem_def stack(2))
    ultimately show ?thesis
      using ok run by (auto simp: stack(2))
  next
    case ctx
    have "cores l' = cores l" by (simp add: ctx(2) cores_def fun_eq_iff)
    moreover have "ready_rep pol l' M" using rep ready_rep_cong [of l l' pol M] by (simp add: ctx(2) same_queues_def)
    moreover have "mem_ok (static (cores l)) (thread_table l) (insert (?p + 1) (stacks l)) (?p + 2) (?n + 1)"
      using mem_ok_stack [OF mem_ok_bump [OF mok, of "?p + 1" "?n + 1"]] ctx(1) by simp
    ultimately show ?thesis
      using ok run mn by (auto simp: ctx(2) lib_mem_def)
  next
    case fin
    have fresh: "cores l ?p = None"
      using mem_okD(1) [OF mok, of ?p] by (cases "cores l ?p") (auto simp: static_def)
    have l4: "cores ?l4 = (cores l)(?p \<mapsto> core ?t)" "same_queues l ?l4" "running_tcb ?l4 = running_tcb l"
      "stacks ?l4 = insert (?p + 1) (stacks l)" "next_addr ?l4 = ?p + 2" "next_thread_id ?l4 = ?n + 1" "main_tcb ?l4 = main_tcb l"
      by (auto simp: add_thread_to_table_def cores_def fun_eq_iff same_queues_def split: option.split)
    have "ready_rep pol ?l4 M" using rep ready_rep_cong [OF l4(2)] by simp
    from add_law [OF this fin(2)] have A: "ready_rep pol l' (add_mset ?p M)" "cores l' = cores ?l4" "same_env ?l4 l'"
      "running_tcb l' = running_tcb ?l4" by (auto simp: cores_def fun_eq_iff)
    have c: "c_state (core ?t) = READY" "c_wait (core ?t) = None" using clean by (simp_all add: new_tcb_def)
    have thr: "threads_ok (cores l') (running_tcb l') (add_mset ?p M) W pd"
      using threads_ok_create [OF ok fresh c] A(2,4) l4(1,3) run by simp
    have m1: "mem_ok (static ((cores l)(?p \<mapsto> core ?t))) (thread_table l) (insert (?p + 1) (stacks l)) (?p + 2) (?n + 1)"
    proof -
      have "static ((cores l)(?p \<mapsto> core ?t)) = (static (cores l))(?p \<mapsto> (word_of_int ?n, Some (?p + 1)))"
        by (rule ext) (simp add: static_def, simp add: new_tcb_def)
      then show ?thesis using mem_ok_new [OF mok fin(1)] by (simp only:)
    qed
    have "mem_ok (static (cores ?l4)) (thread_table ?l4) (insert (?p + 1) (stacks l)) (?p + 2) (?n + 1)"
    proof (cases "first_free (thread_table l)")
      case None
      then show ?thesis using m1 l4(1) by (simp add: add_thread_to_table_def)
    next
      case (Some i)
      have "Some ?p \<notin> set (thread_table l)" using mem_okD(8) [OF mok, of ?p] fresh by (auto simp: static_def)
      then show ?thesis
        using mem_ok_enter [OF m1, of i ?p] first_free_SomeD [OF Some] l4(1) Some
        by (simp add: add_thread_to_table_def static_def)
    qed
    then have "lib_mem ?l4" using l4 mn by (simp add: lib_mem_def)
    then have "lib_mem l'" using A(2,3) by (auto intro: lib_mem_cong)
    then show ?thesis
      using A(1) thr by blast
  qed
  then show "\<exists>M'. ready_rep pol l' M' \<and> threads_ok (cores l') (running_tcb l') M' W pd" "lib_mem l'" by blast+
qed

text \<open>Writes to blocks that a call makes before it enters the scheduler.\<close>

lemma frame:
  assumes "same_but p f l l'" "ready_rep pol l M" "lib_mem l" "\<And>c. c_id (f c) = c_id c" "\<And>c. c_stack (f c) = c_stack c"
  shows "ready_rep pol l' M" "lib_mem l'" "running_tcb l' = running_tcb l"
    "\<exists>c. cores l p = Some c \<and> cores l' = (cores l)(p \<mapsto> f c)"
proof -
  obtain c where c: "cores l p = Some c" "cores l' = (cores l)(p \<mapsto> f c)" "same_env l l'" "same_queues l l'"
    "running_tcb l' = running_tcb l" using assms(1) by (auto simp: same_but_def)
  show "ready_rep pol l' M" using assms(2) ready_rep_cong [OF c(4)] by simp
  have "static (cores l') = static (cores l)" using c(1,2) assms(4,5) by (auto simp: static_def fun_eq_iff)
  then show "lib_mem l'" by (rule lib_mem_cong [OF assms(3) c(3)])
qed (use assms(1) in \<open>auto simp: same_but_def\<close>)

lemma add_frame:
  assumes "ready_rep pol l M" "add_to_scheduler pol p l = Some l'" "lib_mem l"
  shows "ready_rep pol l' (add_mset p M)" "cores l' = cores l" "running_tcb l' = running_tcb l" "lib_mem l'"
proof -
  note A = add_law [OF assms(1,2)]
  then show "ready_rep pol l' (add_mset p M)" "cores l' = cores l" "running_tcb l' = running_tcb l"
    by (auto simp: cores_def fun_eq_iff)
  then show "lib_mem l'" using A assms(3) by (auto intro: lib_mem_cong)
qed

lemma yield_inv:
  assumes call: "worker_yield l = Switch l'" and rep: "ready_rep pol l M" and run: "running_tcb l = Some p"
    and ok: "threads_ok (cores l) (Some p) M W pd" and mem: "lib_mem l"
  shows "ready_rep pol l' M" "running_tcb l' = Some p" "entering (cores l') p M W pd" "lib_mem l'"
proof -
  have u: "upd_tcb p (\<lambda>t. t\<lparr>t_state := READY\<rparr>) l = Some l'"
    using call run by (auto simp: worker_yield_def split: option.splits)
  have sb: "same_but p (\<lambda>c. c\<lparr>c_state := READY\<rparr>) l l'" by (rule upd_tcb_same_but [OF u]) simp
  note F = frame [OF sb rep mem, simplified]
  show "ready_rep pol l' M" "running_tcb l' = Some p" "lib_mem l'" using F run by simp_all
  show "entering (cores l') p M W pd" using F(4) entering_yield [OF ok] by auto
qed

lemma exit_inv:
  assumes call: "worker_exit pol v l = Switch l'" and rep: "ready_rep pol l M" and run: "running_tcb l = Some p"
    and ok: "threads_ok (cores l) (Some p) M W pd" and idle: "pd p = Idle" and mem: "lib_mem l"
  shows "\<exists>M'. ready_rep pol l' M' \<and> entering (cores l') p M' W pd" "running_tcb l' = Some p" "lib_mem l'"
proof -
  let ?l0 = "l\<lparr>reads := reads l + 1\<rparr>" and ?now = "clk l (reads l)"
  obtain l1 t l2 where l1: "upd_tcb p (\<lambda>t. t\<lparr>t_state := TERMINATED, t_retval := v, finish_time := ?now\<rparr>) ?l0 = Some l1"
    "tcbs l1 p = Some t"
    and l2: "l2 = l1\<lparr>thread_count := thread_count l1 - 1, completed_threads := completed_threads l1 + 1,
        total_turnaround_time := total_turnaround_time l1 + time_diff_microseconds (arrival_time t) ?now,
        total_response_time := total_response_time l1 + time_diff_microseconds (arrival_time t) (start_time t)\<rparr>"
    and wake: "wake_waiting pol p l2 = Some l'"
    using call run by (auto simp: worker_exit_def clock_gettime_def Let_def split: Option.bind_splits option.splits)
  have sb0: "same_but p (\<lambda>c. c\<lparr>c_state := TERMINATED\<rparr>) ?l0 l1" by (rule upd_tcb_same_but [OF l1(1)]) simp
  have sb: "same_but p (\<lambda>c. c\<lparr>c_state := TERMINATED\<rparr>) l l2"
  proof -
    have "cores ?l0 = cores l" "cores l2 = cores l1" "same_env l l2 = same_env ?l0 l1" "same_queues l l2 = same_queues ?l0 l1"
      "running_tcb l2 = running_tcb l1" "running_tcb ?l0 = running_tcb l"
      by (simp_all add: l2 cores_def fun_eq_iff same_env_def same_queues_def)
    then show ?thesis using sb0 unfolding same_but_def by (simp only:)
  qed
  have t2: "tcbs l2 p = Some t" using l1(2) by (simp add: l2)
  note F = frame [OF sb rep mem, simplified]
  obtain c where c: "cores l p = Some c" "cores l2 = (cores l)(p \<mapsto> c\<lparr>c_state := TERMINATED\<rparr>)" using F(4) by blast
  have ct: "core t = c\<lparr>c_state := TERMINATED\<rparr>" using fun_cong [OF c(2), of p] cores_eq [OF t2] by simp
  have wt: "waiting_thread t = c_wait c" using arg_cong [OF ct, of c_wait] by simp
  have "(\<exists>M'. ready_rep pol l' M' \<and> entering (cores l') p M' W pd) \<and> running_tcb l' = Some p \<and> lib_mem l'"
  proof (cases "c_wait c")
    case None
    then have "l' = l2" using wake t2 wt by (simp add: wake_waiting_def)
    then show ?thesis using F c entering_exit [OF ok c(1) None idle] run by auto
  next
    case (Some w)
    obtain l3 l4 where l3: "upd_tcb w (\<lambda>t. t\<lparr>t_state := READY\<rparr>) l2 = Some l3" "add_to_scheduler pol w l3 = Some l4"
      "upd_tcb p (\<lambda>t. t\<lparr>waiting_thread := None\<rparr>) l4 = Some l'"
      using wake t2 wt Some by (auto simp: wake_waiting_def split: Option.bind_splits)
    have s3: "same_but w (\<lambda>c. c\<lparr>c_state := READY\<rparr>) l2 l3" by (rule upd_tcb_same_but [OF l3(1)]) simp
    note F3 = frame [OF s3 F(1,2), simplified]
    note F4 = add_frame [OF F3(1) l3(2) F3(2)]
    have s5: "same_but p (\<lambda>c. c\<lparr>c_wait := None\<rparr>) l4 l'" by (rule upd_tcb_same_but [OF l3(3)]) simp
    note F5 = frame [OF s5 F4(1,4), simplified]
    obtain d where d: "cores l2 w = Some d" "cores l3 = (cores l2)(w \<mapsto> d\<lparr>c_state := READY\<rparr>)" using F3(4) by blast
    have "threads_ok (cores l) (Some p) M W pd \<Longrightarrow> has_state (cores l) w BLOCKED"
      using waits_okD(2) [OF enteringD(4), of "cores l" p M W pd p w] view_at(1) [of "cores l" p, OF c(1)] Some
      by (auto simp: threads_ok_def)
    then have "has_state (cores l) w BLOCKED" using ok by blast
    moreover have "has_state (cores l) p RUNNING" using ok by (simp add: threads_ok_def)
    ultimately have wp: "w \<noteq> p" using has_state_fun by blast
    then have dl: "cores l w = Some d" using d(1) c(2) by simp
    have "cores l' = (cores l)(p \<mapsto> c\<lparr>c_state := TERMINATED, c_wait := None\<rparr>, w \<mapsto> d\<lparr>c_state := READY\<rparr>)"
      using F5(4) F4(2) d(2) c(2) wp by (auto simp: fun_eq_iff)
    then have "entering (cores l') p (add_mset w M) W pd"
      using entering_wake_join(2) [OF ok c(1) Some idle dl] by (simp only:)
    then show ?thesis using F5 F4(3) F3(3) F(3) run by auto
  qed
  then show "\<exists>M'. ready_rep pol l' M' \<and> entering (cores l') p M' W pd" "running_tcb l' = Some p" "lib_mem l'" by blast+
qed

lemma join_wait_inv:
  assumes call: "worker_join tid vp l = Switch l'" and find: "find_tcb_by_id tid l = Some (Some t)"
    and rep: "ready_rep pol l M" and run: "running_tcb l = Some p"
    and ok: "threads_ok (cores l) (Some p) M W pd" and idle: "pd p = Idle" and mem: "lib_mem l"
  shows "ready_rep pol l' M" "running_tcb l' = Some p" "entering (cores l') p M W (pd(p := Joining t vp))" "lib_mem l'"
proof -
  obtain r d where r: "tcbs l p = Some r" "tcbs l t = Some d" "t_id r \<noteq> tid" "\<not> joined d" "t_state d \<noteq> TERMINATED"
    using call find run unfolding worker_join_def finish_join_def
    by (simp split: option.splits if_splits Option.bind_splits prod.splits)
  obtain l1 l2 where l1: "upd_tcb t (\<lambda>t. t\<lparr>joined := True\<rparr>) l = Some l1" "upd_tcb p (\<lambda>t. t\<lparr>t_state := BLOCKED\<rparr>) l1 = Some l2"
    "upd_tcb t (\<lambda>t. t\<lparr>waiting_thread := Some p\<rparr>) l2 = Some l'"
    using call find run r unfolding worker_join_def by (auto split: option.splits if_splits Option.bind_splits)
  obtain u where u: "tcbs l t = Some u" "t_id u = tid" using find_total [OF mem, of tid] find by auto
  have tp: "t \<noteq> p" using u r by auto
  have s1: "same_but t (\<lambda>c. c\<lparr>c_joined := True\<rparr>) l l1" by (rule upd_tcb_same_but [OF l1(1)]) simp
  note F1 = frame [OF s1 rep mem, simplified]
  have s2: "same_but p (\<lambda>c. c\<lparr>c_state := BLOCKED\<rparr>) l1 l2" by (rule upd_tcb_same_but [OF l1(2)]) simp
  note F2 = frame [OF s2 F1(1,2), simplified]
  have s3: "same_but t (\<lambda>c. c\<lparr>c_wait := Some p\<rparr>) l2 l'" by (rule upd_tcb_same_but [OF l1(3)]) simp
  note F3 = frame [OF s3 F2(1,2), simplified]
  show "ready_rep pol l' M" "lib_mem l'" "running_tcb l' = Some p" using F3 F2(3) F1(3) run by simp_all
  have cr: "cores l p = Some (core r)" "cores l t = Some (core d)" using r by simp_all
  have "cores l' = (cores l)(p \<mapsto> (core r)\<lparr>c_state := BLOCKED\<rparr>, t \<mapsto> (core d)\<lparr>c_joined := True, c_wait := Some p\<rparr>)"
    using F1(4) F2(4) F3(4) cr tp by (auto simp: fun_eq_iff)
  then show "entering (cores l') p M W (pd(p := Joining t vp))"
    using entering_join [OF ok cr(1) idle cr(2) tp, of vp] r by simp
qed

lemma join_end_inv:
  assumes call: "finish_join t vp l = Return r v l'" and rep: "ready_rep pol l M" and run: "running_tcb l = Some p"
    and ok: "threads_ok (cores l) (Some p) M W pd" and t: "has_state (cores l) t TERMINATED"
    and j: "pd p = Idle \<and> \<not> is_joined (cores l) t \<or> (\<exists>v. pd p = Joining t v)" and mem: "lib_mem l"
  shows "ready_rep pol l' M" "threads_ok (cores l') (running_tcb l') M W (pd(p := Idle))" "lib_mem l'"
proof -
  obtain d where d: "tcbs l t = Some d" using t by (auto simp: has_state_def cores_def)
  obtain l2 where l2: "finish_join t vp l = Return 0 (if vp then Some (t_retval d) else None) l2"
    "cores l2 = (cores l)(t := None)" "lib_mem l2" "same_queues l l2" "running_tcb l2 = running_tcb l"
    by (rule finish_join_spec [OF mem d])
  have "l' = l2" using call l2(1) by simp
  then show "ready_rep pol l' M" "lib_mem l'" using l2(3) rep ready_rep_cong [OF l2(4)] by simp_all
  show "threads_ok (cores l') (running_tcb l') M W (pd(p := Idle))"
    using threads_ok_free [OF ok t j] l2(2,5) run \<open>l' = l2\<close> by simp
qed

lemma join_inv:
  assumes call: "worker_join tid vp l = Return r v l'" and rep: "ready_rep pol l M" and run: "running_tcb l = Some p"
    and ok: "threads_ok (cores l) (Some p) M W pd" and idle: "pd p = Idle" and mem: "lib_mem l"
  shows "ready_rep pol l' M" "threads_ok (cores l') (running_tcb l') M W pd" "lib_mem l'"
proof -
  have "l' = l \<or> (\<exists>t d l1. tcbs l t = Some d \<and> \<not> joined d \<and> t_state d = TERMINATED \<and>
      upd_tcb t (\<lambda>t. t\<lparr>joined := True\<rparr>) l = Some l1 \<and> finish_join t vp l1 = Return r v l')"
    using call run unfolding worker_join_def
    by (auto split: option.splits if_splits Option.bind_splits)
  then have "ready_rep pol l' M \<and> threads_ok (cores l') (running_tcb l') M W pd \<and> lib_mem l'"
  proof (elim disjE exE conjE)
    assume "l' = l"
    then show ?thesis using rep ok mem run by simp
  next
    fix t d l1
    assume t: "tcbs l t = Some d" "\<not> joined d" "t_state d = TERMINATED"
      and l1: "upd_tcb t (\<lambda>t. t\<lparr>joined := True\<rparr>) l = Some l1" and fin: "finish_join t vp l1 = Return r v l'"
    have s1: "same_but t (\<lambda>c. c\<lparr>c_joined := True\<rparr>) l l1" by (rule upd_tcb_same_but [OF l1]) simp
    note F1 = frame [OF s1 rep mem, simplified]
    have c1: "cores l1 = (cores l)(t \<mapsto> (core d)\<lparr>c_joined := True\<rparr>)" using F1(4) t(1) by simp
    have d1: "tcbs l1 t = Some (d\<lparr>joined := True\<rparr>)" using l1 t(1) by (auto simp: upd_tcb_def)
    obtain l2 where l2: "finish_join t vp l1 = Return 0 (if vp then Some (t_retval (d\<lparr>joined := True\<rparr>)) else None) l2"
      "cores l2 = (cores l1)(t := None)" "lib_mem l2" "same_queues l1 l2" "running_tcb l2 = running_tcb l1"
      by (rule finish_join_spec [OF F1(2) d1])
    have e: "l' = l2" using fin l2(1) by simp
    have "cores l' = (cores l)(t := None)" using l2(2) c1 e by simp
    moreover have "has_state (cores l) t TERMINATED" "\<not> is_joined (cores l) t"
      using t by (auto simp: has_state_def is_joined_def)
    moreover have "pd(p := Idle) = pd" using idle by auto
    ultimately have "threads_ok (cores l') (running_tcb l') M W pd"
      using threads_ok_free [OF ok, of t] idle l2(5) F1(3) e run by simp
    then show ?thesis using F1(1) ready_rep_cong [OF l2(4)] l2(3) e by simp
  qed
  then show "ready_rep pol l' M" "threads_ok (cores l') (running_tcb l') M W pd" "lib_mem l'" by blast+
qed

lemma lock_wait_inv:
  assumes call: "worker_mutex_lock (Some (mx m)) l = (Some m', Switch l')" and rep: "ready_rep pol l M"
    and run: "running_tcb l = Some p" and ok: "threads_ok (cores l) (Some p) M (\<lambda>m. wait_queue (mx m)) pd"
    and pd: "pd p = Idle \<or> pd p = Locking m" and mem: "lib_mem l"
  shows "ready_rep pol l' M" "running_tcb l' = Some p" "lib_mem l'"
    "entering (cores l') p M (\<lambda>k. wait_queue ((mx(m := m')) k)) (pd(p := Locking m))"
    "m_locked m' = m_locked (mx m)" "owner_tcb m' = owner_tcb (mx m)"
proof -
  have nb: "\<not> has_state (cores l) p BLOCKED" using ok has_state_fun [of "cores l" p RUNNING] by (auto simp: threads_ok_def)
  then have l: "upd_tcb p (\<lambda>t. t\<lparr>t_state := BLOCKED\<rparr>) l = Some l'" "m' = mx m\<lparr>wait_queue := put_last (wait_queue (mx m)) p\<rparr>"
    using call run unfolding worker_mutex_lock_def
    by (auto simp: has_state_def split: option.splits if_splits Option.bind_splits)
  have s1: "same_but p (\<lambda>c. c\<lparr>c_state := BLOCKED\<rparr>) l l'" by (rule upd_tcb_same_but [OF l(1)]) simp
  note F = frame [OF s1 rep mem, simplified]
  show "ready_rep pol l' M" "running_tcb l' = Some p" "lib_mem l'" using F run by simp_all
  obtain c where c: "cores l p = Some c" "cores l' = (cores l)(p \<mapsto> c\<lparr>c_state := BLOCKED\<rparr>)" using F(4) by blast
  have "(\<lambda>k. wait_queue ((mx(m := m')) k)) = (\<lambda>m. wait_queue (mx m))(m := wait_queue (mx m) @ [p])"
    by (auto simp: l(2) put_last_def)
  then show "entering (cores l') p M (\<lambda>k. wait_queue ((mx(m := m')) k)) (pd(p := Locking m))"
    using entering_lock [OF ok c(1) pd] c(2) by simp
  show "m_locked m' = m_locked (mx m)" "owner_tcb m' = owner_tcb (mx m)" by (simp_all add: l(2))
qed

lemma unlock_inv:
  assumes call: "worker_mutex_unlock pol (Some (mx m)) l = (Some m', Return r v l')" and rep: "ready_rep pol l M"
    and run: "running_tcb l = Some p" and ok: "threads_ok (cores l) (Some p) M (\<lambda>m. wait_queue (mx m)) pd"
    and mem: "lib_mem l" and mok: "mutex_ok (mx m)"
  shows "\<exists>M'. ready_rep pol l' M' \<and> threads_ok (cores l') (running_tcb l') M' (\<lambda>k. wait_queue ((mx(m := m')) k)) pd"
    "lib_mem l'" "mutex_ok m'"
proof -
  consider (refused) "m' = mx m" "l' = l"
    | (free) "wait_queue (mx m) = []" "m' = mx m\<lparr>owner_tcb := None, m_locked := False\<rparr>" "l' = l"
    | (wake) w ws l1 where "wait_queue (mx m) = w # ws" "upd_tcb w (\<lambda>t. t\<lparr>t_state := READY\<rparr>) l = Some l1"
        "add_to_scheduler pol w l1 = Some l'" "m' = mx m\<lparr>owner_tcb := None, m_locked := False, wait_queue := ws\<rparr>"
  proof (cases "owner_tcb (mx m) = running_tcb l")
    case True
    show thesis
    proof (cases "wait_queue (mx m)")
      case Nil
      then show thesis using call True free by (auto simp: worker_mutex_unlock_def)
    next
      case (Cons w ws)
      then show thesis using call True wake by (auto simp: worker_mutex_unlock_def split: option.splits Option.bind_splits)
    qed
  next
    case False
    then have "m' = mx m" "l' = l" using call by (simp_all add: worker_mutex_unlock_def)
    then show thesis by (rule refused)
  qed
  then have "(\<exists>M'. ready_rep pol l' M' \<and> threads_ok (cores l') (running_tcb l') M' (\<lambda>k. wait_queue ((mx(m := m')) k)) pd) \<and>
      lib_mem l' \<and> mutex_ok m'"
  proof cases
    case refused
    then have "mx(m := m') = mx" by simp
    then show ?thesis using refused rep ok mem mok run by auto
  next
    case free
    have "(\<lambda>k. wait_queue ((mx(m := m')) k)) = (\<lambda>m. wait_queue (mx m))" by (auto simp: free)
    then show ?thesis using free rep ok mem run by (auto simp: mutex_ok_def)
  next
    case wake
    have s1: "same_but w (\<lambda>c. c\<lparr>c_state := READY\<rparr>) l l1" by (rule upd_tcb_same_but [OF wake(2)]) simp
    note F = frame [OF s1 rep mem, simplified]
    note A = add_frame [OF F(1) wake(3) F(2)]
    obtain d where d: "cores l w = Some d" "cores l1 = (cores l)(w \<mapsto> d\<lparr>c_state := READY\<rparr>)" using F(4) by blast
    have W: "(\<lambda>k. wait_queue ((mx(m := m')) k)) = (\<lambda>m. wait_queue (mx m))(m := ws)" by (auto simp: wake(4))
    have "threads_ok (cores l') (running_tcb l') (add_mset w M) (\<lambda>k. wait_queue ((mx(m := m')) k)) pd"
      using threads_ok_unlock [OF ok wake(1) d(1)] A(2,3) d(2) F(3) run unfolding W by simp
    then show ?thesis using A by (auto simp: mutex_ok_def wake(4))
  qed
  then show "\<exists>M'. ready_rep pol l' M' \<and> threads_ok (cores l') (running_tcb l') M' (\<lambda>k. wait_queue ((mx(m := m')) k)) pd"
    "lib_mem l'" "mutex_ok m'" by blast+
qed

lemma sys_invI:
  assumes "\<exists>M. ready_rep pol l M \<and> threads_ok (cores l) (running_tcb l) M (\<lambda>m. wait_queue (mx m)) pd" "lib_mem l"
    "\<And>m. mutex_ok (mx m)"
  shows "sys_inv pol \<lparr>lib_of = l, mutexes = mx, pend = pd\<rparr>"
  using assms by (simp add: sys_inv_def)

lemma sys_invE:
  assumes "sys_inv pol s" "running_tcb (lib_of s) = Some p"
  obtains M where "ready_rep pol (lib_of s) M"
    "threads_ok (cores (lib_of s)) (Some p) M (\<lambda>m. wait_queue (mutexes s m)) (pend s)" "lib_mem (lib_of s)"
    "\<And>m. mutex_ok (mutexes s m)"
  using assms by (auto simp: sys_inv_def)

lemma lock_return:
  assumes "worker_mutex_lock (Some m) l = (Some m', Return r v l')"
  shows "l' = l" "\<not> m_locked m" "m' = m\<lparr>m_locked := True, owner_tcb := running_tcb l\<rparr>" "r = 0"
  using assms unfolding worker_mutex_lock_def by (auto split: option.splits if_splits)

lemma calls_inv:
  assumes call: "calls pol p s s'" and inv: "sys_inv pol s" and run: "running_tcb (lib_of s) = Some p"
  shows "sys_inv pol s'"
proof -
  obtain M where I: "ready_rep pol (lib_of s) M" "lib_mem (lib_of s)" "\<And>m. mutex_ok (mutexes s m)"
    "threads_ok (cores (lib_of s)) (Some p) M (\<lambda>m. wait_queue (mutexes s m)) (pend s)"
    by (rule sys_invE [OF inv run]) blast
  from call show ?thesis
  proof cases
    case (create e r v l)
    have "main_tcb (lib_of s) \<noteq> None" using I(2) by (simp add: lib_mem_def)
    then have c: "create_thread pol e (lib_of s) = Return r v l" using create(4) by (auto simp: worker_create_def)
    show ?thesis
      using create_thread_inv [OF c _ I(1) run I(4,2)] create(3) I(3) create(1) by (simp add: sys_inv_def clean_def)
  next
    case (join tid vp r v l)
    show ?thesis using join_inv [OF join(3) I(1) run I(4) join(2) I(2)] I(3) join(1) by (auto simp: sys_inv_def)
  next
    case (join_end t vp r v l)
    have nb: "\<not> has_state (cores (lib_of s)) p BLOCKED"
      using I(4) has_state_fun [of "cores (lib_of s)" p RUNNING] by (auto simp: threads_ok_def)
    have "waits_ok (cores (lib_of s)) (\<lambda>m. wait_queue (mutexes s m)) (pend s)"
      using I(4) enteringD(4) by (auto simp: threads_ok_def)
    then have "has_state (cores (lib_of s)) t TERMINATED" using waits_okD(9) join_end(2) nb by blast
    note J = join_end_inv [OF join_end(3) I(1) run I(4) this _ I(2)]
    show ?thesis using J join_end(2) I(3) join_end(1) by (auto simp: sys_inv_def)
  next
    case (lock m mx r v l)
    note L = lock_return [OF lock(3)]
    have W: "(\<lambda>k. wait_queue (((mutexes s)(m := mx)) k)) = (\<lambda>m. wait_queue (mutexes s m))" by (auto simp: L(3))
    have "threads_ok (cores l) (running_tcb l) M (\<lambda>k. wait_queue (((mutexes s)(m := mx)) k)) ((pend s)(p := Idle))"
      using threads_ok_pd_idle [OF I(4) lock(2)] run unfolding W L(1) by simp
    then show ?thesis
      using I(1-3) L lock(1) run by (auto simp: sys_inv_def mutex_ok_def)
  next
    case (unlock m mx r v l)
    note U = unlock_inv [OF unlock(3) I(1) run I(4,2,3)]
    show ?thesis using U I(3) unlock(1) by (simp add: sys_inv_def)
  next
    case (destroy m r mx)
    have "mx = mutexes s m" using destroy(3) by (auto simp: worker_mutex_destroy_def split: if_splits)
    then show ?thesis using inv destroy(1) by (simp add: sys_inv_def)
  qed
qed

lemma leaves_inv:
  assumes leave: "leaves pol p s s1" and inv: "sys_inv pol s"
  obtains M where "ready_rep pol (lib_of s1) M" "running_tcb (lib_of s1) = Some p"
    "entering (cores (lib_of s1)) p M (\<lambda>m. wait_queue (mutexes s1 m)) (pend s1)" "lib_mem (lib_of s1)" "\<And>m. mutex_ok (mutexes s1 m)"
proof -
  have run: "running_tcb (lib_of s) = Some p" using leave by cases
  obtain M where I: "ready_rep pol (lib_of s) M" "lib_mem (lib_of s)" "\<And>m. mutex_ok (mutexes s m)"
    "threads_ok (cores (lib_of s)) (Some p) M (\<lambda>m. wait_queue (mutexes s m)) (pend s)"
    by (rule sys_invE [OF inv run]) blast
  from leave show thesis
  proof cases
    case tick
    show thesis by (rule that [of M]) (use I run tick(1) entering_tick [OF I(4)] in simp_all)
  next
    case (yield l)
    note Y = yield_inv [OF yield(4) I(1) run I(4,2)]
    show thesis by (rule that [of M]) (use Y I(3) yield(1) in simp_all)
  next
    case (exit v l)
    note E = exit_inv [OF exit(4) I(1) run I(4) exit(3) I(2)]
    obtain M' where M': "ready_rep pol l M'" "entering (cores l) p M' (\<lambda>m. wait_queue (mutexes s m)) (pend s)"
      using E(1) by blast
    show thesis by (rule that [of M']) (use M' E(2,3) I(3) exit(1) in simp_all)
  next
    case (join_wait tid vp l t)
    note J = join_wait_inv [OF join_wait(4,5) I(1) run I(4) join_wait(3) I(2)]
    show thesis by (rule that [of M]) (use J I(3) join_wait(1) in simp_all)
  next
    case (lock_wait m mx l)
    note L = lock_wait_inv [OF lock_wait(4) I(1) run I(4) lock_wait(3) I(2)]
    have "mutex_ok mx" using L(5,6) I(3) [of m] by (simp add: mutex_ok_def)
    then show thesis by (intro that [of M]) (use L(1-4) I(3) lock_wait(1) in simp_all)
  qed
qed

lemma step_inv:
  assumes "step pol s s'" "sys_inv pol s"
  shows "sys_inv pol s'"
  using assms(1)
proof cases
  case (call p)
  show ?thesis by (rule calls_inv [OF call(2) assms(2) call(1)])
next
  case (switch p s1 l)
  obtain M where L: "ready_rep pol (lib_of s1) M" "running_tcb (lib_of s1) = Some p"
    "entering (cores (lib_of s1)) p M (\<lambda>m. wait_queue (mutexes s1 m)) (pend s1)" "lib_mem (lib_of s1)" "\<And>m. mutex_ok (mutexes s1 m)"
    by (rule leaves_inv [OF switch(2) assms(2)]) blast
  show ?thesis using resumes_inv [OF switch(3) L(1-4)] L(5) switch(1) by (simp add: sys_inv_def)
qed

lemma start_inv:
  assumes clean: "clean e" and call: "worker_create pol e (boot c) = Return r v l"
  shows "sys_inv pol \<lparr>lib_of = l, mutexes = \<lambda>_. fresh_mutex, pend = \<lambda>_. Idle\<rparr>"
proof -
  obtain l0 where init: "init_main_thread e (boot c) = Some l0" and c: "create_thread pol e l0 = Return r v l"
    using call by (auto simp: worker_create_def boot_def split: option.splits)
  have "waiting_thread (e_junk e) = None" using clean by (simp add: clean_def)
  note C = create_thread_inv [OF c this init_main_ready [OF init] init_main_boot(3) [OF init] init_main_inv [OF init clean]]
  show ?thesis by (rule sys_invI) (use C in \<open>simp_all add: fresh_mutex_def mutex_ok_def\<close>)
qed

lemma reach_inv: "reach pol s \<Longrightarrow> sys_inv pol s"
  by (induction rule: reach.induct) (blast intro: start_inv step_inv)+

text \<open>Before the first return to the main program, the thread that executes is the running thread.\<close>

lemma program_reach:
  assumes "program pol c" "\<not> fell_back c"
  shows "reach pol (sys_of c) \<and> running_tcb (lib_of (sys_of c)) = Some (cpu c)"
  using assms
proof (induction rule: program.induct)
  case (start e k r v l p)
  obtain l0 where init: "init_main_thread e (boot k) = Some l0" and c: "create_thread pol e l0 = Return r v l"
    using start(2) by (auto simp: worker_create_def boot_def split: option.splits)
  have "running_tcb l = Some p"
    using create_keeps [OF c] init_main_boot(2,3) [OF init] start(3) by simp
  then show ?case using reach.start [OF start(1,2)] by simp
next
  case (step c c')
  have nf: "\<not> fell_back c" using step.hyps(2) step.prems by cases auto
  note IH = step.IH [OF nf]
  note inv = reach_inv [OF conjunct1 [OF IH]]
  from step.hyps(2) show ?case
  proof cases
    case (call s')
    have "main_tcb (lib_of (sys_of c)) \<noteq> None" using inv by (auto simp: sys_inv_def lib_mem_def)
    then have "running_tcb (lib_of s') = running_tcb (lib_of (sys_of c))" by (rule calls_running [OF call(2)])
    moreover have "reach pol s'" using IH call(2) by (blast intro: reach.step step.call)
    ultimately show ?thesis using IH call(1) by simp
  next
    case (switch s1 q l)
    have res: "resumes pol (lib_of s1) l" using switch(3) by (auto simp: resumes_def)
    obtain M where L: "ready_rep pol (lib_of s1) M" "running_tcb (lib_of s1) = Some (cpu c)"
      "entering (cores (lib_of s1)) (cpu c) M (\<lambda>m. wait_queue (mutexes s1 m)) (pend s1)" "lib_mem (lib_of s1)"
      by (rule leaves_inv [OF switch(2) inv]) blast
    have "running_tcb l = Some q" using resumes_inv(3) [OF res L] switch(3) by simp
    moreover have "reach pol (s1\<lparr>lib_of := l\<rparr>)" using IH step.switch [OF switch(2) res] by (blast intro: reach.step)
    ultimately show ?thesis using switch(1) by simp
  next
    case (to_main s1 l q)
    then show ?thesis using step.prems by simp
  qed
qed

text \<open>What the invariant says of a single thread, and of a thread that is back from a join.\<close>

lemma reach_threads:
  assumes "reach pol s"
  obtains p M where "running_tcb (lib_of s) = Some p" "has_state (cores (lib_of s)) p RUNNING"
    "ready_rep pol (lib_of s) M" "entering (cores (lib_of s)) p M (\<lambda>m. wait_queue (mutexes s m)) (pend s)"
    "lib_mem (lib_of s)" "\<And>m. mutex_ok (mutexes s m)"
  using reach_inv [OF assms] by (auto simp: sys_inv_def threads_ok_def)

end

end
