(* ===== verification/TH_Order.thy ===== *)
theory TH_Order
  imports TH_State
begin

text \<open>
  The two comparisons of \<open>project2-release/thread-worker.c\<close> against the order they stand for: the
  elapsed quanta, or the virtual runtime, and then the id. They return an \<open>int\<close> made from a difference
  of two \<open>long\<close>, so they are that order as long as the difference fits.
\<close>

lemma to_int_eq: "- (2 ^ 31) \<le> x \<Longrightarrow> x < 2 ^ 31 \<Longrightarrow> to_int x = x"
  by (simp add: to_int_def sint_sbintrunc' signed_take_bit_int_eq_self_iff)

lemma to_int_less:
  assumes "0 \<le> x" "x < 2 ^ 31" "0 \<le> y" "y < 2 ^ 31"
  shows "to_int (x - y) < 0 \<longleftrightarrow> x < y"
  using assms by (subst to_int_eq) auto

lemma sint_diff_less:
  assumes "uint (a :: u32) < 2 ^ 31" "uint b < 2 ^ 31"
  shows "sint (a - b) < 0 \<longleftrightarrow> uint a < uint b"
proof -
  have "a - b = word_of_int (uint a - uint b)" by simp
  then have "sint (a - b) = to_int (uint a - uint b)" by (simp only: to_int_def)
  then show ?thesis using to_int_less [of "uint a" "uint b"] assms by simp
qed

text \<open>A difference of \<open>2 ^ 31\<close> or more loses its sign.\<close>

lemma to_int_wraps:
  assumes "2 ^ 31 \<le> d" "d < 2 ^ 32"
  shows "to_int d = d - 2 ^ 32" "d \<noteq> 2 ^ 31 \<Longrightarrow> to_int (- d) = 2 ^ 32 - d"
proof -
  have w: "to_int (d + 2 ^ 32 * k) = to_int d" for d k
  proof -
    have "take_bit 32 (d + 2 ^ 32 * k) = take_bit 32 d" unfolding take_bit_eq_mod by (rule mod_mult_self2)
    then have "(word_of_int (d + 2 ^ 32 * k) :: u32) = word_of_int d"
      unfolding word_of_int_eq_iff by simp
    then show ?thesis by (simp only: to_int_def)
  qed
  show "to_int d = d - 2 ^ 32" using w [of d "- 1"] to_int_eq [of "d - 2 ^ 32"] assms by simp
  show "to_int (- d) = 2 ^ 32 - d" if "d \<noteq> 2 ^ 31" using w [of "- d" 1] to_int_eq [of "2 ^ 32 - d"] assms that by simp
qed

definition psjf_key :: "lib \<Rightarrow> nat \<Rightarrow> int \<times> int" where
  "psjf_key l p = (case tcbs l p of None \<Rightarrow> (0, 0) | Some t \<Rightarrow> (elapsed_quanta t, uint (t_id t)))"

definition cfs_key :: "lib \<Rightarrow> nat \<Rightarrow> int \<times> int" where
  "cfs_key l p = (case tcbs l p of None \<Rightarrow> (0, 0) | Some t \<Rightarrow> (vruntime t, uint (t_id t)))"

text \<open>Threads whose measure and id are below \<open>2 ^ 31\<close>.\<close>

definition psjf_small :: "lib \<Rightarrow> nat \<Rightarrow> bool" where
  "psjf_small l p \<longleftrightarrow> (case tcbs l p of None \<Rightarrow> False
     | Some t \<Rightarrow> 0 \<le> elapsed_quanta t \<and> elapsed_quanta t < 2 ^ 31 \<and> uint (t_id t) < 2 ^ 31)"

definition cfs_small :: "lib \<Rightarrow> nat \<Rightarrow> bool" where
  "cfs_small l p \<longleftrightarrow> (case tcbs l p of None \<Rightarrow> False
     | Some t \<Rightarrow> 0 \<le> vruntime t \<and> vruntime t < 2 ^ 31 \<and> uint (t_id t) < 2 ^ 31)"

interpretation psjf_order: heap_order "on_tcbs psjf_cmp l" "psjf_key l" "psjf_small l" for l
proof
  fix p q assume "psjf_small l p" "psjf_small l q"
  then obtain a b where t: "tcbs l p = Some a" "tcbs l q = Some b" "0 \<le> elapsed_quanta a" "elapsed_quanta a < 2 ^ 31"
    "0 \<le> elapsed_quanta b" "elapsed_quanta b < 2 ^ 31" "uint (t_id a) < 2 ^ 31" "uint (t_id b) < 2 ^ 31"
    by (auto simp: psjf_small_def split: option.splits)
  then show "\<exists>c. on_tcbs psjf_cmp l p q = Some c \<and> (c < 0 \<longleftrightarrow> psjf_key l p < psjf_key l q)"
    using to_int_less [OF t(3-6)] sint_diff_less [OF t(7,8)]
    by (simp add: on_tcbs_def psjf_cmp_def psjf_key_def less_prod_def')
qed

interpretation cfs_order: heap_order "on_tcbs cfs_cmp l" "cfs_key l" "cfs_small l" for l
proof
  fix p q assume "cfs_small l p" "cfs_small l q"
  then obtain a b where t: "tcbs l p = Some a" "tcbs l q = Some b" "0 \<le> vruntime a" "vruntime a < 2 ^ 31"
    "0 \<le> vruntime b" "vruntime b < 2 ^ 31" "uint (t_id a) < 2 ^ 31" "uint (t_id b) < 2 ^ 31"
    by (auto simp: cfs_small_def split: option.splits)
  then show "\<exists>c. on_tcbs cfs_cmp l p q = Some c \<and> (c < 0 \<longleftrightarrow> cfs_key l p < cfs_key l q)"
    using to_int_less [OF t(3-6)] sint_diff_less [OF t(7,8)]
    by (simp add: on_tcbs_def cfs_cmp_def cfs_key_def less_prod_def')
qed

text \<open>A thread that has run more than about 36 minutes less than another is put behind it.\<close>

lemma cfs_cmp_reversed:
  assumes "vruntime a + 2 ^ 31 < vruntime b" "vruntime b < vruntime a + 2 ^ 32"
  shows "0 < cfs_cmp a b" "cfs_cmp b a < 0"
proof -
  let ?d = "vruntime b - vruntime a"
  have d: "2 ^ 31 \<le> ?d" "?d < 2 ^ 32" "?d \<noteq> 2 ^ 31" "vruntime a \<noteq> vruntime b" using assms by auto
  have e: "vruntime a - vruntime b = - ?d" by simp
  show "0 < cfs_cmp a b" using to_int_wraps(2) [OF d(1-3)] d(2,4) unfolding cfs_cmp_def e by simp
  show "cfs_cmp b a < 0" using to_int_wraps(1) [OF d(1,2)] d(2,4) by (simp add: cfs_cmp_def)
qed

end
