(* ===== verification/TH_Loops.thy ===== *)
theory TH_Loops
  imports TH_System TH_Order
begin

text \<open>
  When the loops of the schedulers end, and the order in which round robin runs the ready threads.
\<close>

section \<open>Loops that may not end\<close>

text \<open>A level that is not empty is never emptied: each thread is put back on the level it came from.\<close>

lemma promote_level_ends:
  assumes "promote_level q = Some r"
  shows "q = []"
proof (rule promote_level.raw_induct [OF _ assms, where P = "\<lambda>q r. q = []"], goal_cases)
  case (1 f q r)
  then show ?case by (cases q) (auto simp: put_last_def)
qed

lemma promote_levels_ends: "promote_levels qs \<noteq> None \<longleftrightarrow> concat qs = []"
proof (induction qs)
  case (Cons q qs)
  show ?case
  proof (cases "promote_level q")
    case None
    then have "q \<noteq> []" by (subst (asm) promote_level.simps) (auto split: list.splits)
    then show ?thesis using None by simp
  next
    case (Some r)
    then show ?thesis using Cons promote_level_ends [OF Some] by (auto split: Option.bind_splits)
  qed
qed simp

lemma sched_rr_stuck:
  assumes "sched_rr l = Some r"
  shows "rr_queue l \<noteq> [] \<or> thread_count l \<le> 1 \<or> has_blocked_threads l \<noteq> Some False"
proof (rule sched_rr.raw_induct [OF _ assms,
      where P = "\<lambda>l r. rr_queue l \<noteq> [] \<or> thread_count l \<le> 1 \<or> has_blocked_threads l \<noteq> Some False"], goal_cases)
  case (1 f l r)
  show ?case
  proof (rule ccontr)
    assume n: "\<not> (rr_queue l \<noteq> [] \<or> thread_count l \<le> 1 \<or> has_blocked_threads l \<noteq> Some False)"
    then have "f (l\<lparr>rr_queue := []\<rparr>) = Some r" using 1(2) by (simp add: has_blocked_threads_def)
    from 1(1) [OF this] n show False by (simp add: has_blocked_threads_def)
  qed
qed

lemma sched_rr_ends:
  "sched_rr l \<noteq> None \<longleftrightarrow> rr_queue l \<noteq> [] \<or> thread_count l \<le> 1 \<or> has_blocked_threads l \<noteq> Some False"
proof
  assume "rr_queue l \<noteq> [] \<or> thread_count l \<le> 1 \<or> has_blocked_threads l \<noteq> Some False"
  then show "sched_rr l \<noteq> None"
    by (subst sched_rr.simps) (cases "rr_queue l"; auto simp: has_blocked_threads_def Let_def split: option.splits)
qed (use sched_rr_stuck in blast)

lemma first_ready_None: "concat qs = [] \<Longrightarrow> first_ready qs = (None, qs)"
  by (induction qs rule: first_ready.induct) auto

lemma first_ready_Some: "concat qs \<noteq> [] \<Longrightarrow> \<exists>t qs'. first_ready qs = (Some t, qs')"
  by (induction qs rule: first_ready.induct) auto

lemma mlfq_loop_stuck:
  assumes "mlfq_loop l = Some r"
  shows "concat (mlfq_levels l) \<noteq> [] \<or> thread_count l \<le> 1 \<or> has_blocked_threads l \<noteq> Some True"
proof (rule mlfq_loop.raw_induct [OF _ assms, where
      P = "\<lambda>l r. concat (mlfq_levels l) \<noteq> [] \<or> thread_count l \<le> 1 \<or> has_blocked_threads l \<noteq> Some True"], goal_cases)
  case (1 f l r)
  show ?case
  proof (rule ccontr)
    assume n: "\<not> (concat (mlfq_levels l) \<noteq> [] \<or> thread_count l \<le> 1 \<or> has_blocked_threads l \<noteq> Some True)"
    then have fr: "first_ready (mlfq_levels l) = (None, mlfq_levels l)" by (intro first_ready_None) simp
    have "f (l\<lparr>mlfq_levels := mlfq_levels l\<rparr>) = Some r"
      using 1(2) n unfolding fr by (simp add: has_blocked_threads_def)
    from 1(1) [OF this] n show False by (simp add: has_blocked_threads_def)
  qed
qed

lemma mlfq_loop_ends:
  "mlfq_loop l \<noteq> None \<longleftrightarrow> concat (mlfq_levels l) \<noteq> [] \<or> thread_count l \<le> 1 \<or> has_blocked_threads l \<noteq> Some True"
proof
  assume a: "concat (mlfq_levels l) \<noteq> [] \<or> thread_count l \<le> 1 \<or> has_blocked_threads l \<noteq> Some True"
  show "mlfq_loop l \<noteq> None"
  proof (cases "concat (mlfq_levels l) = []")
    case True
    then show ?thesis
      using a first_ready_None [OF True]
      by (subst mlfq_loop.simps) (auto simp: has_blocked_threads_def Let_def split: option.splits)
  next
    case False
    then show ?thesis using first_ready_Some [OF False] by (subst mlfq_loop.simps) (auto simp: Let_def)
  qed
qed (use mlfq_loop_stuck in blast)

text \<open>The heap schedulers pop without looking whether the heap is empty.\<close>

lemma sched_psjf_empty: "heap_rep (psjf_heap l) [] \<Longrightarrow> sched_psjf l = Some Undefined"
  by (subst sched_psjf.simps) (simp add: heap_pop_empty)

lemma sched_cfs_empty: "heap_rep (cfs_heap l) [] \<Longrightarrow> sched_cfs l = Some Undefined"
proof (cases "calculate_timeslice_cfs (running_tcb l) l")
  case (Some r)
  assume "heap_rep (cfs_heap l) []"
  moreover have "cfs_heap (snd r) = cfs_heap l"
    using Some by (auto simp: calculate_timeslice_cfs_def Let_def upd_tcb_def split: Option.bind_splits)
  ultimately have "heap_pop (on_tcbs cfs_cmp (snd r)) (cfs_heap (snd r)) = None" by (simp add: heap_pop_empty)
  then show ?thesis using Some by (subst sched_cfs.simps) (auto split: prod.splits)
qed (subst sched_cfs.simps, simp)

text \<open>Under CFS the scheduler computes a time slice for the running thread, which is \<open>NULL\<close> after an exit.\<close>

lemma sched_cfs_after_exit:
  assumes "running_tcb l = Some p" "tcbs l p = Some t" "t_state t = TERMINATED"
  shows "schedule CFS l = Some Undefined"
proof -
  have "account CFS l = Some (Some (l\<lparr>running_tcb := None\<rparr>))" using assms by (simp add: account_def)
  moreover have "sched_cfs (count_switch (l\<lparr>running_tcb := None\<rparr>)) = Some Undefined"
    by (subst sched_cfs.simps) (simp add: calculate_timeslice_cfs_def count_switch_def Let_def)
  ultimately show ?thesis by (simp add: schedule_def sched_def)
qed

section \<open>Rotation\<close>

text \<open>\<open>n\<close> preemptions, each of which resumes a thread.\<close>

fun ticks :: "policy \<Rightarrow> nat \<Rightarrow> lib \<Rightarrow> lib option" where
  "ticks pol 0 l = Some l"
| "ticks pol (Suc n) l = (case timer_handler pol l of
     Some (Some (Run q l')) \<Rightarrow> ticks pol n l'
   | _ \<Rightarrow> None)"

text \<open>A running thread and a queue of allocated threads.\<close>

definition rotating :: "lib \<Rightarrow> nat \<Rightarrow> bool" where
  "rotating l p \<longleftrightarrow> running_tcb l = Some p \<and> has_state (cores l) p RUNNING \<and> (\<forall>q \<in> set (rr_queue l). alive (cores l) q)"

lemma upd_tcb_alive: "alive (cores l) p \<Longrightarrow> \<exists>l'. upd_tcb p f l = Some l'"
  by (auto simp: upd_tcb_def alive_def cores_def)

lemma begin_run_alive:
  assumes "alive (cores l) p"
  shows "\<exists>l'. begin_run p l = Some l'"
proof -
  obtain t where t: "tcbs l p = Some t" using assms by (auto simp: alive_def cores_def)
  then show ?thesis by (auto simp: begin_run_def upd_tcb_def clock_gettime_def)
qed

lemma same_but_alive: "same_but p f l l' \<Longrightarrow> alive (cores l') q = alive (cores l) q"
  by (auto simp: same_but_def alive_def split: if_splits)

lemma tick_rr:
  assumes rot: "rotating l p" and q: "rr_queue l = q # qs"
  obtains l' where "timer_handler RR l = Some (Some (Run q l'))" "rotating l' q" "rr_queue l' = qs @ [p]"
proof -
  have R: "running_tcb l = Some p" "has_state (cores l) p RUNNING" "\<And>r. r \<in> set (rr_queue l) \<Longrightarrow> alive (cores l) r"
    using rot by (auto simp: rotating_def)
  obtain t where t: "tcbs l p = Some t" "t_state t = RUNNING" using R(2) by (auto simp: has_state_def cores_def)
  then have ap: "alive (cores l) p" by (simp add: alive_def cores_def)
  obtain l1 where l1: "upd_tcb p (\<lambda>t. t\<lparr>t_state := READY\<rparr>) l = Some l1" using upd_tcb_alive [OF ap] by blast
  have s1: "same_but p (\<lambda>c. c\<lparr>c_state := READY\<rparr>) l l1" by (rule upd_tcb_same_but [OF l1]) simp
  obtain l2 where l2: "upd_tcb p (\<lambda>t. t\<lparr>elapsed_quanta := elapsed_quanta t + 1\<rparr>) l1 = Some l2"
    using upd_tcb_alive ap same_but_alive [OF s1] by blast
  have s2: "cores l2 = cores l1 \<and> same_env l1 l2 \<and> same_queues l1 l2 \<and> running_tcb l2 = running_tcb l1"
    by (rule upd_tcb_core [OF l2]) simp
  let ?l3 = "count_switch (l2\<lparr>rr_queue := (q # qs) @ [p]\<rparr>)"
  have acc: "account RR l = Some (Some (l2\<lparr>rr_queue := (q # qs) @ [p]\<rparr>))"
    using R(1) t l1 l2 s1 s2 q
    by (simp add: account_def preempted_def add_to_scheduler_def put_last_def same_but_def same_queues_def)
  let ?l4 = "?l3\<lparr>rr_queue := qs @ [p]\<rparr>"
  have c4: "cores ?l4 = cores l1" using s2 by (simp add: count_switch_def cores_def fun_eq_iff)
  have aq: "alive (cores ?l4) q" using R(3) [of q] q same_but_alive [OF s1] unfolding c4 by simp
  obtain l5 where l5: "begin_run q ?l4 = Some l5" using begin_run_alive [OF aq] by blast
  have s5: "same_but q (\<lambda>c. c\<lparr>c_state := RUNNING\<rparr>) ?l4 l5" by (rule begin_run_same_but [OF l5])
  have sch: "sched_rr ?l3 = Some (Run q (l5\<lparr>running_tcb := Some q\<rparr>))"
    using l5 by (subst sched_rr.simps) (simp add: count_switch_def resume_def)
  show thesis
  proof (rule that)
    show "timer_handler RR l = Some (Some (Run q (l5\<lparr>running_tcb := Some q\<rparr>)))"
      using R(1) acc sch by (simp add: timer_handler_def schedule_def sched_def)
    have c5: "cores (l5\<lparr>running_tcb := Some q\<rparr>) = cores l5" by (simp add: cores_def fun_eq_iff)
    have q5: "rr_queue l5 = qs @ [p]" using s5 by (simp add: same_but_def same_queues_def)
    have "alive (cores l5) r" if "alive (cores l) r" for r
      using that same_but_alive [OF s5] same_but_alive [OF s1] unfolding c4 by simp
    then show "rotating (l5\<lparr>running_tcb := Some q\<rparr>) q"
      using R(3) ap q s5 unfolding rotating_def c5 by (auto simp: q5 same_but_def)
    show "rr_queue (l5\<lparr>running_tcb := Some q\<rparr>) = qs @ [p]" using q5 by simp
  qed
qed

lemma ticks_rr:
  assumes "rotating l p" "i < length (rr_queue l)"
  shows "\<exists>l'. ticks RR (Suc i) l = Some l' \<and> running_tcb l' = Some (rr_queue l ! i) \<and>
    rr_queue l' = drop (Suc i) (rr_queue l) @ p # take i (rr_queue l) \<and> rotating l' (rr_queue l ! i)"
  using assms
proof (induction i arbitrary: l p)
  case 0
  then obtain q qs where q: "rr_queue l = q # qs" by (cases "rr_queue l") auto
  obtain l' where "timer_handler RR l = Some (Some (Run q l'))" "rotating l' q" "rr_queue l' = qs @ [p]"
    by (rule tick_rr [OF "0.prems"(1) q])
  then show ?case using q by (auto simp: rotating_def)
next
  case (Suc i)
  then obtain q qs where q: "rr_queue l = q # qs" "i < length qs" by (cases "rr_queue l") auto
  obtain l1 where l1: "timer_handler RR l = Some (Some (Run q l1))" "rotating l1 q" "rr_queue l1 = qs @ [p]"
    by (rule tick_rr [OF Suc.prems(1) q(1)])
  obtain l' where "ticks RR (Suc i) l1 = Some l'" "running_tcb l' = Some (rr_queue l1 ! i)"
    "rr_queue l' = drop (Suc i) (rr_queue l1) @ q # take i (rr_queue l1)" "rotating l' (rr_queue l1 ! i)"
    using Suc.IH [OF l1(2)] l1(3) q(2) by auto
  then show ?case using l1 q by (auto simp: nth_append)
qed

section \<open>A yield under MLFQ\<close>

text \<open>\<open>schedule\<close> puts the thread that yields on its level, and \<open>sched_mlfq\<close> puts it there again.\<close>

lemma mlfq_yield_queues_twice:
  assumes run: "running_tcb l = Some p" and t: "tcbs l p = Some t" and pr: "0 \<le> priority t" "priority t < 4"
    and lev: "length (mlfq_levels l) = MAX_MLFQ_LEVELS"
  shows "\<exists>l1 l2 l3. worker_yield l = Switch l1 \<and> account MLFQ l1 = Some (Some l2) \<and> mlfq_account (count_switch l2) = Inr l3 \<and>
    mlfq_levels l3 = (mlfq_levels l)[nat (priority t) := mlfq_levels l ! nat (priority t) @ [p, p]]"
proof -
  define i where "i = nat (priority t)"
  have i: "i < MAX_MLFQ_LEVELS" "\<not> priority t < 0" "nat (priority t) = i" using pr by (simp_all add: i_def MAX_MLFQ_LEVELS_def)
  let ?l1 = "l\<lparr>tcbs := (tcbs l)(p \<mapsto> t\<lparr>t_state := READY\<rparr>)\<rparr>"
  let ?l2 = "l\<lparr>tcbs := (tcbs l)(p \<mapsto> t\<lparr>t_state := READY, time_used := 0\<rparr>),
    mlfq_levels := (mlfq_levels l)[i := mlfq_levels l ! i @ [p]]\<rparr>"
  have "worker_yield l = Switch ?l1" using run t by (simp add: worker_yield_def upd_tcb_def)
  moreover have "account MLFQ ?l1 = Some (Some ?l2)"
    using run t i by (simp add: account_def upd_tcb_def add_to_scheduler_def put_last_def Let_def)
  moreover have "mlfq_account (count_switch ?l2) =
      Inr (count_switch ?l2\<lparr>mlfq_levels := (mlfq_levels l)[i := mlfq_levels l ! i @ [p, p]]\<rparr>)"
    using run t i lev by (simp add: mlfq_account_def count_switch_def add_to_scheduler_def put_last_def Let_def)
  ultimately show ?thesis unfolding i(3) by (intro exI conjI) (assumption | simp)+
qed

end
