(* ===== verification/TH_Demo.thy ===== *)
theory TH_Demo
  imports TH_Loops
begin

text \<open>
  A run under round robin, computed from the definitions: the main program creates a thread and joins
  it, the thread exits with the value 7, the main program is resumed inside the join.
\<close>

declare sched_rr.simps [code]
declare mlfq_loop.simps [code]
declare promote_level.simps [code]

definition demo_time :: timespec where "demo_time = \<lparr>tv_sec = 0, tv_nsec = 0\<rparr>"

definition demo_tcb :: tcb where
  "demo_tcb = \<lparr>t_id = 0, t_stack = None, t_retval = 0, t_state = READY, arrival_time = demo_time, start_time = demo_time,
     finish_time = demo_time, has_started = False, elapsed_quanta = 0, priority = 0, time_slice = 0, time_used = 0,
     vruntime = 0, last_start = demo_time, cfs_timeslice = 0, waiting_thread = None, joined = False\<rparr>"

definition demo_env :: env where
  "demo_env = \<lparr>e_sched_context = True, e_sched_stack = True, e_timer = True, e_main = True, e_main_context = True,
     e_main_junk = demo_tcb, e_tcb = True, e_stack = True, e_context = True, e_junk = demo_tcb\<rparr>"

definition demo_clock :: "nat \<Rightarrow> timespec" where
  "demo_clock n = \<lparr>tv_sec = int n, tv_nsec = 0\<rparr>"

fun reply_lib :: "'o reply \<Rightarrow> lib option" where
  "reply_lib (Return r v l) = Some l"
| "reply_lib (Switch l) = Some l"
| "reply_lib _ = None"

fun run_lib :: "outcome option \<Rightarrow> lib option" where
  "run_lib (Some (Run q l)) = Some l"
| "run_lib _ = None"

definition demo_created :: lib where
  "demo_created = the (reply_lib (worker_create RR demo_env (boot demo_clock)))"

definition demo_joining :: lib where
  "demo_joining = the (reply_lib (worker_join 1 True demo_created))"

definition demo_thread :: lib where
  "demo_thread = the (run_lib (schedule RR demo_joining))"

definition demo_exited :: lib where
  "demo_exited = the (reply_lib (worker_exit RR 7 demo_thread))"

definition demo_back :: lib where
  "demo_back = the (run_lib (schedule RR demo_exited))"

lemma demo_create: "worker_create RR demo_env (boot demo_clock) = Return 0 (Some 1) demo_created"
proof -
  have "case worker_create RR demo_env (boot demo_clock) of Return r v l \<Rightarrow> r = 0 \<and> v = Some 1 | _ \<Rightarrow> False"
    by code_simp
  then show ?thesis by (simp add: demo_created_def split: reply.splits)
qed

lemma demo_join: "worker_join 1 True demo_created = Switch demo_joining"
proof -
  have "case worker_join 1 True demo_created of Switch l \<Rightarrow> True | _ \<Rightarrow> False" by code_simp
  then show ?thesis by (simp add: demo_joining_def split: reply.splits)
qed

lemma demo_run: "schedule RR demo_joining = Some (Run 3 demo_thread)"
proof -
  have "case schedule RR demo_joining of Some (Run q l) \<Rightarrow> q = 3 | _ \<Rightarrow> False" by code_simp
  then show ?thesis by (auto simp: demo_thread_def split: option.splits outcome.splits)
qed

lemma demo_switch: "resumes RR demo_joining demo_thread"
  using demo_run by (auto simp: resumes_def)

lemma demo_exit: "worker_exit RR 7 demo_thread = Switch demo_exited"
proof -
  have "case worker_exit RR 7 demo_thread of Switch l \<Rightarrow> True | _ \<Rightarrow> False" by code_simp
  then show ?thesis by (simp add: demo_exited_def split: reply.splits)
qed

lemma demo_run_back: "schedule RR demo_exited = Some (Run 2 demo_back)"
proof -
  have "case schedule RR demo_exited of Some (Run q l) \<Rightarrow> q = 2 | _ \<Rightarrow> False" by code_simp
  then show ?thesis by (auto simp: demo_back_def split: option.splits outcome.splits)
qed

lemma demo_switch_back: "resumes RR demo_exited demo_back"
  using demo_run_back by (auto simp: resumes_def)

lemma demo_running: "running_tcb demo_created = Some 2" "running_tcb demo_thread = Some 3" "running_tcb demo_back = Some 2"
  by code_simp+

lemma demo_find: "find_tcb_by_id 1 demo_created = Some (Some 3)"
  by code_simp

lemma demo_queue: "rr_queue demo_created = [3]"
  by code_simp

lemma demo_clean: "clean demo_env"
  by (simp add: clean_def demo_env_def demo_tcb_def)

definition demo_state :: sys where
  "demo_state = \<lparr>lib_of = demo_created, mutexes = \<lambda>_. fresh_mutex, pend = \<lambda>_. Idle\<rparr>"

definition demo_state_joining :: sys where
  "demo_state_joining = demo_state\<lparr>lib_of := demo_thread, pend := (\<lambda>_. Idle)(2 := Joining 3 True)\<rparr>"

definition demo_state_back :: sys where
  "demo_state_back = demo_state_joining\<lparr>lib_of := demo_back\<rparr>"

lemma reach_demo: "reach RR demo_state"
  unfolding demo_state_def by (rule reach.start [OF demo_clean demo_create])

lemma demo_leave_join: "leaves RR 2 demo_state (demo_state\<lparr>lib_of := demo_joining, pend := (\<lambda>_. Idle)(2 := Joining 3 True)\<rparr>)"
  using leaves.join_wait [of demo_state 2 1 True demo_joining 3 RR]
  by (simp add: demo_state_def demo_running demo_join demo_find)

lemma demo_leave_exit: "leaves RR 3 demo_state_joining (demo_state_joining\<lparr>lib_of := demo_exited\<rparr>)"
  by (rule leaves.exit [of _ _ _ 7]) (simp_all add: demo_state_joining_def demo_state_def demo_running demo_exit)

lemma reach_demo_joining: "reach RR demo_state_joining"
  using reach.step [OF reach_demo step.switch [OF demo_leave_join, of demo_thread]] demo_switch
  by (simp add: demo_state_joining_def demo_state_def)

lemma reach_demo_back: "reach RR demo_state_back"
  using reach.step [OF reach_demo_joining step.switch [OF demo_leave_exit, of demo_back]] demo_switch_back
  by (simp add: demo_state_back_def)

text \<open>The same run as a run of the whole program: block 2 is the main thread's, block 3 the new thread's.\<close>

definition before_return :: "sys \<Rightarrow> nat \<Rightarrow> machine" where
  "before_return s p = \<lparr>sys_of = s, cpu = p, fell_back = False\<rparr>"

lemma before_return_simps [simp]: "sys_of (before_return s p) = s" "cpu (before_return s p) = p" "\<not> fell_back (before_return s p)"
  by (simp_all add: before_return_def)

lemma program_demo: "program RR (before_return demo_state 2)"
proof -
  have "main_tcb demo_created = Some 2" by code_simp
  then show ?thesis unfolding before_return_def demo_state_def by (rule program.start [OF demo_clean demo_create])
qed

lemma program_demo_joining: "program RR (before_return demo_state_joining 3)"
proof (rule program.step [OF program_demo])
  show "machine_step RR (before_return demo_state 2) (before_return demo_state_joining 3)"
    using machine_step.switch [of RR "before_return demo_state 2"] demo_leave_join demo_run
    by (fastforce simp: demo_state_joining_def demo_state_def before_return_def)
qed

lemma program_demo_back: "program RR (before_return demo_state_back 2)"
proof (rule program.step [OF program_demo_joining])
  show "machine_step RR (before_return demo_state_joining 3) (before_return demo_state_back 2)"
    using machine_step.switch [of RR "before_return demo_state_joining 3"] demo_leave_exit demo_run_back
    by (fastforce simp: demo_state_back_def before_return_def)
qed

text \<open>The first call of a program under PSJF.\<close>

definition demo_psjf :: lib where
  "demo_psjf = the (reply_lib (worker_create PSJF demo_env (boot demo_clock)))"

lemma demo_psjf_create: "worker_create PSJF demo_env (boot demo_clock) = Return 0 (Some 1) demo_psjf"
proof -
  have "case worker_create PSJF demo_env (boot demo_clock) of Return r v l \<Rightarrow> r = 0 \<and> v = Some 1 | _ \<Rightarrow> False"
    by code_simp
  then show ?thesis by (simp add: demo_psjf_def split: reply.splits)
qed

lemma demo_psjf_facts: "tot_cntx_switches demo_psjf = 0" "h_size (psjf_heap demo_psjf) = 1" "running_tcb demo_psjf = Some 2"
  "psjf_key demo_psjf 2 = (0, 0)" "psjf_key demo_psjf 3 = (0, 1)"
  by code_simp+

end
