(* ===== verification/TH_Shortest.thy ===== *)
theory TH_Shortest
  imports TH_Loops
begin

text \<open>
  PSJF in the states a program reaches: the heap stays ordered by the elapsed quanta, because a thread
  gets a quantum only while it is not in the heap. No thread has more quanta than there were context
  switches, so the comparisons are exact as long as that number is below \<open>2 ^ 31\<close>.
\<close>

section \<open>The ordered heap\<close>

definition ordered_heap :: "lib \<Rightarrow> bool" where
  "ordered_heap l \<longleftrightarrow> (\<exists>ys. heap_rep (psjf_heap l) ys \<and> heap_ord (psjf_key l) ys \<and> (\<forall>q \<in> set ys. tcbs l q \<noteq> None))"

definition psjf_inv :: "int \<Rightarrow> lib \<Rightarrow> bool" where
  "psjf_inv n l \<longleftrightarrow> (\<forall>p t. tcbs l p = Some t \<longrightarrow> 0 \<le> elapsed_quanta t \<and> elapsed_quanta t \<le> n \<and> uint (t_id t) < 2 ^ 31) \<and>
     (n < 2 ^ 31 \<longrightarrow> ordered_heap l)"

lemma psjf_inv_mono: "psjf_inv n l \<Longrightarrow> n \<le> m \<Longrightarrow> psjf_inv m l"
  unfolding psjf_inv_def by force

lemma heap_rep_unique:
  assumes "heap_rep h ys" "heap_rep h zs"
  shows "ys = zs"
proof (rule nth_equalityI)
  show "length ys = length zs" using assms by (simp add: heap_rep_def)
  fix i assume "i < length ys"
  then have "i < length zs" using assms by (simp add: heap_rep_def)
  then have "h_threads h ! i = Some (ys ! i)" "h_threads h ! i = Some (zs ! i)"
    using \<open>i < length ys\<close> assms by (simp_all add: heap_rep_def holds_def)
  then show "ys ! i = zs ! i" by simp
qed

lemma psjf_small_inv: "psjf_inv n l \<Longrightarrow> n < 2 ^ 31 \<Longrightarrow> tcbs l p \<noteq> None \<Longrightarrow> psjf_small l p"
  by (force simp: psjf_inv_def psjf_small_def)

text \<open>Below the bound the heap is ordered, and a thread that is not ready is not in it.\<close>

lemma psjf_heapE:
  assumes "psjf_inv n l" "n < 2 ^ 31"
  obtains ys where "heap_rep (psjf_heap l) ys" "heap_ord (psjf_key l) ys" "\<forall>q \<in> set ys. tcbs l q \<noteq> None"
  using assms unfolding psjf_inv_def ordered_heap_def by blast

lemma psjf_readyE:
  assumes "psjf_inv n l" "n < 2 ^ 31" "ready_rep PSJF l M"
  obtains ys where "heap_rep (psjf_heap l) ys" "heap_ord (psjf_key l) ys" "\<forall>q \<in> set ys. tcbs l q \<noteq> None" "mset ys = M"
proof -
  obtain ys where ys: "heap_rep (psjf_heap l) ys" "heap_ord (psjf_key l) ys" "\<forall>q \<in> set ys. tcbs l q \<noteq> None"
    by (rule psjf_heapE [OF assms(1,2)])
  moreover have "mset ys = M" using assms(3) heap_rep_unique [OF ys(1)] by auto
  ultimately show thesis by (rule that)
qed

lemma heap_ord_cong: "heap_ord k ys \<Longrightarrow> (\<And>q. q \<in> set ys \<Longrightarrow> k' q = k q) \<Longrightarrow> heap_ord k' ys"
  unfolding heap_ord_def using parent_less by (metis less_trans nth_mem)

text \<open>The changes that do not matter: ids, quanta and the heap stay.\<close>

definition quiet :: "lib \<Rightarrow> lib \<Rightarrow> bool" where
  "quiet l l' \<longleftrightarrow> psjf_heap l' = psjf_heap l \<and> tot_cntx_switches l' = tot_cntx_switches l \<and>
     (\<forall>p. map_option (\<lambda>t. (elapsed_quanta t, t_id t)) (tcbs l' p) = map_option (\<lambda>t. (elapsed_quanta t, t_id t)) (tcbs l p))"

lemma quiet_trans: "quiet l l' \<Longrightarrow> quiet l' l'' \<Longrightarrow> quiet l l''"
  by (simp add: quiet_def)

lemma quiet_same: "tcbs l' = tcbs l \<Longrightarrow> psjf_heap l' = psjf_heap l \<Longrightarrow> tot_cntx_switches l' = tot_cntx_switches l \<Longrightarrow> quiet l l'"
  by (simp add: quiet_def)

lemma quiet_upd: "upd_tcb p f l = Some l' \<Longrightarrow> (\<And>t. elapsed_quanta (f t) = elapsed_quanta t) \<Longrightarrow> (\<And>t. t_id (f t) = t_id t) \<Longrightarrow> quiet l l'"
  by (auto simp: upd_tcb_def quiet_def split: Option.bind_splits)

lemma quiet_key:
  assumes "quiet l l'"
  shows "psjf_key l' p = psjf_key l p" "tcbs l' p = None \<longleftrightarrow> tcbs l p = None"
proof -
  have e: "map_option (\<lambda>t. (elapsed_quanta t, t_id t)) (tcbs l' p) = map_option (\<lambda>t. (elapsed_quanta t, t_id t)) (tcbs l p)"
    using assms by (simp add: quiet_def)
  then show "psjf_key l' p = psjf_key l p" "tcbs l' p = None \<longleftrightarrow> tcbs l p = None"
    by (auto simp: psjf_key_def split: option.splits)
qed

lemma quiet_inv:
  assumes q: "quiet l l'" and inv: "psjf_inv n l"
  shows "psjf_inv n l'"
proof -
  have "0 \<le> elapsed_quanta t \<and> elapsed_quanta t \<le> n \<and> uint (t_id t) < 2 ^ 31" if t: "tcbs l' p = Some t" for p t
  proof -
    have e: "map_option (\<lambda>t. (elapsed_quanta t, t_id t)) (tcbs l' p) = map_option (\<lambda>t. (elapsed_quanta t, t_id t)) (tcbs l p)"
      using q by (simp add: quiet_def)
    have "map_option (\<lambda>t. (elapsed_quanta t, t_id t)) (tcbs l p) = Some (elapsed_quanta t, t_id t)"
      unfolding e [symmetric] t by simp
    then obtain u where u: "tcbs l p = Some u" "elapsed_quanta u = elapsed_quanta t" "t_id u = t_id t" by auto
    then show ?thesis using inv unfolding psjf_inv_def by metis
  qed
  moreover have "ordered_heap l'" if "ordered_heap l"
  proof -
    have "psjf_key l' = psjf_key l" using quiet_key(1) [OF q] by auto
    then show ?thesis using that quiet_key(2) [OF q] q by (simp add: ordered_heap_def quiet_def)
  qed
  ultimately show ?thesis using inv by (simp add: psjf_inv_def)
qed

section \<open>The operations\<close>

lemma psjf_push:
  assumes inv: "psjf_inv n l" and p: "tcbs l p \<noteq> None" and add: "add_to_scheduler PSJF p l = Some l'"
  shows "psjf_inv n l'" "tot_cntx_switches l' = tot_cntx_switches l"
proof -
  obtain h where h: "heap_push (on_tcbs psjf_cmp l) (psjf_heap l) p = Some h" "l' = l\<lparr>psjf_heap := h\<rparr>"
    using add by (auto simp: add_to_scheduler_def split: Option.bind_splits)
  then show "tot_cntx_switches l' = tot_cntx_switches l" by simp
  have "ordered_heap l'" if n: "n < 2 ^ 31"
  proof -
    obtain ys where ys: "heap_rep (psjf_heap l) ys" "heap_ord (psjf_key l) ys" "\<forall>q \<in> set ys. tcbs l q \<noteq> None"
      by (rule psjf_heapE [OF inv n])
    have small: "list_all (psjf_small l) (p # ys)"
      using psjf_small_inv [OF inv n] p ys(3) by (simp add: list_all_iff)
    have room: "length ys < MAX_THREADS"
      using h(1) ys(1) heap_push_full [OF ys(1), of "on_tcbs psjf_cmp l" p] by (cases "length ys = MAX_THREADS") (auto simp: heap_rep_def holds_def)
    obtain h' zs where z: "heap_push (on_tcbs psjf_cmp l) (psjf_heap l) p = Some h'" "heap_rep h' zs" "heap_ord (psjf_key l) zs"
      "mset zs = add_mset p (mset ys)" by (rule psjf_order.heap_push_spec [OF ys(1,2) small room])
    have "set zs = insert p (set ys)" using arg_cong [OF z(4), of set_mset] by simp
    moreover have "psjf_key l' = psjf_key l" by (simp add: h(2) psjf_key_def fun_eq_iff)
    moreover have "psjf_heap l' = h'" "tcbs l' = tcbs l" using h z(1) by simp_all
    ultimately show ?thesis using z(2,3) p ys(3) unfolding ordered_heap_def by (intro exI [of _ zs]) auto
  qed
  then show "psjf_inv n l'" using inv by (simp add: psjf_inv_def h(2))
qed

text \<open>With room in the heap, the push succeeds.\<close>

lemma psjf_push_total:
  assumes inv: "psjf_inv n l" and n: "n < 2 ^ 31" and p: "tcbs l p \<noteq> None" and room: "h_size (psjf_heap l) < int MAX_THREADS"
  obtains l' where "add_to_scheduler PSJF p l = Some l'"
proof -
  obtain ys where ys: "heap_rep (psjf_heap l) ys" "heap_ord (psjf_key l) ys" "\<forall>q \<in> set ys. tcbs l q \<noteq> None"
    by (rule psjf_heapE [OF inv n])
  have small: "list_all (psjf_small l) (p # ys)"
    using psjf_small_inv [OF inv n] p ys(3) by (simp add: list_all_iff)
  have "length ys < MAX_THREADS" using room ys(1) by (simp add: heap_rep_def)
  then obtain h' where "heap_push (on_tcbs psjf_cmp l) (psjf_heap l) p = Some h'"
    using psjf_order.heap_push_spec [OF ys(1,2) small] by blast
  then show thesis by (intro that) (simp add: add_to_scheduler_def)
qed

text \<open>A quantum for a thread that is not in the heap.\<close>

lemma psjf_quantum:
  assumes inv: "psjf_inv n l" and rep: "ready_rep PSJF l M" and p: "p \<notin># M"
    and u: "upd_tcb p (\<lambda>t. t\<lparr>elapsed_quanta := elapsed_quanta t + 1\<rparr>) l = Some l'"
  shows "psjf_inv (n + 1) l'"
proof -
  obtain t where t: "tcbs l p = Some t" "l' = l\<lparr>tcbs := (tcbs l)(p \<mapsto> t\<lparr>elapsed_quanta := elapsed_quanta t + 1\<rparr>)\<rparr>"
    using u by (rule upd_tcb_SomeE)
  have b: "0 \<le> elapsed_quanta u" "elapsed_quanta u \<le> n" "uint (t_id u) < 2 ^ 31" if "tcbs l q = Some u" for q u
    using inv that unfolding psjf_inv_def by blast+
  have "ordered_heap l'" if "n + 1 < 2 ^ 31"
  proof -
    have n: "n < 2 ^ 31" using that by simp
    obtain ys where ys: "heap_rep (psjf_heap l) ys" "heap_ord (psjf_key l) ys" "\<forall>q \<in> set ys. tcbs l q \<noteq> None" "mset ys = M"
      by (rule psjf_readyE [OF inv n rep])
    then have "p \<notin> set ys" using p by auto
    then have "heap_ord (psjf_key l') ys"
      by (intro heap_ord_cong [OF ys(2)]) (auto simp: t(2) psjf_key_def)
    then show ?thesis using ys by (auto simp: ordered_heap_def t(2))
  qed
  then show ?thesis using b t by (fastforce simp: psjf_inv_def)
qed

lemma psjf_free:
  assumes inv: "psjf_inv n l" and rep: "ready_rep PSJF l M" and p: "p \<notin># M"
    and l': "tcbs l' = (tcbs l)(p := None)" "psjf_heap l' = psjf_heap l"
  shows "psjf_inv n l'"
proof -
  have "ordered_heap l'" if n: "n < 2 ^ 31"
  proof -
    obtain ys where ys: "heap_rep (psjf_heap l) ys" "heap_ord (psjf_key l) ys" "\<forall>q \<in> set ys. tcbs l q \<noteq> None" "mset ys = M"
      by (rule psjf_readyE [OF inv n rep])
    then have "p \<notin> set ys" using p by auto
    then have "heap_ord (psjf_key l') ys"
      by (intro heap_ord_cong [OF ys(2)]) (auto simp: l' psjf_key_def)
    then show ?thesis using ys \<open>p \<notin> set ys\<close> by (auto simp: ordered_heap_def l')
  qed
  then show ?thesis using inv by (simp add: psjf_inv_def l')
qed

lemma psjf_new:
  assumes inv: "psjf_inv n l" and p: "tcbs l p = None" and t: "0 \<le> elapsed_quanta t" "elapsed_quanta t \<le> n" "uint (t_id t) < 2 ^ 31"
    and l': "tcbs l' = (tcbs l)(p \<mapsto> t)" "psjf_heap l' = psjf_heap l"
  shows "psjf_inv n l'"
proof -
  have "ordered_heap l'" if n: "n < 2 ^ 31"
  proof -
    obtain ys where ys: "heap_rep (psjf_heap l) ys" "heap_ord (psjf_key l) ys" "\<forall>q \<in> set ys. tcbs l q \<noteq> None"
      by (rule psjf_heapE [OF inv n])
    then have "p \<notin> set ys" using p by auto
    then have "heap_ord (psjf_key l') ys"
      by (intro heap_ord_cong [OF ys(2)]) (auto simp: l' psjf_key_def)
    then show ?thesis using ys by (auto simp: ordered_heap_def l')
  qed
  then show ?thesis using inv t by (auto simp: psjf_inv_def l')
qed

section \<open>The scheduler\<close>

lemma psjf_inv_cong: "tcbs l' = tcbs l \<Longrightarrow> psjf_heap l' = psjf_heap l \<Longrightarrow> psjf_inv n l \<Longrightarrow> psjf_inv n l'"
  by (simp add: psjf_inv_def ordered_heap_def psjf_key_def [abs_def])

lemma begin_run_quiet:
  assumes "begin_run p l = Some l'"
  shows "quiet l l'"
proof -
  obtain l1 t where l1: "upd_tcb p (\<lambda>t. t\<lparr>t_state := RUNNING\<rparr>) l = Some l1" "tcbs l1 p = Some t"
    and l': "(if has_started t then Some l1 else case clock_gettime l1 of
        (now, l) \<Rightarrow> upd_tcb p (\<lambda>t. t\<lparr>start_time := now, has_started := True\<rparr>) l) = Some l'"
    using assms unfolding begin_run_def by (auto split: Option.bind_splits)
  have q1: "quiet l l1" by (rule quiet_upd [OF l1(1)]) simp_all
  show ?thesis
  proof (cases "has_started t")
    case False
    have "quiet l1 (l1\<lparr>reads := reads l1 + 1\<rparr>)" by (simp add: quiet_same)
    moreover have "quiet (l1\<lparr>reads := reads l1 + 1\<rparr>) l'"
      by (rule quiet_upd [of p "\<lambda>t. t\<lparr>start_time := clk l1 (reads l1), has_started := True\<rparr>"])
        (use l' False in \<open>simp_all add: clock_gettime_def\<close>)
    ultimately show ?thesis using q1 quiet_trans by blast
  qed (use q1 l' in simp)
qed

lemma psjf_pop:
  assumes inv: "psjf_inv n l" and rep: "ready_rep PSJF l M" and pop: "heap_pop (on_tcbs psjf_cmp l) (psjf_heap l) = Some (r, h)"
  shows "psjf_inv n (l\<lparr>psjf_heap := h\<rparr>)"
    "n < 2 ^ 31 \<Longrightarrow> \<exists>q. r = Some q \<and> q \<in># M \<and> (\<forall>x \<in># M. psjf_key l q \<le> psjf_key l x)"
proof -
  have ex: "\<exists>q ys'. r = Some q \<and> q \<in># M \<and> (\<forall>x \<in># M. psjf_key l q \<le> psjf_key l x) \<and> heap_rep h ys' \<and>
      heap_ord (psjf_key l) ys' \<and> (\<forall>q \<in> set ys'. tcbs l q \<noteq> None)" if n: "n < 2 ^ 31"
  proof -
    obtain ys where ys: "heap_rep (psjf_heap l) ys" "heap_ord (psjf_key l) ys" "\<forall>q \<in> set ys. tcbs l q \<noteq> None" "mset ys = M"
      by (rule psjf_readyE [OF inv n rep])
    have small: "list_all (psjf_small l) ys" using psjf_small_inv [OF inv n] ys(3) by (simp add: list_all_iff)
    have ne: "ys \<noteq> []" using pop ys(1) heap_pop_empty [of "psjf_heap l"] by auto
    obtain h' ys' where z: "heap_pop (on_tcbs psjf_cmp l) (psjf_heap l) = Some (Some (ys ! 0), h')" "heap_rep h' ys'"
      "heap_ord (psjf_key l) ys'" "mset ys = add_mset (ys ! 0) (mset ys')" "\<And>y. y \<in> set ys \<Longrightarrow> psjf_key l (ys ! 0) \<le> psjf_key l y"
      by (rule psjf_order.heap_pop_spec [OF ys(1,2) small ne], rule that) (assumption+)
    have "set ys = insert (ys ! 0) (set ys')" using arg_cong [OF z(4), of set_mset] by simp
    then have "ys ! 0 \<in># M" "\<forall>q \<in> set ys'. tcbs l q \<noteq> None" "\<forall>x \<in># M. psjf_key l (ys ! 0) \<le> psjf_key l x"
      using ys(3,4) z(5) by auto
    moreover have "r = Some (ys ! 0)" "h = h'" using pop z(1) by simp_all
    ultimately show ?thesis using z(2,3) by blast
  qed
  then show "n < 2 ^ 31 \<Longrightarrow> \<exists>q. r = Some q \<and> q \<in># M \<and> (\<forall>x \<in># M. psjf_key l q \<le> psjf_key l x)" by blast
  have "psjf_key (l\<lparr>psjf_heap := h\<rparr>) = psjf_key l" by (simp add: psjf_key_def fun_eq_iff)
  then have "n < 2 ^ 31 \<Longrightarrow> ordered_heap (l\<lparr>psjf_heap := h\<rparr>)" using ex by (auto simp: ordered_heap_def)
  then show "psjf_inv n (l\<lparr>psjf_heap := h\<rparr>)" using inv by (simp add: psjf_inv_def)
qed

lemma psjf_pop_total:
  assumes inv: "psjf_inv n l" and n: "n < 2 ^ 31" and rep: "ready_rep PSJF l M" and ne: "M \<noteq> {#}"
  obtains q h where "heap_pop (on_tcbs psjf_cmp l) (psjf_heap l) = Some (Some q, h)" "tcbs l q \<noteq> None"
proof -
  obtain ys where ys: "heap_rep (psjf_heap l) ys" "heap_ord (psjf_key l) ys" "\<forall>q \<in> set ys. tcbs l q \<noteq> None" "mset ys = M"
    by (rule psjf_readyE [OF inv n rep])
  have small: "list_all (psjf_small l) ys" using psjf_small_inv [OF inv n] ys(3) by (simp add: list_all_iff)
  have ne: "ys \<noteq> []" using ne ys(4) by auto
  then have "tcbs l (ys ! 0) \<noteq> None" using ys(3) by simp
  then show thesis using psjf_order.heap_pop_spec [OF ys(1,2) small ne, of thesis] that by blast
qed

lemma psjf_sched:
  assumes inv: "psjf_inv n l" and rep: "ready_rep PSJF l M" and run: "sched_psjf l = Some (Run q l')"
  shows "psjf_inv n l'" "tot_cntx_switches l' = tot_cntx_switches l + 1"
proof -
  obtain r h where pop: "heap_pop (on_tcbs psjf_cmp l) (psjf_heap l) = Some (r, h)"
    using run by (subst (asm) sched_psjf.simps) (auto split: option.splits)
  have "\<exists>ys. heap_rep (psjf_heap l) ys \<and> mset ys = M" using rep by simp
  then obtain p where p: "r = Some p" by (rule heap_pop_ready [OF pop])
  obtain l2 where l2: "begin_run p (l\<lparr>psjf_heap := h\<rparr>) = Some l2" "l' = count_switch l2\<lparr>running_tcb := Some p\<rparr>"
    using run pop p(1) by (subst (asm) sched_psjf.simps) (auto simp: Let_def dest!: resume_SomeD)
  have q: "quiet (l\<lparr>psjf_heap := h\<rparr>) l2" by (rule begin_run_quiet [OF l2(1)])
  have "psjf_inv n l2" by (rule quiet_inv [OF q psjf_pop(1) [OF inv rep pop]])
  then show "psjf_inv n l'" by (rule psjf_inv_cong [rotated 2]) (simp_all add: l2(2) count_switch_def)
  show "tot_cntx_switches l' = tot_cntx_switches l + 1" using q by (simp add: l2(2) count_switch_def quiet_def)
qed

lemma psjf_account_ready:
  assumes rep: "ready_rep PSJF l M" and run: "running_tcb l = Some p" and acc: "account PSJF l = Some (Some l')"
  shows "\<exists>M'. ready_rep PSJF l' M'"
proof -
  obtain t where t: "tcbs l p = Some t" using acc run by (auto simp: account_def split: option.splits)
  have q: "ready_rep PSJF l1 M" if "upd_tcb p f l = Some l1" for f l1
    using that rep by (auto elim!: upd_tcb_SomeE)
  show ?thesis
  proof (cases "t_state t")
    case RUNNING
    then show ?thesis
      using acc run t q psjf.preempt_law [of _ M p l']
      by (auto simp: account_def simp del: ready_rep.simps split: option.splits; blast)
  next
    case READY
    then show ?thesis
      using acc run t q psjf.add_law [of _ M p l']
      by (auto simp: account_def simp del: ready_rep.simps split: Option.bind_splits; blast)
  qed (use acc run t rep in \<open>auto simp: account_def\<close>)
qed

lemma psjf_account:
  assumes inv: "psjf_inv n l" and rep: "ready_rep PSJF l M" and run: "running_tcb l = Some p" and p: "p \<notin># M"
    and acc: "account PSJF l = Some (Some l')"
  shows "psjf_inv (n + 1) l'" "tot_cntx_switches l' = tot_cntx_switches l"
proof -
  have m: "psjf_inv (n + 1) l" by (rule psjf_inv_mono [OF inv]) simp
  obtain t where t: "tcbs l p = Some t" using acc run by (auto simp: account_def split: option.splits)
  have "psjf_inv (n + 1) l' \<and> tot_cntx_switches l' = tot_cntx_switches l"
  proof (cases "t_state t")
    case RUNNING
    obtain l1 l2 where l1: "upd_tcb p (\<lambda>t. t\<lparr>t_state := READY\<rparr>) l = Some l1"
      "upd_tcb p (\<lambda>t. t\<lparr>elapsed_quanta := elapsed_quanta t + 1\<rparr>) l1 = Some l2" "add_to_scheduler PSJF p l2 = Some l'"
      using acc run t RUNNING by (auto simp: account_def preempted_def split: option.splits Option.bind_splits)
    have q: "quiet l l1" by (rule quiet_upd [OF l1(1)]) simp_all
    have "same_but p (\<lambda>c. c\<lparr>c_state := READY\<rparr>) l l1" by (rule upd_tcb_same_but [OF l1(1)]) simp
    then have rep1: "ready_rep PSJF l1 M" using rep ready_rep_cong [of l l1] by (simp add: same_but_def)
    have i2: "psjf_inv (n + 1) l2" by (rule psjf_quantum [OF quiet_inv [OF q inv] rep1 p l1(2)])
    have "tcbs l2 p \<noteq> None" "tot_cntx_switches l2 = tot_cntx_switches l1" using l1(2) by (auto elim!: upd_tcb_SomeE)
    then show ?thesis using psjf_push [OF i2 _ l1(3)] q by (simp add: quiet_def)
  next
    case READY
    obtain l1 where l1: "upd_tcb p (\<lambda>t. t\<lparr>time_used := 0\<rparr>) l = Some l1" "add_to_scheduler PSJF p l1 = Some l'"
      using acc run t READY by (auto simp: account_def split: Option.bind_splits)
    have q: "quiet l l1" by (rule quiet_upd [OF l1(1)]) simp_all
    have "tcbs l1 p \<noteq> None" using l1(1) by (auto elim!: upd_tcb_SomeE)
    then show ?thesis using psjf_push [OF quiet_inv [OF q m] _ l1(2)] q by (simp add: quiet_def)
  next
    case BLOCKED
    then show ?thesis using acc run t m by (simp add: account_def)
  next
    case TERMINATED
    then have "l' = l\<lparr>running_tcb := None\<rparr>" using acc run t by (simp add: account_def)
    then show ?thesis using psjf_inv_cong [of l' l] m by simp
  qed
  then show "psjf_inv (n + 1) l'" "tot_cntx_switches l' = tot_cntx_switches l" by simp_all
qed

text \<open>A pass through the scheduler counts two switches and adds at most one quantum.\<close>

definition psjf_sys :: "int \<Rightarrow> lib \<Rightarrow> bool" where
  "psjf_sys j l \<longleftrightarrow> psjf_inv (j + tot_cntx_switches l) l"

lemma psjf_sys_quiet: "quiet l l' \<Longrightarrow> psjf_sys j l \<Longrightarrow> psjf_sys j l'"
  unfolding psjf_sys_def using quiet_inv [of l l'] by (simp add: quiet_def)

lemma psjf_sys_upd:
  "upd_tcb p f l = Some l' \<Longrightarrow> psjf_sys j l \<Longrightarrow> (\<And>t. elapsed_quanta (f t) = elapsed_quanta t) \<Longrightarrow> (\<And>t. t_id (f t) = t_id t) \<Longrightarrow> psjf_sys j l'"
  by (rule psjf_sys_quiet [OF quiet_upd])

lemma psjf_sys_push:
  "psjf_sys j l \<Longrightarrow> tcbs l p \<noteq> None \<Longrightarrow> add_to_scheduler PSJF p l = Some l' \<Longrightarrow> psjf_sys j l'"
  unfolding psjf_sys_def using psjf_push [of "j + tot_cntx_switches l" l p l'] by simp

lemma psjf_resumes:
  assumes inv: "psjf_sys j l" and rep: "ready_rep PSJF l M" and run: "running_tcb l = Some p" and ent: "entering (cores l) p M W pd"
    and res: "resumes PSJF l l'"
  shows "psjf_sys j l'"
proof -
  let ?n = "j + tot_cntx_switches l"
  have pM: "p \<notin># M" using enteringD(3) [OF ent, of p] by (simp add: not_in_iff)
  obtain q l1 where l1: "account PSJF l = Some (Some l1)" "sched_psjf (count_switch l1) = Some (Run q l')"
    using res by (auto simp: resumes_def schedule_def sched_def split: option.splits)
  have inv': "psjf_inv ?n l" using inv by (simp add: psjf_sys_def)
  note A = psjf_account [OF inv' rep run pM l1(1)]
  have i1: "psjf_inv (?n + 1) (count_switch l1)" by (rule psjf_inv_cong [OF _ _ A(1)]) (simp_all add: count_switch_def)
  have "\<exists>M1. ready_rep PSJF l1 M1" by (rule psjf_account_ready [OF rep run l1(1)])
  then obtain M1 where "ready_rep PSJF (count_switch l1) M1" by (auto simp: count_switch_def)
  note S = psjf_sched [OF i1 this l1(2)]
  have "tot_cntx_switches l' = tot_cntx_switches l + 2" using S(2) A(2) by (simp add: count_switch_def)
  then show ?thesis using psjf_inv_mono [OF S(1), of "j + tot_cntx_switches l'"] by (simp add: psjf_sys_def)
qed

section \<open>Steps\<close>

lemma psjf_sys_nonneg: "psjf_sys j l \<Longrightarrow> alive (cores l) p \<Longrightarrow> 0 \<le> j + tot_cntx_switches l"
  by (fastforce simp: psjf_sys_def psjf_inv_def alive_def cores_def)

lemma psjf_create:
  assumes call: "create_thread PSJF e l = Return r v l'" and inv: "psjf_sys j l" and mem: "lib_mem l" and p: "alive (cores l) p"
  shows "psjf_sys j l'"
proof -
  have mok: "mem_ok (static (cores l)) (thread_table l) (stacks l) (next_addr l) (next_thread_id l)"
    using mem by (simp add: lib_mem_def)
  let ?n = "next_thread_id l" and ?p = "next_addr l" and ?now = "clk l (reads l)"
  let ?l1 = "l\<lparr>next_addr := ?p + 1, next_thread_id := ?n + 1, thread_count := thread_count l + 1, reads := reads l + 1\<rparr>"
  let ?l2 = "?l1\<lparr>stacks := insert (?p + 1) (stacks l), next_addr := ?p + 2\<rparr>"
  let ?t = "new_tcb e ?n ?now (?p + 1)"
  let ?l4 = "snd (add_thread_to_table ?p (?l2\<lparr>tcbs := (tcbs l)(?p \<mapsto> ?t)\<rparr>))"
  have eq: "create_thread PSJF e l =
      (if \<not> e_tcb e then Return (-1) None l
       else if ?n \<ge> 2 ^ 31 - 1 then Crash
       else if \<not> e_stack e then Return (-1) None ?l1
       else if \<not> e_context e then Return (-1) None ?l2
       else case add_to_scheduler PSJF ?p ?l4 of None \<Rightarrow> Crash | Some l \<Rightarrow> Return 0 (Some (word_of_int ?n)) l)"
    by (simp add: create_thread_def Let_def clock_gettime_def alloc_stack_def)
  have "l' = l \<or> \<not> ?n \<ge> 2 ^ 31 - 1 \<and> l' = ?l1 \<or> \<not> ?n \<ge> 2 ^ 31 - 1 \<and> l' = ?l2 \<or>
      \<not> ?n \<ge> 2 ^ 31 - 1 \<and> add_to_scheduler PSJF ?p ?l4 = Some l'"
    by (rule psjf.reply_cases [OF call [unfolded eq]])
  then consider "quiet l l'" | (fin) "?n < 2 ^ 31 - 1" "add_to_scheduler PSJF ?p ?l4 = Some l'"
    unfolding not_le using quiet_same [of l l] quiet_same [of ?l1 l] quiet_same [of ?l2 l] by fastforce
  then show ?thesis
  proof cases
    case fin
    have fresh: "tcbs l ?p = None"
      using mem_okD(1) [OF mok, of ?p] by (cases "tcbs l ?p") (auto simp: static_def cores_def)
    have "uint (t_id ?t) = ?n" using mem_okD(10) [OF mok] fin(1) by (simp add: new_tcb_def uint_word_of_int)
    then have t: "uint (t_id ?t) < 2 ^ 31" using fin(1) by simp
    have n: "0 \<le> j + tot_cntx_switches l" by (rule psjf_sys_nonneg [OF inv p])
    have l4: "tcbs ?l4 = (tcbs l)(?p \<mapsto> ?t)" "psjf_heap ?l4 = psjf_heap l" "tot_cntx_switches ?l4 = tot_cntx_switches l"
      by (simp_all add: add_thread_to_table_def split: option.split)
    have "psjf_inv (j + tot_cntx_switches l) ?l4"
      by (rule psjf_new [OF _ fresh _ _ t l4(1,2)]) (use inv n in \<open>simp_all add: psjf_sys_def new_tcb_def\<close>)
    then have "psjf_sys j ?l4" unfolding psjf_sys_def l4(3) .
    moreover have "tcbs ?l4 ?p \<noteq> None" unfolding l4(1) by simp
    ultimately show ?thesis by (rule psjf_sys_push [OF _ _ fin(2)])
  qed (use psjf_sys_quiet inv in blast)
qed

lemma psjf_finish_join:
  assumes call: "finish_join t vp l = Return r v l'" and inv: "psjf_sys j l" and rep: "ready_rep PSJF l M" and t: "t \<notin># M"
  shows "psjf_sys j l'"
proof -
  obtain d where d: "cleanup_thread t l = Some l'"
    using call by (auto simp: finish_join_def split: option.splits Option.bind_splits)
  have l': "tcbs l' = (tcbs l)(t := None)" "psjf_heap l' = psjf_heap l" "tot_cntx_switches l' = tot_cntx_switches l"
    using d by (auto simp: cleanup_thread_def remove_thread_from_table_def free_stack_def
        split: Option.bind_splits option.splits if_splits)
  have "psjf_inv (j + tot_cntx_switches l) l'"
    by (rule psjf_free [OF _ rep t l'(1,2)]) (use inv in \<open>simp add: psjf_sys_def\<close>)
  then show ?thesis by (simp add: psjf_sys_def l'(3))
qed

lemma psjf_exit:
  assumes call: "worker_exit PSJF v l = Switch l'" and inv: "psjf_sys j l"
  shows "psjf_sys j l'"
proof -
  obtain p where p: "running_tcb l = Some p" using call by (auto simp: worker_exit_def split: option.splits)
  let ?l0 = "l\<lparr>reads := reads l + 1\<rparr>" and ?now = "clk l (reads l)"
  obtain l1 t l2 where l1: "upd_tcb p (\<lambda>t. t\<lparr>t_state := TERMINATED, t_retval := v, finish_time := ?now\<rparr>) ?l0 = Some l1"
    "tcbs l1 p = Some t"
    and l2: "l2 = l1\<lparr>thread_count := thread_count l1 - 1, completed_threads := completed_threads l1 + 1,
        total_turnaround_time := total_turnaround_time l1 + time_diff_microseconds (arrival_time t) ?now,
        total_response_time := total_response_time l1 + time_diff_microseconds (arrival_time t) (start_time t)\<rparr>"
    and wake: "wake_waiting PSJF p l2 = Some l'"
    using call p by (auto simp: worker_exit_def clock_gettime_def Let_def split: Option.bind_splits option.splits)
  have i0: "psjf_sys j ?l0" by (rule psjf_sys_quiet [OF quiet_same inv]) simp_all
  have i1: "psjf_sys j l1" by (rule psjf_sys_upd [OF l1(1) i0]) simp_all
  have i2: "psjf_sys j l2" by (rule psjf_sys_quiet [OF quiet_same i1]) (simp_all add: l2)
  show ?thesis
  proof (cases "waiting_thread t")
    case None
    then show ?thesis using wake i2 l1(2) by (simp add: l2 wake_waiting_def)
  next
    case (Some w)
    obtain l3 l4 where l3: "upd_tcb w (\<lambda>t. t\<lparr>t_state := READY\<rparr>) l2 = Some l3" "add_to_scheduler PSJF w l3 = Some l4"
      "upd_tcb p (\<lambda>t. t\<lparr>waiting_thread := None\<rparr>) l4 = Some l'"
      using wake l1(2) Some by (auto simp: l2 wake_waiting_def split: Option.bind_splits)
    have i3: "psjf_sys j l3" by (rule psjf_sys_upd [OF l3(1) i2]) simp_all
    have "psjf_sys j l4" by (rule psjf_sys_push [OF i3 _ l3(2)]) (use l3(1) in \<open>auto elim!: upd_tcb_SomeE\<close>)
    then show ?thesis by (rule psjf_sys_upd [OF l3(3)]) simp_all
  qed
qed

text \<open>The writes of the other calls before they return or switch.\<close>

lemma psjf_calls:
  assumes inv: "psjf_sys j l"
  shows "worker_yield l = Switch l' \<Longrightarrow> psjf_sys j l'"
    "worker_join tid vp l = Switch l' \<Longrightarrow> psjf_sys j l'"
    "worker_mutex_lock (Some m) l = (m', Switch l') \<Longrightarrow> psjf_sys j l'"
    "worker_mutex_unlock PSJF (Some m) l = (m', Return r u l') \<Longrightarrow> psjf_sys j l'"
proof -
  show "psjf_sys j l'" if call: "worker_yield l = Switch l'"
  proof -
    obtain p where "upd_tcb p (\<lambda>t. t\<lparr>t_state := READY\<rparr>) l = Some l'"
      using call by (auto simp: worker_yield_def split: option.splits)
    then show ?thesis by (rule psjf_sys_upd [OF _ inv]) simp_all
  qed
  show "psjf_sys j l'" if call: "worker_join tid vp l = Switch l'"
  proof -
    obtain p t l1 l2 where "upd_tcb t (\<lambda>t. t\<lparr>joined := True\<rparr>) l = Some l1" "upd_tcb p (\<lambda>t. t\<lparr>t_state := BLOCKED\<rparr>) l1 = Some l2"
      "upd_tcb t (\<lambda>t. t\<lparr>waiting_thread := Some p\<rparr>) l2 = Some l'"
      using call unfolding worker_join_def finish_join_def
      by (auto split: option.splits if_splits Option.bind_splits prod.splits)
    then show ?thesis
      using inv psjf_sys_upd [of t "\<lambda>t. t\<lparr>joined := True\<rparr>" l l1 j] psjf_sys_upd [of p "\<lambda>t. t\<lparr>t_state := BLOCKED\<rparr>" l1 l2 j]
        psjf_sys_upd [of t "\<lambda>t. t\<lparr>waiting_thread := Some p\<rparr>" l2 l' j] by simp
  qed
  show "psjf_sys j l'" if call: "worker_mutex_lock (Some m) l = (m', Switch l')"
  proof -
    have "l' = l \<or> (\<exists>p. upd_tcb p (\<lambda>t. t\<lparr>t_state := BLOCKED\<rparr>) l = Some l')"
      using call unfolding worker_mutex_lock_def by (auto split: option.splits if_splits Option.bind_splits)
    then show ?thesis using inv psjf_sys_upd [of _ "\<lambda>t. t\<lparr>t_state := BLOCKED\<rparr>" l l' j] by auto
  qed
  show "psjf_sys j l'" if call: "worker_mutex_unlock PSJF (Some m) l = (m', Return r u l')"
  proof -
    have "l' = l \<or> (\<exists>w l1. upd_tcb w (\<lambda>t. t\<lparr>t_state := READY\<rparr>) l = Some l1 \<and> add_to_scheduler PSJF w l1 = Some l')"
      using call by (cases "wait_queue m")
        (auto simp: worker_mutex_unlock_def Let_def split: option.splits if_splits Option.bind_splits)
    then show ?thesis
    proof (elim disjE exE conjE)
      fix w l1 assume w: "upd_tcb w (\<lambda>t. t\<lparr>t_state := READY\<rparr>) l = Some l1" "add_to_scheduler PSJF w l1 = Some l'"
      have "psjf_sys j l1" by (rule psjf_sys_upd [OF w(1) inv]) simp_all
      then show ?thesis by (rule psjf_sys_push [OF _ _ w(2)]) (use w(1) in \<open>auto elim!: upd_tcb_SomeE\<close>)
    qed (use inv in simp)
  qed
qed

lemma psjf_join:
  assumes call: "worker_join tid vp l = Return r v l'" and inv: "psjf_sys j l" and rep: "ready_rep PSJF l M"
    and ent: "entering (cores l) p M W pd"
  shows "psjf_sys j l'"
proof -
  have "l' = l \<or> (\<exists>t d l1. tcbs l t = Some d \<and> t_state d = TERMINATED \<and>
      upd_tcb t (\<lambda>t. t\<lparr>joined := True\<rparr>) l = Some l1 \<and> finish_join t vp l1 = Return r v l')"
    using call unfolding worker_join_def by (auto split: option.splits if_splits Option.bind_splits)
  then show ?thesis
  proof (elim disjE exE conjE)
    fix t d l1
    assume t: "tcbs l t = Some d" "t_state d = TERMINATED" and l1: "upd_tcb t (\<lambda>t. t\<lparr>joined := True\<rparr>) l = Some l1"
      and fin: "finish_join t vp l1 = Return r v l'"
    have i1: "psjf_sys j l1" by (rule psjf_sys_upd [OF l1 inv]) simp_all
    have rep1: "ready_rep PSJF l1 M" using l1 rep by (auto elim!: upd_tcb_SomeE)
    have "\<not> has_state (cores l) t READY" using t by (auto simp: has_state_def cores_def)
    then have "t \<notin># M" using enteringD(3) [OF ent, of t] by (simp add: not_in_iff)
    then show ?thesis by (rule psjf_finish_join [OF fin i1 rep1])
  qed (use inv in simp)
qed

lemma psjf_step:
  assumes st: "step PSJF s s'" and si: "sys_inv PSJF s" and inv: "psjf_sys j (lib_of s)"
  shows "psjf_sys j (lib_of s')"
proof -
  obtain p M where I: "ready_rep PSJF (lib_of s) M" "lib_mem (lib_of s)" "running_tcb (lib_of s) = Some p"
    "threads_ok (cores (lib_of s)) (Some p) M (\<lambda>m. wait_queue (mutexes s m)) (pend s)"
    using si by (auto simp: sys_inv_def threads_ok_def)
  have ent: "entering (cores (lib_of s)) p M (\<lambda>m. wait_queue (mutexes s m)) (pend s)" "has_state (cores (lib_of s)) p RUNNING"
    using I(4) by (auto simp: threads_ok_def)
  from st show ?thesis
  proof (cases rule: step_cases)
    case (create p e r v l)
    have "main_tcb (lib_of s) \<noteq> None" using I(2) by (simp add: lib_mem_def)
    then have c: "create_thread PSJF e (lib_of s) = Return r v l" using create(5) by (auto simp: worker_create_def)
    show ?thesis using psjf_create [OF c inv I(2) enteringD(1) [OF ent(1)]] create(1) by simp
  next
    case (tick p l)
    show ?thesis using psjf_resumes [OF inv I(1,3) ent(1) tick(4)] tick(1) by simp
  next
    case (yield q l l')
    note Y = psjf.yield_inv [OF yield(4) I(1,3,4,2)]
    show ?thesis using psjf_resumes [OF psjf_calls(1) [OF inv yield(4)] Y(1-3) yield(5)] yield(1) by simp
  next
    case (exit q v l l')
    have idle: "pend s p = Idle" using exit(2,3) I(3) by simp
    note E = psjf.exit_inv [OF exit(4) I(1,3,4) idle I(2)]
    obtain M' where M': "ready_rep PSJF l M'" "entering (cores l) p M' (\<lambda>m. wait_queue (mutexes s m)) (pend s)"
      using E(1) by blast
    show ?thesis using psjf_resumes [OF psjf_exit [OF exit(4) inv] M'(1) E(2) M'(2) exit(5)] exit(1) by simp
  next
    case (join q tid vp r v l)
    show ?thesis using psjf_join [OF join(4) inv I(1) ent(1)] join(1) by simp
  next
    case (join_wait q tid vp l t l')
    have idle: "pend s p = Idle" using join_wait(2,3) I(3) by simp
    note J = psjf.join_wait_inv [OF join_wait(4,5) I(1,3,4) idle I(2)]
    show ?thesis using psjf_resumes [OF psjf_calls(2) [OF inv join_wait(4)] J(1-3) join_wait(6)] join_wait(1) by simp
  next
    case (join_end q t vp r v l)
    have pd: "pend s p = Joining t vp" using join_end(2,3) I(3) by simp
    have nb: "\<not> has_state (cores (lib_of s)) p BLOCKED" using ent(2) has_state_fun by blast
    have "has_state (cores (lib_of s)) t TERMINATED" using waits_okD(9) [OF enteringD(4) [OF ent(1)] pd] nb by blast
    then have "\<not> has_state (cores (lib_of s)) t READY" using has_state_fun by blast
    then have "t \<notin># M" using enteringD(3) [OF ent(1), of t] by (simp add: not_in_iff)
    then show ?thesis using psjf_finish_join [OF join_end(4) inv I(1)] join_end(1) by simp
  next
    case (lock q m mx r v l)
    show ?thesis using psjf.lock_return(1) [OF lock(4)] inv lock(1) by simp
  next
    case (lock_wait q m mx l l')
    have pd: "pend s p = Idle \<or> pend s p = Locking m" using lock_wait(2,3) I(3) by simp
    note L = psjf.lock_wait_inv [OF lock_wait(4) I(1,3,4) pd I(2)]
    show ?thesis using psjf_resumes [OF psjf_calls(3) [OF inv lock_wait(4)] L(1,2,4) lock_wait(5)] lock_wait(1) by simp
  next
    case (unlock q m mx r v l)
    show ?thesis using psjf_calls(4) [OF inv unlock(4)] unlock(1) by simp
  next
    case (destroy q m r mx)
    then show ?thesis using inv by simp
  qed
qed

lemma psjf_start:
  assumes call: "worker_create PSJF e (boot c) = Return r v l" and clean: "clean e"
    and j: "0 \<le> elapsed_quanta (e_main_junk e)"
  shows "psjf_sys (elapsed_quanta (e_main_junk e)) l"
proof -
  obtain l0 where init: "init_main_thread e (boot c) = Some l0" and c: "create_thread PSJF e l0 = Return r v l"
    using call by (auto simp: worker_create_def boot_def split: option.splits)
  have l0: "tcbs l0 = Map.empty(2 \<mapsto> (e_main_junk e)\<lparr>t_id := 0, t_state := RUNNING, t_stack := None,
        t_retval := 0, has_started := True\<rparr>)" "tot_cntx_switches l0 = 0"
    using init unfolding init_main_thread_def init_scheduler_def init_timer_def init_thread_table_def alloc_stack_def
    by (auto simp: boot_def init_heap_def Let_def numeral_2_eq_2 numeral_3_eq_3 split: if_splits Option.bind_splits)
  have "ordered_heap l0"
    using init_main_boot(9) [OF init] heap_rep_empty by (auto simp: ordered_heap_def heap_ord_def intro!: exI [of _ "[]"])
  then have "psjf_sys (elapsed_quanta (e_main_junk e)) l0"
    using j by (simp add: psjf_sys_def psjf_inv_def l0 split: if_splits)
  moreover have "alive (cores l0) 2" by (simp add: alive_def cores_def l0)
  ultimately show ?thesis using psjf_create [OF c] init_main_inv(2) [OF init clean] by blast
qed

section \<open>A timer tick\<close>

lemma psjf_tick:
  assumes inv: "psjf_sys j l" and rep: "ready_rep PSJF l M" and run: "running_tcb l = Some p"
    and ent: "entering (cores l) p M W pd" and st: "has_state (cores l) p RUNNING"
    and n: "j + tot_cntx_switches l + 1 < 2 ^ 31" and room: "size M < MAX_THREADS"
  obtains q l' where "timer_handler PSJF l = Some (Some (Run q l'))" "running_tcb l' = Some q" "has_state (cores l') q RUNNING"
    "psjf_key l' = (psjf_key l)(p := (fst (psjf_key l p) + 1, snd (psjf_key l p)))"
    "\<And>r. has_state (cores l') r READY \<Longrightarrow> psjf_key l' q \<le> psjf_key l' r"
proof -
  let ?n = "j + tot_cntx_switches l"
  have pM: "p \<notin># M" using enteringD(3) [OF ent, of p] by (simp add: not_in_iff)
  obtain t where t: "tcbs l p = Some t" "t_state t = RUNNING" using st by (auto simp: has_state_def cores_def)
  obtain l1 where l1: "upd_tcb p (\<lambda>t. t\<lparr>t_state := READY\<rparr>) l = Some l1" using t by (simp add: upd_tcb_def)
  obtain l2 where l2: "upd_tcb p (\<lambda>t. t\<lparr>elapsed_quanta := elapsed_quanta t + 1\<rparr>) l1 = Some l2"
    using l1 by (auto simp: upd_tcb_def split: Option.bind_splits)
  have q1: "quiet l l1" by (rule quiet_upd [OF l1]) simp_all
  have rep1: "ready_rep PSJF l1 M" and rep2: "ready_rep PSJF l2 M" using rep l1 l2 by (auto elim!: upd_tcb_SomeE)
  have "psjf_inv ?n l1" using quiet_inv [OF q1] inv by (simp add: psjf_sys_def)
  then have i2: "psjf_inv (?n + 1) l2" by (rule psjf_quantum [OF _ rep1 pM l2])
  have k2: "psjf_key l2 = (psjf_key l)(p := (fst (psjf_key l p) + 1, snd (psjf_key l p)))"
    using l1 l2 t by (auto simp: upd_tcb_def psjf_key_def fun_eq_iff)
  have "h_size (psjf_heap l2) < int MAX_THREADS" using rep2 room by (auto simp: heap_rep_def)
  moreover have a2: "tcbs l2 p \<noteq> None" using l2 by (auto elim!: upd_tcb_SomeE)
  ultimately obtain l3 where l3: "add_to_scheduler PSJF p l2 = Some l3" using psjf_push_total [OF i2 n] by blast
  let ?l3 = "count_switch l3"
  have acc: "account PSJF l = Some (Some l3)" using run t l1 l2 l3 by (simp add: account_def preempted_def)
  have rep3: "ready_rep PSJF l3 (add_mset p M)" and t3: "tcbs l3 = tcbs l2" using psjf.add_law [OF rep2 l3] by auto
  have i3: "psjf_inv (?n + 1) ?l3" using psjf_inv_cong [OF _ _ psjf_push(1) [OF i2 a2 l3]] by (simp add: count_switch_def)
  have rep4: "ready_rep PSJF ?l3 (add_mset p M)" using rep3 by (simp add: count_switch_def)
  have k3: "psjf_key ?l3 = psjf_key l2" by (simp add: psjf_key_def fun_eq_iff count_switch_def t3)
  obtain q h where pop: "heap_pop (on_tcbs psjf_cmp ?l3) (psjf_heap ?l3) = Some (Some q, h)" "tcbs ?l3 q \<noteq> None"
    by (rule psjf_pop_total [OF i3 n rep4]) simp
  obtain l5 where l5: "begin_run q (?l3\<lparr>psjf_heap := h\<rparr>) = Some l5"
    using begin_run_alive [of "?l3\<lparr>psjf_heap := h\<rparr>" q] pop(2) by (auto simp: alive_def cores_def)
  have q5: "quiet (?l3\<lparr>psjf_heap := h\<rparr>) l5" by (rule begin_run_quiet [OF l5])
  let ?l' = "count_switch l5\<lparr>running_tcb := Some q\<rparr>"
  have sch: "schedule PSJF l = Some (Run q ?l')"
    using acc pop l5 by (simp add: schedule_def sched_def, subst sched_psjf.simps) (simp add: resume_def)
  have k': "psjf_key ?l' = psjf_key l2"
  proof
    fix x
    have "psjf_key ?l' x = psjf_key l5 x" "psjf_key (?l3\<lparr>psjf_heap := h\<rparr>) x = psjf_key ?l3 x"
      by (simp_all add: psjf_key_def count_switch_def)
    then show "psjf_key ?l' x = psjf_key l2 x" using quiet_key(1) [OF q5, of x] k3 by simp
  qed
  have min: "psjf_key l2 q \<le> psjf_key l2 x" if "x \<in># add_mset p M" for x
    using psjf_pop(2) [OF i3 rep4 pop(1) n] that k3 by auto
  obtain c M1 cs M' d where S: "cores l p = Some c"
    "M1 = (if c_state c = RUNNING \<or> c_state c = READY then add_mset p M else M)"
    "cs = (if c_state c = RUNNING then (cores l)(p \<mapsto> c\<lparr>c_state := READY\<rparr>) else cores l)"
    "M1 = add_mset q M'" "ready_rep PSJF ?l' M'" "cs q = Some d" "cores ?l' = cs(q \<mapsto> d\<lparr>c_state := RUNNING\<rparr>)"
    "running_tcb ?l' = Some q" "same_env l ?l'"
    by (rule psjf.schedule_law [OF rep run sch])
  show thesis
  proof (rule that)
    show "timer_handler PSJF l = Some (Some (Run q ?l'))" using run sch by (simp add: timer_handler_def)
    show "has_state (cores ?l') q RUNNING" using S(7) by simp
    show "psjf_key ?l' = (psjf_key l)(p := (fst (psjf_key l p) + 1, snd (psjf_key l p)))" using k' k2 by simp
    fix r assume "has_state (cores ?l') r READY"
    then have "r = p \<or> r \<noteq> p \<and> has_state (cores l) r READY" using S(3,7) by (auto split: if_splits)
    then have "r \<in># add_mset p M" using enteringD(3) [OF ent, of r] by (auto simp: count_greater_zero_iff [symmetric])
    then show "psjf_key ?l' q \<le> psjf_key ?l' r" using min k' by simp
  qed simp
qed

text \<open>The states of a run keep the invariant.\<close>

lemma psjf_run:
  assumes "clean e" "worker_create PSJF e (boot c) = Return r v l" "0 \<le> elapsed_quanta (e_main_junk e)"
    "rtranclp (step PSJF) \<lparr>lib_of = l, mutexes = \<lambda>_. fresh_mutex, pend = \<lambda>_. Idle\<rparr> s"
  shows "reach PSJF s" "psjf_sys (elapsed_quanta (e_main_junk e)) (lib_of s)"
proof -
  have "reach PSJF s \<and> psjf_sys (elapsed_quanta (e_main_junk e)) (lib_of s)"
    using assms(4)
  proof (induction rule: rtranclp_induct)
    case base
    show ?case using reach.start [OF assms(1,2)] psjf_start [OF assms(2,1,3)] by simp
  next
    case (step s s')
    then show ?case using reach.step psjf_step [OF step.hyps(2) psjf.reach_inv] by blast
  qed
  then show "reach PSJF s" "psjf_sys (elapsed_quanta (e_main_junk e)) (lib_of s)" by simp_all
qed

end
