(* ===== verification/TH_Properties.thy ===== *)
theory TH_Properties
  imports TH_Demo TH_Shortest
begin

text \<open>
  The properties of the thread library: its queue and heap, the accounting of threads and memory in
  every reachable state, joins and mutexes, the order of round robin, and the loops that never end.
\<close>

section \<open>Reachable states\<close>

text \<open>The policies that satisfy the contract \<open>run_queue\<close>.\<close>

lemma reach_facts:
  assumes "pol = PSJF \<or> pol = CFS \<or> pol = RR" "reach pol s"
  obtains p M where "running_tcb (lib_of s) = Some p" "has_state (cores (lib_of s)) p RUNNING"
    "ready_rep pol (lib_of s) M" "entering (cores (lib_of s)) p M (\<lambda>m. wait_queue (mutexes s m)) (pend s)"
    "lib_mem (lib_of s)" "\<And>m. mutex_ok (mutexes s m)"
  using assms psjf.reach_threads cfs.reach_threads rr.reach_threads by metis

lemma program_facts:
  assumes "pol = PSJF \<or> pol = CFS \<or> pol = RR" "program pol c" "\<not> fell_back c"
  obtains M where "running_tcb (lib_of (sys_of c)) = Some (cpu c)" "has_state (cores (lib_of (sys_of c))) (cpu c) RUNNING"
    "ready_rep pol (lib_of (sys_of c)) M"
    "entering (cores (lib_of (sys_of c))) (cpu c) M (\<lambda>m. wait_queue (mutexes (sys_of c) m)) (pend (sys_of c))"
    "lib_mem (lib_of (sys_of c))" "\<And>m. mutex_ok (mutexes (sys_of c) m)"
proof -
  have P: "reach pol (sys_of c)" "running_tcb (lib_of (sys_of c)) = Some (cpu c)"
    using assms psjf.program_reach cfs.program_reach rr.program_reach by metis+
  show thesis by (rule reach_facts [OF assms(1) P(1)]) (use P(2) that in auto)
qed

lemma waiter_tcb: "waiter (cores l) u = Some q \<longleftrightarrow> (\<exists>d. tcbs l u = Some d \<and> waiting_thread d = Some q)"
  by (auto simp: waiter_def cores_def split: option.splits)

text \<open>C3: No thread is lost and none runs twice. At every point of a program under PSJF, CFS or RR, up
  to the first time the scheduler finds no ready thread and returns to the main program (lines 798 to
  818 for round robin), exactly the thread that executes is \<open>RUNNING\<close> and it is \<open>running_tcb\<close>; the run
  queue or heap of the policy holds every ready thread once and no other thread; and every blocked
  thread waits in the queue of exactly one mutex, once, or is the waiting thread of exactly one
  thread, which has not terminated. The timer signal arrives between calls here (what it does inside
  one is the subject of \<open>TH_Preempt\<close>), the mutexes have been initialised and none is locked before the
  first \<open>worker_create\<close>. (Under CFS this is as far as the first exit of a thread, where \<open>sched_cfs\<close>
  reads through \<open>NULL\<close> and no step is defined.)\<close>

theorem every_thread_accounted_for:
  assumes "pol = PSJF \<or> pol = CFS \<or> pol = RR" "program pol c" "\<not> fell_back c" "s = sys_of c"
  shows "running_tcb (lib_of s) = Some (cpu c) \<and> tcbs (lib_of s) (cpu c) \<noteq> None \<and>
    (\<exists>M. ready_rep pol (lib_of s) M \<and> (\<forall>q. q \<in># M \<longrightarrow> tcbs (lib_of s) q \<noteq> None) \<and>
    (\<forall>q t. tcbs (lib_of s) q = Some t \<longrightarrow>
       (t_state t = RUNNING \<longleftrightarrow> q = cpu c) \<and>
       count M q = (if t_state t = READY then 1 else 0) \<and>
       (t_state t = BLOCKED \<longrightarrow>
          (\<exists>!m. q \<in> set (wait_queue (mutexes s m))) \<and> (\<forall>m. distinct (wait_queue (mutexes s m))) \<or>
          (\<exists>!u. \<exists>d. tcbs (lib_of s) u = Some d \<and> t_state d \<noteq> TERMINATED \<and> waiting_thread d = Some q))))"
proof -
  obtain M where R: "running_tcb (lib_of s) = Some (cpu c)" "has_state (cores (lib_of s)) (cpu c) RUNNING"
    "ready_rep pol (lib_of s) M" "entering (cores (lib_of s)) (cpu c) M (\<lambda>m. wait_queue (mutexes s m)) (pend s)"
    unfolding assms(4) by (rule program_facts [OF assms(1-3)]) blast
  note E = enteringD [OF R(4)]
  note D = waits_okD [OF E(4)]
  have one: "(t_state t = RUNNING \<longleftrightarrow> q = cpu c)" "count M q = (if t_state t = READY then 1 else 0)"
    if "tcbs (lib_of s) q = Some t" for q t
    using that R(2) E(2,3) [of q] has_state_tcb [OF that] by auto
  have blocked: "(\<exists>!m. q \<in> set (wait_queue (mutexes s m))) \<and> (\<forall>m. distinct (wait_queue (mutexes s m))) \<or>
      (\<exists>!u. \<exists>d. tcbs (lib_of s) u = Some d \<and> t_state d \<noteq> TERMINATED \<and> waiting_thread d = Some q)"
    if q: "tcbs (lib_of s) q = Some t" "t_state t = BLOCKED" for q t
  proof -
    have "has_state (cores (lib_of s)) q BLOCKED" using has_state_tcb [OF q(1)] q(2) by simp
    from D(4) [OF this] show ?thesis
    proof (elim disjE exE conjE)
      fix u vp assume u: "pend s q = Joining u vp" "waiter (cores (lib_of s)) u = Some q"
      obtain d where d: "tcbs (lib_of s) u = Some d" "waiting_thread d = Some q" using u(2) waiter_tcb by blast
      have "t_state d \<noteq> TERMINATED" using D(1) [OF u(2)] has_state_tcb [OF d(1)] by simp
      moreover have "u' = u" if "tcbs (lib_of s) u' = Some d'" "waiting_thread d' = Some q" for u' d'
        using D(3) [of u' q] that waiter_tcb u(1) by auto
      ultimately show ?thesis using d by blast
    next
      fix m assume m: "pend s q = Locking m" "q \<in> set (wait_queue (mutexes s m))"
      have "k = m" if "q \<in> set (wait_queue (mutexes s k))" for k using D(5) [OF that] m(1) by simp
      then have "\<exists>!m. q \<in> set (wait_queue (mutexes s m))" using m(2) by blast
      then show ?thesis using D(7) by blast
    qed
  qed
  have "tcbs (lib_of s) q \<noteq> None" if "q \<in># M" for q
    using E(3) [of q] that by (auto simp: has_state_def cores_def count_eq_zero_iff split: if_splits)
  moreover have "tcbs (lib_of s) (cpu c) \<noteq> None" using R(2) by (auto simp: has_state_def cores_def)
  ultimately show ?thesis using R(1,3) one blocked by (intro conjI exI [of _ M]) blast+
qed

theorem every_thread_accounted_for_witness:
  "running_tcb demo_thread = Some 3 \<and> (\<exists>M. ready_rep RR demo_thread M \<and> count M 2 = 0 \<and>
    (\<exists>!u. \<exists>d. tcbs demo_thread u = Some d \<and> t_state d \<noteq> TERMINATED \<and> waiting_thread d = Some 2))"
proof -
  have s: "lib_of demo_state_joining = demo_thread" "mutexes demo_state_joining = (\<lambda>_. fresh_mutex)"
    by (simp_all add: demo_state_joining_def demo_state_def)
  have "case tcbs demo_thread 2 of Some t \<Rightarrow> t_state t = BLOCKED | None \<Rightarrow> False" by code_simp
  then obtain t where t: "tcbs demo_thread 2 = Some t" "t_state t = BLOCKED" by (auto split: option.splits)
  show ?thesis
    using every_thread_accounted_for [OF _ program_demo_joining _ refl] t by (fastforce simp: s fresh_mutex_def)
qed

section \<open>Joins, memory and mutexes\<close>

text \<open>C7: A join comes back only when its target has terminated, and nothing but the join frees it:
  in a program under PSJF, CFS or RR, as long as the scheduler has not returned to the main program
  for want of a ready thread, a thread that executes inside \<open>worker_join\<close> after its \<open>swapcontext\<close>
  finds its target allocated and terminated, the rest of the join succeeds and hands out the value
  the target left, and it frees that block and no other. (\<open>deadlock_frees_waiting_thread\<close> in
  \<open>TH_Fallback\<close> shows what the join does after such a return.)\<close>

theorem join_after_termination:
  assumes "pol = PSJF \<or> pol = CFS \<or> pol = RR" "program pol c" "\<not> fell_back c" "s = sys_of c"
    and "pend s (cpu c) = Joining t vp"
  shows "\<exists>d l. tcbs (lib_of s) t = Some d \<and> t_state d = TERMINATED \<and>
    finish_join t vp (lib_of s) = Return 0 (if vp then Some (t_retval d) else None) l \<and>
    cores l = (cores (lib_of s))(t := None) \<and> Some t \<notin> set (thread_table l)"
proof -
  obtain M where R: "running_tcb (lib_of s) = Some (cpu c)" "has_state (cores (lib_of s)) (cpu c) RUNNING"
    "entering (cores (lib_of s)) (cpu c) M (\<lambda>m. wait_queue (mutexes s m)) (pend s)" "lib_mem (lib_of s)"
    unfolding assms(4) by (rule program_facts [OF assms(1-3)]) blast
  note D = waits_okD [OF enteringD(4) [OF R(3)]]
  have "has_state (cores (lib_of s)) t TERMINATED" using D(9) [OF assms(5)] has_state_fun [OF R(2)] by blast
  then obtain d where d: "tcbs (lib_of s) t = Some d" "t_state d = TERMINATED" by (auto simp: has_state_def cores_def)
  obtain l where l: "finish_join t vp (lib_of s) = Return 0 (if vp then Some (t_retval d) else None) l"
    "cores l = (cores (lib_of s))(t := None)" "lib_mem l"
    by (rule finish_join_spec [OF R(4) d(1)]) blast
  have "static (cores l) t = None" by (simp add: l(2) static_def)
  then have "Some t \<notin> set (thread_table l)" using l(3) mem_okD(8) unfolding lib_mem_def by blast
  then show ?thesis using d l by blast
qed

theorem join_after_termination_witness:
  "\<exists>d l. tcbs demo_back 3 = Some d \<and> t_state d = TERMINATED \<and> finish_join 3 True demo_back = Return 0 (Some 7) l \<and>
    Some 3 \<notin> set (thread_table l)"
proof -
  have s: "lib_of demo_state_back = demo_back" "pend demo_state_back 2 = Joining 3 True"
    by (simp_all add: demo_state_back_def demo_state_joining_def)
  have "case tcbs demo_back 3 of Some t \<Rightarrow> t_retval t = 7 | None \<Rightarrow> False" by code_simp
  then show ?thesis using join_after_termination [OF _ program_demo_back _ refl, of 3 True] s by auto
qed

text \<open>C10: A mutex is locked exactly when it has an owner, and its owner changes in two ways only: the
  executing thread takes a mutex that nobody owns, or the executing thread gives up a mutex it owns.
  So no thread enters while another one owns the mutex. This holds of every step of a program under
  PSJF, CFS or RR up to and including the one, if any, in which the scheduler finds no ready thread
  and returns to the main program; from then on \<open>running_tcb\<close>, which lock and unlock take for the
  caller, may be another thread (\<open>deadlock_frees_waiting_thread\<close> in \<open>TH_Fallback\<close>).\<close>

theorem mutex_owner_changes:
  assumes "pol = PSJF \<or> pol = CFS \<or> pol = RR" "program pol c" "\<not> fell_back c" "machine_step pol c c'"
    and "old = mutexes (sys_of c) m" "new = mutexes (sys_of c') m"
  shows "(m_locked new \<longleftrightarrow> owner_tcb new \<noteq> None) \<and>
    (owner_tcb new = owner_tcb old \<or>
     owner_tcb old = None \<and> owner_tcb new = Some (cpu c) \<or>
     owner_tcb old = Some (cpu c) \<and> owner_tcb new = None)"
proof -
  obtain M where P: "running_tcb (lib_of (sys_of c)) = Some (cpu c)" "\<And>m. mutex_ok (mutexes (sys_of c) m)"
    by (rule program_facts [OF assms(1-3)]) blast
  show ?thesis
    using assms(4)
  proof cases
    case (call s')
    show ?thesis
      using calls_owner [OF call(2) P(1), of m] P(2) call(1) assms(5,6) by (auto simp: mutex_ok_def)
  next
    case (switch s1 q l)
    then show ?thesis using leaves_mutex [OF switch(2), of m] P(2) [of m] assms(5,6) by (simp add: mutex_ok_def)
  next
    case (to_main s1 l q)
    then show ?thesis using leaves_mutex [OF to_main(2), of m] P(2) [of m] assms(5,6) by (simp add: mutex_ok_def)
  qed
qed

theorem mutex_owner_changes_witness:
  "\<exists>c'. machine_step RR (before_return demo_state 2) c' \<and> owner_tcb (mutexes (sys_of c') 0) = Some 2 \<and>
    owner_tcb (mutexes demo_state 0) = None \<and> m_locked (mutexes (sys_of c') 0)"
proof -
  define mx where "mx = fresh_mutex\<lparr>m_locked := True, owner_tcb := Some 2\<rparr>"
  define s' where "s' = demo_state\<lparr>lib_of := demo_created, mutexes := (mutexes demo_state)(0 := mx),
      pend := (pend demo_state)(2 := Idle)\<rparr>"
  have "calls RR 2 demo_state s'"
    unfolding s'_def by (rule calls.lock [of _ _ 0 _ 0 None])
      (simp_all add: mx_def demo_state_def demo_running worker_mutex_lock_def fresh_mutex_def)
  then have st: "machine_step RR (before_return demo_state 2) (before_return s' 2)"
    using machine_step.call [of RR "before_return demo_state 2" s'] by (simp add: before_return_def)
  have "owner_tcb (mutexes s' 0) = Some 2" "owner_tcb (mutexes demo_state 0) = None"
    by (simp_all add: s'_def mx_def demo_state_def fresh_mutex_def)
  then show ?thesis
    using mutex_owner_changes [OF _ program_demo _ st refl refl, of 0] st by (intro exI [of _ "before_return s' 2"]) simp
qed

text \<open>C18: The thread table stays well formed under PSJF, CFS and RR: in every reachable state it has
  128 entries, each entry is an allocated block and no block has two; ids and stacks are not shared;
  every stack a thread block holds is allocated. So searching the table never touches freed memory,
  and a search that finds a block finds the one with the id.\<close>

theorem thread_table_well_formed:
  assumes "pol = PSJF \<or> pol = CFS \<or> pol = RR" "reach pol s"
  shows "length (thread_table (lib_of s)) = MAX_THREADS \<and>
    (\<forall>i j p. i < MAX_THREADS \<longrightarrow> j < MAX_THREADS \<longrightarrow> thread_table (lib_of s) ! i = Some p \<longrightarrow>
       tcbs (lib_of s) p \<noteq> None \<and> (thread_table (lib_of s) ! j = Some p \<longrightarrow> i = j)) \<and>
    (\<forall>p q t u. tcbs (lib_of s) p = Some t \<longrightarrow> tcbs (lib_of s) q = Some u \<longrightarrow> p \<noteq> q \<longrightarrow>
       t_id t \<noteq> t_id u \<and> (t_stack t = None \<or> t_stack t \<noteq> t_stack u)) \<and>
    (\<forall>p t a. tcbs (lib_of s) p = Some t \<longrightarrow> t_stack t = Some a \<longrightarrow> a \<in> stacks (lib_of s)) \<and>
    (\<forall>tid. \<exists>r. find_tcb_by_id tid (lib_of s) = Some r \<and>
       (\<forall>p. r = Some p \<longrightarrow> (\<exists>t. tcbs (lib_of s) p = Some t \<and> t_id t = tid)))"
proof -
  let ?l = "lib_of s"
  have mem: "lib_mem ?l" by (rule reach_facts [OF assms]) blast
  then have ok: "mem_ok (static (cores ?l)) (thread_table ?l) (stacks ?l) (next_addr ?l) (next_thread_id ?l)"
    by (simp add: lib_mem_def)
  note D = mem_okD [OF ok]
  have st: "static (cores ?l) p = map_option (\<lambda>t. (t_id t, t_stack t)) (tcbs ?l p)" for p
    by (cases "tcbs ?l p") (simp_all add: static_def cores_def)
  have entry: "tcbs ?l p \<noteq> None" if "i < MAX_THREADS" "thread_table ?l ! i = Some p" for i p
    using D(8) [of p] that D(7) nth_mem [of i "thread_table ?l"] by (simp add: st)
  have once: "i = j" if "i < MAX_THREADS" "j < MAX_THREADS" "thread_table ?l ! i = Some p" "thread_table ?l ! j = Some p" for i j p
    using D(9) [of i j p] that D(7) by simp
  have ids: "t_id t \<noteq> t_id u" "t_stack t = None \<or> t_stack t \<noteq> t_stack u"
    if "tcbs ?l p = Some t" "tcbs ?l q = Some u" "p \<noteq> q" for p q t u
  proof -
    have f: "static (cores ?l) p = Some (t_id t, t_stack t)" "static (cores ?l) q = Some (t_id u, t_stack u)"
      using that by (simp_all add: st)
    show "t_id t \<noteq> t_id u" by (rule D(4) [OF f that(3)])
    have "p = q" if "t_stack t = Some a" "t_stack u = Some a" for a
      using f that by (intro D(5)) simp_all
    then show "t_stack t = None \<or> t_stack t \<noteq> t_stack u" using that(3) by (cases "t_stack t") auto
  qed
  have stk: "a \<in> stacks ?l" if "tcbs ?l p = Some t" "t_stack t = Some a" for p t a
    using D(3) [of p "t_id t" a] that by (simp add: st)
  have find: "\<exists>r. find_tcb_by_id tid ?l = Some r \<and> (\<forall>p. r = Some p \<longrightarrow> (\<exists>t. tcbs ?l p = Some t \<and> t_id t = tid))" for tid
    by (rule find_total [OF mem, of tid]) blast
  show ?thesis
    by (intro conjI allI impI) (fact D(7) | erule (1) entry | erule (3) once | erule (2) ids | erule (1) stk | rule find)+
qed

theorem thread_table_well_formed_witness:
  "length (thread_table demo_created) = MAX_THREADS \<and>
   (\<exists>r. find_tcb_by_id 1 demo_created = Some r \<and> r = Some 3 \<and> tcbs demo_created 3 \<noteq> None)"
proof -
  note T = thread_table_well_formed [OF disjI2 [OF disjI2 [OF refl]] reach_demo]
  have l: "lib_of demo_state = demo_created" by (simp add: demo_state_def)
  have "length (thread_table demo_created) = MAX_THREADS" using conjunct1 [OF T] by (simp only: l)
  moreover have "\<exists>r. find_tcb_by_id 1 demo_created = Some r \<and>
      (\<forall>p. r = Some p \<longrightarrow> (\<exists>t. tcbs demo_created p = Some t \<and> t_id t = 1))"
    using spec [OF conjunct2 [OF conjunct2 [OF conjunct2 [OF conjunct2 [OF T]]]], of 1] by (simp only: l)
  ultimately show ?thesis using demo_find by auto
qed

section \<open>Scheduling\<close>

text \<open>C14: Round robin is fair. In a reachable state, let \<open>i\<close> be the position of a ready thread in the
  run queue: after \<open>i + 1\<close> timer interrupts that thread is running, the threads before it have had
  one turn each, in order, and the thread that was running is in the queue before them.\<close>

theorem rr_turn_comes:
  assumes "reach RR s" "running_tcb (lib_of s) = Some p" "i < length (rr_queue (lib_of s))"
  shows "\<exists>l. ticks RR (Suc i) (lib_of s) = Some l \<and> running_tcb l = Some (rr_queue (lib_of s) ! i) \<and>
    rr_queue l = drop (Suc i) (rr_queue (lib_of s)) @ p # take i (rr_queue (lib_of s))"
proof -
  obtain p' M where R: "running_tcb (lib_of s) = Some p'" "has_state (cores (lib_of s)) p' RUNNING"
    "ready_rep RR (lib_of s) M" "entering (cores (lib_of s)) p' M (\<lambda>m. wait_queue (mutexes s m)) (pend s)"
    by (rule reach_facts [OF _ assms(1)]) auto
  have "alive (cores (lib_of s)) q" if "q \<in> set (rr_queue (lib_of s))" for q
  proof -
    have "q \<in># M" using R(3) that by auto
    then have "has_state (cores (lib_of s)) q READY"
      using enteringD(3) [OF R(4), of q] by (auto simp: count_eq_zero_iff split: if_splits)
    then show ?thesis by (auto simp: has_state_def alive_def)
  qed
  then have "rotating (lib_of s) p" using R(1,2) assms(2) by (simp add: rotating_def)
  from ticks_rr [OF this assms(3)] show ?thesis by blast
qed

theorem rr_turn_comes_witness:
  "\<exists>l. ticks RR 1 demo_created = Some l \<and> running_tcb l = Some 3 \<and> rr_queue l = [2]"
proof -
  have "rr_queue (lib_of demo_state) = [3]" "running_tcb (lib_of demo_state) = Some 2"
    by (simp_all add: demo_state_def demo_queue demo_running)
  then show ?thesis using rr_turn_comes [OF reach_demo, of 2 0] by (simp add: demo_state_def)
qed

text \<open>C19: When the loops without a bound end. Round robin spins for ever, with the timer blocked, exactly
  when no thread is ready, the count is above one and no thread is blocked. MLFQ, the other way
  round, spins when no thread is ready and one is blocked. \<open>promote_all_threads\<close> never returns exactly
  when a level below the first is not empty: it puts every thread back on the level it came from.
  In every other state the three loops end.\<close>

theorem scheduler_loops_end:
  "(sched_rr l = None \<longleftrightarrow> rr_queue l = [] \<and> 1 < thread_count l \<and> has_blocked_threads l = Some False) \<and>
   (mlfq_loop l = None \<longleftrightarrow> concat (mlfq_levels l) = [] \<and> 1 < thread_count l \<and> has_blocked_threads l = Some True) \<and>
   (promote_all_threads l = None \<longleftrightarrow> concat (tl (mlfq_levels l)) \<noteq> [])"
proof (intro conjI)
  show "sched_rr l = None \<longleftrightarrow> rr_queue l = [] \<and> 1 < thread_count l \<and> has_blocked_threads l = Some False"
    using sched_rr_ends [of l] by (auto simp: not_le)
  show "mlfq_loop l = None \<longleftrightarrow> concat (mlfq_levels l) = [] \<and> 1 < thread_count l \<and> has_blocked_threads l = Some True"
    using mlfq_loop_ends [of l] by (simp only: not_le [symmetric]) blast
  show "promote_all_threads l = None \<longleftrightarrow> concat (tl (mlfq_levels l)) \<noteq> []"
    using promote_levels_ends [of "tl (mlfq_levels l)"]
    by (cases "promote_levels (tl (mlfq_levels l))") (simp_all add: promote_all_threads_def)
qed

section \<open>The shortest job\<close>

text \<open>C15: Under PSJF a timer tick runs the thread that has used the fewest quanta. In every state of a
  program, while the context switches counted so far (and the quanta in the block that \<open>malloc\<close>
  returned for the main thread) stay below \<open>2 ^ 31 - 1\<close> and the heap has room for the preempted
  thread, the tick gives that thread one more quantum, changes no other count, and resumes a thread
  with as few quanta as any thread it leaves ready, the one with the smallest id among equals.\<close>

theorem psjf_runs_shortest:
  assumes "clean e" "worker_create PSJF e (boot c) = Return r v l" "0 \<le> elapsed_quanta (e_main_junk e)"
    and "rtranclp (step PSJF) \<lparr>lib_of = l, mutexes = \<lambda>_. fresh_mutex, pend = \<lambda>_. Idle\<rparr> s"
    and "elapsed_quanta (e_main_junk e) + tot_cntx_switches (lib_of s) < 2 ^ 31 - 1"
    and "h_size (psjf_heap (lib_of s)) < int MAX_THREADS" "running_tcb (lib_of s) = Some p"
  shows "\<exists>q l'. timer_handler PSJF (lib_of s) = Some (Some (Run q l')) \<and>
    running_tcb l' = Some q \<and> has_state (cores l') q RUNNING \<and>
    psjf_key l' = (psjf_key (lib_of s))(p := (fst (psjf_key (lib_of s) p) + 1, snd (psjf_key (lib_of s) p))) \<and>
    (\<forall>x. has_state (cores l') x READY \<longrightarrow> psjf_key l' q \<le> psjf_key l' x)"
proof -
  note run = psjf_run [OF assms(1-4)]
  obtain p' M where R: "running_tcb (lib_of s) = Some p'" "has_state (cores (lib_of s)) p' RUNNING"
    "ready_rep PSJF (lib_of s) M" "entering (cores (lib_of s)) p' M (\<lambda>m. wait_queue (mutexes s m)) (pend s)"
    by (rule reach_facts [OF _ run(1)]) auto
  have p: "p' = p" using R(1) assms(7) by simp
  have n: "elapsed_quanta (e_main_junk e) + tot_cntx_switches (lib_of s) + 1 < 2 ^ 31" using assms(5) by simp
  have room: "size M < MAX_THREADS" using R(3) assms(6) by (auto simp: heap_rep_def)
  show ?thesis
    by (rule psjf_tick [OF run(2) R(3) assms(7) R(4) [unfolded p] R(2) [unfolded p] n room]) blast
qed

theorem psjf_runs_shortest_witness:
  "\<exists>q l'. timer_handler PSJF demo_psjf = Some (Some (Run q l')) \<and> psjf_key l' 2 = (1, 0) \<and> psjf_key l' 3 = (0, 1)"
proof -
  let ?s = "\<lparr>lib_of = demo_psjf, mutexes = \<lambda>_. fresh_mutex, pend = \<lambda>_. Idle\<rparr>"
  have j: "elapsed_quanta (e_main_junk demo_env) = 0" by (simp add: demo_env_def demo_tcb_def)
  show ?thesis
    using psjf_runs_shortest [OF demo_clean demo_psjf_create _ rtranclp.rtrancl_refl, of 2] j
    by (auto simp: demo_psjf_facts MAX_THREADS_def)
qed

section \<open>Queue and heap\<close>

text \<open>C17: The linked queue is a list. Starting from two queues in one store that hold \<open>xs\<close> and \<open>ys\<close>
  on disjoint nodes, enqueueing \<open>zs\<close> in the first, while \<open>malloc\<close> succeeds, and dequeueing as
  often gives \<open>xs\<close> and then \<open>zs\<close>, in order; then the queue is empty, a further dequeue gives
  \<open>NULL\<close>, and the second queue still holds \<open>ys\<close>.\<close>

theorem queue_refines_fifo:
  assumes "opt_rep st q A xs" "\<not> oom st" "opt_rep st p B ys" "A \<inter> B = {}"
  shows "\<exists>st1 q1 st2 q2. enq_all enqueue st q zs = Some (st1, q1) \<and>
    deq_all dequeue st1 q1 (length xs + length zs) = Some (map Some (xs @ zs), st2, q2) \<and>
    dequeue st2 q2 = Some (None, st2, q2) \<and> opt_rep st2 p B ys"
  by (rule linked.fifo_order [OF assms])

theorem queue_refines_fifo_witness:
  "\<exists>st1 q1 st2 q2. enq_all enqueue \<lparr>cells = Map.empty, brk = 1, oom = False\<rparr> (Some \<lparr>q_head = 0, q_tail = 0\<rparr>) [5, 6 :: nat]
      = Some (st1, q1) \<and>
    deq_all dequeue st1 q1 2 = Some ([Some 5, Some 6], st2, q2) \<and> dequeue st2 q2 = Some (None, st2, q2)"
proof -
  let ?st = "\<lparr>cells = Map.empty, brk = 1, oom = False\<rparr> :: nat store"
  have "opt_rep ?st (Some \<lparr>q_head = 0, q_tail = 0\<rparr>) {} []"
    using queue_rep_init [of ?st "\<lparr>q_head = 0, q_tail = 0\<rparr>"] by (simp add: opt_rep_def init_queue_def)
  from queue_refines_fifo [OF this _ this, of "[5, 6]"] show ?thesis by (force simp: numeral_2_eq_2)
qed

text \<open>C16: The heaps order the threads. Pushing up to 128 threads and popping as many returns each of
  them once, by increasing elapsed quanta under PSJF and by increasing virtual runtime under CFS,
  and by id among equals, as long as these numbers are below \<open>2 ^ 31\<close>.\<close>

theorem heaps_order_threads:
  assumes "list_all (psjf_small l) ps" "list_all (cfs_small l) ps" "length ps \<le> MAX_THREADS" "heap_rep h []"
  shows "(\<exists>h1 h2 qs. push_all (on_tcbs psjf_cmp l) h ps = Some h1 \<and>
      pop_all (on_tcbs psjf_cmp l) h1 (length ps) = Some (map Some qs, h2) \<and>
      mset qs = mset ps \<and> sorted (map (psjf_key l) qs) \<and> heap_rep h2 []) \<and>
    (\<exists>h1 h2 qs. push_all (on_tcbs cfs_cmp l) h ps = Some h1 \<and>
      pop_all (on_tcbs cfs_cmp l) h1 (length ps) = Some (map Some qs, h2) \<and>
      mset qs = mset ps \<and> sorted (map (cfs_key l) qs) \<and> heap_rep h2 [])"
  using psjf_order.heap_sorts [OF assms(1,3,4)] cfs_order.heap_sorts [OF assms(2,3,4)] by blast

theorem heaps_order_threads_witness:
  "\<exists>h1 h2 qs. push_all (on_tcbs psjf_cmp demo_created) (psjf_heap demo_created) [3, 2] = Some h1 \<and>
     pop_all (on_tcbs psjf_cmp demo_created) h1 2 = Some (map Some qs, h2) \<and> mset qs = mset [3, 2] \<and>
     sorted (map (psjf_key demo_created) qs)"
proof -
  have "psjf_small demo_created 3" "psjf_small demo_created 2" "cfs_small demo_created 3" "cfs_small demo_created 2"
    by code_simp+
  then have "list_all (psjf_small demo_created) [3, 2]" "list_all (cfs_small demo_created) [3, 2]" by simp_all
  moreover have "psjf_heap demo_created = \<lparr>h_threads = replicate MAX_THREADS None, h_size = 0\<rparr>" by code_simp
  then have "heap_rep (psjf_heap demo_created) []" using heap_rep_empty by simp
  ultimately show ?thesis
    using heaps_order_threads [of demo_created "[3, 2]" "psjf_heap demo_created"]
    by (auto simp: MAX_THREADS_def numeral_2_eq_2)
qed

end
