(* ===== verification/TH_Fallback.thy ===== *)
theory TH_Fallback
  imports TH_Demo
begin

text \<open>
  The scheduler's return to the main program, \<open>sched_rr\<close> lines 788 to 818: when round robin takes
  this way out in a run of a program, when it spins instead, and what becomes of a join the main
  program is in when it is taken.
\<close>

section \<open>The main thread stays\<close>

text \<open>
  The block of the main thread is allocated and not in the table, so nobody can join it; a thread
  that is being joined is in the table.
\<close>

definition main_kept :: "lib \<Rightarrow> (nat \<Rightarrow> pending) \<Rightarrow> bool" where
  "main_kept l pd \<longleftrightarrow> (\<exists>m. main_tcb l = Some m \<and> tcbs l m \<noteq> None \<and> Some m \<notin> set (thread_table l)) \<and>
     (\<forall>p t vp. pd p = Joining t vp \<longrightarrow> Some t \<in> set (thread_table l))"

definition keeps :: "lib \<Rightarrow> lib \<Rightarrow> bool" where
  "keeps l l' \<longleftrightarrow> main_tcb l' = main_tcb l \<and> thread_table l' = thread_table l \<and> (\<forall>q. tcbs l q \<noteq> None \<longrightarrow> tcbs l' q \<noteq> None)"

lemma main_kept_keeps: "main_kept l pd \<Longrightarrow> keeps l l' \<Longrightarrow> main_kept l' pd"
  by (auto simp: main_kept_def keeps_def)

lemma main_kept_idle: "main_kept l pd \<Longrightarrow> main_kept l (pd(p := Idle))"
  by (auto simp: main_kept_def split: if_splits)

lemma main_kept_locking: "main_kept l pd \<Longrightarrow> main_kept l (pd(p := Locking m))"
  by (auto simp: main_kept_def split: if_splits)

lemma keeps_refl [simp, intro]: "keeps l l"
  by (simp add: keeps_def)

lemma keeps_trans [trans]: "keeps l l' \<Longrightarrow> keeps l' l'' \<Longrightarrow> keeps l l''"
  by (simp add: keeps_def)

lemma keeps_upd: "upd_tcb p f l = Some l' \<Longrightarrow> keeps l l'"
  by (auto simp: keeps_def elim!: upd_tcb_SomeE)

lemma keeps_add: "add_to_scheduler pol p l = Some l' \<Longrightarrow> keeps l l'"
  by (cases pol) (auto simp: keeps_def add_to_scheduler_def Let_def split: Option.bind_splits if_splits)

lemma set_enter: "i < length xs \<Longrightarrow> xs ! i = None \<Longrightarrow> Some q \<in> set (xs[i := Some p]) \<longleftrightarrow> q = p \<or> Some q \<in> set xs"
  by (induction xs arbitrary: i) (auto split: nat.split simp: less_Suc_eq_0_disj)

lemma exit_keeps:
  assumes "worker_exit pol v l = Switch l'"
  shows "keeps l l'"
proof -
  have wake: "keeps k k'" if "wake_waiting pol p k = Some k'" for p k k'
    using that by (auto simp: wake_waiting_def dest!: keeps_upd keeps_add intro: keeps_trans split: option.splits Option.bind_splits)
  show ?thesis
    using assms by (auto simp: worker_exit_def clock_gettime_def Let_def dest!: wake keeps_upd
        split: option.splits Option.bind_splits) (auto simp: keeps_def)
qed

lemma find_in_table: "find_tcb_by_id tid l = Some (Some t) \<Longrightarrow> Some t \<in> set (thread_table l)"
proof -
  have loc: "locate ts tid es = Some (Some i) \<Longrightarrow> i < length es" for ts es i
    by (induction ts tid es arbitrary: i rule: locate.induct) (auto split: Option.bind_splits if_splits)
  assume "find_tcb_by_id tid l = Some (Some t)"
  then obtain i where "locate (tcbs l) tid (thread_table l) = Some (Some i)" "thread_table l ! i = Some t"
    by (auto simp: find_tcb_by_id_def split: Option.bind_splits option.splits)
  then show ?thesis using loc nth_mem by metis
qed

lemma set_clear: "xs ! i \<noteq> Some q \<Longrightarrow> Some q \<in> set (xs[i := None]) \<longleftrightarrow> Some q \<in> set xs"
  by (induction xs arbitrary: i) (auto split: nat.split)

text \<open>Freeing a thread that nobody is joining, and that is not the main thread.\<close>

lemma locate_hit:
  "locate ts tid es = Some (Some i) \<Longrightarrow> \<exists>p t. es ! i = Some p \<and> ts p = Some t \<and> t_id t = tid"
  by (induction ts tid es arbitrary: i rule: locate.induct) (auto split: Option.bind_splits if_splits)

lemma cleanup_keeps_main:
  assumes c: "cleanup_thread u l = Some l'" and mem: "lib_mem l" and mk: "main_kept l pd"
    and u: "main_tcb l \<noteq> Some u" "\<And>p vp. pd p \<noteq> Joining u vp"
  shows "main_kept l' pd"
proof -
  obtain d l1 l2 where s: "tcbs l u = Some d" "remove_thread_from_table (t_id d) l = Some l1"
    "free_stack (t_stack d) l1 = Some l2" "l' = l2\<lparr>tcbs := (tcbs l2)(u := None)\<rparr>"
    using c by (auto simp: cleanup_thread_def split: Option.bind_splits)
  have l2: "main_tcb l2 = main_tcb l1 \<and> thread_table l2 = thread_table l1 \<and> tcbs l2 = tcbs l1"
    using s(3) by (auto simp: free_stack_def split: option.splits if_splits)
  obtain r where r: "locate (tcbs l) (t_id d) (thread_table l) = Some r"
    and l1: "main_tcb l1 = main_tcb l" "tcbs l1 = tcbs l"
      "thread_table l1 = (case r of None \<Rightarrow> thread_table l | Some i \<Rightarrow> (thread_table l)[i := None])"
    using s(2) by (auto simp: remove_thread_from_table_def split: Option.bind_splits option.splits)
  have ok: "mem_ok (static (cores l)) (thread_table l) (stacks l) (next_addr l) (next_thread_id l)"
    using mem by (simp add: lib_mem_def)
  have only: "p = u" if "tcbs l p = Some t" "t_id t = t_id d" for p t
    using mem_okD(4) [OF ok, of p "t_id t" "t_stack t" u "t_id d" "t_stack d"] that s(1)
    by (auto simp: static_def cores_def core_def)
  have tab: "Some q \<in> set (thread_table l1) \<longleftrightarrow> Some q \<in> set (thread_table l)" if "q \<noteq> u" for q
  proof (cases r)
    case (Some i)
    have "thread_table l ! i = Some u" using locate_hit [OF r [unfolded Some]] only by blast
    then show ?thesis using that l1(3) Some by (simp add: set_clear)
  qed (simp add: l1(3))
  obtain m where m: "main_tcb l = Some m" "tcbs l m \<noteq> None" "Some m \<notin> set (thread_table l)"
    using mk by (auto simp: main_kept_def)
  have "m \<noteq> u" using m(1) u(1) by simp
  moreover have "Some t \<in> set (thread_table l1)" if "pd p = Joining t vp" for p t vp
  proof -
    have "t \<noteq> u" using u(2) that by auto
    moreover have "Some t \<in> set (thread_table l)" using mk that unfolding main_kept_def by blast
    ultimately show ?thesis using tab by simp
  qed
  ultimately show ?thesis
    using m tab [of m] by (auto simp: main_kept_def s(4) l2 l1(1,2))
qed

lemma finish_keeps_main:
  assumes "finish_join u vp l = Return r v l'" "lib_mem l" "main_kept l pd" "main_tcb l \<noteq> Some u" "\<And>p vp. pd p \<noteq> Joining u vp"
  shows "main_kept l' pd"
proof -
  have "cleanup_thread u l = Some l'" using assms(1) by (auto simp: finish_join_def split: option.splits Option.bind_splits)
  then show ?thesis using assms(2-5) by (rule cleanup_keeps_main)
qed

lemma create_keeps_main:
  assumes call: "create_thread pol e l = Return r v l'" and mem: "lib_mem l" and mk: "main_kept l pd"
  shows "main_kept l' pd"
proof -
  let ?n = "next_thread_id l" and ?p = "next_addr l" and ?now = "clk l (reads l)"
  let ?l1 = "l\<lparr>next_addr := ?p + 1, next_thread_id := ?n + 1, thread_count := thread_count l + 1, reads := reads l + 1\<rparr>"
  let ?l2 = "?l1\<lparr>stacks := insert (?p + 1) (stacks l), next_addr := ?p + 2\<rparr>"
  let ?l3 = "?l2\<lparr>tcbs := (tcbs l)(?p \<mapsto> new_tcb e ?n ?now (?p + 1))\<rparr>"
  let ?l4 = "snd (add_thread_to_table ?p ?l3)"
  have eq: "create_thread pol e l =
      (if \<not> e_tcb e then Return (-1) None l
       else if ?n \<ge> 2 ^ 31 - 1 then Crash
       else if \<not> e_stack e then Return (-1) None ?l1
       else if \<not> e_context e then Return (-1) None ?l2
       else case add_to_scheduler pol ?p ?l4 of None \<Rightarrow> Crash | Some l \<Rightarrow> Return 0 (Some (word_of_int ?n)) l)"
    by (simp add: create_thread_def Let_def clock_gettime_def alloc_stack_def)
  have c: "l' = l \<or> l' = ?l1 \<or> l' = ?l2 \<or> add_to_scheduler pol ?p ?l4 = Some l'"
    using call unfolding eq by (auto split: if_splits option.splits)
  have ok: "mem_ok (static (cores l)) (thread_table l) (stacks l) (next_addr l) (next_thread_id l)"
    using mem by (simp add: lib_mem_def)
  have fresh: "tcbs l ?p = None"
    using mem_okD(1) [OF ok, of ?p] by (cases "tcbs l ?p") (auto simp: static_def cores_def)
  obtain m where m: "main_tcb l = Some m" "tcbs l m \<noteq> None" "Some m \<notin> set (thread_table l)"
    using mk by (auto simp: main_kept_def)
  have mp: "m \<noteq> ?p" using m(2) fresh by auto
  have l4: "main_kept ?l4 pd"
  proof (cases "first_free (thread_table l)")
    case None
    then show ?thesis using mk mp by (auto simp: add_thread_to_table_def main_kept_def)
  next
    case (Some i)
    have e: "thread_table l ! i = None" using first_free_SomeD [OF Some] by simp
    have "Some q \<in> set ((thread_table l)[i := Some ?p]) \<longleftrightarrow> q = ?p \<or> Some q \<in> set (thread_table l)" for q
      using first_free_SomeD [OF Some] by (auto simp: set_enter)
    then show ?thesis using mk mp m Some by (simp add: add_thread_to_table_def main_kept_def)
  qed
  have "keeps l ?l1" "keeps l ?l2" by (simp_all add: keeps_def)
  then show ?thesis using c main_kept_keeps [OF l4] main_kept_keeps [OF mk] mk keeps_add by blast
qed

lemma calls_keep_main:
  assumes call: "calls pol p s s'" and inv: "sys_inv pol s" and run: "running_tcb (lib_of s) = Some p"
    and mk: "main_kept (lib_of s) (pend s)"
  shows "main_kept (lib_of s') (pend s')"
proof -
  obtain M where I: "lib_mem (lib_of s)"
    "threads_ok (cores (lib_of s)) (Some p) M (\<lambda>m. wait_queue (mutexes s m)) (pend s)"
    using inv run by (auto simp: sys_inv_def)
  have W: "waits_ok (cores (lib_of s)) (\<lambda>m. wait_queue (mutexes s m)) (pend s)"
    using I(2) enteringD(4) by (auto simp: threads_ok_def)
  have nm: "main_tcb (lib_of s) \<noteq> Some t" if "Some t \<in> set (thread_table (lib_of s))" for t
    using mk that by (auto simp: main_kept_def)
  from call show ?thesis
  proof cases
    case (create e r v l)
    have "main_tcb (lib_of s) \<noteq> None" using I(1) by (simp add: lib_mem_def)
    then have "create_thread pol e (lib_of s) = Return r v l" using create(4) by (auto simp: worker_create_def)
    then show ?thesis using create_keeps_main [OF _ I(1) mk] create(1) by simp
  next
    case (join tid vp r v l)
    have "l = lib_of s \<or> (\<exists>t d l1. find_tcb_by_id tid (lib_of s) = Some (Some t) \<and> tcbs (lib_of s) t = Some d \<and> \<not> joined d \<and>
        upd_tcb t (\<lambda>t. t\<lparr>joined := True\<rparr>) (lib_of s) = Some l1 \<and> finish_join t vp l1 = Return r v l)"
      using join(3) run unfolding worker_join_def by (auto split: option.splits if_splits Option.bind_splits)
    then show ?thesis
    proof (elim disjE exE conjE)
      assume "l = lib_of s"
      then show ?thesis using mk join(1) by simp
    next
      fix t d l1
      assume t: "find_tcb_by_id tid (lib_of s) = Some (Some t)" "tcbs (lib_of s) t = Some d" "\<not> joined d"
        and l1: "upd_tcb t (\<lambda>t. t\<lparr>joined := True\<rparr>) (lib_of s) = Some l1" and fin: "finish_join t vp l1 = Return r v l"
      have sb: "same_but t (\<lambda>c. c\<lparr>c_joined := True\<rparr>) (lib_of s) l1" by (rule upd_tcb_same_but [OF l1]) simp
      then have "lib_mem l1" using lib_mem_cong [OF I(1), of l1] by (auto simp: same_but_def)
      moreover have "main_tcb l1 \<noteq> Some t" using nm [OF find_in_table [OF t(1)]] sb by (simp add: same_but_def same_env_def)
      moreover have "pend s q \<noteq> Joining t vq" for q vq
        using waits_okD(8) [OF W, of q t vq] t(2,3) by (auto simp: is_joined_def cores_def core_def)
      ultimately have "main_kept l (pend s)" using finish_keeps_main [OF fin _ main_kept_keeps [OF mk keeps_upd [OF l1]]] by blast
      then show ?thesis using join(1) by simp
    qed
  next
    case (join_end t vp r v l)
    have "pend s q \<noteq> Joining t vq" if "q \<noteq> p" for q vq using waits_okD(10) [OF W join_end(2), of q vq] that by auto
    then have "((pend s)(p := Idle)) q \<noteq> Joining t vq" for q vq by auto
    moreover have "main_tcb (lib_of s) \<noteq> Some t" using nm mk join_end(2) unfolding main_kept_def by blast
    ultimately show ?thesis using finish_keeps_main [OF join_end(3) I(1) main_kept_idle [OF mk]] join_end(1) by simp
  next
    case (lock m mx r v l)
    have "l = lib_of s" using lock(3) by (auto simp: worker_mutex_lock_def split: option.splits if_splits)
    then show ?thesis using main_kept_idle [OF mk] lock(1) by simp
  next
    case (unlock m mx r v l)
    have "keeps (lib_of s) l"
      using unlock(3) by (auto simp: worker_mutex_unlock_def Let_def dest!: keeps_upd keeps_add
          intro: keeps_trans split: option.splits if_splits Option.bind_splits prod.splits)
    then show ?thesis using main_kept_keeps [OF mk] unlock(1) by simp
  next
    case (destroy m r mx)
    then show ?thesis using mk by simp
  qed
qed

lemma leaves_keep_main:
  assumes leave: "leaves pol p s s1" and mk: "main_kept (lib_of s) (pend s)"
  shows "main_kept (lib_of s1) (pend s1)"
  using leave
proof cases
  case (yield l)
  have "keeps (lib_of s) l" using yield(4) by (auto simp: worker_yield_def dest: keeps_upd split: option.splits)
  then show ?thesis using main_kept_keeps [OF mk] yield(1) by simp
next
  case (exit v l)
  have "keeps (lib_of s) l" by (rule exit_keeps [OF exit(4)])
  then show ?thesis using main_kept_keeps [OF mk] exit(1) by simp
next
  case (join_wait tid vp l t)
  have "keeps (lib_of s) l"
    using join_wait(4) by (auto simp: worker_join_def finish_join_def dest!: keeps_upd
        intro: keeps_trans split: option.splits if_splits Option.bind_splits)
  then have "main_kept l (pend s)" "Some t \<in> set (thread_table l)"
    using main_kept_keeps [OF mk] find_in_table [OF join_wait(5)] by (auto simp: keeps_def)
  then show ?thesis using join_wait(1) by (auto simp: main_kept_def)
next
  case (lock_wait m mx l)
  have "keeps (lib_of s) l"
    using lock_wait(4) by (auto simp: worker_mutex_lock_def dest: keeps_upd split: option.splits if_splits)
  then show ?thesis using main_kept_locking [OF main_kept_keeps [OF mk]] lock_wait(1) by simp
qed (use mk in simp)

context run_queue begin

lemma reach_main_kept:
  assumes "reach pol s"
  shows "main_kept (lib_of s) (pend s)"
  using assms
proof (induction rule: reach.induct)
  case (start e c r v l)
  obtain l0 where init: "init_main_thread e (boot c) = Some l0" and cr: "create_thread pol e l0 = Return r v l"
    using start(2) by (auto simp: worker_create_def boot_def split: option.splits)
  note B = init_main_boot [OF init]
  have "cores l0 2 \<noteq> None" by (simp add: B(1))
  then have "tcbs l0 2 \<noteq> None" by (simp add: cores_def)
  then have "main_kept l0 (\<lambda>_. Idle)" using B(2,7) by (auto simp: main_kept_def)
  from create_keeps_main [OF cr init_main_inv(2) [OF init start(1)] this] show ?case by simp
next
  case (step s s')
  note inv = reach_inv [OF step.hyps(1)]
  from step.hyps(2) show ?case
  proof cases
    case (call p)
    show ?thesis by (rule calls_keep_main [OF call(2) inv call(1) step.IH])
  next
    case (switch p s1 l)
    obtain q where q: "schedule pol (lib_of s1) = Some (Run q l)" using switch(3) by (auto simp: resumes_def)
    obtain M where L: "ready_rep pol (lib_of s1) M" "running_tcb (lib_of s1) = Some p" by (rule leaves_inv [OF switch(2) inv]) blast
    obtain c M1 cs M' d where S: "cs = (if c_state c = RUNNING then (cores (lib_of s1))(p \<mapsto> c\<lparr>c_state := READY\<rparr>) else cores (lib_of s1))"
      "cores l = cs(q \<mapsto> d\<lparr>c_state := RUNNING\<rparr>)" "same_env (lib_of s1) l"
      by (rule schedule_law [OF L q])
    have "tcbs l x \<noteq> None" if "tcbs (lib_of s1) x \<noteq> None" for x
    proof -
      have "cores l x \<noteq> None" using S(1,2) that by (auto simp: cores_def)
      then show ?thesis by (simp add: cores_def)
    qed
    then have "keeps (lib_of s1) l" using S(3) by (simp add: keeps_def same_env_def)
    then show ?thesis using main_kept_keeps [OF leaves_keep_main [OF switch(2) step.IH]] switch(1) by simp
  qed
qed

end

section \<open>What round robin decides\<close>

lemma any_blocked_total:
  assumes "\<And>p. Some p \<in> set es \<Longrightarrow> ts p \<noteq> None"
  shows "any_blocked ts es = Some (\<exists>p t. Some p \<in> set es \<and> ts p = Some t \<and> t_state t = BLOCKED)"
  using assms
proof (induction ts es rule: any_blocked.induct)
  case (3 ts p es)
  obtain t where t: "ts p = Some t" using "3.prems" by fastforce
  show ?case
  proof (cases "t_state t = BLOCKED")
    case False
    then show ?thesis using t "3.IH" [OF t False] "3.prems" by auto
  qed (use t in auto)
qed auto

lemma sched_rr_head:
  assumes "rr_queue l = q # qs" "tcbs l q \<noteq> None"
  shows "\<exists>l'. sched_rr l = Some (Run q l')"
proof -
  have "alive (cores (l\<lparr>rr_queue := qs\<rparr>)) q" using assms(2) by (simp add: alive_def cores_def)
  then obtain l1 where "begin_run q (l\<lparr>rr_queue := qs\<rparr>) = Some l1" using begin_run_alive by blast
  then show ?thesis using assms(1) by (subst sched_rr.simps) (simp add: resume_def)
qed

text \<open>A thread that can go on, and a blocked thread where \<open>has_blocked_threads\<close> looks, in the table.\<close>

definition runnable :: "lib \<Rightarrow> bool" where
  "runnable l \<longleftrightarrow> (\<exists>q t. tcbs l q = Some t \<and> (t_state t = READY \<or> t_state t = RUNNING))"

definition blocked_in_table :: "lib \<Rightarrow> bool" where
  "blocked_in_table l \<longleftrightarrow> (\<exists>q t. Some q \<in> set (thread_table l) \<and> tcbs l q = Some t \<and> t_state t = BLOCKED)"

text \<open>\<open>entering\<close> again, with the round-robin queue: it holds the ready threads but not the one that leaves.\<close>

lemma rr_runs:
  assumes rep: "ready_rep RR l M" and run: "running_tcb l = Some p" and ent: "entering (cores l) p M W pd"
    and can: "runnable l"
  shows "\<exists>q l'. schedule RR l = Some (Run q l')"
proof -
  obtain q t where some: "tcbs l q = Some t" "t_state t = READY \<or> t_state t = RUNNING" using can by (auto simp: runnable_def)
  obtain d where d: "tcbs l p = Some d" using enteringD(1) [OF ent] by (auto simp: alive_def cores_def)
  have q: "tcbs l x \<noteq> None" "x \<noteq> p" if "x \<in> set (rr_queue l)" for x
    using rep that enteringD(3) [OF ent, of x] by (auto simp: has_state_def cores_def split: if_splits)
  have "\<exists>l1. account RR l = Some (Some l1) \<and> rr_queue l1 \<noteq> [] \<and> (\<forall>x \<in> set (rr_queue l1). tcbs l1 x \<noteq> None)"
  proof (cases "t_state d = READY \<or> t_state d = RUNNING")
    case True
    then show ?thesis
      using run d q by (auto simp: account_def preempted_def upd_tcb_def add_to_scheduler_def put_last_def)
  next
    case False
    then have "q \<noteq> p" using some d by auto
    moreover have "t_state t \<noteq> RUNNING" using enteringD(2) [OF ent, of q] some(1) calculation by (auto simp: has_state_def cores_def)
    ultimately have "count M q = 1" using enteringD(3) [OF ent, of q] some by (auto simp: has_state_def cores_def core_def)
    then have "q \<in># M" by (simp add: count_inI)
    then have "rr_queue l \<noteq> []" using rep by auto
    then show ?thesis using False run d q by (cases "t_state d") (auto simp: account_def)
  qed
  then obtain l1 where l1: "account RR l = Some (Some l1)" "rr_queue l1 \<noteq> []" "\<forall>x \<in> set (rr_queue l1). tcbs l1 x \<noteq> None" by blast
  obtain x xs where "rr_queue (count_switch l1) = x # xs" "tcbs (count_switch l1) x \<noteq> None"
    using l1(2,3) by (cases "rr_queue l1") (auto simp: count_switch_def)
  from sched_rr_head [OF this] show ?thesis using l1(1) by (auto simp: schedule_def sched_def)
qed

definition halted :: "lib \<Rightarrow> nat \<Rightarrow> lib" where
  "halted l p = count_switch (if has_state (cores l) p TERMINATED then l\<lparr>running_tcb := None\<rparr> else l)"

lemma rr_halts:
  assumes rep: "ready_rep RR l M" and run: "running_tcb l = Some p" and ent: "entering (cores l) p M W pd"
    and mem: "lib_mem l" and mk: "main_kept l pd"
    and idle: "\<not> runnable l"
  shows "schedule RR l = (if thread_count l \<le> 1 \<or> blocked_in_table l then Some (ToMain (halted l p)) else None)"
proof -
  have none: "t_state t \<noteq> READY \<and> t_state t \<noteq> RUNNING" if "tcbs l q = Some t" for q t
    using idle that by (auto simp: runnable_def)
  obtain d where d: "tcbs l p = Some d" using enteringD(1) [OF ent] by (auto simp: alive_def cores_def)
  have M: "rr_queue l = []"
  proof -
    have "count M x = 0" for x using enteringD(3) [OF ent, of x] none by (auto simp: has_state_def cores_def core_def)
    then show ?thesis using rep by (metis count_eq_zero_iff multiset_nonemptyE ready_rep.simps(4) mset_zero_iff)
  qed
  have acc: "account RR l = Some (Some (if has_state (cores l) p TERMINATED then l\<lparr>running_tcb := None\<rparr> else l))"
    using run d none [OF d] by (cases "t_state d") (auto simp: account_def has_state_def cores_def core_def)
  have tab: "tcbs l x \<noteq> None" if "Some x \<in> set (thread_table l)" for x
    using mem that by (auto simp: lib_mem_def mem_ok_def static_def cores_def)
  have hb: "has_blocked_threads (halted l p) = Some (blocked_in_table l)"
    using any_blocked_total [of "thread_table l" "tcbs l"] tab
    by (simp add: has_blocked_threads_def halted_def count_switch_def blocked_in_table_def)
  have q: "rr_queue (halted l p) = []" "thread_count (halted l p) = thread_count l" "halted l p\<lparr>rr_queue := []\<rparr> = halted l p"
    using M by (simp_all add: halted_def count_switch_def)
  have main: "to_main (halted l p) = ToMain (halted l p)"
    using mk by (auto simp: main_kept_def to_main_def halted_def count_switch_def)
  have "sched_rr (halted l p) = (if thread_count l \<le> 1 \<or> blocked_in_table l then Some (ToMain (halted l p)) else None)"
  proof (cases "thread_count l \<le> 1 \<or> blocked_in_table l")
    case True
    then show ?thesis by (subst sched_rr.simps) (simp only: q take_first.simps prod.case option.case Let_def hb main if_True if_False cong: if_cong, auto)
  next
    case False
    then have "sched_rr (halted l p) = None" using sched_rr_ends [of "halted l p"] q(1,2) hb by auto
    then show ?thesis using False by simp
  qed
  then show ?thesis using acc by (simp add: schedule_def sched_def halted_def)
qed

text \<open>The two together, at a point of a program where a thread enters the scheduler.\<close>

lemma rr_entered:
  assumes "program RR c" "\<not> fell_back c" "leaves RR (cpu c) (sys_of c) s1"
  obtains M where "ready_rep RR (lib_of s1) M" "running_tcb (lib_of s1) = Some (cpu c)"
    "entering (cores (lib_of s1)) (cpu c) M (\<lambda>m. wait_queue (mutexes s1 m)) (pend s1)" "lib_mem (lib_of s1)"
    "main_kept (lib_of s1) (pend s1)"
proof -
  have r: "reach RR (sys_of c)" using rr.program_reach [OF assms(1,2)] by blast
  show thesis
    by (rule rr.leaves_inv [OF assms(3) rr.reach_inv [OF r]])
      (use leaves_keep_main [OF assms(3) rr.reach_main_kept [OF r]] that in blast)
qed

lemma halted_simps:
  "tcbs (halted l p) = tcbs l" "main_tcb (halted l p) = main_tcb l" "thread_table (halted l p) = thread_table l"
  "running_tcb (halted l p) = (if has_state (cores l) p TERMINATED then None else running_tcb l)" "cores (halted l p) = cores l"
  by (auto simp: halted_def count_switch_def cores_def fun_eq_iff)

lemma halted_mem: "lib_mem l \<Longrightarrow> lib_mem (halted l p)"
  by (erule lib_mem_cong) (simp_all add: halted_simps, simp add: same_env_def halted_def count_switch_def)

text \<open>
  A run into a deadlock: the main program locks mutex 0 and joins the thread it has created (block 3);
  that thread locks mutex 1 and then waits for mutex 0.
\<close>

definition held :: "nat \<Rightarrow> mutex" where
  "held p = \<lparr>m_locked = True, owner_tcb = Some p, wait_queue = []\<rparr>"

definition demo_stuck :: lib where
  "demo_stuck = the (reply_lib (snd (worker_mutex_lock (Some (held 2)) demo_thread)))"

definition stuck_join :: sys where
  "stuck_join = \<lparr>lib_of = demo_thread, mutexes = (\<lambda>_. fresh_mutex)(0 := held 2, 1 := held 3),
     pend = (\<lambda>_. Idle)(2 := Joining 3 True)\<rparr>"

definition stuck_state :: sys where
  "stuck_state = \<lparr>lib_of = demo_stuck, mutexes = (\<lambda>_. fresh_mutex)(0 := held 2\<lparr>wait_queue := [3]\<rparr>, 1 := held 3),
     pend = (\<lambda>_. Idle)(2 := Joining 3 True, 3 := Locking 0)\<rparr>"

lemma take_free: "running_tcb l = Some p \<Longrightarrow> worker_mutex_lock (Some fresh_mutex) l = (Some (held p), Return 0 None l)"
  by (simp add: worker_mutex_lock_def fresh_mutex_def held_def)

lemma demo_block: "worker_mutex_lock (Some (held 2)) demo_thread = (Some (held 2\<lparr>wait_queue := [3]\<rparr>), Switch demo_stuck)"
proof -
  have "case worker_mutex_lock (Some (held 2)) demo_thread of (Some m, Switch l) \<Rightarrow> m = held 2\<lparr>wait_queue := [3]\<rparr> | _ \<Rightarrow> False"
    by code_simp
  then show ?thesis by (auto simp: demo_stuck_def split: prod.splits option.splits reply.splits)
qed

lemma program_stuck: "program RR (before_return stuck_join 3)"
proof -
  let ?s0 = "demo_state\<lparr>mutexes := (\<lambda>_. fresh_mutex)(0 := held 2)\<rparr>"
  let ?s1 = "stuck_join\<lparr>mutexes := (\<lambda>_. fresh_mutex)(0 := held 2)\<rparr>"
  have "calls RR 2 demo_state ?s0"
    using calls.lock [of demo_state 2 0 "held 2" 0 None demo_created RR] take_free [OF demo_running(1)]
    by (simp add: demo_state_def fun_upd_idem)
  then have "machine_step RR (before_return demo_state 2) (before_return ?s0 2)"
    using machine_step.call [of RR "before_return demo_state 2"] by (simp add: before_return_def)
  moreover have "leaves RR 2 ?s0 (?s0\<lparr>lib_of := demo_joining, pend := (\<lambda>_. Idle)(2 := Joining 3 True)\<rparr>)"
    using leaves.join_wait [of ?s0 2 1 True demo_joining 3 RR] by (simp add: demo_state_def demo_running demo_join demo_find)
  then have "machine_step RR (before_return ?s0 2) (before_return ?s1 3)"
    using machine_step.switch [of RR "before_return ?s0 2"] demo_run
    by (fastforce simp: stuck_join_def demo_state_def before_return_def)
  moreover have "calls RR 3 ?s1 stuck_join"
    using calls.lock [of ?s1 3 1 "held 3" 0 None demo_thread RR] take_free [OF demo_running(2)]
    by (simp add: stuck_join_def fun_upd_idem)
  then have "machine_step RR (before_return ?s1 3) (before_return stuck_join 3)"
    using machine_step.call [of RR "before_return ?s1 3"] by (simp add: before_return_def)
  ultimately show ?thesis using program_demo program.step by blast
qed

lemma leaves_stuck: "leaves RR 3 stuck_join stuck_state"
  using leaves.lock_wait [of stuck_join 3 0 "held 2\<lparr>wait_queue := [3]\<rparr>" demo_stuck RR] demo_block demo_running(2)
  by (simp add: stuck_join_def stuck_state_def fun_upd_twist)

lemma stuck_returns: "\<exists>l. schedule RR demo_stuck = Some (ToMain l)"
proof -
  have "case schedule RR demo_stuck of Some (ToMain l) \<Rightarrow> True | _ \<Rightarrow> False" by code_simp
  then show ?thesis by (auto split: option.splits outcome.splits)
qed

text \<open>C39: What round robin does when a thread of a program enters the scheduler, up to and including
  the first return to the main program. It resumes a thread exactly when some thread is ready or was
  running; if there is none, it returns to the main program exactly when the count is at most one or
  a thread of the table is blocked, and spins for ever otherwise. The return to the main program
  changes no thread block, so blocked threads stay blocked, and it leaves \<open>running_tcb\<close> at the
  thread that entered (\<open>NULL\<close> if it has exited).\<close>

theorem rr_decides:
  assumes "program RR c" "\<not> fell_back c" "leaves RR (cpu c) (sys_of c) s1" "l = lib_of s1"
  shows "((\<exists>q l'. schedule RR l = Some (Run q l')) \<longleftrightarrow> runnable l) \<and>
    ((\<exists>l'. schedule RR l = Some (ToMain l')) \<longleftrightarrow> \<not> runnable l \<and> (thread_count l \<le> 1 \<or> blocked_in_table l)) \<and>
    (schedule RR l = None \<longleftrightarrow> \<not> runnable l \<and> 1 < thread_count l \<and> \<not> blocked_in_table l) \<and>
    (\<forall>l'. schedule RR l = Some (ToMain l') \<longrightarrow> tcbs l' = tcbs l \<and> main_tcb l' = main_tcb l \<and>
      running_tcb l' = (if has_state (cores l) (cpu c) TERMINATED then None else Some (cpu c)))"
proof -
  obtain M where E: "ready_rep RR l M" "running_tcb l = Some (cpu c)"
    "entering (cores l) (cpu c) M (\<lambda>m. wait_queue (mutexes s1 m)) (pend s1)" "lib_mem l" "main_kept l (pend s1)"
    unfolding assms(4) by (rule rr_entered [OF assms(1-3)])
  show ?thesis
  proof (cases "runnable l")
    case True
    then show ?thesis using rr_runs [OF E(1-3) True] by auto
  next
    case False
    show ?thesis using rr_halts [OF E False] False E(2) by (auto simp: halted_simps)
  qed
qed

theorem rr_decides_witness:
  "\<exists>l. schedule RR demo_stuck = Some (ToMain l) \<and> running_tcb l = Some 3 \<and> main_tcb l = Some 2 \<and>
    \<not> runnable demo_stuck \<and> blocked_in_table demo_stuck"
proof -
  obtain l where l: "schedule RR demo_stuck = Some (ToMain l)" using stuck_returns by blast
  have s: "lib_of stuck_state = demo_stuck" by (simp add: stuck_state_def)
  have "main_tcb demo_stuck = Some 2" "\<not> thread_count demo_stuck \<le> 1" by code_simp+
  moreover have "case tcbs demo_stuck 3 of Some t \<Rightarrow> t_state t = BLOCKED | None \<Rightarrow> False" by code_simp
  then have "\<not> has_state (cores demo_stuck) 3 TERMINATED" by (auto simp: has_state_tcb split: option.splits)
  ultimately show ?thesis
    using rr_decides [of "before_return stuck_join 3" stuck_state demo_stuck] program_stuck leaves_stuck s l
    by (intro exI [of _ l]) auto
qed

section \<open>A join that comes back too early\<close>

text \<open>The thread the main thread waits for, when no thread can go on: it is blocked itself.\<close>

lemma joined_blocked:
  assumes ent: "entering (cores l) p M W pd" and mk: "main_kept l pd" and idle: "\<not> runnable l"
    and main: "main_tcb l = Some q" "pd q = Joining t vp"
  obtains d where "tcbs l t = Some d" "t_state d = BLOCKED" "Some t \<in> set (thread_table l)" "t \<noteq> q"
    "(\<exists>m. t \<in> set (W m)) \<or> (\<exists>u e. u \<noteq> t \<and> tcbs l u = Some e \<and> waiting_thread e = Some t)"
proof -
  note D = waits_okD [OF enteringD(4) [OF ent]]
  have st: "t_state d = BLOCKED \<or> t_state d = TERMINATED" if "tcbs l x = Some d" for x d
    using idle that by (cases "t_state d") (auto simp: runnable_def)
  have nq: "pd q \<noteq> Idle" using main(2) by simp
  obtain e where e: "tcbs l q = Some e" using D(11) [OF nq] by (auto simp: alive_def cores_def)
  have "has_state (cores l) q BLOCKED" using st [OF e] D(12) [OF nq] e by (auto simp: has_state_def cores_def core_def)
  then have w: "waiter (cores l) t = Some q" using D(4) [of q] main(2) by auto
  obtain d where d: "tcbs l t = Some d" using w by (auto simp: waiter_def cores_def split: option.splits)
  have bt: "t_state d = BLOCKED" using st [OF d] D(1) [OF w] d by (auto simp: has_state_def cores_def core_def)
  have tab: "Some t \<in> set (thread_table l)" using mk main(2) unfolding main_kept_def by blast
  then have tq: "t \<noteq> q" using mk main(1) by (auto simp: main_kept_def)
  have hb: "has_state (cores l) t BLOCKED" using d bt by (simp add: has_state_def cores_def core_def)
  have "(\<exists>m. t \<in> set (W m)) \<or> (\<exists>u e. u \<noteq> t \<and> tcbs l u = Some e \<and> waiting_thread e = Some t)"
    using D(4) [OF hb]
  proof (elim disjE exE conjE)
    fix u vp assume u: "waiter (cores l) u = Some t"
    have "u \<noteq> t" using u w tq by auto
    then show ?thesis using u by (auto simp: waiter_def cores_def core_def split: option.splits)
  qed blast
  then show thesis using that d bt tab tq by blast
qed



end
