(* ===== verification/TH_Mlfq.thy ===== *)
theory TH_Mlfq
  imports TH_Loops
begin

text \<open>
  The multi-level feedback queue of \<open>thread-worker.c\<close> keeps every thread on the level it was created on.
\<close>

section \<open>MLFQ does not demote\<close>

text \<open>\<open>schedule\<close> makes the preempted thread \<open>READY\<close> before \<open>sched_mlfq\<close> looks whether it is \<open>RUNNING\<close>, so
  no priority ever changes: every thread stays on the level it was created on.\<close>

definition priorities :: "lib \<Rightarrow> nat \<Rightarrow> int option" where
  "priorities l p = map_option priority (tcbs l p)"

lemma priorities_same: "tcbs l' = tcbs l \<Longrightarrow> priorities l' = priorities l"
  by (simp add: priorities_def fun_eq_iff)

lemma priorities_upd: "upd_tcb p f l = Some l' \<Longrightarrow> (\<And>t. priority (f t) = priority t) \<Longrightarrow> priorities l' = priorities l"
  by (auto simp: upd_tcb_def priorities_def fun_eq_iff split: Option.bind_splits)

lemma add_mlfq_tcbs: "add_to_scheduler MLFQ p l = Some l' \<Longrightarrow> tcbs l' = tcbs l \<and> running_tcb l' = running_tcb l"
  by (auto simp: add_to_scheduler_def Let_def split: if_splits Option.bind_splits)

lemma promote_tcbs: "promote_all_threads l = Some l' \<Longrightarrow> tcbs l' = tcbs l \<and> running_tcb l' = running_tcb l"
  by (auto simp: promote_all_threads_def split: Option.bind_splits)

lemma account_mlfq:
  assumes "account MLFQ l = Some (Some l')"
  shows "priorities l' = priorities l" "running_tcb l' = Some p \<Longrightarrow> tcbs l' p = Some t \<Longrightarrow> t_state t \<noteq> RUNNING"
proof -
  have u: "upd_tcb q f l0 = Some l1 \<Longrightarrow> \<exists>t. tcbs l0 q = Some t \<and> tcbs l1 = (tcbs l0)(q \<mapsto> f t) \<and> running_tcb l1 = running_tcb l0" for q f l0 l1
    by (auto simp: upd_tcb_def split: Option.bind_splits)
  have "priorities l' = priorities l \<and> (\<forall>p t. running_tcb l' = Some p \<longrightarrow> tcbs l' p = Some t \<longrightarrow> t_state t \<noteq> RUNNING)"
    using assms
    by (auto simp: account_def preempted_def priorities_def fun_eq_iff split: option.splits thread_state.splits if_splits Option.bind_splits
        dest!: u add_mlfq_tcbs promote_tcbs)
  then show "priorities l' = priorities l" "running_tcb l' = Some p \<Longrightarrow> tcbs l' p = Some t \<Longrightarrow> t_state t \<noteq> RUNNING" by blast+
qed

lemma begin_run_priorities: "begin_run p l = Some l' \<Longrightarrow> priorities l' = priorities l"
  by (auto simp: begin_run_def clock_gettime_def upd_tcb_def priorities_def fun_eq_iff split: Option.bind_splits if_splits)

lemma mlfq_loop_priorities:
  assumes "mlfq_loop l = Some (Run p l')"
  shows "priorities l' = priorities l"
proof -
  have "\<forall>p l'. r = Run p l' \<longrightarrow> priorities l' = priorities l" if "mlfq_loop l = Some r" for r
  proof (rule mlfq_loop.raw_induct [OF _ that, where P = "\<lambda>l r. \<forall>p l'. r = Run p l' \<longrightarrow> priorities l' = priorities l"], goal_cases)
    case (1 f l r)
    obtain next_one qs where fr: "first_ready (mlfq_levels l) = (next_one, qs)" by fastforce
    have b: "priorities l' = priorities l" if "map_option count_switch (begin_run q (l\<lparr>mlfq_levels := qs\<rparr>)) = Some l'" for q l'
      using that begin_run_priorities [of q "l\<lparr>mlfq_levels := qs\<rparr>"] by (auto simp: count_switch_def priorities_def fun_eq_iff)
    have m: "priorities (l\<lparr>mlfq_levels := qs\<rparr>) = priorities l" by (rule priorities_same) simp
    show ?case
    proof (cases next_one)
      case (Some q)
      then show ?thesis using 1(2) fr b [of q]
        by (auto simp: resume_def priorities_def fun_eq_iff split: option.splits)
    next
      case None
      then show ?thesis using 1(2) fr m "1"(1) [of "l\<lparr>mlfq_levels := qs\<rparr>" r]
        by (auto simp: Let_def to_main_def split: if_splits option.splits)
    qed
  qed
  then show ?thesis using assms by blast
qed

lemma mlfq_account_keeps:
  assumes A: "\<And>p t. running_tcb l = Some p \<Longrightarrow> tcbs l p = Some t \<Longrightarrow> t_state t \<noteq> RUNNING"
  shows "mlfq_account l = Inl Undefined \<or> (\<exists>l2. mlfq_account l = Inr l2 \<and> tcbs l2 = tcbs l)"
proof (cases "running_tcb l")
  case (Some p)
  show ?thesis
  proof (cases "tcbs l p")
    case t: (Some t)
    note no = A [OF Some t]
    show ?thesis
    proof (cases "t_state t")
      case READY
      then show ?thesis
        using Some t add_mlfq_tcbs [of p l] by (cases "add_to_scheduler MLFQ p l") (simp_all add: mlfq_account_def)
    qed (use Some t no in \<open>simp_all add: mlfq_account_def\<close>)
  qed (use Some in \<open>simp add: mlfq_account_def\<close>)
qed (simp add: mlfq_account_def)

theorem mlfq_never_demotes:
  assumes "schedule MLFQ l = Some (Run p l')"
  shows "priorities l' = priorities l"
proof -
  obtain l1 where a: "account MLFQ l = Some (Some l1)" "sched_mlfq (count_switch l1) = Some (Run p l')"
    using assms by (auto simp: schedule_def sched_def split: option.splits)
  note A = account_mlfq [OF a(1)]
  have c: "tcbs (count_switch l1) = tcbs l1" "running_tcb (count_switch l1) = running_tcb l1" by (simp_all add: count_switch_def)
  have "mlfq_account (count_switch l1) \<noteq> Inl Undefined" using a(2) by (auto simp: sched_mlfq_def)
  then obtain l2 where l2: "mlfq_account (count_switch l1) = Inr l2" "tcbs l2 = tcbs l1"
    using mlfq_account_keeps [of "count_switch l1"] A(2) c by auto
  then have "mlfq_loop l2 = Some (Run p l')" using a(2) by (simp add: sched_mlfq_def)
  then show ?thesis using mlfq_loop_priorities priorities_same [OF l2(2)] A(1) by simp
qed

end
