(* ===== verification/TH_Preempt.thy ===== *)
theory TH_Preempt
  imports TH_State
begin

text \<open>
  \<open>worker_mutex_lock\<close> and \<open>worker_mutex_unlock\<close> statement by statement, with the timer signal between
  any two statements: these functions do not block it. One mutex, the round-robin queue, threads that
  are in a call of the two functions or in their own code; a thread does not lock a mutex it holds. When
  no thread is ready the scheduler falls back to the main program, which is left out here.
\<close>

section \<open>Statements\<close>

text \<open>
  The statement a thread is at: in \<open>worker_mutex_lock\<close> from \<open>TestSet\<close>, the test of the \<open>while\<close> loop, to
  \<open>SetOwner\<close>; in \<open>worker_mutex_unlock\<close> from \<open>CheckOwner\<close> to \<open>AddReady\<close>. \<open>Inside\<close> is its own code with the
  mutex held.
\<close>

datatype point =
    Outside
  | TestSet
  | TestState
  | SetBlocked
  | Enqueue
  | SwapOut
  | SetOwner
  | Inside
  | CheckOwner
  | ClearOwner
  | ClearFlag
  | TakeWaiting
  | SetReady nat
  | AddReady nat

record cpu =
  current :: nat
  ready :: "nat list"
  waiting :: "nat list"
  flag :: bool
  owner :: "nat option"
  state_of :: "nat \<Rightarrow> thread_state"
  point_of :: "nat \<Rightarrow> point"

definition at :: "nat \<Rightarrow> point \<Rightarrow> cpu \<Rightarrow> cpu" where
  "at t p s = s\<lparr>point_of := (point_of s)(t := p)\<rparr>"

definition set_state :: "nat \<Rightarrow> thread_state \<Rightarrow> cpu \<Rightarrow> cpu" where
  "set_state t x s = s\<lparr>state_of := (state_of s)(t := x)\<rparr>"

text \<open>\<open>schedule\<close> and \<open>sched_rr\<close> for the thread that was running; \<open>None\<close> when no thread is ready then.\<close>

definition put_back :: "nat \<Rightarrow> cpu \<Rightarrow> cpu" where
  "put_back t s = (case state_of s t of
     RUNNING \<Rightarrow> (set_state t READY s)\<lparr>ready := put_last (ready s) t\<rparr>
   | READY \<Rightarrow> s\<lparr>ready := put_last (ready s) t\<rparr>
   | BLOCKED \<Rightarrow> s
   | TERMINATED \<Rightarrow> s)"

definition pick_next :: "cpu \<Rightarrow> cpu option" where
  "pick_next s = (case take_first (ready s) of
     (None, _) \<Rightarrow> None
   | (Some n, q) \<Rightarrow> Some ((set_state n RUNNING s)\<lparr>ready := q, current := n\<rparr>))"

definition statement :: "cpu \<Rightarrow> cpu option" where
  "statement s = (let t = current s in case point_of s t of
     Outside \<Rightarrow> None
   | TestSet \<Rightarrow> Some (at t (if flag s then TestState else SetOwner) (s\<lparr>flag := True\<rparr>))
   | TestState \<Rightarrow> Some (at t (if state_of s t \<noteq> BLOCKED then SetBlocked else SwapOut) s)
   | SetBlocked \<Rightarrow> Some (at t Enqueue (set_state t BLOCKED s))
   | Enqueue \<Rightarrow> Some (at t SwapOut (s\<lparr>waiting := put_last (waiting s) t\<rparr>))
   | SwapOut \<Rightarrow> pick_next (put_back t (at t TestSet s))
   | SetOwner \<Rightarrow> Some (at t Inside (s\<lparr>owner := Some t\<rparr>))
   | Inside \<Rightarrow> None
   | CheckOwner \<Rightarrow> Some (at t (if owner s = Some t then ClearOwner else Outside) s)
   | ClearOwner \<Rightarrow> Some (at t ClearFlag (s\<lparr>owner := None\<rparr>))
   | ClearFlag \<Rightarrow> Some (at t TakeWaiting (s\<lparr>flag := False\<rparr>))
   | TakeWaiting \<Rightarrow> Some (case take_first (waiting s) of
         (None, _) \<Rightarrow> at t Outside s
       | (Some w, ws) \<Rightarrow> at t (SetReady w) (s\<lparr>waiting := ws\<rparr>))
   | SetReady w \<Rightarrow> Some (at t (AddReady w) (set_state w READY s))
   | AddReady w \<Rightarrow> Some (at t Outside (s\<lparr>ready := put_last (ready s) w\<rparr>)))"

section \<open>Steps\<close>

text \<open>\<open>Lock\<close> and \<open>Unlock\<close> are calls, \<open>Go\<close> is a statement of a call, \<open>Tick\<close> the timer signal.\<close>

datatype move = Lock | Unlock | Go | Tick

fun play :: "move \<Rightarrow> cpu \<Rightarrow> cpu option" where
  "play Lock s = (if point_of s (current s) = Outside then Some (at (current s) TestSet s) else None)"
| "play Unlock s = (if point_of s (current s) \<in> {Outside, Inside} then Some (at (current s) CheckOwner s) else None)"
| "play Go s = statement s"
| "play Tick s = pick_next (put_back (current s) s)"

definition fresh_cpu :: "nat \<Rightarrow> cpu" where
  "fresh_cpu n = \<lparr>current = 0, ready = [1..<n], waiting = [], flag = False, owner = None,
     state_of = (\<lambda>_. READY)(0 := RUNNING), point_of = \<lambda>_. Outside\<rparr>"

inductive mstep :: "cpu \<Rightarrow> cpu \<Rightarrow> bool" where
  "play m s = Some s' \<Longrightarrow> mstep s s'"

inductive mreach :: "nat \<Rightarrow> cpu \<Rightarrow> bool" for n where
  start: "mreach n (fresh_cpu n)"
| step: "mreach n s \<Longrightarrow> mstep s s' \<Longrightarrow> mreach n s'"

fun plays :: "move list \<Rightarrow> cpu \<Rightarrow> cpu option" where
  "plays [] s = Some s"
| "plays (m # ms) s = Option.bind (play m s) (plays ms)"

lemma plays_reach: "plays ms s = Some s' \<Longrightarrow> mreach n s \<Longrightarrow> mreach n s'"
  by (induction ms arbitrary: s) (auto split: Option.bind_splits dest!: mstep.intros dest: mreach.step)

lemma at_simps [simp]:
  "current (at t p s) = current s" "ready (at t p s) = ready s" "waiting (at t p s) = waiting s" "flag (at t p s) = flag s"
  "owner (at t p s) = owner s" "state_of (at t p s) = state_of s" "point_of (at t p s) = (point_of s)(t := p)"
  by (simp_all add: at_def)

lemma set_state_simps [simp]:
  "current (set_state t x s) = current s" "ready (set_state t x s) = ready s" "waiting (set_state t x s) = waiting s"
  "flag (set_state t x s) = flag s" "owner (set_state t x s) = owner s" "state_of (set_state t x s) = (state_of s)(t := x)"
  "point_of (set_state t x s) = point_of s"
  by (simp_all add: set_state_def)

lemma put_back_keeps [simp]:
  "waiting (put_back t s) = waiting s" "flag (put_back t s) = flag s" "owner (put_back t s) = owner s"
  "point_of (put_back t s) = point_of s"
  by (simp_all add: put_back_def split: thread_state.split)

lemma pick_next_keeps:
  assumes "pick_next s = Some s'"
  shows "waiting s' = waiting s" "flag s' = flag s" "owner s' = owner s" "point_of s' = point_of s" "current s' \<in> set (ready s)"
    "set (ready s') \<subseteq> set (ready s)" "t \<noteq> current s' \<Longrightarrow> state_of s' t = state_of s t"
  using assms by (cases "ready s"; auto simp: pick_next_def)+

section \<open>Mutual exclusion\<close>

definition holds :: "cpu \<Rightarrow> nat \<Rightarrow> bool" where
  "holds s t \<longleftrightarrow> point_of s t \<in> {SetOwner, Inside, ClearOwner, ClearFlag} \<or> point_of s t = CheckOwner \<and> owner s = Some t"

definition mutex_inv :: "cpu \<Rightarrow> bool" where
  "mutex_inv s \<longleftrightarrow> (flag s \<longleftrightarrow> (\<exists>t. holds s t)) \<and> (\<forall>t u. holds s t \<longrightarrow> holds s u \<longrightarrow> t = u) \<and>
     (\<forall>t. owner s = Some t \<longrightarrow> point_of s t \<in> {Inside, CheckOwner, ClearOwner}) \<and>
     (\<forall>t. point_of s t \<in> {Inside, ClearOwner} \<longrightarrow> owner s = Some t)"

lemma mutex_inv_cong:
  "flag s' = flag s \<Longrightarrow> owner s' = owner s \<Longrightarrow> point_of s' = point_of s \<Longrightarrow> mutex_inv s' = mutex_inv s"
  by (simp add: mutex_inv_def holds_def)

lemma mutex_inv_at:
  assumes inv: "mutex_inv s" and t: "point_of s t = p"
    and s': "flag s' = flag s" "owner s' = owner s" "point_of s' = (point_of s)(t := p')"
    and quiet: "p \<notin> {SetOwner, Inside, ClearOwner, ClearFlag, CheckOwner}" "p' \<notin> {SetOwner, Inside, ClearOwner, ClearFlag, CheckOwner}"
  shows "mutex_inv s'"
proof -
  have "holds s' = holds s" using t s' quiet by (auto simp: holds_def fun_eq_iff)
  moreover have "owner s \<noteq> Some t" using inv t quiet by (auto simp: mutex_inv_def)
  ultimately show ?thesis using inv t s' quiet by (auto simp: mutex_inv_def)
qed

lemma mutex_inv_statement:
  assumes inv: "mutex_inv s" and s': "statement s = Some s'"
  shows "mutex_inv s'"
proof -
  let ?t = "current s"
  have D: "flag s \<longleftrightarrow> (\<exists>t. holds s t)" "\<And>t u. holds s t \<Longrightarrow> holds s u \<Longrightarrow> t = u"
    "\<And>t. owner s = Some t \<Longrightarrow> point_of s t \<in> {Inside, CheckOwner, ClearOwner}"
    "\<And>t. point_of s t \<in> {Inside, ClearOwner} \<Longrightarrow> owner s = Some t"
    using inv by (auto simp: mutex_inv_def)
  have other: "\<not> holds s u" if "holds s ?t" "u \<noteq> ?t" for u using D(2) that by blast
  show ?thesis
  proof (cases "point_of s ?t")
    case TestSet
    have no: "owner s \<noteq> Some ?t" using D(3) [of ?t] TestSet by auto
    show ?thesis
    proof (cases "flag s")
      case True
      then have "s' = at ?t TestState (s\<lparr>flag := True\<rparr>)" using s' TestSet by (simp add: statement_def Let_def)
      then show ?thesis using True TestSet by (intro mutex_inv_at [OF inv TestSet]) auto
    next
      case False
      then have e: "s' = at ?t SetOwner (s\<lparr>flag := True\<rparr>)" using s' TestSet by (simp add: statement_def Let_def)
      have "\<not> holds s u" for u using False D(1) by blast
      then have "holds s' u \<longleftrightarrow> u = ?t" for u using no by (auto simp: e holds_def)
      moreover have "owner s = None" using D(3) \<open>\<And>u. \<not> holds s u\<close> by (cases "owner s") (auto simp: holds_def)
      moreover have "point_of s u \<notin> {Inside, ClearOwner}" for u using \<open>\<And>u. \<not> holds s u\<close> [of u] by (auto simp: holds_def)
      ultimately show ?thesis unfolding mutex_inv_def by (auto simp: e)
    qed
  next
    case SwapOut
    then have s: "pick_next (put_back ?t (at ?t TestSet s)) = Some s'" using s' by (simp add: statement_def Let_def)
    show ?thesis using pick_next_keeps [OF s] by (intro mutex_inv_at [OF inv SwapOut]) auto
  next
    case SetOwner
    then have e: "s' = at ?t Inside (s\<lparr>owner := Some ?t\<rparr>)" using s' by (simp add: statement_def Let_def)
    have h: "holds s ?t" using SetOwner by (simp add: holds_def)
    have "holds s' u \<longleftrightarrow> u = ?t" for u using other [OF h, of u] by (auto simp: e holds_def)
    moreover have "point_of s u \<notin> {Inside, ClearOwner}" if "u \<noteq> ?t" for u using other [OF h that] by (auto simp: holds_def)
    ultimately show ?thesis using D(1) h unfolding mutex_inv_def by (auto simp: e)
  next
    case CheckOwner
    then have e: "s' = at ?t (if owner s = Some ?t then ClearOwner else Outside) s" using s' by (simp add: statement_def Let_def)
    have "holds s' = holds s" using CheckOwner by (auto simp: e holds_def fun_eq_iff)
    then show ?thesis using inv CheckOwner unfolding mutex_inv_def by (auto simp: e)
  next
    case ClearOwner
    then have e: "s' = at ?t ClearFlag (s\<lparr>owner := None\<rparr>)" using s' by (simp add: statement_def Let_def)
    have h: "holds s ?t" using ClearOwner by (simp add: holds_def)
    have "holds s' u \<longleftrightarrow> u = ?t" for u using other [OF h, of u] by (auto simp: e holds_def)
    moreover have "point_of s u \<notin> {Inside, ClearOwner}" if "u \<noteq> ?t" for u using other [OF h that] by (auto simp: holds_def)
    ultimately show ?thesis using D(1) h unfolding mutex_inv_def by (auto simp: e)
  next
    case ClearFlag
    then have e: "s' = at ?t TakeWaiting (s\<lparr>flag := False\<rparr>)" using s' by (simp add: statement_def Let_def)
    have h: "holds s ?t" using ClearFlag by (simp add: holds_def)
    have o: "owner s \<noteq> Some ?t" using D(3) [of ?t] ClearFlag by auto
    have "\<not> holds s' u" for u using other [OF h, of u] o by (auto simp: e holds_def)
    moreover have "owner s = None" using D(3) other [OF h] o by (cases "owner s") (auto simp: holds_def)
    moreover have "point_of s u \<notin> {Inside, ClearOwner}" if "u \<noteq> ?t" for u using other [OF h that] by (auto simp: holds_def)
    ultimately show ?thesis unfolding mutex_inv_def by (auto simp: e)
  next
    case (TakeWaiting)
    then show ?thesis
      using s' by (intro mutex_inv_at [OF inv TakeWaiting, of s' "point_of s' ?t"])
        (auto simp: statement_def Let_def split: option.splits prod.splits)
  next
    case TestState
    then show ?thesis using s' by (intro mutex_inv_at [OF inv TestState, of s' "point_of s' ?t"]) (auto simp: statement_def Let_def split: if_splits)
  next
    case SetBlocked
    then show ?thesis using s' by (intro mutex_inv_at [OF inv SetBlocked, of s' Enqueue]) (auto simp: statement_def Let_def)
  next
    case Enqueue
    then show ?thesis using s' by (intro mutex_inv_at [OF inv Enqueue, of s' SwapOut]) (auto simp: statement_def Let_def)
  next
    case (SetReady w)
    then show ?thesis using s' by (intro mutex_inv_at [OF inv SetReady, of s' "AddReady w"]) (auto simp: statement_def Let_def)
  next
    case (AddReady w)
    then show ?thesis using s' by (intro mutex_inv_at [OF inv AddReady, of s' Outside]) (auto simp: statement_def Let_def)
  qed (use s' in \<open>simp_all add: statement_def\<close>)
qed

lemma mutex_inv_step:
  assumes "mstep s s'" "mutex_inv s"
  shows "mutex_inv s'"
  using assms(1)
proof cases
  case (1 m)
  let ?t = "current s"
  show ?thesis
  proof (cases m)
    case Lock
    then have e: "point_of s ?t = Outside" "s' = at ?t TestSet s" using 1 by (auto split: if_splits)
    show ?thesis unfolding e(2) by (rule mutex_inv_at [OF assms(2) e(1)]) auto
  next
    case Unlock
    then have e: "point_of s ?t \<in> {Outside, Inside}" "s' = at ?t CheckOwner s" using 1 by (auto split: if_splits)
    have "owner s = Some ?t \<longleftrightarrow> point_of s ?t = Inside" using e(1) assms(2) by (auto simp: mutex_inv_def)
    then have "holds s' = holds s" using e by (auto simp: holds_def fun_eq_iff)
    then show ?thesis using e assms(2) unfolding mutex_inv_def by auto
  next
    case Go
    then show ?thesis using 1 mutex_inv_statement [OF assms(2)] by simp
  next
    case Tick
    then have s: "pick_next (put_back ?t s) = Some s'" using 1 by simp
    show ?thesis using assms(2) pick_next_keeps [OF s] mutex_inv_cong [of s' s] by simp
  qed
qed

lemma mreach_mutex_inv: "mreach n s \<Longrightarrow> mutex_inv s"
proof (induction rule: mreach.induct)
  case start
  show ?case by (simp add: mutex_inv_def holds_def fresh_cpu_def)
qed (rule mutex_inv_step)

section \<open>A thread that no queue holds\<close>

definition forgotten :: "cpu \<Rightarrow> nat \<Rightarrow> bool" where
  "forgotten s w \<longleftrightarrow> state_of s w = BLOCKED \<and> current s \<noteq> w \<and> w \<notin> set (ready s) \<and> w \<notin> set (waiting s) \<and>
     (\<forall>t. point_of s t \<noteq> SetReady w \<and> point_of s t \<noteq> AddReady w)"

lemma forgotten_put_back:
  "forgotten s w \<Longrightarrow> t \<noteq> w \<Longrightarrow> forgotten (put_back t s) w"
  by (auto simp: forgotten_def put_back_def put_last_def split: thread_state.splits)

lemma forgotten_pick: "pick_next s = Some s' \<Longrightarrow> forgotten s w \<Longrightarrow> forgotten s' w"
  using pick_next_keeps(1-6) [of s s'] pick_next_keeps(7) [of s s' w] by (auto simp: forgotten_def)

lemma forgotten_at: "forgotten s w \<Longrightarrow> p \<noteq> SetReady w \<Longrightarrow> p \<noteq> AddReady w \<Longrightarrow> forgotten (at t p s) w"
  by (auto simp: forgotten_def)

lemma forgotten_statement:
  assumes "statement s = Some s'" "forgotten s w"
  shows "forgotten s' w"
proof (cases "point_of s (current s)")
  case SwapOut
  then have "pick_next (put_back (current s) (at (current s) TestSet s)) = Some s'" using assms(1) by (simp add: statement_def Let_def)
  moreover have "current s \<noteq> w" using assms(2) by (simp add: forgotten_def)
  ultimately show ?thesis using assms(2) by (blast intro: forgotten_pick forgotten_put_back forgotten_at)
next
  case TakeWaiting
  then show ?thesis
    using assms by (cases "waiting s") (auto simp: statement_def Let_def forgotten_def split: if_splits)
qed (use assms in \<open>auto simp: statement_def Let_def forgotten_def put_last_def split: if_splits\<close>)

lemma forgotten_step:
  assumes "mstep s s'" "forgotten s w"
  shows "forgotten s' w"
  using assms(1)
proof cases
  case (1 m)
  have c: "current s \<noteq> w" using assms(2) by (simp add: forgotten_def)
  show ?thesis
    using 1 forgotten_statement [of s s' w] forgotten_pick [of _ s' w] forgotten_put_back [OF assms(2) c] forgotten_at [OF assms(2)] assms(2)
    by (cases m) (auto split: if_splits)
qed

lemma forgotten_for_ever: "rtranclp mstep s s' \<Longrightarrow> forgotten s w \<Longrightarrow> forgotten s' w"
  by (induction rule: rtranclp_induct) (auto intro: forgotten_step)

section \<open>The queues\<close>

definition waking :: "cpu \<Rightarrow> nat \<Rightarrow> nat \<Rightarrow> bool" where
  "waking s t w \<longleftrightarrow> point_of s t = SetReady w \<or> point_of s t = AddReady w"

text \<open>A thread is in one place: running, ready, waiting, or about to be made ready by one other thread;
  only a thread that has just queued itself, at \<open>SwapOut\<close>, is running and waiting.\<close>

definition places :: "cpu \<Rightarrow> bool" where
  "places s \<longleftrightarrow> distinct (ready s) \<and> distinct (waiting s) \<and> current s \<notin> set (ready s) \<and> set (ready s) \<inter> set (waiting s) = {} \<and>
     (\<forall>w \<in> set (waiting s). state_of s w = BLOCKED \<and> point_of s w \<in> {SwapOut, TestSet}) \<and>
     (\<forall>t w. waking s t w \<longrightarrow> w \<notin> set (ready s) \<and> w \<notin> set (waiting s) \<and> w \<noteq> current s \<and> point_of s w \<in> {SwapOut, TestSet}) \<and>
     (\<forall>t u w. waking s t w \<longrightarrow> waking s u w \<longrightarrow> t = u) \<and>
     (\<forall>t. point_of s t = Enqueue \<longrightarrow> state_of s t = BLOCKED \<and> t \<notin> set (ready s))"

definition queue_inv :: "cpu \<Rightarrow> bool" where
  "queue_inv s \<longleftrightarrow> places s \<and> (current s \<in> set (waiting s) \<longrightarrow> point_of s (current s) = SwapOut)"

lemma placesD:
  assumes "places s"
  shows "distinct (ready s)" "distinct (waiting s)" "current s \<notin> set (ready s)" "w \<in> set (ready s) \<Longrightarrow> w \<notin> set (waiting s)"
    "w \<in> set (waiting s) \<Longrightarrow> state_of s w = BLOCKED" "w \<in> set (waiting s) \<Longrightarrow> point_of s w \<in> {SwapOut, TestSet}"
    "waking s t w \<Longrightarrow> w \<notin> set (ready s) \<and> w \<notin> set (waiting s) \<and> w \<noteq> current s \<and> point_of s w \<in> {SwapOut, TestSet}"
    "waking s t w \<Longrightarrow> waking s u w \<Longrightarrow> t = u" "point_of s t = Enqueue \<Longrightarrow> state_of s t = BLOCKED \<and> t \<notin> set (ready s)"
  using assms unfolding places_def by blast+

text \<open>The running thread \<open>t\<close> goes on to \<open>p\<close>.\<close>

lemma places_at:
  assumes inv: "places s" and t: "t \<in> set (waiting s) \<Longrightarrow> p \<in> {SwapOut, TestSet}"
    and p: "\<And>w. p \<noteq> SetReady w" "\<And>w. p \<noteq> AddReady w" "p = Enqueue \<Longrightarrow> state_of s t = BLOCKED" and c: "t = current s"
  shows "places (at t p s)"
proof -
  note D = placesD [OF inv]
  have wk: "waking (at t p s) u w \<longleftrightarrow> u \<noteq> t \<and> waking s u w" for u w using p by (auto simp: waking_def)
  have "w \<noteq> t \<and> point_of s w \<in> {SwapOut, TestSet}" if "waking s u w" for u w using D(7) [OF that] c by blast
  then have "point_of (at t p s) w \<in> {SwapOut, TestSet}" if "waking s u w" for u w using that by auto
  moreover have "point_of (at t p s) w \<in> {SwapOut, TestSet}" if "w \<in> set (waiting s)" for w using D(6) [OF that] t that by auto
  moreover have "state_of s u = BLOCKED \<and> u \<notin> set (ready s)" if "point_of (at t p s) u = Enqueue" for u
    using that D(3,9) p(3) c by (cases "u = t") auto
  ultimately show ?thesis
    unfolding places_def wk using D(1-5,7,8) by (simp del: insert_iff fun_upd_apply at_simps(7)) blast
qed

text \<open>The processor changes hands.\<close>

lemma places_switch:
  assumes inv: "places s" and t: "t = current s" and s': "pick_next (put_back t s) = Some s'"
  shows "queue_inv s'"
proof -
  note D = placesD [OF inv]
  note K = pick_next_keeps(1-4) [OF s', simplified]
  let ?q = "ready (put_back t s)"
  have out: "t \<notin> set (ready s)" "\<And>u. \<not> waking s u t" using D(3) D(7) [of _ t] t by auto
  have blk: "state_of s t = BLOCKED" if "t \<in> set (waiting s) \<or> point_of s t = Enqueue" using D(5,9) that by blast
  have q: "distinct ?q" "set ?q \<subseteq> insert t (set (ready s))" "t \<in> set ?q \<Longrightarrow> state_of s t \<noteq> BLOCKED"
    using D(1) out(1) by (auto simp: put_back_def put_last_def split: thread_state.splits)
  have st: "state_of (put_back t s) w = BLOCKED" if "state_of s w = BLOCKED" for w
    using that by (auto simp: put_back_def split: thread_state.splits)
  obtain n r where nr: "?q = n # r" "current s' = n" "ready s' = r" "state_of s' = (state_of (put_back t s))(n := RUNNING)"
    using s' by (cases ?q) (auto simp: pick_next_def)
  have away: "w \<notin> set ?q" if w: "w \<in> set (waiting s) \<or> waking s u w \<or> point_of s w = Enqueue" for u w
  proof (cases "w = t")
    case True
    then show ?thesis using w out(2) blk q(3) by blast
  next
    case False
    then show ?thesis using w D(4) D(7) D(9) q(2) by blast
  qed
  have nw: "w \<noteq> current s' \<and> w \<notin> set (ready s')" if "w \<in> set (waiting s) \<or> waking s u w \<or> point_of s w = Enqueue" for u w
    using away [OF that] nr by auto
  have wk: "waking s' = waking s" using K(4) by (simp add: waking_def fun_eq_iff)
  have "distinct (ready s')" "current s' \<notin> set (ready s')" using q(1) nr by auto
  moreover have "set (ready s') \<inter> set (waiting s) = {}" "current s' \<notin> set (waiting s)" using nw by blast+
  moreover have "state_of s' w = BLOCKED" if "w \<in> set (waiting s)" for w
    using nw [of w] st [OF D(5) [OF that]] nr(2,4) that by simp
  moreover have "state_of s' u = BLOCKED" if "point_of s u = Enqueue" for u
    using nw [of u] st [of u] D(9) [OF that] nr(2,4) that by simp
  ultimately show ?thesis
    unfolding queue_inv_def places_def wk K(1,4) using D(2,6,7,8) nw by blast
qed

text \<open>A statement that changes the queues or a state.\<close>

lemma queue_inv_here:
  assumes inv: "queue_inv s" and e: "s' = at (current s) p s''" and keep: "current s'' = current s" "ready s'' = ready s"
      "waiting s'' = waiting s" "state_of s'' = state_of s" "point_of s'' = point_of s"
    and origin: "point_of s (current s) \<noteq> SwapOut" and p: "\<And>w. p \<noteq> SetReady w" "\<And>w. p \<noteq> AddReady w" "p \<noteq> Enqueue"
  shows "queue_inv s'"
proof -
  have nw: "current s \<notin> set (waiting s)" using inv origin by (auto simp: queue_inv_def)
  have "places s''" using inv keep by (simp add: queue_inv_def places_def waking_def)
  then have "places (at (current s) p s'')" by (rule places_at) (use nw keep p in auto)
  then show ?thesis using nw keep by (simp add: queue_inv_def e)
qed

lemma queue_inv_statement:
  assumes inv: "queue_inv s" and s': "statement s = Some s'"
  shows "queue_inv s'"
proof -
  let ?t = "current s"
  have pl: "places s" using inv by (simp add: queue_inv_def)
  note D = placesD [OF pl]
  have nw: "?t \<notin> set (waiting s)" if "point_of s ?t \<noteq> SwapOut" using inv that by (auto simp: queue_inv_def)
  have nk: "\<not> waking s u ?t" for u using D(7) [of u ?t] by blast
  show ?thesis
  proof (cases "point_of s ?t")
    case SwapOut
    then have p: "pick_next (put_back ?t (at ?t TestSet s)) = Some s'" using s' by (simp add: statement_def Let_def)
    have "places (at ?t TestSet s)" by (rule places_at [OF pl]) simp_all
    then show ?thesis using p by (intro places_switch [OF _ _ p]) simp_all
  next
    case SetBlocked
    then have e: "s' = at ?t Enqueue (set_state ?t BLOCKED s)" using s' by (simp add: statement_def Let_def)
    have "places (set_state ?t BLOCKED s)" using pl unfolding places_def waking_def by auto
    then have "places s'" unfolding e by (rule places_at) (use nw SetBlocked in auto)
    then show ?thesis using nw SetBlocked by (simp add: queue_inv_def e)
  next
    case Enqueue
    then have e: "s' = at ?t SwapOut (s\<lparr>waiting := put_last (waiting s) ?t\<rparr>)" using s' by (simp add: statement_def Let_def)
    have w: "waking s' u w \<longleftrightarrow> waking s u w" for u w using Enqueue by (auto simp: waking_def e)
    have pt: "point_of s' w \<in> {SwapOut, TestSet}" if "w \<in> insert ?t (set (waiting s)) \<or> waking s u w" for u w
      using that D(6,7) by (auto simp: e)
    have "places s'"
      unfolding places_def w using D nw Enqueue nk pt by (auto simp: e put_last_def)
    then show ?thesis by (simp add: queue_inv_def e)
  next
    case TakeWaiting
    show ?thesis
    proof (cases "waiting s")
      case Nil
      then have e: "s' = at ?t Outside s" using s' TakeWaiting by (simp add: statement_def Let_def)
      show ?thesis by (rule queue_inv_here [OF inv e]) (use TakeWaiting in simp_all)
    next
      case (Cons w ws)
      then have e: "s' = at ?t (SetReady w) (s\<lparr>waiting := ws\<rparr>)" using s' TakeWaiting by (simp add: statement_def Let_def)
      have "w \<noteq> ?t" "?t \<notin> set ws" "w \<notin> set ws" "w \<notin> set (ready s)" using nw TakeWaiting D(2,4) Cons by auto
      moreover have wk: "waking s' u x \<longleftrightarrow> u = ?t \<and> x = w \<or> waking s u x" for u x using TakeWaiting by (auto simp: waking_def e)
      moreover have "\<not> waking s u w" for u using D(7) [of u w] Cons by auto
      ultimately have "places s'"
        unfolding places_def wk using D nk Cons TakeWaiting by (auto simp: e)
      then show ?thesis using nw TakeWaiting Cons by (simp add: queue_inv_def e)
    qed
  next
    case (SetReady w)
    then have e: "s' = at ?t (AddReady w) (set_state w READY s)" using s' by (simp add: statement_def Let_def)
    have k: "waking s ?t w" using SetReady by (simp add: waking_def)
    have wk: "waking s' = waking s" using SetReady by (auto simp: waking_def e fun_eq_iff)
    have "places s'" unfolding places_def wk using D D(7) [OF k] SetReady nw by (auto simp: e)
    then show ?thesis using nw SetReady by (simp add: queue_inv_def e)
  next
    case (AddReady w)
    then have e: "s' = at ?t Outside (s\<lparr>ready := put_last (ready s) w\<rparr>)" using s' by (simp add: statement_def Let_def)
    have k: "waking s ?t w" using AddReady by (simp add: waking_def)
    have wk: "waking s' u x \<longleftrightarrow> u \<noteq> ?t \<and> waking s u x" for u x by (auto simp: waking_def e)
    note W = D(7) [OF k]
    have "x \<notin> set (ready s') \<and> x \<notin> set (waiting s') \<and> x \<noteq> current s' \<and> point_of s' x \<in> {SwapOut, TestSet}"
      if x: "waking s' u x" for u x
    proof -
      have y: "waking s u x" "u \<noteq> ?t" using x unfolding wk by blast+
      then have "x \<noteq> w" using D(8) [OF k, of u] by blast
      then show ?thesis using D(7) [OF y(1)] by (auto simp: e put_last_def)
    qed
    moreover have "waking s' u x \<Longrightarrow> waking s' v x \<Longrightarrow> u = v" for u v x using D(8) [of u x v] by (simp add: wk)
    moreover have "state_of s' u = BLOCKED \<and> u \<notin> set (ready s')" if "point_of s' u = Enqueue" for u
      using that D(9) [of u] W by (auto simp: e put_last_def split: if_splits)
    moreover have "state_of s' x = BLOCKED \<and> point_of s' x \<in> {SwapOut, TestSet}" if "x \<in> set (waiting s')" for x
      using that D(5,6) [of x] nw AddReady by (auto simp: e)
    moreover have "distinct (ready s')" "distinct (waiting s')" "current s' \<notin> set (ready s')" "set (ready s') \<inter> set (waiting s') = {}"
      using D(1-4) W by (auto simp: e put_last_def)
    ultimately have "places s'" unfolding places_def by blast
    then show ?thesis using nw AddReady by (simp add: queue_inv_def e)
  qed (use s' in \<open>auto simp: statement_def Let_def intro!: queue_inv_here [OF inv refl] split: if_splits\<close>)
qed

lemma queue_inv_step:
  assumes "mstep s s'" "queue_inv s"
  shows "queue_inv s'"
  using assms(1)
proof cases
  case (1 m)
  show ?thesis
  proof (cases m)
    case Lock
    then have "point_of s (current s) = Outside" "s' = at (current s) TestSet s" using 1 by (auto split: if_splits)
    then show ?thesis using queue_inv_here [OF assms(2), of s' TestSet s] by simp
  next
    case Unlock
    then have "point_of s (current s) \<noteq> SwapOut" "s' = at (current s) CheckOwner s" using 1 by (auto split: if_splits)
    then show ?thesis using queue_inv_here [OF assms(2), of s' CheckOwner s] by simp
  next
    case Go
    then show ?thesis using 1 queue_inv_statement [OF assms(2)] by simp
  next
    case Tick
    then show ?thesis using 1 places_switch [of s _ s'] assms(2) by (simp add: queue_inv_def)
  qed
qed

lemma mreach_queue_inv: "mreach n s \<Longrightarrow> queue_inv s"
proof (induction rule: mreach.induct)
  case start
  show ?case by (simp add: queue_inv_def places_def waking_def fresh_cpu_def)
qed (rule queue_inv_step)

section \<open>What preemption can and cannot do\<close>

lemmas run_simps = fresh_cpu_def statement_def Let_def pick_next_def put_back_def put_last_def upt_conv_Cons at_def set_state_def

text \<open>Three runs: thread 1 waits for thread 0, is interrupted before \<open>enqueue\<close>, and before it is \<open>BLOCKED\<close>.\<close>

definition waits_cpu :: cpu where
  "waits_cpu = \<lparr>current = 0, ready = [], waiting = [1], flag = True, owner = Some 0,
     state_of = (\<lambda>_. READY)(1 := BLOCKED, 0 := RUNNING), point_of = (\<lambda>_. Outside)(0 := Inside, 1 := TestSet)\<rparr>"

definition lost_cpu :: cpu where
  "lost_cpu = \<lparr>current = 0, ready = [], waiting = [], flag = True, owner = Some 0,
     state_of = (\<lambda>_. READY)(1 := BLOCKED, 0 := RUNNING), point_of = (\<lambda>_. Outside)(0 := Inside, 1 := Enqueue)\<rparr>"

definition late_cpu :: cpu where
  "late_cpu = \<lparr>current = 0, ready = [], waiting = [1], flag = False, owner = None,
     state_of = (\<lambda>_. READY)(1 := BLOCKED, 0 := RUNNING), point_of = (\<lambda>_. Outside)(0 := Outside, 1 := TestSet)\<rparr>"

lemma waits_cpu_reach: "mreach 2 waits_cpu"
  by (rule plays_reach [OF _ mreach.start, of "[Lock, Go, Go, Tick, Lock, Go, Go, Go, Go, Go]"]) (simp add: run_simps waits_cpu_def)

text \<open>C21: Mutual exclusion does not depend on where the timer interrupts: in every state that any number
  of threads reach, at most one has the mutex (it is between its successful test-and-set and the clearing
  of the flag), the flag is set exactly then, and a thread in its critical section is the recorded owner,
  so that no other thread can unlock.\<close>

theorem mutex_excludes_preempted:
  assumes "mreach n s"
  shows "(\<forall>t u. holds s t \<and> holds s u \<longrightarrow> t = u) \<and> (flag s \<longleftrightarrow> (\<exists>t. holds s t)) \<and>
    (\<forall>t. point_of s t = Inside \<longrightarrow> owner s = Some t \<and> holds s t)"
proof (intro conjI)
  note inv = mreach_mutex_inv [OF assms, unfolded mutex_inv_def]
  show "\<forall>t u. holds s t \<and> holds s u \<longrightarrow> t = u" "flag s \<longleftrightarrow> (\<exists>t. holds s t)" using inv by blast+
  show "\<forall>t. point_of s t = Inside \<longrightarrow> owner s = Some t \<and> holds s t" using inv by (simp add: holds_def)
qed

theorem mutex_excludes_preempted_witness:
  "owner waits_cpu = Some 0 \<and> holds waits_cpu 0 \<and> \<not> holds waits_cpu 1"
proof -
  note M = mutex_excludes_preempted [OF waits_cpu_reach]
  have "point_of waits_cpu 0 = Inside" by (simp add: waits_cpu_def)
  then have "owner waits_cpu = Some 0 \<and> holds waits_cpu 0" using M by blast
  moreover have "\<not> holds waits_cpu 1"
  proof
    assume "holds waits_cpu 1"
    then have "(1 :: nat) = 0" using M calculation by blast
    then show False by simp
  qed
  ultimately show ?thesis by blast
qed


definition caught_cpu :: cpu where
  "caught_cpu = \<lparr>current = 1, ready = [0], waiting = [], flag = True, owner = Some 0,
     state_of = (\<lambda>_. READY)(1 := BLOCKED, 0 := READY), point_of = (\<lambda>_. Outside)(0 := Inside, 1 := Enqueue)\<rparr>"


text \<open>
  The mutex is free, and the threads in \<open>worker_mutex_lock\<close> are past the test-and-set; those that
  are \<open>BLOCKED\<close> are on no way back to the processor.
\<close>

definition in_lock :: "point set" where
  "in_lock = {TestState, SetBlocked, Enqueue, SwapOut, TestSet}"

definition unlocked :: "cpu \<Rightarrow> bool" where
  "unlocked s \<longleftrightarrow> \<not> flag s \<and> owner s = None \<and> (\<forall>u. point_of s u \<in> {Outside, CheckOwner} \<union> in_lock) \<and>
     (\<forall>u. point_of s u \<in> {Enqueue, SwapOut, TestSet} \<longrightarrow> state_of s u = BLOCKED \<and> u \<notin> set (ready s)) \<and>
     (\<forall>u. point_of s u = TestSet \<longrightarrow> current s \<noteq> u)"

lemma unlockedI:
  assumes "\<not> flag s" "owner s = None" "\<And>u. point_of s u \<in> {Outside, TestState, SetBlocked}"
  shows "unlocked s"
proof -
  have "point_of s u \<notin> {Enqueue, SwapOut, TestSet}" for u using assms(3) [of u] by auto
  then show ?thesis using assms unfolding unlocked_def in_lock_def by auto
qed

lemma unlocked_switch:
  assumes inv: "unlocked s" and s': "pick_next (put_back (current s) (at (current s) p s)) = Some s'"
    and p: "p = point_of s (current s) \<or> point_of s (current s) = SwapOut \<and> p = TestSet"
  shows "unlocked s'"
proof -
  let ?s = "put_back (current s) (at (current s) p s)"
  note K = pick_next_keeps(1-4) [OF s', simplified]
  have b: "state_of s u = BLOCKED \<and> u \<notin> set (ready s)" if "point_of ?s u \<in> {Enqueue, SwapOut, TestSet}" for u
    using inv that p by (auto simp: unlocked_def split: if_splits)
  have A: "state_of ?s u = BLOCKED \<and> u \<notin> set (ready ?s)" if "point_of ?s u \<in> {Enqueue, SwapOut, TestSet}" for u
    using b [OF that] by (auto simp: put_back_def put_last_def split: thread_state.split)
  obtain m r where r: "ready ?s = m # r" and e: "s' = (set_state m RUNNING ?s)\<lparr>ready := r, current := m\<rparr>"
    using s' by (cases "ready ?s") (auto simp: pick_next_def)
  have "\<forall>u. point_of s' u \<in> {Outside, CheckOwner} \<union> in_lock"
    using inv p by (auto simp: unlocked_def in_lock_def e)
  moreover have B: "u \<noteq> m \<and> state_of s' u = BLOCKED \<and> u \<notin> set (ready s')" if "point_of s' u \<in> {Enqueue, SwapOut, TestSet}" for u
    using A [of u] that r by (auto simp: e)
  moreover have c: "current s' = m" by (simp add: e)
  have "\<forall>u. point_of s' u = TestSet \<longrightarrow> current s' \<noteq> u" using B unfolding c by blast
  ultimately show ?thesis using inv B by (simp only: unlocked_def K(2,3) at_simps) blast
qed

lemma unlocked_step:
  assumes inv: "unlocked s" and q: "queue_inv s" and st: "play m s = Some s'" and m: "m \<noteq> Lock"
  shows "unlocked s'" "point_of s w \<in> in_lock \<Longrightarrow> point_of s' w \<in> in_lock"
proof -
  let ?t = "current s"
  have out: "?t \<notin> set (ready s)" using q placesD(3) by (auto simp: queue_inv_def)
  have pt: "point_of s ?t \<in> {Outside, CheckOwner, TestState, SetBlocked, Enqueue, SwapOut}"
    using inv by (auto simp: unlocked_def in_lock_def)
  have "unlocked s' \<and> (point_of s w \<in> in_lock \<longrightarrow> point_of s' w \<in> in_lock)"
  proof (cases m)
    case Unlock
    then have "point_of s ?t = Outside" "s' = at ?t CheckOwner s" using st pt by (auto split: if_splits)
    then show ?thesis using inv by (auto simp: unlocked_def in_lock_def)
  next
    case Tick
    then have p: "pick_next (put_back ?t (at ?t (point_of s ?t) s)) = Some s'" using st by (simp add: at_def)
    show ?thesis using unlocked_switch [OF inv p] pick_next_keeps(4) [OF p] by simp
  next
    case Go
    then have st: "statement s = Some s'" using st by simp
    show ?thesis
    proof (cases "point_of s ?t")
      case SwapOut
      then have p: "pick_next (put_back ?t (at ?t TestSet s)) = Some s'" using st by (simp add: statement_def Let_def)
      show ?thesis using unlocked_switch [OF inv p] pick_next_keeps(4) [OF p] SwapOut by (auto simp: in_lock_def)
    qed (use pt st inv out in \<open>auto simp: statement_def Let_def unlocked_def in_lock_def put_last_def split: if_splits\<close>)
  qed (use m in simp)
  then show "unlocked s'" "point_of s w \<in> in_lock \<Longrightarrow> point_of s' w \<in> in_lock" by blast+
qed

lemma unlocked_plays:
  assumes "mreach n s" "plays ms s = Some s'" "Lock \<notin> set ms" "unlocked s" "point_of s w \<in> in_lock"
  shows "unlocked s' \<and> point_of s' w \<in> in_lock"
  using assms
proof (induction ms arbitrary: s)
  case (Cons m ms)
  obtain s1 where s1: "play m s = Some s1" "plays ms s1 = Some s'" using Cons.prems(2) by (auto split: Option.bind_splits)
  have "m \<noteq> Lock" "Lock \<notin> set ms" using Cons.prems(3) by auto
  note U = unlocked_step [OF Cons.prems(4) mreach_queue_inv [OF Cons.prems(1)] s1(1) this(1)]
  show ?case
    by (rule Cons.IH [OF _ s1(2) \<open>Lock \<notin> set ms\<close> U(1) U(2) [OF Cons.prems(5)]])
      (rule mreach.step [OF Cons.prems(1) mstep.intros [OF s1(1)]])
qed simp


definition released_cpu :: cpu where
  "released_cpu = \<lparr>current = 0, ready = [1], waiting = [], flag = False, owner = None,
     state_of = (\<lambda>_. READY)(0 := RUNNING), point_of = (\<lambda>_. Outside)(0 := TakeWaiting, 1 := TestState)\<rparr>"


end
