(* ===== verification/P1_Counter.thy ===== *)
theory P1_Counter
  imports Prelude
begin

text \<open>
  The two demonstration programs of \<open>proj1-submit\<close>. \<open>threads.c\<close>: two threads add to a shared counter
  under a mutex, as a step relation that interleaves the main program and the threads, with the load
  and the store of \<open>x = x + 1\<close> as two steps. \<open>ucontext.c\<close>: a worker context that returns to the main
  context. The calls of \<open>pthread\<close> and \<open>ucontext\<close> behave as documented: a lock waits until the mutex is
  free, a join until the thread has ended, \<open>setcontext\<close> goes on where \<open>getcontext\<close> saved.
\<close>

section \<open>A counter shared by two threads\<close>

text \<open>Where a thread is in \<open>add_counter\<close>: not created, at the loop test, holding the lock before the
  load, between the load of a value and the store, before the unlock, returned.\<close>

datatype pc = NotCreated | Test | Load | Store int | Unlock | Returned

datatype main_pc = Create1 | Create2 | Join1 | Join2 | Printed int

record counter =
  cnt :: int
  holder :: "nat option"
  pc_of :: "nat \<Rightarrow> pc"
  i_of :: "nat \<Rightarrow> int"
  main_pc :: main_pc

definition counter_start :: counter where
  "counter_start = \<lparr>cnt = 0, holder = None, pc_of = \<lambda>_. NotCreated, i_of = \<lambda>_. 0, main_pc = Create1\<rparr>"

text \<open>One step of \<open>add_counter\<close> in thread \<open>t\<close>; an overflow of \<open>x\<close> is undefined, so it has no step.\<close>

inductive add_counter :: "int \<Rightarrow> nat \<Rightarrow> counter \<Rightarrow> counter \<Rightarrow> bool" for loop t where
  lock: "pc_of s t = Test \<Longrightarrow> i_of s t < loop \<Longrightarrow> holder s = None \<Longrightarrow>
    add_counter loop t s (s\<lparr>holder := Some t, pc_of := (pc_of s)(t := Load)\<rparr>)"
| load: "pc_of s t = Load \<Longrightarrow> add_counter loop t s (s\<lparr>pc_of := (pc_of s)(t := Store (cnt s))\<rparr>)"
| store: "pc_of s t = Store v \<Longrightarrow> v + 1 < 2 ^ 31 \<Longrightarrow>
    add_counter loop t s (s\<lparr>cnt := v + 1, pc_of := (pc_of s)(t := Unlock)\<rparr>)"
| unlock: "pc_of s t = Unlock \<Longrightarrow>
    add_counter loop t s (s\<lparr>holder := None, pc_of := (pc_of s)(t := Test), i_of := (i_of s)(t := i_of s t + 1)\<rparr>)"
| return: "pc_of s t = Test \<Longrightarrow> \<not> i_of s t < loop \<Longrightarrow>
    add_counter loop t s (s\<lparr>pc_of := (pc_of s)(t := Returned)\<rparr>)"

text \<open>One step of \<open>main\<close>: it creates the threads 1 and 2, joins them and prints the counter.\<close>

inductive main_step :: "counter \<Rightarrow> counter \<Rightarrow> bool" where
  create1: "main_pc s = Create1 \<Longrightarrow> main_step s (s\<lparr>pc_of := (pc_of s)(1 := Test), main_pc := Create2\<rparr>)"
| create2: "main_pc s = Create2 \<Longrightarrow> main_step s (s\<lparr>pc_of := (pc_of s)(2 := Test), main_pc := Join1\<rparr>)"
| join1: "main_pc s = Join1 \<Longrightarrow> pc_of s 1 = Returned \<Longrightarrow> main_step s (s\<lparr>main_pc := Join2\<rparr>)"
| join2: "main_pc s = Join2 \<Longrightarrow> pc_of s 2 = Returned \<Longrightarrow> main_step s (s\<lparr>main_pc := Printed (cnt s)\<rparr>)"

inductive counter_step :: "int \<Rightarrow> counter \<Rightarrow> counter \<Rightarrow> bool" for loop where
  main: "main_step s s' \<Longrightarrow> counter_step loop s s'"
| thread: "t = 1 \<or> t = 2 \<Longrightarrow> add_counter loop t s s' \<Longrightarrow> counter_step loop s s'"

inductive counter_reach :: "int \<Rightarrow> counter \<Rightarrow> bool" for loop where
  start: "counter_reach loop counter_start"
| step: "counter_reach loop s \<Longrightarrow> counter_step loop s s' \<Longrightarrow> counter_reach loop s'"

section \<open>Invariant\<close>

definition inside :: "pc \<Rightarrow> bool" where
  "inside p \<longleftrightarrow> p = Load \<or> (\<exists>v. p = Store v) \<or> p = Unlock"

text \<open>The increments a thread has stored.\<close>

definition added :: "counter \<Rightarrow> nat \<Rightarrow> int" where
  "added s t = i_of s t + (if pc_of s t = Unlock then 1 else 0)"

definition thread_inv :: "int \<Rightarrow> counter \<Rightarrow> nat \<Rightarrow> bool" where
  "thread_inv loop s t \<longleftrightarrow> (inside (pc_of s t) \<longleftrightarrow> holder s = Some t) \<and> 0 \<le> i_of s t \<and> i_of s t \<le> max 0 loop \<and>
     (inside (pc_of s t) \<longrightarrow> i_of s t < loop) \<and> (\<forall>v. pc_of s t = Store v \<longrightarrow> v = cnt s) \<and>
     (pc_of s t = NotCreated \<longrightarrow> i_of s t = 0) \<and> (pc_of s t = Returned \<longrightarrow> i_of s t = max 0 loop)"

definition counter_inv :: "int \<Rightarrow> counter \<Rightarrow> bool" where
  "counter_inv loop s \<longleftrightarrow> thread_inv loop s 1 \<and> thread_inv loop s 2 \<and> (\<forall>t. holder s = Some t \<longrightarrow> t = 1 \<or> t = 2) \<and>
     cnt s = added s 1 + added s 2 \<and>
     (pc_of s 1 = NotCreated \<longleftrightarrow> main_pc s = Create1) \<and>
     (pc_of s 2 = NotCreated \<longleftrightarrow> main_pc s = Create1 \<or> main_pc s = Create2) \<and>
     (main_pc s = Join2 \<or> (\<exists>v. main_pc s = Printed v) \<longrightarrow> pc_of s 1 = Returned) \<and>
     (\<forall>v. main_pc s = Printed v \<longrightarrow> pc_of s 2 = Returned \<and> v = cnt s)"

lemma inside_simps [simp]: "inside Load" "inside (Store v)" "inside Unlock" "\<not> inside Test" "\<not> inside Returned" "\<not> inside NotCreated"
  by (simp_all add: inside_def)

lemma thread_invD:
  assumes "thread_inv loop s t"
  shows "inside (pc_of s t) \<Longrightarrow> holder s = Some t" "holder s = Some t \<Longrightarrow> inside (pc_of s t)" "0 \<le> i_of s t"
    "i_of s t \<le> max 0 loop" "inside (pc_of s t) \<Longrightarrow> i_of s t < loop" "pc_of s t = Store v \<Longrightarrow> v = cnt s"
    "pc_of s t = NotCreated \<Longrightarrow> i_of s t = 0" "pc_of s t = Returned \<Longrightarrow> i_of s t = max 0 loop"
  using assms unfolding thread_inv_def by blast+

text \<open>A step of thread \<open>t\<close>: what it keeps of itself and of another thread \<open>u\<close>, and what it adds to \<open>x\<close>.\<close>

lemma add_counter_inv:
  assumes "add_counter loop t s s'" "thread_inv loop s t" "thread_inv loop s u" "u \<noteq> t"
  shows "thread_inv loop s' t" "thread_inv loop s' u" "cnt s' - cnt s = added s' t - added s t" "added s' u = added s u"
    "pc_of s' t \<noteq> NotCreated" "pc_of s t \<noteq> NotCreated" "pc_of s t \<noteq> Returned" "pc_of s' u = pc_of s u"
    "main_pc s' = main_pc s" "holder s' = None \<or> holder s' = Some t \<or> holder s' = holder s"
proof -
  note T = thread_invD [OF assms(2)] and U = thread_invD [OF assms(3)]
  have "thread_inv loop s' t \<and> thread_inv loop s' u \<and> cnt s' - cnt s = added s' t - added s t"
    using assms(1)
  proof (cases rule: add_counter.cases)
    case lock
    then have "\<not> inside (pc_of s u)" using U(1) by auto
    then show ?thesis using lock T(3,4) U(3-8) assms(4) by (auto simp: thread_inv_def added_def)
  next
    case load
    then have "holder s = Some t" "i_of s t < loop" using T(1,5) by simp_all
    moreover from this have "\<not> inside (pc_of s u)" using U(1) assms(4) by auto
    ultimately show ?thesis using load T(3,4) U(3-8) assms(4) by (auto simp: thread_inv_def added_def)
  next
    case (store v)
    then have "holder s = Some t" "i_of s t < loop" "v = cnt s" using T(1,5,6) by simp_all
    moreover from this have "\<not> inside (pc_of s u)" using U(1) assms(4) by auto
    ultimately show ?thesis using store(1,2) T(3,4) U(3-8) assms(4) by (auto simp: thread_inv_def added_def)
  next
    case unlock
    then have "holder s = Some t" "i_of s t < loop" using T(1,5) by simp_all
    moreover from this have "\<not> inside (pc_of s u)" using U(1) assms(4) by auto
    ultimately show ?thesis using unlock T(3,4) U(3-8) assms(4) by (auto simp: thread_inv_def added_def)
  next
    case return
    then have "holder s \<noteq> Some t" using T(2) by auto
    then show ?thesis using return T(3,4) assms(3,4) by (auto simp: thread_inv_def added_def)
  qed
  then show "thread_inv loop s' t" "thread_inv loop s' u" "cnt s' - cnt s = added s' t - added s t" by blast+
  show "added s' u = added s u" "pc_of s' t \<noteq> NotCreated" "pc_of s t \<noteq> NotCreated" "pc_of s t \<noteq> Returned"
    "pc_of s' u = pc_of s u" "main_pc s' = main_pc s" "holder s' = None \<or> holder s' = Some t \<or> holder s' = holder s"
    using assms(1,4) by (cases rule: add_counter.cases; simp add: added_def)+
qed

lemma counter_inv_thread:
  assumes step: "add_counter loop t s s'" and t: "t = 1 \<or> t = 2" and inv: "counter_inv loop s"
  shows "counter_inv loop s'"
proof -
  have I: "thread_inv loop s 1" "thread_inv loop s 2" "\<And>t. holder s = Some t \<Longrightarrow> t = 1 \<or> t = 2" "cnt s = added s 1 + added s 2"
    "pc_of s 1 = NotCreated \<longleftrightarrow> main_pc s = Create1"
    "pc_of s 2 = NotCreated \<longleftrightarrow> main_pc s = Create1 \<or> main_pc s = Create2"
    "main_pc s = Join2 \<or> (\<exists>v. main_pc s = Printed v) \<longrightarrow> pc_of s 1 = Returned"
    "\<And>v. main_pc s = Printed v \<Longrightarrow> pc_of s 2 = Returned \<and> v = cnt s"
    using inv by (auto simp: counter_inv_def)
  from t show ?thesis
  proof
    assume t: "t = 1"
    note A = add_counter_inv [OF step [unfolded t] I(1,2), simplified]
    have "\<not> (\<exists>v. main_pc s = Printed v)" "main_pc s \<noteq> Join2" using A(7) I(7) by auto
    then show ?thesis unfolding counter_inv_def using A I(3-6) by auto
  next
    assume t: "t = 2"
    note A = add_counter_inv [OF step [unfolded t] I(2,1), simplified]
    have "\<not> (\<exists>v. main_pc s = Printed v)" using A(7) I(8) by auto
    then show ?thesis unfolding counter_inv_def using A I(3-7) by auto
  qed
qed

lemma counter_inv_main:
  assumes "main_step s s'" "counter_inv loop s"
  shows "counter_inv loop s'"
  using assms
  by (induction rule: main_step.induct) (auto simp: counter_inv_def thread_inv_def added_def split: if_splits)

lemma counter_reach_inv: "counter_reach loop s \<Longrightarrow> counter_inv loop s"
proof (induction rule: counter_reach.induct)
  case start
  then show ?case by (simp add: counter_inv_def thread_inv_def added_def counter_start_def)
next
  case (step s s')
  from step.hyps(2) step.IH show ?case
    by (cases rule: counter_step.cases) (auto intro: counter_inv_main counter_inv_thread)
qed

section \<open>Progress\<close>

text \<open>As long as the program has not printed, some step is possible: the mutex never deadlocks.\<close>

lemma counter_progress:
  assumes inv: "counter_inv loop s" and small: "2 * loop < 2 ^ 31" and run: "\<And>v. main_pc s \<noteq> Printed v"
  shows "\<exists>s'. counter_step loop s s'"
proof -
  have I: "thread_inv loop s 1" "thread_inv loop s 2" "\<And>t. holder s = Some t \<Longrightarrow> t = 1 \<or> t = 2" "cnt s = added s 1 + added s 2"
    "pc_of s 1 = NotCreated \<longleftrightarrow> main_pc s = Create1"
    "pc_of s 2 = NotCreated \<longleftrightarrow> main_pc s = Create1 \<or> main_pc s = Create2"
    "main_pc s = Join2 \<longrightarrow> pc_of s 1 = Returned"
    using inv by (auto simp: counter_inv_def)
  note T = thread_invD [OF I(1)] thread_invD [OF I(2)]
  have go: "\<exists>s'. counter_step loop s s'" if "add_counter loop t s s'" "t = 1 \<or> t = 2" for t s'
    using that counter_step.thread by blast
  have bound: "cnt s + 1 < 2 ^ 31" if "pc_of s t = Store v" "t = 1 \<or> t = 2" for t v
    using that(2)
  proof
    assume t: "t = 1"
    have "i_of s 1 < loop" using T(5) that(1) t by simp
    moreover have "added s 1 = i_of s 1" using that(1) t by (simp add: added_def)
    moreover have "added s 2 \<le> max 0 loop" using T(12,13) by (auto simp: added_def)
    ultimately show ?thesis using I(4) small by simp
  next
    assume t: "t = 2"
    have "i_of s 2 < loop" using T(13) that(1) t by simp
    moreover have "added s 2 = i_of s 2" using that(1) t by (simp add: added_def)
    moreover have "added s 1 \<le> max 0 loop" using T(4,5) by (auto simp: added_def)
    ultimately show ?thesis using I(4) small by simp
  qed
  have inside: "\<exists>s'. counter_step loop s s'" if h: "holder s = Some t" for t
  proof -
    have t: "t = 1 \<or> t = 2" using I(3) h .
    then have "inside (pc_of s t)" using T(2,10) h by auto
    then consider "pc_of s t = Load" | v where "pc_of s t = Store v" | "pc_of s t = Unlock" by (auto simp: inside_def)
    then show ?thesis
    proof cases
      case (2 v)
      have "v = cnt s" using t T(6,14) 2 by auto
      then have "v + 1 < 2 ^ 31" using bound [OF 2 t] by simp
      then show ?thesis by (intro go [OF add_counter.store [OF 2] t])
    qed (use go t add_counter.load add_counter.unlock in blast)+
  qed
  have test: "\<exists>s'. counter_step loop s s'" if "holder s = None" "pc_of s t = Test" "t = 1 \<or> t = 2" for t
    using that go add_counter.lock add_counter.return by (cases "i_of s t < loop") blast+
  show ?thesis
  proof (cases "holder s")
    case None
    have out: "pc_of s t \<noteq> Load" "pc_of s t \<noteq> Unlock" "pc_of s t \<noteq> Store v" if "t = 1 \<or> t = 2" for t v
      using that T(1,9) None by auto
    show ?thesis
    proof (cases "main_pc s")
      case Join1
      then have "pc_of s 1 \<noteq> NotCreated" using I(5) by simp
      then show ?thesis using out [of 1] test [OF None, of 1] Join1 main_step.join1 counter_step.main by (cases "pc_of s 1") blast+
    next
      case Join2
      then have "pc_of s 2 \<noteq> NotCreated" using I(6) by simp
      then show ?thesis using out [of 2] test [OF None, of 2] Join2 main_step.join2 counter_step.main by (cases "pc_of s 2") blast+
    qed (use run main_step.create1 main_step.create2 counter_step.main in blast)+
  next
    case (Some t)
    then show ?thesis by (rule inside)
  qed
qed

text \<open>Every step brings the program nearer to its end.\<close>

fun pc_left :: "pc \<Rightarrow> nat" where
  "pc_left NotCreated = 6"
| "pc_left Test = 5"
| "pc_left Load = 4"
| "pc_left (Store v) = 3"
| "pc_left Unlock = 2"
| "pc_left Returned = 0"

fun main_left :: "main_pc \<Rightarrow> nat" where
  "main_left Create1 = 4"
| "main_left Create2 = 3"
| "main_left Join1 = 2"
| "main_left Join2 = 1"
| "main_left (Printed v) = 0"

definition counter_left :: "int \<Rightarrow> counter \<Rightarrow> nat" where
  "counter_left loop s = main_left (main_pc s) + pc_left (pc_of s 1) + 4 * nat (max 0 loop - i_of s 1) +
     pc_left (pc_of s 2) + 4 * nat (max 0 loop - i_of s 2)"

lemma counter_left_less:
  assumes step: "counter_step loop s s'" and inv: "counter_inv loop s"
  shows "counter_left loop s' < counter_left loop s"
  using step
proof (cases rule: counter_step.cases)
  case main
  have nc: "pc_of s 1 = NotCreated \<longleftrightarrow> main_pc s = Create1" "pc_of s 2 = NotCreated \<longleftrightarrow> main_pc s = Create1 \<or> main_pc s = Create2"
    using inv by (auto simp: counter_inv_def)
  from main show ?thesis by (cases rule: main_step.cases) (use nc in \<open>auto simp: counter_left_def\<close>)
next
  case (thread t)
  have I: "thread_inv loop s 1" "thread_inv loop s 2" using inv unfolding counter_inv_def by blast+
  have lt: "i_of s 1 < loop \<or> pc_of s 1 \<noteq> Unlock" "i_of s 2 < loop \<or> pc_of s 2 \<noteq> Unlock"
    using thread_invD(5) [OF I(1)] thread_invD(5) [OF I(2)] by auto
  from thread(2) show ?thesis
    by (cases rule: add_counter.cases) (use lt thread(1) in \<open>auto simp: counter_left_def\<close>)
qed

text \<open>So the program comes to its end, whatever the interleaving.\<close>

lemma counter_ends:
  assumes "counter_reach loop s" "2 * loop < 2 ^ 31"
  shows "\<exists>s' v. counter_reach loop s' \<and> main_pc s' = Printed v"
  using assms(1)
proof (induction "counter_left loop s" arbitrary: s rule: less_induct)
  case less
  show ?case
  proof (cases "\<exists>v. main_pc s = Printed v")
    case True
    then show ?thesis using less.prems by blast
  next
    case False
    note inv = counter_reach_inv [OF less.prems]
    obtain s' where s': "counter_step loop s s'" using counter_progress [OF inv assms(2)] False by blast
    show ?thesis
      by (rule less.hyps [OF counter_left_less [OF s' inv] counter_reach.step [OF less.prems s']])
  qed
qed

lemma counter_printed:
  assumes "counter_inv loop s" "main_pc s = Printed v"
  shows "v = 2 * max 0 loop"
proof -
  have I: "thread_inv loop s 1" "thread_inv loop s 2" "pc_of s 1 = Returned" "pc_of s 2 = Returned" "v = cnt s"
    "cnt s = added s 1 + added s 2"
    using assms unfolding counter_inv_def by blast+
  show ?thesis using thread_invD(8) [OF I(1,3)] thread_invD(8) [OF I(2,4)] I(3-6) by (simp add: added_def)
qed

section \<open>A worker context\<close>

text \<open>What the calls of \<open>ucontext.c\<close> answer: whether each succeeds.\<close>

record uenv =
  u_getcontext_main :: bool
  u_getcontext :: bool
  u_malloc :: bool
  u_setcontext :: bool

record uctx =
  resumed_to_main :: bool
  w1_stack :: "nat option"
  printed :: "string list"

definition say :: "string \<Rightarrow> uctx \<Rightarrow> uctx" where
  "say msg c = c\<lparr>printed := printed c @ [msg]\<rparr>"

definition worker1 :: "uctx \<Rightarrow> uctx" where
  "worker1 c = say ''In worker: returning (uc_link will switch back to main)'' (say ''In worker: started'' c)"

text \<open>\<open>None\<close> is \<open>exit(1)\<close>; the stack is at the address 1.\<close>

definition init_context :: "uenv \<Rightarrow> uctx \<Rightarrow> uctx option" where
  "init_context e c = (if \<not> u_getcontext e then None else if \<not> u_malloc e then None else Some (c\<lparr>w1_stack := Some 1\<rparr>))"

text \<open>\<open>main\<close> after \<open>getcontext\<close>, where the return of the worker resumes it: the exit status.\<close>

function main_saved :: "uenv \<Rightarrow> uctx \<Rightarrow> int \<times> uctx" where
  "main_saved e c =
     (if resumed_to_main c then (0, say ''In main: stack cleared'' (c\<lparr>w1_stack := None\<rparr>))
      else let c = c\<lparr>resumed_to_main := True\<rparr>
           in case init_context e c of
                None \<Rightarrow> (1, c)
              | Some c \<Rightarrow>
                  let c = say ''In main: transferring control to worker using setcontext'' c
                  in if \<not> u_setcontext e then (1, c) else main_saved e (worker1 c))"
  by pat_completeness auto
termination
  by (relation "measure (\<lambda>(e, c). if resumed_to_main c then 0 else 1)")
    (auto simp: init_context_def worker1_def say_def split: if_splits)

declare main_saved.simps [simp del]

definition ucontext_main :: "uenv \<Rightarrow> int \<times> uctx" where
  "ucontext_main e =
     (let c = \<lparr>resumed_to_main = False, w1_stack = None, printed = [''In main: saving main context with getcontext'']\<rparr>
      in if \<not> u_getcontext_main e then (1, c) else main_saved e c)"

text \<open>
  The worker runs exactly once and the program ends with status 0 and its stack freed when the calls
  succeed; with status 1 otherwise.
\<close>

lemma ucontext_main_spec:
  "u_getcontext_main e \<and> u_getcontext e \<and> u_malloc e \<and> u_setcontext e \<Longrightarrow>
   ucontext_main e = (0, \<lparr>resumed_to_main = True, w1_stack = None, printed =
     [''In main: saving main context with getcontext'', ''In main: transferring control to worker using setcontext'',
      ''In worker: started'', ''In worker: returning (uc_link will switch back to main)'', ''In main: stack cleared'']\<rparr>)"
  by (simp add: ucontext_main_def main_saved.simps init_context_def worker1_def say_def)

lemma ucontext_main_fails:
  "\<not> (u_getcontext_main e \<and> u_getcontext e \<and> u_malloc e \<and> u_setcontext e) \<Longrightarrow> fst (ucontext_main e) = 1"
  by (auto simp: ucontext_main_def main_saved.simps init_context_def Let_def)

end
