(* ===== verification/Samples.thy ===== *)
theory Samples
  imports Prelude
begin

text \<open>
  The programs of \<open>project2-release/sample-code\<close>: saved processor contexts (\<open>getcontext.c\<close>,
  \<open>makecontext.c\<close>, \<open>swapcontext.c\<close>) and the profiling timer (\<open>timer.c\<close>). A context is the point where
  its resumption goes on. What the calls answer is a parameter. Output is the list of the strings printed,
  without their last newlines.
\<close>

section \<open>Programs and contexts\<close>

text \<open>
  The points of the three programs, in the order of the code; \<open>InFunction\<close> is the function a context was
  made to start at, \<open>Leaves k\<close> the end of the process with status \<open>k\<close>, \<open>Wild\<close> an undefined run.
\<close>

datatype spot =
    Begin
  | CallGet
  | GetReturns
  | MakeStack
  | SetUp
  | CallMake
  | SayMade
  | CallSet
  | AfterSet
  | InFunction
  | FunctionSets
  | FunctionReturns
  | Leaves int
  | Wild

record calls =
  argc :: int
  getcontext_ok :: bool
  malloc_ok :: bool
  setcontext_ok :: bool

text \<open>\<open>cctx\<close> and \<open>nctx\<close> are the two contexts; \<open>on_stack\<close> is whether \<open>cctx\<close> has its stack.\<close>

record process =
  spot_of :: spot
  cctx :: "spot option"
  nctx :: "spot option"
  on_stack :: bool
  written :: "string list"

definition go :: "spot \<Rightarrow> process \<Rightarrow> process" where
  "go x p = p\<lparr>spot_of := x\<rparr>"

definition puts :: "string \<Rightarrow> process \<Rightarrow> process" where
  "puts msg p = p\<lparr>written := written p @ [msg]\<rparr>"

text \<open>\<open>setcontext\<close> goes on where the context says; it returns only when it fails.\<close>

definition setcontext :: "bool \<Rightarrow> spot option \<Rightarrow> spot \<Rightarrow> process \<Rightarrow> process" where
  "setcontext ok ctx failed p = (if \<not> ok then go failed p else case ctx of None \<Rightarrow> go Wild p | Some x \<Rightarrow> go x p)"

definition begin_process :: process where
  "begin_process = \<lparr>spot_of = Begin, cctx = None, nctx = None, on_stack = False, written = []\<rparr>"

fun running :: "(process \<Rightarrow> process) \<Rightarrow> nat \<Rightarrow> process" where
  "running f 0 = begin_process"
| "running f (Suc k) = f (running f k)"

text \<open>The first statements are those of all three programs.\<close>

definition check_arguments :: "calls \<Rightarrow> string \<Rightarrow> process \<Rightarrow> process" where
  "check_arguments e usage p = (if argc e \<noteq> 1 then go (Leaves 1) (puts usage p) else go CallGet p)"

definition save_context :: "calls \<Rightarrow> process \<Rightarrow> process" where
  "save_context e p = (if \<not> getcontext_ok e then go (Leaves 1) p else go GetReturns (p\<lparr>cctx := Some GetReturns\<rparr>))"

section \<open>getcontext.c\<close>

definition getcontext_main :: "calls \<Rightarrow> process \<Rightarrow> process" where
  "getcontext_main e p = (case spot_of p of
     Begin \<Rightarrow> check_arguments e '': USAGE Program Name and No  Arguments expected'' p
   | CallGet \<Rightarrow> save_context e p
   | GetReturns \<Rightarrow> go CallSet (puts ''I am going again and again with no context '' p)
   | CallSet \<Rightarrow> setcontext (setcontext_ok e) (cctx p) (Leaves 1) p
   | AfterSet \<Rightarrow> go (Leaves 0) (puts '' Looks like I am lost '' p)
   | _ \<Rightarrow> p)"

section \<open>makecontext.c\<close>

definition simplef :: "process \<Rightarrow> process" where
  "simplef p = go FunctionReturns (puts ''Donald- you are threaded'' p)"

text \<open>The stack of \<open>cctx\<close>, which both programs allocate and set.\<close>

definition allocate_stack :: "calls \<Rightarrow> process \<Rightarrow> process" where
  "allocate_stack e p = (if \<not> malloc_ok e then go (Leaves 1) p else go SetUp p)"

definition set_up :: "string \<Rightarrow> process \<Rightarrow> process" where
  "set_up msg p = go CallMake (puts msg (p\<lparr>on_stack := True\<rparr>))"

definition make_context :: "process \<Rightarrow> process" where
  "make_context p = (if on_stack p then go SayMade (p\<lparr>cctx := Some InFunction\<rparr>) else go Wild p)"

text \<open>\<open>uc_link\<close> is null, so the process ends with status 0 when the function returns.\<close>

definition makecontext_main :: "calls \<Rightarrow> process \<Rightarrow> process" where
  "makecontext_main e p = (case spot_of p of
     Begin \<Rightarrow> check_arguments e '': USAGE Program Name and no Arguments expected'' p
   | CallGet \<Rightarrow> save_context e p
   | GetReturns \<Rightarrow> go MakeStack p
   | MakeStack \<Rightarrow> allocate_stack e p
   | SetUp \<Rightarrow> set_up '' about to call make  context'' p
   | CallMake \<Rightarrow> make_context p
   | SayMade \<Rightarrow> go CallSet (puts ''Successfully modified context'' p)
   | CallSet \<Rightarrow> setcontext (setcontext_ok e) (cctx p) AfterSet p
   | AfterSet \<Rightarrow> go (Leaves 0) (puts ''make  context executed correctly '' p)
   | InFunction \<Rightarrow> simplef p
   | FunctionReturns \<Rightarrow> go (Leaves 0) p
   | _ \<Rightarrow> p)"

section \<open>swapcontext.c\<close>

definition f1withparam :: "process \<Rightarrow> process" where
  "f1withparam p = go FunctionSets (puts ''Donald- you are threaded'' p)"

text \<open>\<open>swapcontext\<close> saves in \<open>nctx\<close> the point after it and activates \<open>cctx\<close>; on failure it returns, and
  the program does not look at the result.\<close>

definition swapcontext_main :: "calls \<Rightarrow> process \<Rightarrow> process" where
  "swapcontext_main e p = (case spot_of p of
     Begin \<Rightarrow> check_arguments e '': USAGE Program Name and no Arguments expected'' p
   | CallGet \<Rightarrow> save_context e p
   | GetReturns \<Rightarrow> go MakeStack p
   | MakeStack \<Rightarrow> allocate_stack e p
   | SetUp \<Rightarrow> set_up ''allocate stack, attach func, with 1 parameter'' p
   | CallMake \<Rightarrow> make_context p
   | SayMade \<Rightarrow> go CallSet (puts ''Successfully modified context'' p)
   | CallSet \<Rightarrow> setcontext (setcontext_ok e) (cctx p) AfterSet (p\<lparr>nctx := Some AfterSet\<rparr>)
   | AfterSet \<Rightarrow> go (Leaves 0) (puts ''swap  context executed correctly '' p)
   | InFunction \<Rightarrow> f1withparam p
   | FunctionSets \<Rightarrow> setcontext (setcontext_ok e) (nctx p) FunctionReturns p
   | FunctionReturns \<Rightarrow> go (Leaves 0) p
   | _ \<Rightarrow> p)"

section \<open>timer.c\<close>

text \<open>\<open>it_value\<close> is the time to the next \<open>SIGPROF\<close>, \<open>it_interval\<close> what it is set to then, in microseconds;
  0 is a timer that is not active.\<close>

record timer =
  it_interval :: nat
  it_value :: nat
  rung :: "string list"

definition ring :: "timer \<Rightarrow> timer" where
  "ring t = t\<lparr>rung := rung t @ [''RING RING! The timer has gone off'']\<rparr>"

definition timer_main :: timer where
  "timer_main = \<lparr>it_interval = 0 * 1000000 + 0, it_value = 1 * 1000000 + 0, rung = []\<rparr>"

text \<open>One microsecond of processor time in \<open>while(1)\<close>.\<close>

definition spin :: "timer \<Rightarrow> timer" where
  "spin t = (if it_value t = 0 then t
     else if it_value t = 1 then ring (t\<lparr>it_value := it_interval t\<rparr>) else t\<lparr>it_value := it_value t - 1\<rparr>)"

section \<open>What they do\<close>

lemmas process_simps = go_def puts_def setcontext_def check_arguments_def save_context_def allocate_stack_def set_up_def
  make_context_def simplef_def f1withparam_def begin_process_def

text \<open>\<open>getcontext.c\<close> never ends: the saved context is the point before the message.\<close>

lemma getcontext_again:
  assumes "argc e = 1" "getcontext_ok e" "setcontext_ok e"
  shows "running (getcontext_main e) (2 * n + 2) = \<lparr>spot_of = GetReturns, cctx = Some GetReturns, nctx = None, on_stack = False,
    written = replicate n ''I am going again and again with no context ''\<rparr>"
proof (induction n)
  case 0
  show ?case using assms by (simp add: numeral_2_eq_2 getcontext_main_def process_simps)
next
  case (Suc n)
  have e: "2 * Suc n + 2 = Suc (Suc (2 * n + 2))" by simp
  show ?case
    unfolding e running.simps Suc.IH using assms
    by (simp add: getcontext_main_def process_simps flip: replicate_append_same)
qed

lemma getcontext_never_ends:
  assumes "argc e = 1" "setcontext_ok e" "getcontext_ok e"
  shows "spot_of (running (getcontext_main e) k) \<in> {Begin, CallGet} \<or>
    spot_of (running (getcontext_main e) k) \<in> {GetReturns, CallSet} \<and> cctx (running (getcontext_main e) k) = Some GetReturns"
  by (induction k) (use assms in \<open>auto simp: getcontext_main_def process_simps\<close>)

text \<open>\<open>makecontext.c\<close> ends in the function: the last message of \<open>main\<close> is not printed.\<close>

lemma makecontext_ends_in_function:
  assumes "argc e = 1" "getcontext_ok e" "malloc_ok e" "setcontext_ok e"
  shows "running (makecontext_main e) 10 = \<lparr>spot_of = Leaves 0, cctx = Some InFunction, nctx = None, on_stack = True,
    written = ['' about to call make  context'', ''Successfully modified context'', ''Donald- you are threaded'']\<rparr>"
  using assms by (simp add: eval_nat_numeral makecontext_main_def process_simps)

text \<open>\<open>swapcontext.c\<close> comes back to \<open>main\<close>.\<close>

lemma swapcontext_returns:
  assumes "argc e = 1" "getcontext_ok e" "malloc_ok e" "setcontext_ok e"
  shows "running (swapcontext_main e) 11 = \<lparr>spot_of = Leaves 0, cctx = Some InFunction, nctx = Some AfterSet, on_stack = True,
    written = [''allocate stack, attach func, with 1 parameter'', ''Successfully modified context'',
      ''Donald- you are threaded'', ''swap  context executed correctly '']\<rparr>"
  using assms by (simp add: eval_nat_numeral swapcontext_main_def process_simps)

text \<open>A call that fails ends the program with status 1, the usage message when there are arguments.\<close>

lemma samples_fail:
  "argc e \<noteq> 1 \<Longrightarrow> spot_of (running (makecontext_main e) (Suc k)) = Leaves 1"
  "argc e = 1 \<Longrightarrow> \<not> getcontext_ok e \<Longrightarrow> spot_of (running (makecontext_main e) (Suc (Suc k))) = Leaves 1"
  by (induction k; simp add: makecontext_main_def process_simps)+

text \<open>No context is resumed before it is made.\<close>

definition contexts_made :: "process \<Rightarrow> bool" where
  "contexts_made p \<longleftrightarrow> spot_of p \<noteq> Wild \<and> (spot_of p = CallMake \<longrightarrow> on_stack p) \<and>
     (spot_of p \<in> {SayMade, CallSet} \<longrightarrow> cctx p = Some InFunction) \<and>
     (spot_of p \<in> {InFunction, FunctionSets} \<longrightarrow> cctx p = Some InFunction)"

lemma contexts_made_step: "contexts_made p \<Longrightarrow> contexts_made (makecontext_main e p)"
  by (cases "spot_of p") (auto simp: contexts_made_def makecontext_main_def process_simps)

lemma makecontext_defined: "contexts_made (running (makecontext_main e) k)"
  by (induction k) (simp_all add: contexts_made_step, simp add: contexts_made_def begin_process_def)

text \<open>The timer goes off once, after a second of processor time, and never again.\<close>

lemma timer_counts: "k < 1000000 \<Longrightarrow> (spin ^^ k) timer_main = \<lparr>it_interval = 0, it_value = 1000000 - k, rung = []\<rparr>"
  by (induction k) (simp_all add: timer_main_def spin_def)

lemma timer_stopped: "(spin ^^ k) \<lparr>it_interval = i, it_value = 0, rung = r\<rparr> = \<lparr>it_interval = i, it_value = 0, rung = r\<rparr>"
  by (induction k) (simp_all add: spin_def)

lemma timer_rings_once:
  "rung ((spin ^^ k) timer_main) = (if k < 1000000 then [] else [''RING RING! The timer has gone off''])"
proof (cases "k < 1000000")
  case True
  then show ?thesis by (simp add: timer_counts)
next
  case False
  have "(spin ^^ Suc 999999) timer_main = spin \<lparr>it_interval = 0, it_value = 1, rung = []\<rparr>"
    unfolding funpow.simps comp_apply using timer_counts [of 999999] by simp
  then have "(spin ^^ 1000000) timer_main = \<lparr>it_interval = 0, it_value = 0, rung = [''RING RING! The timer has gone off'']\<rparr>"
    by (simp add: spin_def ring_def)
  moreover have "(spin ^^ k) timer_main = (spin ^^ (k - 1000000)) ((spin ^^ 1000000) timer_main)"
    using False funpow_add [of "k - 1000000" 1000000 spin] by simp
  ultimately show ?thesis using False by (simp add: timer_stopped)
qed

end
