(* ===== verification/Spec2Isabelle.thy ===== *)
theory Spec2Isabelle
  imports VM_ThreadProperties VM_Race VM_Lost FS_Properties TH_Properties TH_Fallback TH_Mlfq TH_Preempt P1_Counter Samples
begin

text \<open>
  A verification development for the four operating-systems projects of this repository: a virtual
  memory library (\<open>proj3-code/code/my_vm.c\<close>), a file system on FUSE (\<open>project4/code\<close>), a library of
  user-level threads (\<open>project2-release\<close>) and the small programs of \<open>proj1-submit\<close>. The projects do
  not call each other. Each is modelled by the theories with one prefix; the theory named
  \<open>_Properties\<close> of each holds the theorems about whole calls, with an example per theorem that
  discharges its hypotheses on a concrete state.

  \<^bold>\<open>Shared.\<close> \<open>Prelude\<close>: the C integer types as words, named collections of facts, search loops.
  \<open>CMem\<close>: byte memories with little-endian loads and stores, \<open>memcpy\<close>, \<open>memset\<close>. \<open>Bitmap\<close>: the bit
  arrays of three projects (\<open>get_bit\<close>, \<open>set_bit\<close>, \<open>clear_bit\<close> of \<open>my_vm.c\<close>, the three functions of
  \<open>rufs.h\<close>, \<open>get_top_bits\<close>, \<open>set_bit_at_index\<close> and \<open>get_bit_at_index\<close> of \<open>bitops.c\<close>), each an
  interpretation of one locale.

  \<^bold>\<open>Virtual memory\<close> (prefix \<open>VM\<close>). \<open>VM_Address\<close>: the constants and macros of \<open>my_vm.h\<close> for every
  page size it allows; the rest is for the configured 4 KB pages. \<open>VM_TLB\<close>: \<open>TLB_add\<close>, \<open>TLB_check\<close>,
  \<open>TLB_invalidate\<close>, against the map the TLB caches. \<open>VM_State\<close>: the globals as the record \<open>vm\<close>,
  \<open>set_physical_mem\<close>, the frame allocator. \<open>VM_PageTable\<close>: \<open>translate\<close> and \<open>map_page\<close> on the bytes
  of the simulated memory, the invariant \<open>vm_inv\<close>. \<open>VM_Translate\<close>: \<open>translate\<close> equals the page walk.
  \<open>VM_Alloc\<close>: \<open>get_next_avail\<close>, \<open>n_malloc\<close>, \<open>n_free\<close>; \<open>VM_AllocSpec\<close>, \<open>VM_MallocSpec\<close>: what they
  do to the page map and the contents. \<open>VM_Data\<close>: \<open>put_data\<close>, \<open>get_data\<close> against the bytes of the
  virtual address space. \<open>VM_Matrix\<close>: \<open>mat_mult\<close> against the matrix product modulo \<open>2 ^ 32\<close>. An
  undefined access of C is the result \<open>None\<close>.

  \<^bold>\<open>Threads in the virtual memory library.\<close> \<open>VM_Sections\<close>: \<open>n_malloc\<close>, \<open>n_free\<close> and \<open>translate\<close> cut at
  their locks (\<open>critical\<close>) and any number of threads that run the sections in any order (\<open>vstep\<close>). What a
  call does under one lock, reads and writes of a bitmap included, is one step. The one access that the
  code makes without the lock of the data, the \<open>clear_bit\<close> of \<open>n_free\<close> on the frame of an empty page
  table (line 576), is two, the read of the byte and its write; \<open>guarded\<close> describes the interleavings in
  which no section that takes \<open>phys_bit_lock\<close> runs in between. The sections of one thread in sequence are the
  functions of \<open>VM_Alloc\<close>. \<open>VM_Interleave\<close>: the invariant of the memory the threads share; \<open>VM_Steps\<close>: every
  section keeps it when the interleaving is guarded; \<open>VM_Torn\<close>: the part of it that every interleaving
  keeps (page ranges, the lock, addresses inside the memory); \<open>VM_Threads\<close>: calls and returns, and that every
  call returns. \<open>VM_ThreadProperties\<close>: the theorems. Where the locks are missing: \<open>VM_Race\<close>, a pointer into
  the TLB that another thread redirects; \<open>VM_Lost\<close>, an interleaving that is not guarded and hands one
  frame out twice. Left as one step is the counting of \<open>map_page\<close>'s TLB lookup, which only
  \<open>print_TLB_missrate\<close> reads.

  \<^bold>\<open>File system\<close> (prefix \<open>FS\<close>). \<open>FS_Device\<close>: \<open>block.c\<close>, the disk as a function from blocks to bytes.
  \<open>FS_Types\<close>: the structures of \<open>rufs.h\<close> and their bytes. \<open>FS_Inode\<close>, \<open>FS_Dir\<close>, \<open>FS_Ops\<close>: the
  functions of \<open>rufs.c\<close> in its order (allocators and inode table; directories and paths; the FUSE
  calls). \<open>FS_Inv\<close>: the invariant of a mounted file system and the elementary steps that keep it.
  \<open>FS_File\<close>: file bytes and the read and write loops. \<open>FS_Mkfs\<close>: formatting and mounting. \<open>FS_Lookup\<close>,
  \<open>FS_DirAdd\<close>: a directory as a finite map from names to inode numbers. \<open>FS_Path\<close>: path resolution
  on the tree of names. \<open>FS_Create\<close>, \<open>FS_ReadWrite\<close>: the calls against that tree and the file bytes.
  \<open>FS_Calls\<close>: the states that calls reach. \<open>FS_Demo\<close>: concrete file systems.

  \<^bold>\<open>Threads\<close> (prefix \<open>TH\<close>). \<open>TH_Queue\<close>: the linked queue of \<open>datastructures.c\<close> on a store of nodes;
  locale \<open>fifo\<close>, interpreted on the linked queue and on lists. \<open>TH_Heap\<close>: the array heap; locale
  \<open>heap_order\<close> for a comparison that agrees with a linear order. \<open>TH_State\<close>: the thread blocks and
  globals (\<open>tcb\<close>, \<open>lib\<close>), the thread table, the comparisons; \<open>TH_Order\<close>: when the comparisons are
  orders. \<open>TH_Sched\<close>: \<open>add_to_scheduler\<close>, the four schedulers, \<open>schedule\<close>, \<open>timer_handler\<close>; the queues
  of the scheduler are lists, that is linked queues whose \<open>malloc\<close> succeeds. \<open>TH_Calls\<close>: the calls
  and the mutexes. \<open>TH_Ready\<close>: locale \<open>run_queue\<close>, what a call relies on in a policy, interpreted for
  RR, PSJF and CFS; MLFQ does not satisfy it, a yield queues a thread twice. \<open>TH_Inv\<close>: the invariant
  of threads and what they wait for. \<open>TH_System\<close>: a program as a step relation: \<open>calls\<close> that return, \<open>leaves\<close>
  for a thread that enters the scheduler, and \<open>machine_step\<close> with both ways out of it, a thread to resume or
  the return to the main program, which \<open>fell_back\<close> records (under PSJF and CFS this way out is never taken,
  an empty heap is read outside its array first). \<open>reach\<close> are the states before the first such return, and
  the invariant is theirs. \<open>TH_Fallback\<close>: when round robin returns to the main program, and what that does to
  a join and to the mutexes. After such a return, entries of the scheduler while \<open>running_tcb\<close> is not the
  thread that executes are not followed: \<open>swapcontext\<close> would overwrite another thread's saved context.
  Mutexes have been initialised and are not locked before the first \<open>worker_create\<close>; the timer signal
  arrives between calls. \<open>TH_Loops\<close>: when scheduler loops end, the rotation of round
  robin, the runs in which PSJF and CFS read outside the heap or through \<open>NULL\<close>. \<open>TH_Shortest\<close>: PSJF
  in the states a program reaches, where its heap stays ordered. \<open>TH_Mlfq\<close>: MLFQ never demotes a
  thread. \<open>TH_Demo\<close>: a run. \<open>TH_Preempt\<close>: the mutex functions statement by statement, with the timer
  signal between any two, and what is lost by it; the scheduler's return to the main program is left out
  there.
  The contents of memory from \<open>malloc\<close> are parameters; the invariant assumes \<open>waiting_thread\<close>, which
  \<open>worker_create\<close> leaves unset, to be \<open>NULL\<close> there.

  \<^bold>\<open>Small programs.\<close> \<open>P1_Counter\<close>: \<open>threads.c\<close> and \<open>ucontext.c\<close> of \<open>proj1-submit\<close>. \<open>Samples\<close>: the four
  programs of \<open>project2-release/sample-code\<close>.

  \<^bold>\<open>Loops.\<close> Loops with a bound are recursive functions with a termination proof; no fuel is used.
  The scheduler loops, which may spin for ever, are partial functions with value \<open>None\<close> then.

  \<^bold>\<open>Not modelled.\<close> Interleaving inside a call: in \<open>my_vm.c\<close> the setup by the first \<open>n_malloc\<close> and the
  copying of \<open>put_data\<close> and \<open>get_data\<close>; the timer signal inside a call of the thread library other than
  those of \<open>TH_Preempt\<close> (\<open>block_timer_signal\<close> and \<open>unblock_timer_signal\<close> are left out with it); FUSE
  serialises the calls of \<open>rufs.c\<close>. What only prints: \<open>print_TLB_missrate\<close>, \<open>print_app_stats\<close>,
  \<open>print_heap\<close>. The floating-point averages. The saved processor contexts of the thread library: a thread
  goes on with its own code or with the rest of the call it was switched out of. The memory that \<open>malloc\<close>
  hands out a second time: addresses of thread blocks are not reused. \<open>main\<close> and the dispatch table of
  \<open>rufs.c\<close>. Paths of \<open>PATH_MAX\<close> bytes and more, which \<open>rufs_mkdir\<close> and \<open>rufs_create\<close> copy past the end of an
  array (\<open>path_ok\<close> excludes them). A failing \<open>calloc\<close> of the bitmaps in \<open>set_physical_mem\<close>, whose result the
  code does not test. The benchmarks, which only call the libraries.
\<close>

section \<open>Bit arrays\<close>

text \<open>The bit arrays of all three projects obey the same law on byte memory: setting a bit
  makes exactly that index read 1, clearing makes exactly that index read 0, and a byte that does
  not hold the index is not written, with the signed \<open>char\<close> of \<open>my_vm.c\<close> and \<open>bitops.c\<close> as well
  as the \<open>unsigned char\<close> of \<open>rufs.h\<close>.\<close>

theorem bit_arrays_agree:
  "get_bit (set_bit b i) j = (if j = i then 1 else get_bit b j) \<and>
   get_bit (clear_bit b i) j = (if j = i then 0 else get_bit b j) \<and>
   get_bitmap (set_bitmap b i) j = (if j = i then 1 else get_bitmap b j) \<and>
   get_bitmap (unset_bitmap b i) j = (if j = i then 0 else get_bitmap b j) \<and>
   get_bit_at_index (set_bit_at_index b i) j = (if j = i then 1 else get_bit_at_index b j) \<and>
   (x = i div 8 \<or> set_bit b i x = b x \<and> clear_bit b i x = b x \<and> set_bitmap b i x = b x \<and>
      unset_bitmap b i x = b x \<and> set_bit_at_index b i x = b x)"
proof -
  have "x = i div 8 \<or> set_bit b i x = b x \<and> clear_bit b i x = b x \<and> set_bitmap b i x = b x \<and>
      unset_bitmap b i x = b x \<and> set_bit_at_index b i x = b x"
    by (simp add: set_bit_def clear_bit_def set_bitmap_def unset_bitmap_def set_bit_at_index_def Let_def)
  then show ?thesis
    by (simp add: vm_bits.get_eq fs_bits.get_eq p1_bits.get_eq bitmap_simps)
qed

text \<open>\<open>get_top_bits\<close> returns the most significant bits as a number: for 1 to 32 bits the
  result is below \<open>2 ^ num_bits\<close> and the discarded low part is what completes the value.\<close>

theorem get_top_bits_correct:
  assumes "1 \<le> num_bits" "num_bits \<le> 32"
  shows "\<exists>r. get_top_bits v num_bits = Some r \<and> unat r < 2 ^ nat num_bits \<and>
    unat v = unat r * 2 ^ nat (32 - num_bits) + unat v mod 2 ^ nat (32 - num_bits)"
  using get_top_bits_value [OF assms, of v]
  by (intro exI [of _ "drop_bit (nat (32 - num_bits)) v"]) (simp only: unat_drop_bit div_mult_mod_eq simp_thms)

theorem get_top_bits_correct_witness:
  "\<exists>r. get_top_bits 4026544704 4 = Some r \<and> unat r < 2 ^ nat 4 \<and>
    unat (4026544704 :: u32) = unat r * 2 ^ nat (32 - 4) + unat (4026544704 :: u32) mod 2 ^ nat (32 - 4)"
  by (rule get_top_bits_correct) simp_all

section \<open>Two threads and a counter\<close>

text \<open>C20: \<open>threads.c\<close> loses no update and comes to its end. Whatever the interleaving of \<open>main\<close> and its
  two threads, in every reachable state: if \<open>main\<close> has printed the counter, the value is twice the
  number of rounds of a thread; if it has not, some step is possible, so the mutex and the joins never
  deadlock; and every step decreases a measure. The rounds are such that the counter fits in an \<open>int\<close>.\<close>

theorem threads_counter:
  assumes "counter_reach loop s" "2 * loop < 2 ^ 31"
  shows "(\<forall>v. main_pc s = Printed v \<longrightarrow> v = 2 * max 0 loop) \<and>
    ((\<exists>v. main_pc s = Printed v) \<or> (\<exists>s'. counter_step loop s s')) \<and>
    (\<forall>s'. counter_step loop s s' \<longrightarrow> counter_left loop s' < counter_left loop s)"
proof -
  note inv = counter_reach_inv [OF assms(1)]
  show ?thesis
    using counter_printed [OF inv] counter_progress [OF inv assms(2)] counter_left_less [OF _ inv] by blast
qed

theorem threads_counter_witness:
  "\<exists>s. counter_reach 10000 s \<and> main_pc s = Printed 20000"
proof -
  obtain s v where s: "counter_reach 10000 s" "main_pc s = Printed v"
    using counter_ends [OF counter_reach.start, of 10000] by auto
  then have "v = 20000" using threads_counter [OF s(1)] by simp
  then show ?thesis using s by blast
qed

section \<open>Address geometry\<close>

text \<open>In every page-size configuration of \<open>my_vm.h\<close> the directory index, the table index and
  the offset of an address determine it: shifted back and joined they are the address. A table of
  all indices fits in one page.\<close>

theorem address_fields_recombine:
  assumes "geometry pgsize = Some g"
  shows "push_bit (PDXSHIFT g) (PDX_at g va) OR push_bit (PTXSHIFT g) (PTX_at g va) OR OFF_at g va = va \<and>
    4 * (unat (PXMASK g) + 1) \<le> pgsize"
  using geometry_recombine [OF assms] geometry_table_fits [OF assms] by blast

theorem address_fields_recombine_witness:
  "push_bit 22 (PDX 0x12345678) OR push_bit 12 (PTX 0x12345678) OR OFF 0x12345678 = (0x12345678 :: u32)"
proof -
  have g: "geometry 4096 = Some \<lparr>PDXSHIFT = 22, PTXSHIFT = 12, PXMASK = 0x3FF, OFFMASK = 0xFFF\<rparr>"
    by (simp add: geometry_def)
  show ?thesis
    using address_fields_recombine [OF g, of "0x12345678"]
    by (simp only: PDX_at_def PTX_at_def OFF_at_def PDX_def PTX_def OFF_def geom.select_convs)
qed

end
